(* ===== verification/C_Memory.thy ===== *)
theory C_Memory
  imports Main "HOL-Library.Monad_Syntax" "HOL-Library.Char_ord" "HOL-Library.List_Lexorder"
begin

text \<open>
  The memory model every engine of the key-value store shares, and the generic lemmas on it.

  A heap is a partial map from addresses to typed cells: a cell is either a C string (a block
  that holds a NUL-terminated text) or an object of the component (a tree node, a hash node, a
  table).  Address 0 is \<open>NULL\<close>.  An operation of the code is a function in the option
  monad: \<open>None\<close> is undefined behaviour or divergence (a read or write through a pointer
  that is not allocated, a double free, an index out of range, a failed assertion, a loop that
  never ends), \<open>Some\<close> is a normal return with the code's own return value.

  Allocation may fail.  The list \<open>oom\<close> holds the outcome of the coming calls of
  \<open>malloc\<close> (\<open>True\<close>: the call returns NULL); when it is empty every further call succeeds.
\<close>

section \<open>Collections of rules\<close>

named_theorems heap_simps \<open>reads and writes of the heap model, as rewrite rules\<close>
named_theorems engine_defs \<open>definitions of engine operations that the clients unfold\<close>

section \<open>Heaps\<close>

type_synonym addr = nat

abbreviation (input) NULL :: addr where "NULL \<equiv> 0"

datatype 'n cell = CStr string | CObj 'n

record 'n heap =
  cells :: "addr \<Rightarrow> 'n cell option"
  brk :: addr
  oom :: "bool list"

text \<open>
  \<open>kvstore_malloc\<close> of kvstore.c is \<open>malloc\<close>.  The model hands out addresses that were
  never used before, and the caller says what the block holds once it has been filled in
  (the code always fills a block right after the NULL check).
\<close>

definition kvstore_malloc :: "'n cell \<Rightarrow> 'n heap \<Rightarrow> 'n heap \<times> addr" where
  "kvstore_malloc c h =
     (case oom h of
        True # fs \<Rightarrow> (h\<lparr>oom := fs\<rparr>, NULL)
      | fs \<Rightarrow> (h\<lparr>cells := (cells h)(brk h \<mapsto> c), brk := Suc (brk h), oom := tl fs\<rparr>, brk h))"

text \<open>
  \<open>kvstore_free\<close>: NULL is ignored; freeing a block that is not allocated is undefined.
\<close>

definition kvstore_free :: "addr \<Rightarrow> 'n heap \<Rightarrow> 'n heap option" where
  "kvstore_free p h =
     (if p \<noteq> NULL
      then (if cells h p = None then None else Some (h\<lparr>cells := (cells h)(p := None)\<rparr>))
      else Some h)"

definition rd_str :: "'n heap \<Rightarrow> addr \<Rightarrow> string option" where
  "rd_str h p = (case cells h p of Some (CStr s) \<Rightarrow> Some s | _ \<Rightarrow> None)"

definition rd_obj :: "'n heap \<Rightarrow> addr \<Rightarrow> 'n option" where
  "rd_obj h p = (case cells h p of Some (CObj n) \<Rightarrow> Some n | _ \<Rightarrow> None)"

definition wr_obj :: "addr \<Rightarrow> 'n \<Rightarrow> 'n heap \<Rightarrow> 'n heap option" where
  "wr_obj p n h =
     (case cells h p of
        Some (CObj _) \<Rightarrow> Some (h\<lparr>cells := (cells h)(p \<mapsto> CObj n)\<rparr>)
      | _ \<Rightarrow> None)"

definition heap_ok :: "'n heap \<Rightarrow> bool" where
  "heap_ok h \<longleftrightarrow> 0 < brk h \<and> cells h NULL = None \<and> (\<forall>p. brk h \<le> p \<longrightarrow> cells h p = None)"

definition empty_heap :: "'n heap" where
  "empty_heap = \<lparr>cells = Map.empty, brk = 1, oom = []\<rparr>"

lemma heap_ok_empty [simp]: "heap_ok empty_heap"
  by (simp add: heap_ok_def empty_heap_def)

lemma empty_heap_simps [simp]:
  "oom empty_heap = []" "cells empty_heap = Map.empty" "brk empty_heap = 1"
  by (simp_all add: empty_heap_def)

lemma malloc_ok [simp]:
  "oom h = [] \<Longrightarrow>
   kvstore_malloc c h = (h\<lparr>cells := (cells h)(brk h \<mapsto> c), brk := Suc (brk h), oom := []\<rparr>, brk h)"
  by (simp add: kvstore_malloc_def)

lemma malloc_fail [simp]: "oom h = True # fs \<Longrightarrow> kvstore_malloc c h = (h\<lparr>oom := fs\<rparr>, NULL)"
  by (simp add: kvstore_malloc_def)

lemma malloc_cases:
  obtains (fail) fs where "oom h = True # fs" "kvstore_malloc c h = (h\<lparr>oom := fs\<rparr>, NULL)"
  | (fresh) "kvstore_malloc c h =
      (h\<lparr>cells := (cells h)(brk h \<mapsto> c), brk := Suc (brk h), oom := tl (oom h)\<rparr>, brk h)"
proof (cases "\<exists>fs. oom h = True # fs")
  case True
  then show thesis using fail by auto
next
  case False
  then have "kvstore_malloc c h =
      (h\<lparr>cells := (cells h)(brk h \<mapsto> c), brk := Suc (brk h), oom := tl (oom h)\<rparr>, brk h)"
    by (auto simp: kvstore_malloc_def split: list.split bool.split)
  then show thesis by (rule fresh)
qed

lemma heap_ok_brk_fresh [simp]: "heap_ok h \<Longrightarrow> cells h (brk h) = None"
  by (simp add: heap_ok_def)

lemma heap_ok_brk_pos [simp]: "heap_ok h \<Longrightarrow> 0 < brk h"
  by (simp add: heap_ok_def)

lemma heap_ok_not_null: "heap_ok h \<Longrightarrow> cells h p = Some c \<Longrightarrow> p \<noteq> NULL"
  unfolding heap_ok_def by (metis option.distinct(1))

lemma heap_ok_below_brk: "heap_ok h \<Longrightarrow> cells h p = Some c \<Longrightarrow> p < brk h"
  by (metis heap_ok_def not_le option.distinct(1))

lemma heap_ok_malloc [simp]:
  "heap_ok h \<Longrightarrow> heap_ok (h\<lparr>cells := (cells h)(brk h \<mapsto> c), brk := Suc (brk h), oom := fs\<rparr>)"
  by (auto simp: heap_ok_def)

lemma heap_ok_oom [simp]: "heap_ok (h\<lparr>oom := fs\<rparr>) = heap_ok h"
  by (simp add: heap_ok_def)

lemma heap_ok_free:
  "heap_ok h \<Longrightarrow> heap_ok (h\<lparr>cells := (cells h)(p := None)\<rparr>)"
  by (simp add: heap_ok_def)

lemma heap_ok_write:
  "heap_ok h \<Longrightarrow> cells h p = Some c \<Longrightarrow> heap_ok (h\<lparr>cells := (cells h)(p \<mapsto> c')\<rparr>)"
  by (frule (1) heap_ok_not_null) (auto simp: heap_ok_def)

lemma rd_str_Some: "rd_str h p = Some s \<longleftrightarrow> cells h p = Some (CStr s)"
  by (auto simp: rd_str_def split: option.splits cell.splits)

lemma rd_obj_Some: "rd_obj h p = Some n \<longleftrightarrow> cells h p = Some (CObj n)"
  by (auto simp: rd_obj_def split: option.splits cell.splits)

lemma wr_obj_Some:
  "cells h p = Some (CObj n0) \<Longrightarrow> wr_obj p n h = Some (h\<lparr>cells := (cells h)(p \<mapsto> CObj n)\<rparr>)"
  by (simp add: wr_obj_def)

lemma kvstore_free_Some:
  "cells h p = Some c \<Longrightarrow> p \<noteq> NULL \<Longrightarrow>
   kvstore_free p h = Some (h\<lparr>cells := (cells h)(p := None)\<rparr>)"
  by (simp add: kvstore_free_def)

lemma kvstore_free_NULL [simp]: "kvstore_free NULL h = Some h"
  by (simp add: kvstore_free_def)

declare rd_str_Some [heap_simps] rd_obj_Some [heap_simps] wr_obj_Some [heap_simps]
  kvstore_free_Some [heap_simps]

section \<open>C strings\<close>

text \<open>
  \<open>strcmp\<close> compares the bytes as \<open>unsigned char\<close>; the standard fixes only the sign of the
  result, and only the sign is ever used.
\<close>

fun strcmp :: "string \<Rightarrow> string \<Rightarrow> int" where
  "strcmp [] [] = 0"
| "strcmp [] (y # ys) = -1"
| "strcmp (x # xs) [] = 1"
| "strcmp (x # xs) (y # ys) =
     (if x = y then strcmp xs ys
      else if (of_char x :: nat) < of_char y then -1 else 1)"

lemma strcmp_eq_0 [simp]: "strcmp a b = 0 \<longleftrightarrow> a = b"
  by (induction a b rule: strcmp.induct) auto

lemma strcmp_same [simp]: "strcmp a a = 0"
  by (simp only: strcmp_eq_0)

lemma strcmp_neg_iff: "strcmp a b < 0 \<longleftrightarrow> a < b"
  by (induction a b rule: strcmp.induct) (auto simp: less_char_def)

lemma strcmp_pos_iff: "strcmp a b > 0 \<longleftrightarrow> b < a"
proof (induction a b rule: strcmp.induct)
  case (4 x xs y ys)
  have "x \<noteq> y \<Longrightarrow> \<not> x < y \<Longrightarrow> y < x" by simp
  with 4 show ?case by (auto simp: less_char_def)
qed auto

lemma strcmp_cases:
  obtains (less) "a < b" "strcmp a b < 0" | (greater) "b < a" "strcmp a b > 0"
    | (equal) "a = b" "strcmp a b = 0"
  by (metis linorder_cases strcmp_eq_0 strcmp_neg_iff strcmp_pos_iff)

section \<open>Generic lemmas\<close>

lemma bind_SomeE:
  assumes "Option.bind m f = Some r"
  obtains x where "m = Some x" "f x = Some r"
  using assms by (cases m) auto

lemma map_of_distinct_Some:
  "distinct (map fst kvs) \<Longrightarrow> i < length kvs \<Longrightarrow> map_of kvs (fst (kvs ! i)) = Some (snd (kvs ! i))"
  by (metis map_of_eq_Some_iff nth_mem prod.collapse)

lemma map_of_remove1_nth:
  assumes "distinct (map fst kvs)" "i < length kvs"
  shows "map_of (take i kvs @ drop (Suc i) kvs) = (map_of kvs)(fst (kvs ! i) := None)"
proof -
  obtain k v where kv: "kvs ! i = (k, v)" by (cases "kvs ! i")
  from assms(2) kv have split: "kvs = take i kvs @ (k, v) # drop (Suc i) kvs"
    by (metis id_take_nth_drop)
  with assms(1) have "distinct (map fst (take i kvs) @ k # map fst (drop (Suc i) kvs))"
    by (metis fst_conv list.simps(9) map_append)
  then have n: "map_of (take i kvs) k = None" "map_of (drop (Suc i) kvs) k = None"
    by (auto simp: map_of_eq_None_iff)
  have "map_of (take i kvs @ drop (Suc i) kvs)
        = (map_of (take i kvs @ (k, v) # drop (Suc i) kvs))(k := None)"
    using n by (auto simp: map_add_def fun_eq_iff dest: map_of_SomeD split: option.splits)
  then show ?thesis
    using kv split by simp
qed

lemma find_split:
  assumes "find P xs = Some x"
  obtains ys zs where "xs = ys @ x # zs" "P x" "\<forall>y \<in> set ys. \<not> P y"
proof -
  from assms obtain i where i: "i < length xs" "P (xs ! i)" "x = xs ! i" "\<forall>j<i. \<not> P (xs ! j)"
    by (auto simp: find_Some_iff)
  then have "xs = take i xs @ x # drop (Suc i) xs" by (metis id_take_nth_drop)
  moreover have "\<forall>y \<in> set (take i xs). \<not> P y"
    using i by (auto simp: in_set_conv_nth)
  ultimately show thesis using that i by blast
qed

lemma map_of_replace_mid:
  assumes "distinct (map fst (k1 @ (k, v0) # k2))"
  shows "map_of (k1 @ (k, v) # k2) = (map_of (k1 @ (k, v0) # k2))(k \<mapsto> v)"
proof -
  from assms have "map_of k1 k = None" by (auto simp: map_of_eq_None_iff)
  then show ?thesis by (auto simp: map_add_def fun_eq_iff split: option.splits)
qed

lemma map_of_snoc_new:
  "map_of kvs k = None \<Longrightarrow> map_of (kvs @ [(k, v)]) = (map_of kvs)(k \<mapsto> v)"
  by (auto simp: map_add_def fun_eq_iff split: option.splits)

lemma map_of_delete_mid:
  assumes "distinct (map fst (k1 @ (k, v0) # k2))"
  shows "map_of (k1 @ k2) = (map_of (k1 @ (k, v0) # k2))(k := None)"
proof -
  from assms have "map_of k1 k = None" "map_of k2 k = None" by (auto simp: map_of_eq_None_iff)
  then show ?thesis by (auto simp: map_add_def fun_eq_iff split: option.splits)
qed

lemma distinct_take_drop:
  "distinct xs \<Longrightarrow> distinct (take i xs @ drop (Suc i) xs)"
  by (metis distinct_append distinct_drop distinct_take id_take_nth_drop disjoint_iff
      drop_all append_Nil2 leI set_take_disj_set_drop_if_distinct lessI less_imp_le)

lemma card_dom_map_of: "distinct (map fst kvs) \<Longrightarrow> card (dom (map_of kvs)) = length kvs"
  by (metis distinct_card dom_map_of_conv_image_fst length_map list.set_map)

end
