(* ===== verification/RB_Zipper.thy ===== *)
theory RB_Zipper
  imports Main
begin

text \<open>
  The abstract red-black tree the pointer programs are compared with.  The code walks along
  parent pointers, so a position in a tree is a zipper: the list of frames from the position up
  to the root, and the subtree at the position.  The fix-up loops after insertion and deletion are
  functions from zippers to zippers, one call per iteration of the code's loop; this theory
  proves that they keep the in-order sequence and restore the red-black invariants.
\<close>

section \<open>Trees and zippers\<close>

datatype color = RED | BLACK

datatype 'e rbt = Lf | Nd color "'e rbt" 'e "'e rbt"

datatype 'e frame =
    FL color 'e "'e rbt" \<comment> \<open>the hole is the left child\<close>
  | FR color "'e rbt" 'e \<comment> \<open>the hole is the right child\<close>

fun col :: "'e rbt \<Rightarrow> color" where
  "col Lf = BLACK"
| "col (Nd c _ _ _) = c"

fun paint :: "color \<Rightarrow> 'e rbt \<Rightarrow> 'e rbt" where
  "paint c Lf = Lf"
| "paint c (Nd _ l e r) = Nd c l e r"

fun inorder :: "'e rbt \<Rightarrow> 'e list" where
  "inorder Lf = []"
| "inorder (Nd _ l e r) = inorder l @ e # inorder r"

fun fcol :: "'e frame \<Rightarrow> color" where
  "fcol (FL c _ _) = c"
| "fcol (FR c _ _) = c"

fun fpaint :: "color \<Rightarrow> 'e frame \<Rightarrow> 'e frame" where
  "fpaint c (FL _ e r) = FL c e r"
| "fpaint c (FR _ l e) = FR c l e"

fun sib :: "'e frame \<Rightarrow> 'e rbt" where
  "sib (FL _ _ r) = r"
| "sib (FR _ l _) = l"

fun up1 :: "'e frame \<Rightarrow> 'e rbt \<Rightarrow> 'e rbt" where
  "up1 (FL c e r) t = Nd c t e r"
| "up1 (FR c l e) t = Nd c l e t"

fun plug :: "'e frame list \<Rightarrow> 'e rbt \<Rightarrow> 'e rbt" where
  "plug [] t = t"
| "plug (f # fs) t = plug fs (up1 f t)"

fun ccol :: "'e frame list \<Rightarrow> color" where
  "ccol [] = BLACK"
| "ccol (f # _) = fcol f"

text \<open>What lies to the left and to the right of the hole.\<close>

fun lin :: "'e frame list \<Rightarrow> 'e list" where
  "lin [] = []"
| "lin (FL _ _ _ # fs) = lin fs"
| "lin (FR _ l e # fs) = lin fs @ inorder l @ [e]"

fun rin :: "'e frame list \<Rightarrow> 'e list" where
  "rin [] = []"
| "rin (FL _ e r # fs) = e # inorder r @ rin fs"
| "rin (FR _ _ _ # fs) = rin fs"

lemma color_neq [simp]: "c \<noteq> BLACK \<longleftrightarrow> c = RED" "c \<noteq> RED \<longleftrightarrow> c = BLACK"
  by (cases c; simp)+

lemma inorder_up1: "inorder (up1 f t) = (case f of FL c e r \<Rightarrow> inorder t @ e # inorder r
    | FR c l e \<Rightarrow> inorder l @ e # inorder t)"
  by (cases f) auto

lemma inorder_plug: "inorder (plug fs t) = lin fs @ inorder t @ rin fs"
proof (induction fs arbitrary: t)
  case (Cons f fs)
  then show ?case by (cases f) auto
qed simp

lemma inorder_paint [simp]: "inorder (paint c t) = inorder t"
  by (cases t) auto

lemma plug_append: "plug (fs @ gs) t = plug gs (plug fs t)"
  by (induction fs arbitrary: t) auto

lemma lin_append: "lin (fs @ gs) = lin gs @ lin fs"
proof (induction fs)
  case (Cons f fs)
  then show ?case by (cases f) auto
qed simp

lemma rin_append: "rin (fs @ gs) = rin fs @ rin gs"
proof (induction fs)
  case (Cons f fs)
  then show ?case by (cases f) auto
qed simp

lemma fcol_fpaint [simp]: "fcol (fpaint c f) = c"
  by (cases f) auto

lemma sib_fpaint [simp]: "sib (fpaint c f) = sib f"
  by (cases f) auto

lemma col_up1 [simp]: "col (up1 f t) = fcol f"
  by (cases f) auto

lemma up1_not_Lf [simp]: "up1 f t \<noteq> Lf" "Lf \<noteq> up1 f t"
  by (cases f; simp)+

lemma plug_not_Lf: "t \<noteq> Lf \<Longrightarrow> plug fs t \<noteq> Lf"
  by (induction fs arbitrary: t) auto

lemma col_plug: "col (plug fs t) = (if fs = [] then col t else fcol (last fs))"
  by (induction fs arbitrary: t) auto

section \<open>The red-black invariants\<close>

fun bheight :: "'e rbt \<Rightarrow> nat" where
  "bheight Lf = 0"
| "bheight (Nd c l _ _) = (if c = BLACK then Suc (bheight l) else bheight l)"

fun invc :: "'e rbt \<Rightarrow> bool" where
  "invc Lf \<longleftrightarrow> True"
| "invc (Nd c l _ r) \<longleftrightarrow> (c = RED \<longrightarrow> col l = BLACK \<and> col r = BLACK) \<and> invc l \<and> invc r"

fun invh :: "'e rbt \<Rightarrow> bool" where
  "invh Lf \<longleftrightarrow> True"
| "invh (Nd _ l _ r) \<longleftrightarrow> bheight l = bheight r \<and> invh l \<and> invh r"

definition is_rbt :: "'e rbt \<Rightarrow> bool" where
  "is_rbt t \<longleftrightarrow> invc t \<and> invh t \<and> col t = BLACK"

text \<open>The same for a context: what it demands of itself, and of the black height of the hole.\<close>

fun cinvc :: "'e frame list \<Rightarrow> bool" where
  "cinvc [] \<longleftrightarrow> True"
| "cinvc (f # fs) \<longleftrightarrow>
     invc (sib f) \<and> (fcol f = RED \<longrightarrow> col (sib f) = BLACK \<and> ccol fs = BLACK) \<and> cinvc fs"

fun cinvh :: "'e frame list \<Rightarrow> nat \<Rightarrow> bool" where
  "cinvh [] n \<longleftrightarrow> True"
| "cinvh (f # fs) n \<longleftrightarrow>
     invh (sib f) \<and> bheight (sib f) = n \<and> cinvh fs (if fcol f = BLACK then Suc n else n)"

lemma bheight_up1 [simp]:
  "invh (up1 f t) \<Longrightarrow> bheight (up1 f t) = (if fcol f = BLACK then Suc (bheight t) else bheight t)"
  by (cases f) auto

lemma invh_up1: "invh (up1 f t) \<longleftrightarrow> invh t \<and> invh (sib f) \<and> bheight (sib f) = bheight t"
  by (cases f) auto

lemma invc_up1: "invc (up1 f t) \<longleftrightarrow>
    invc t \<and> invc (sib f) \<and> (fcol f = RED \<longrightarrow> col t = BLACK \<and> col (sib f) = BLACK)"
  by (cases f) auto

lemma invh_plug: "invh (plug fs t) \<longleftrightarrow> invh t \<and> cinvh fs (bheight t)"
proof (induction fs arbitrary: t)
  case (Cons f fs)
  show ?case
    using Cons.IH [of "up1 f t"] bheight_up1 [of f t]
    by (auto simp: invh_up1 simp del: bheight_up1)
qed simp

lemma invc_plug: "invc (plug fs t) \<longleftrightarrow> invc t \<and> cinvc fs \<and> (ccol fs = RED \<longrightarrow> col t = BLACK)"
proof (induction fs arbitrary: t)
  case (Cons f fs)
  show ?case using Cons.IH [of "up1 f t"] by (cases "fcol f") (auto simp: invc_up1)
qed simp

lemma invc_paint_BLACK [simp]: "invc t \<Longrightarrow> invc (paint BLACK t)"
  by (cases t) auto

lemma invh_paint [simp]: "invh (paint c t) = invh t"
  by (cases t) auto

lemma col_paint_BLACK [simp]: "col (paint BLACK t) = BLACK"
  by (cases t) auto

lemma bheight_paint: "t \<noteq> Lf \<Longrightarrow> bheight (paint BLACK t) = (if col t = RED then Suc (bheight t) else bheight t)"
  by (cases t) auto

lemma paint_col: "col t = c \<Longrightarrow> t \<noteq> Lf \<or> c = BLACK \<Longrightarrow> paint c t = t"
  by (cases t) auto

section \<open>Fix-up after insertion\<close>

text \<open>
  One iteration at the zipper \<open>(f # g # gs, z)\<close> with a red parent frame \<open>f\<close> and the grandparent
  frame \<open>g\<close>: recolour and go up when the uncle is red, else rotate.
\<close>

fun ins_body :: "'e frame \<Rightarrow> 'e frame \<Rightarrow> 'e frame list \<Rightarrow> 'e rbt \<Rightarrow> 'e frame list \<times> 'e rbt" where
  "ins_body f (FL gc ge u) gs z =
     (if col u = RED then (gs, Nd RED (up1 (fpaint BLACK f) z) ge (paint BLACK u))
      else case f of
        FL pc pe s \<Rightarrow> (FL BLACK pe (Nd RED s ge u) # gs, z)
      | FR pc s pe \<Rightarrow>
          (case z of
             Nd zc a ze b \<Rightarrow> (FL BLACK ze (Nd RED b ge u) # gs, Nd pc s pe a)
           | Lf \<Rightarrow> (gs, Lf)))"
| "ins_body f (FR gc u ge) gs z =
     (if col u = RED then (gs, Nd RED (paint BLACK u) ge (up1 (fpaint BLACK f) z))
      else case f of
        FR pc s pe \<Rightarrow> (FR BLACK (Nd RED u ge s) pe # gs, z)
      | FL pc pe s \<Rightarrow>
          (case z of
             Nd zc a ze b \<Rightarrow> (FR BLACK (Nd RED u ge a) ze # gs, Nd pc b pe s)
           | Lf \<Rightarrow> (gs, Lf)))"

lemma ins_body_length: "ins_body f g gs z = (fs', z') \<Longrightarrow> length fs' \<le> Suc (length gs)"
  by (cases g) (auto split: if_splits frame.splits rbt.splits)

function ins_loop :: "'e frame list \<Rightarrow> 'e rbt \<Rightarrow> 'e rbt" where
  "ins_loop [] z = z"
| "ins_loop [f] z = plug [f] z"
| "ins_loop (f # g # gs) z =
     (if fcol f = RED
      then (case ins_body f g gs z of (fs', z') \<Rightarrow> ins_loop fs' z')
      else plug (f # g # gs) z)"
  by pat_completeness auto
termination
proof (relation "measure (\<lambda>(fs, z). length fs)", goal_cases)
  case 1
  show ?case by simp
next
  case (2 f g gs z fs' z')
  then show ?case using ins_body_length [OF 2(2) [symmetric]] by (simp flip: 2(2))
qed

definition ins_fix :: "'e frame list \<Rightarrow> 'e rbt \<Rightarrow> 'e rbt" where
  "ins_fix fs z = paint BLACK (ins_loop fs z)"

text \<open>The invariant of the loop: at most one violation, a red parent of the red position.\<close>

definition ins_inv :: "'e frame list \<Rightarrow> 'e rbt \<Rightarrow> bool" where
  "ins_inv fs z \<longleftrightarrow>
     cinvc fs \<and> invc z \<and> invh z \<and> cinvh fs (bheight z) \<and> col z = RED \<and>
     (fs \<noteq> [] \<longrightarrow> fcol (last fs) = BLACK)"

lemma ins_body_inorder:
  assumes "ins_body f g gs z = (fs', z')" "z \<noteq> Lf"
  shows "inorder (plug fs' z') = inorder (plug (f # g # gs) z)"
proof (cases g)
  case g: (FL gc ge u)
  then show ?thesis
    using assms by (cases f; cases z) (auto simp: inorder_plug inorder_up1 split: if_splits)
next
  case g: (FR gc u ge)
  then show ?thesis
    using assms by (cases f; cases z) (auto simp: inorder_plug inorder_up1 split: if_splits)
qed

lemma ins_body_not_Lf: "ins_body f g gs z = (fs', z') \<Longrightarrow> z \<noteq> Lf \<Longrightarrow> z' \<noteq> Lf"
  by (cases g) (auto split: if_splits frame.splits rbt.splits)

lemma ins_body_inv:
  assumes inv: "ins_inv (f # g # gs) z" and red: "fcol f = RED"
    and body: "ins_body f g gs z = (fs', z')"
  shows "ins_inv fs' z'"
proof -
  obtain a ze b where z: "z = Nd RED a ze b" using inv by (cases z) (auto simp: ins_inv_def)
  show ?thesis
  proof (cases g)
    case g: (FL gc ge u)
    show ?thesis
    proof (cases "col u = RED")
      case True
      then obtain ul ue ur where u: "u = Nd RED ul ue ur" by (cases u) auto
      show ?thesis
        using inv red body z g u by (cases f) (auto simp: ins_inv_def)
    next
      case False
      then show ?thesis
        using inv red body z g by (cases f) (auto simp: ins_inv_def)
    qed
  next
    case g: (FR gc u ge)
    show ?thesis
    proof (cases "col u = RED")
      case True
      then obtain ul ue ur where u: "u = Nd RED ul ue ur" by (cases u) auto
      show ?thesis
        using inv red body z g u by (cases f) (auto simp: ins_inv_def)
    next
      case False
      then show ?thesis
        using inv red body z g by (cases f) (auto simp: ins_inv_def)
    qed
  qed
qed

lemma ins_loop_inv:
  "ins_inv fs z \<Longrightarrow> is_rbt (paint BLACK (ins_loop fs z))"
proof (induction fs z rule: ins_loop.induct)
  case (1 z)
  then show ?case by (simp add: ins_inv_def is_rbt_def)
next
  case (2 f z)
  have "invc (plug [f] z)" "invh (plug [f] z)"
    using 2 by (auto simp: ins_inv_def invc_plug invh_plug invc_up1 invh_up1)
  then show ?case by (simp add: is_rbt_def)
next
  case (3 f g gs z)
  show ?case
  proof (cases "fcol f = RED")
    case True
    obtain fs' z' where b: "ins_body f g gs z = (fs', z')" by fastforce
    from ins_body_inv [OF 3(2) True b] 3(1) [OF True b [symmetric]] True b
    show ?thesis by simp
  next
    case False
    have "invc (plug (f # g # gs) z)" "invh (plug (f # g # gs) z)"
      using 3(2) False by (simp_all only: ins_inv_def invc_plug invh_plug) auto
    then show ?thesis using False by (simp add: is_rbt_def)
  qed
qed

lemma ins_loop_inorder: "z \<noteq> Lf \<Longrightarrow> inorder (ins_loop fs z) = inorder (plug fs z)"
proof (induction fs z rule: ins_loop.induct)
  case (3 f g gs z)
  show ?case
  proof (cases "fcol f = RED")
    case True
    obtain fs' z' where b: "ins_body f g gs z = (fs', z')" by fastforce
    from 3(1) [OF True b [symmetric]] ins_body_not_Lf [OF b 3(2)] ins_body_inorder [OF b 3(2)]
    show ?thesis using True b by simp
  qed simp
qed simp_all

lemma ins_fix_inorder: "z \<noteq> Lf \<Longrightarrow> inorder (ins_fix fs z) = inorder (plug fs z)"
  by (simp add: ins_fix_def ins_loop_inorder)

lemma ins_fix_rbt: "ins_inv fs z \<Longrightarrow> is_rbt (ins_fix fs z)"
  by (simp add: ins_fix_def ins_loop_inv)

text \<open>Hanging a fresh red node into a hole of a red-black tree establishes the loop invariant.\<close>

lemma ins_inv_leaf:
  assumes "is_rbt (plug fs Lf)"
  shows "ins_inv fs (Nd RED Lf e Lf)"
  using assms by (auto simp: ins_inv_def is_rbt_def invc_plug invh_plug col_plug split: if_splits)

section \<open>Fix-up after deletion\<close>

text \<open>
  The loop's position \<open>x\<close> is one black short.  \<open>del_black f fs x\<close> is the part of an iteration
  that runs once the sibling is black: recolour and go up, or rotate and stop (the code then
  sets \<open>x\<close> to the root).  \<open>del_body\<close> first turns a red sibling into a black one.
\<close>

fun del_black :: "'e frame \<Rightarrow> 'e frame list \<Rightarrow> 'e rbt \<Rightarrow> 'e frame list \<times> 'e rbt" where
  "del_black (FL pc pe (Nd wc wl we wr)) fs x =
     (if col wl = BLACK \<and> col wr = BLACK then (fs, Nd pc x pe (Nd RED wl we wr))
      else if col wr = BLACK
      then (case wl of
              Nd _ a be b \<Rightarrow> ([], plug fs (Nd pc (Nd BLACK x pe a) be (Nd BLACK b we wr)))
            | Lf \<Rightarrow> ([], Lf))
      else ([], plug fs (Nd pc (Nd BLACK x pe wl) we (paint BLACK wr))))"
| "del_black (FR pc (Nd wc wl we wr) pe) fs x =
     (if col wl = BLACK \<and> col wr = BLACK then (fs, Nd pc (Nd RED wl we wr) pe x)
      else if col wl = BLACK
      then (case wr of
              Nd _ a be b \<Rightarrow> ([], plug fs (Nd pc (Nd BLACK wl we a) be (Nd BLACK b pe x)))
            | Lf \<Rightarrow> ([], Lf))
      else ([], plug fs (Nd pc (paint BLACK wl) we (Nd BLACK wr pe x))))"
| "del_black f fs x = ([], Lf)"

fun del_body :: "'e frame \<Rightarrow> 'e frame list \<Rightarrow> 'e rbt \<Rightarrow> 'e frame list \<times> 'e rbt" where
  "del_body (FL pc pe (Nd RED wl we wr)) fs x = del_black (FL RED pe wl) (FL BLACK we wr # fs) x"
| "del_body (FR pc (Nd RED wl we wr) pe) fs x = del_black (FR RED wr pe) (FR BLACK wl we # fs) x"
| "del_body f fs x = del_black f fs x"

lemma del_black_measure:
  "del_black f fs x = (fs', x') \<Longrightarrow> fs' = [] \<or> fs' = fs \<and> col x' = fcol f"
  by (cases "(f, fs, x)" rule: del_black.cases) (auto split: if_splits rbt.splits)

lemma del_body_measure:
  "del_body f fs x = (fs', x') \<Longrightarrow> fs' = [] \<or> col x' = RED \<or> length fs' \<le> length fs"
  by (cases "(f, fs, x)" rule: del_body.cases) (auto dest!: del_black_measure simp del: del_black.simps)

function del_loop :: "'e frame list \<Rightarrow> 'e rbt \<Rightarrow> 'e rbt" where
  "del_loop [] x = paint BLACK x"
| "del_loop (f # fs) x =
     (if col x = BLACK
      then (case del_body f fs x of (fs', x') \<Rightarrow> del_loop fs' x')
      else plug (f # fs) (paint BLACK x))"
  by pat_completeness auto
termination
proof (relation "measure (\<lambda>(fs, x). if col x = RED then 0 else length fs)", goal_cases)
  case 1
  show ?case by simp
next
  case (2 f fs x fs' x')
  then show ?case using del_body_measure [OF 2(2) [symmetric]] by (auto simp flip: 2(2))
qed

text \<open>
  The loop invariant: everything but the black height of \<open>x\<close> is in order, and \<open>x\<close> itself may be
  red below a red parent or above red children (the loop then stops and blackens it).
\<close>

definition del_inv :: "'e frame list \<Rightarrow> 'e rbt \<Rightarrow> bool" where
  "del_inv fs x \<longleftrightarrow>
     cinvc fs \<and> invc (paint BLACK x) \<and> invh x \<and> cinvh fs (Suc (bheight x)) \<and> (fs \<noteq> [] \<longrightarrow> fcol (last fs) = BLACK)"

text \<open>A position that is one black short has a sibling, and a red sibling has inner nodes.\<close>

lemma sibling_node:
  "bheight t = Suc n \<Longrightarrow> \<exists>c l e r. t = Nd c l e r"
  by (cases t) auto

lemma del_black_inv:
  assumes inv: "del_inv (f # fs) x" and x: "col x = BLACK" and w: "col (sib f) = BLACK"
    and body: "del_black f fs x = (fs', x')"
  shows "del_inv fs' x'"
proof -
  from inv have h: "bheight (sib f) = Suc (bheight x)" by (simp add: del_inv_def)
  have x': "paint BLACK x = x" using x by (simp add: paint_col)
  show ?thesis
  proof (cases f)
    case f: (FL pc pe w')
    with h obtain wc wl we wr where w': "w' = Nd wc wl we wr" using sibling_node by fastforce
    show ?thesis
      using inv x x' w body f w'
      by (cases wl; cases wr)
        (auto simp: del_inv_def invc_plug invh_plug col_plug split: if_splits)
  next
    case f: (FR pc w' pe)
    with h obtain wc wl we wr where w': "w' = Nd wc wl we wr" using sibling_node by fastforce
    show ?thesis
      using inv x x' w body f w'
      by (cases wl; cases wr)
        (auto simp: del_inv_def invc_plug invh_plug col_plug split: if_splits)
  qed
qed

lemma del_body_inv:
  assumes inv: "del_inv (f # fs) x" and x: "col x = BLACK" and body: "del_body f fs x = (fs', x')"
  shows "del_inv fs' x'"
proof (cases "col (sib f) = BLACK")
  case True
  then have "del_body f fs x = del_black f fs x"
    by (cases "(f, fs, x)" rule: del_body.cases) auto
  with del_black_inv [OF inv x True] body show ?thesis by simp
next
  case False
  show ?thesis
  proof (cases f)
    case f: (FL pc pe w)
    with False obtain wl we wr where w: "w = Nd RED wl we wr" by (cases w) auto
    have "del_inv (FL RED pe wl # FL BLACK we wr # fs) x" "col wl = BLACK"
      using inv f w by (cases fs; auto simp: del_inv_def)+
    from del_black_inv [OF this(1) x, of fs' x'] this(2) body f w show ?thesis by simp
  next
    case f: (FR pc w pe)
    with False obtain wl we wr where w: "w = Nd RED wl we wr" by (cases w) auto
    have "del_inv (FR RED wr pe # FR BLACK wl we # fs) x" "col wr = BLACK"
      using inv f w by (cases fs; auto simp: del_inv_def)+
    from del_black_inv [OF this(1) x, of fs' x'] this(2) body f w show ?thesis by simp
  qed
qed

lemma del_black_inorder:
  assumes "del_black f fs x = (fs', x')" "sib f \<noteq> Lf"
  shows "inorder (plug fs' x') = inorder (plug (f # fs) x)"
proof (cases f)
  case f: (FL pc pe w)
  with assms(2) obtain wc wl we wr where w: "w = Nd wc wl we wr" by (cases w) auto
  show ?thesis using assms f w
    by (cases wl; cases wr) (auto simp: inorder_plug inorder_up1 split: if_splits)
next
  case f: (FR pc w pe)
  with assms(2) obtain wc wl we wr where w: "w = Nd wc wl we wr" by (cases w) auto
  show ?thesis using assms f w
    by (cases wl; cases wr) (auto simp: inorder_plug inorder_up1 split: if_splits)
qed

lemma del_body_inorder:
  assumes inv: "del_inv (f # fs) x" and x: "col x = BLACK" and body: "del_body f fs x = (fs', x')"
  shows "inorder (plug fs' x') = inorder (plug (f # fs) x)"
proof -
  from inv have h: "bheight (sib f) = Suc (bheight x)" by (simp add: del_inv_def)
  then have nl: "sib f \<noteq> Lf" by auto
  show ?thesis
  proof (cases "col (sib f) = BLACK")
    case True
    then have "del_body f fs x = del_black f fs x"
      by (cases "(f, fs, x)" rule: del_body.cases) auto
    with del_black_inorder [OF _ nl] body show ?thesis by simp
  next
    case False
    show ?thesis
    proof (cases f)
      case f: (FL pc pe w)
      with False obtain wl we wr where w: "w = Nd RED wl we wr" by (cases w) auto
      with h f have "wl \<noteq> Lf" by auto
      with body f w show ?thesis
        using del_black_inorder [of "FL RED pe wl" "FL BLACK we wr # fs" x fs' x'] by (simp add: inorder_plug)
    next
      case f: (FR pc w pe)
      with False obtain wl we wr where w: "w = Nd RED wl we wr" by (cases w) auto
      with h f inv have "wr \<noteq> Lf" by (auto simp: del_inv_def)
      with body f w show ?thesis
        using del_black_inorder [of "FR RED wr pe" "FR BLACK wl we # fs" x fs' x'] by (simp add: inorder_plug)
    qed
  qed
qed

lemma del_loop_rbt: "del_inv fs x \<Longrightarrow> is_rbt (del_loop fs x)"
proof (induction fs x rule: del_loop.induct)
  case (1 x)
  then show ?case by (simp add: del_inv_def is_rbt_def)
next
  case (2 f fs x)
  show ?case
  proof (cases "col x = BLACK")
    case True
    obtain fs' x' where b: "del_body f fs x = (fs', x')" by fastforce
    from del_body_inv [OF 2(2) True b] 2(1) [OF True b [symmetric]] True b show ?thesis by simp
  next
    case False
    then obtain l e r where x: "x = Nd RED l e r" by (cases x) auto
    then have "invc (plug (f # fs) (paint BLACK x))" "invh (plug (f # fs) (paint BLACK x))"
      using 2(2) x unfolding invc_plug invh_plug by (auto simp: del_inv_def)
    moreover have "col (plug (f # fs) (paint BLACK x)) = BLACK"
      using 2(2) unfolding col_plug by (simp add: del_inv_def)
    ultimately show ?thesis using False by (simp add: is_rbt_def)
  qed
qed

lemma del_loop_inorder: "del_inv fs x \<Longrightarrow> inorder (del_loop fs x) = inorder (plug fs x)"
proof (induction fs x rule: del_loop.induct)
  case (2 f fs x)
  show ?case
  proof (cases "col x = BLACK")
    case True
    obtain fs' x' where b: "del_body f fs x = (fs', x')" by fastforce
    from 2(1) [OF True b [symmetric]] del_body_inv [OF 2(2) True b] del_body_inorder [OF 2(2) True b]
    show ?thesis using True b by simp
  next
    case False
    then show ?thesis using inorder_plug [of "f # fs"] by (simp del: plug.simps)
  qed
qed simp

text \<open>Unlinking a node with at most one child, and the fix-up a black one needs.\<close>

definition del_at :: "'e frame list \<Rightarrow> color \<Rightarrow> 'e rbt \<Rightarrow> 'e rbt" where
  "del_at fs c x = (if c = BLACK then del_loop fs x else plug fs x)"

lemma del_at_correct:
  assumes rb: "is_rbt (plug fs (Nd c l e r))" and leaf: "l = Lf \<and> x = r \<or> r = Lf \<and> x = l"
  shows "is_rbt (del_at fs c x)" "inorder (del_at fs c x) = lin fs @ inorder x @ rin fs"
proof -
  have x: "invc x" "invh x" "bheight x = bheight l" and ctx: "cinvc fs" "cinvh fs (if c = BLACK then Suc (bheight x) else bheight x)"
    and red: "c = RED \<Longrightarrow> col x = BLACK \<and> ccol fs = BLACK"
    and lst: "if fs = [] then c = BLACK else fcol (last fs) = BLACK"
    using rb leaf by (auto simp: is_rbt_def invc_plug invh_plug col_plug split: if_splits)
  have "is_rbt (del_at fs c x) \<and> inorder (del_at fs c x) = inorder (plug fs x)"
  proof (cases "c = BLACK")
    case True
    with x ctx lst have "del_inv fs x" by (auto simp: del_inv_def split: if_splits)
    with True show ?thesis by (simp add: del_at_def del_loop_rbt del_loop_inorder)
  next
    case False
    then have "c = RED" by simp
    with x ctx red lst have "is_rbt (plug fs x)"
      by (auto simp: is_rbt_def invc_plug invh_plug col_plug split: if_splits)
    with False show ?thesis by (simp add: del_at_def)
  qed
  then show "is_rbt (del_at fs c x)" "inorder (del_at fs c x) = lin fs @ inorder x @ rin fs"
    by (simp_all add: inorder_plug)
qed

section \<open>Walking down\<close>

text \<open>Search: \<open>cmp e\<close> is the sign of the searched key compared with the key of \<open>e\<close>.\<close>

fun zsearch :: "('e \<Rightarrow> int) \<Rightarrow> 'e frame list \<Rightarrow> 'e rbt \<Rightarrow> 'e frame list \<times> 'e rbt" where
  "zsearch cmp fs Lf = (fs, Lf)"
| "zsearch cmp fs (Nd c l e r) =
     (if cmp e < 0 then zsearch cmp (FL c e r # fs) l
      else if cmp e > 0 then zsearch cmp (FR c l e # fs) r
      else (fs, Nd c l e r))"

lemma plug_zsearch: "zsearch cmp fs t = (fs', t') \<Longrightarrow> plug fs' t' = plug fs t"
  by (induction cmp fs t rule: zsearch.induct) (auto split: if_splits)

text \<open>The leftmost node below a position.\<close>

fun zmin :: "'e frame list \<Rightarrow> 'e rbt \<Rightarrow> 'e frame list \<times> 'e rbt" where
  "zmin fs Lf = (fs, Lf)"
| "zmin fs (Nd c l e r) = (if l = Lf then (fs, Nd c l e r) else zmin (FL c e r # fs) l)"

lemma plug_zmin: "zmin fs t = (fs', t') \<Longrightarrow> plug fs' t' = plug fs t"
  by (induction fs t rule: zmin.induct) (auto split: if_splits)

lemma zmin_append: "zmin (fs @ gs) t = (fst (zmin fs t) @ gs, snd (zmin fs t))"
  by (induction fs t rule: zmin.induct) auto

lemma zmin_node: "t \<noteq> Lf \<Longrightarrow> \<exists>ds c e r. zmin fs t = (ds @ fs, Nd c Lf e r)"
proof (induction fs t rule: zmin.induct)
  case (2 fs c l e r)
  then show ?case by (cases "l = Lf") auto
qed simp

lemma zmin_lin: "zmin fs t = (ds @ fs, t') \<Longrightarrow> lin ds = []"
proof (induction fs t arbitrary: ds t' rule: zmin.induct)
  case (2 fs c l e r)
  show ?case
  proof (cases "l = Lf")
    case False
    then obtain ds' c' e' r' where z: "zmin (FL c e r # fs) l = (ds' @ FL c e r # fs, Nd c' Lf e' r')"
      using zmin_node by blast
    from 2(1) [OF False] z have "lin ds' = []" by simp
    moreover have "ds = ds' @ [FL c e r]" using 2(2) False z by simp
    ultimately show ?thesis by (simp add: lin_append)
  qed (use 2 in simp)
qed simp

end
