(* ===== verification/KV_RBTree.thy ===== *)
theory KV_RBTree
  imports C_Memory RB_Zipper
begin

text \<open>
  The red-black tree engine (kvstore_rbtree.c) at the level of its pointers: nodes with left,
  right and parent pointers in a heap, the sentinel \<open>nil\<close> that stands for every leaf and for
  the parent of the root, rotations, the fix-up loops, and the operations of the key-value store
  on top.  Loops are \<^theory_text>\<open>partial_function (option)\<close>.

  One cell is one \<open>rbtree_node\<close>, whatever the size the code passed to \<open>malloc\<close>; what that
  hides, \<open>rbtree_create_sized\<close> makes explicit.
\<close>

section \<open>State\<close>

record rbtree_node =
  n_color :: color
  n_right :: addr
  n_left :: addr
  n_parent :: addr
  n_key :: addr
  n_value :: addr

record rbtree =
  t_root :: addr
  t_nil :: addr
  t_count :: int

record rb_st =
  rh :: "rbtree_node heap"
  rt :: rbtree

abbreviation root :: "rb_st \<Rightarrow> addr" where "root s \<equiv> t_root (rt s)"
abbreviation nil :: "rb_st \<Rightarrow> addr" where "nil s \<equiv> t_nil (rt s)"

definition set_root :: "addr \<Rightarrow> rb_st \<Rightarrow> rb_st" where
  "set_root p s = s\<lparr>rt := (rt s)\<lparr>t_root := p\<rparr>\<rparr>"

text \<open>\<open>p->f\<close> as a value, and \<open>p->f = v\<close> as an update of the node.\<close>

definition fld :: "(rbtree_node \<Rightarrow> 'a) \<Rightarrow> rb_st \<Rightarrow> addr \<Rightarrow> 'a option" where
  "fld f s p = map_option f (rd_obj (rh s) p)"

definition upd :: "(rbtree_node \<Rightarrow> rbtree_node) \<Rightarrow> addr \<Rightarrow> rb_st \<Rightarrow> rb_st option" where
  "upd g p s = do {
     n \<leftarrow> rd_obj (rh s) p;
     h \<leftarrow> wr_obj p (g n) (rh s);
     Some (s\<lparr>rh := h\<rparr>) }"

definition set_color :: "color \<Rightarrow> addr \<Rightarrow> rb_st \<Rightarrow> rb_st option" where
  "set_color c = upd (\<lambda>n. n\<lparr>n_color := c\<rparr>)"

section \<open>Walking\<close>

partial_function (option) rbtree_mini :: "rb_st \<Rightarrow> addr \<Rightarrow> addr option" where
  "rbtree_mini s x = do {
     l \<leftarrow> fld n_left s x;
     if l \<noteq> nil s then rbtree_mini s l else Some x }"

partial_function (option) rbtree_maxi :: "rb_st \<Rightarrow> addr \<Rightarrow> addr option" where
  "rbtree_maxi s x = do {
     r \<leftarrow> fld n_right s x;
     if r \<noteq> nil s then rbtree_maxi s r else Some x }"

partial_function (option) successor_up :: "rb_st \<Rightarrow> addr \<Rightarrow> addr \<Rightarrow> addr option" where
  "successor_up s x y =
     (if y \<noteq> nil s
      then do {
        r \<leftarrow> fld n_right s y;
        if x = r then do { p \<leftarrow> fld n_parent s y; successor_up s y p } else Some y }
      else Some y)"

definition rbtree_successor :: "rb_st \<Rightarrow> addr \<Rightarrow> addr option" where
  "rbtree_successor s x = do {
     y \<leftarrow> fld n_parent s x;
     r \<leftarrow> fld n_right s x;
     if r \<noteq> nil s then rbtree_mini s r else successor_up s x y }"

section \<open>Rotations\<close>

definition rbtree_left_rotate :: "rb_st \<Rightarrow> addr \<Rightarrow> rb_st option" where
  "rbtree_left_rotate s x = do {
     y \<leftarrow> fld n_right s x;
     yl \<leftarrow> fld n_left s y;
     s \<leftarrow> upd (\<lambda>n. n\<lparr>n_right := yl\<rparr>) x s;
     yl \<leftarrow> fld n_left s y;
     s \<leftarrow> (if yl \<noteq> nil s then upd (\<lambda>n. n\<lparr>n_parent := x\<rparr>) yl s else Some s);
     xp \<leftarrow> fld n_parent s x;
     s \<leftarrow> upd (\<lambda>n. n\<lparr>n_parent := xp\<rparr>) y s;
     xp \<leftarrow> fld n_parent s x;
     s \<leftarrow> (if xp = nil s then Some (set_root y s)
          else do {
            xpl \<leftarrow> fld n_left s xp;
            if x = xpl then upd (\<lambda>n. n\<lparr>n_left := y\<rparr>) xp s
            else upd (\<lambda>n. n\<lparr>n_right := y\<rparr>) xp s });
     s \<leftarrow> upd (\<lambda>n. n\<lparr>n_left := x\<rparr>) y s;
     upd (\<lambda>n. n\<lparr>n_parent := y\<rparr>) x s }"

definition rbtree_right_rotate :: "rb_st \<Rightarrow> addr \<Rightarrow> rb_st option" where
  "rbtree_right_rotate s y = do {
     x \<leftarrow> fld n_left s y;
     xr \<leftarrow> fld n_right s x;
     s \<leftarrow> upd (\<lambda>n. n\<lparr>n_left := xr\<rparr>) y s;
     xr \<leftarrow> fld n_right s x;
     s \<leftarrow> (if xr \<noteq> nil s then upd (\<lambda>n. n\<lparr>n_parent := y\<rparr>) xr s else Some s);
     yp \<leftarrow> fld n_parent s y;
     s \<leftarrow> upd (\<lambda>n. n\<lparr>n_parent := yp\<rparr>) x s;
     yp \<leftarrow> fld n_parent s y;
     s \<leftarrow> (if yp = nil s then Some (set_root x s)
          else do {
            ypr \<leftarrow> fld n_right s yp;
            if y = ypr then upd (\<lambda>n. n\<lparr>n_right := x\<rparr>) yp s
            else upd (\<lambda>n. n\<lparr>n_left := x\<rparr>) yp s });
     s \<leftarrow> upd (\<lambda>n. n\<lparr>n_right := y\<rparr>) x s;
     upd (\<lambda>n. n\<lparr>n_parent := x\<rparr>) y s }"

section \<open>Insertion\<close>

text \<open>The body of the loop of \<open>rbtree_insert_fixup\<close>: the new state and the new \<open>z\<close>.\<close>

definition insert_fixup_body :: "rb_st \<Rightarrow> addr \<Rightarrow> (rb_st \<times> addr) option" where
  "insert_fixup_body s z = do {
     p \<leftarrow> fld n_parent s z;
     g \<leftarrow> fld n_parent s p;
     gl \<leftarrow> fld n_left s g;
     if p = gl
     then do {
       y \<leftarrow> fld n_right s g;
       yc \<leftarrow> fld n_color s y;
       if yc = RED
       then do {
         s \<leftarrow> set_color BLACK p s;
         s \<leftarrow> set_color BLACK y s;
         s \<leftarrow> set_color RED g s;
         Some (s, g) }
       else do {
         pr \<leftarrow> fld n_right s p;
         (s, z) \<leftarrow> (if z = pr then do { s \<leftarrow> rbtree_left_rotate s p; Some (s, p) } else Some (s, z));
         p \<leftarrow> fld n_parent s z;
         s \<leftarrow> set_color BLACK p s;
         g \<leftarrow> fld n_parent s p;
         s \<leftarrow> set_color RED g s;
         s \<leftarrow> rbtree_right_rotate s g;
         Some (s, z) } }
     else do {
       y \<leftarrow> fld n_left s g;
       yc \<leftarrow> fld n_color s y;
       if yc = RED
       then do {
         s \<leftarrow> set_color BLACK p s;
         s \<leftarrow> set_color BLACK y s;
         s \<leftarrow> set_color RED g s;
         Some (s, g) }
       else do {
         pl \<leftarrow> fld n_left s p;
         (s, z) \<leftarrow> (if z = pl then do { s \<leftarrow> rbtree_right_rotate s p; Some (s, p) } else Some (s, z));
         p \<leftarrow> fld n_parent s z;
         s \<leftarrow> set_color BLACK p s;
         g \<leftarrow> fld n_parent s p;
         s \<leftarrow> set_color RED g s;
         s \<leftarrow> rbtree_left_rotate s g;
         Some (s, z) } } }"

partial_function (option) insert_fixup_loop :: "rb_st \<Rightarrow> addr \<Rightarrow> rb_st option" where
  "insert_fixup_loop s z = do {
     p \<leftarrow> fld n_parent s z;
     pc \<leftarrow> fld n_color s p;
     if pc = RED
     then do { r \<leftarrow> insert_fixup_body s z; insert_fixup_loop (fst r) (snd r) }
     else Some s }"

definition rbtree_insert_fixup :: "rb_st \<Rightarrow> addr \<Rightarrow> rb_st option" where
  "rbtree_insert_fixup s z = do {
     s \<leftarrow> insert_fixup_loop s z;
     set_color BLACK (root s) s }"

definition key_cmp :: "rb_st \<Rightarrow> addr \<Rightarrow> addr \<Rightarrow> int option" where
  "key_cmp s kp kp' = do { k \<leftarrow> rd_str (rh s) kp; k' \<leftarrow> rd_str (rh s) kp'; Some (strcmp k k') }"

text \<open>
  The walk to the insertion point: \<open>Some (Some y)\<close> is the parent for the new node,
  \<open>Some None\<close> the early \<open>return\<close> on an equal key.
\<close>

partial_function (option) insert_walk :: "rb_st \<Rightarrow> addr \<Rightarrow> addr \<Rightarrow> addr \<Rightarrow> addr option option" where
  "insert_walk s z y x =
     (if x \<noteq> nil s
      then do {
        zk \<leftarrow> fld n_key s z;
        xk \<leftarrow> fld n_key s x;
        c \<leftarrow> key_cmp s zk xk;
        if c < 0 then do { l \<leftarrow> fld n_left s x; insert_walk s z x l }
        else if c > 0 then do { r \<leftarrow> fld n_right s x; insert_walk s z x r }
        else Some None }
      else Some (Some y))"

definition rbtree_insert :: "rb_st \<Rightarrow> addr \<Rightarrow> rb_st option" where
  "rbtree_insert s z = do {
     w \<leftarrow> insert_walk s z (nil s) (root s);
     case w of
       None \<Rightarrow> Some s
     | Some y \<Rightarrow> do {
         s \<leftarrow> upd (\<lambda>n. n\<lparr>n_parent := y\<rparr>) z s;
         s \<leftarrow> (if y = nil s then Some (set_root z s)
              else do {
                zk \<leftarrow> fld n_key s z;
                yk \<leftarrow> fld n_key s y;
                c \<leftarrow> key_cmp s zk yk;
                if c < 0 then upd (\<lambda>n. n\<lparr>n_left := z\<rparr>) y s
                else upd (\<lambda>n. n\<lparr>n_right := z\<rparr>) y s });
         s \<leftarrow> upd (\<lambda>n. n\<lparr>n_left := nil s\<rparr>) z s;
         s \<leftarrow> upd (\<lambda>n. n\<lparr>n_right := nil s\<rparr>) z s;
         s \<leftarrow> set_color RED z s;
         rbtree_insert_fixup s z } }"

section \<open>Deletion\<close>

text \<open>The body of the loop of \<open>rbtree_delete_fixup\<close>: the new state and the new \<open>x\<close>.\<close>

definition delete_fixup_body :: "rb_st \<Rightarrow> addr \<Rightarrow> (rb_st \<times> addr) option" where
  "delete_fixup_body s x = do {
     p \<leftarrow> fld n_parent s x;
     pl \<leftarrow> fld n_left s p;
     if x = pl
     then do {
       w \<leftarrow> fld n_right s p;
       wc \<leftarrow> fld n_color s w;
       (s, w) \<leftarrow> (if wc = RED
          then do {
            s \<leftarrow> set_color BLACK w s;
            s \<leftarrow> set_color RED p s;
            s \<leftarrow> rbtree_left_rotate s p;
            p \<leftarrow> fld n_parent s x;
            w \<leftarrow> fld n_right s p;
            Some (s, w) }
          else Some (s, w));
       wl \<leftarrow> fld n_left s w;
       wlc \<leftarrow> fld n_color s wl;
       wr \<leftarrow> fld n_right s w;
       wrc \<leftarrow> fld n_color s wr;
       if wlc = BLACK \<and> wrc = BLACK
       then do {
         s \<leftarrow> set_color RED w s;
         p \<leftarrow> fld n_parent s x;
         Some (s, p) }
       else do {
         (s, w) \<leftarrow> (if wrc = BLACK
            then do {
              s \<leftarrow> set_color BLACK wl s;
              s \<leftarrow> set_color RED w s;
              s \<leftarrow> rbtree_right_rotate s w;
              p \<leftarrow> fld n_parent s x;
              w \<leftarrow> fld n_right s p;
              Some (s, w) }
            else Some (s, w));
         p \<leftarrow> fld n_parent s x;
         pc \<leftarrow> fld n_color s p;
         s \<leftarrow> set_color pc w s;
         s \<leftarrow> set_color BLACK p s;
         wr \<leftarrow> fld n_right s w;
         s \<leftarrow> set_color BLACK wr s;
         s \<leftarrow> rbtree_left_rotate s p;
         Some (s, root s) } }
     else do {
       w \<leftarrow> fld n_left s p;
       wc \<leftarrow> fld n_color s w;
       (s, w) \<leftarrow> (if wc = RED
          then do {
            s \<leftarrow> set_color BLACK w s;
            s \<leftarrow> set_color RED p s;
            s \<leftarrow> rbtree_right_rotate s p;
            p \<leftarrow> fld n_parent s x;
            w \<leftarrow> fld n_left s p;
            Some (s, w) }
          else Some (s, w));
       wl \<leftarrow> fld n_left s w;
       wlc \<leftarrow> fld n_color s wl;
       wr \<leftarrow> fld n_right s w;
       wrc \<leftarrow> fld n_color s wr;
       if wlc = BLACK \<and> wrc = BLACK
       then do {
         s \<leftarrow> set_color RED w s;
         p \<leftarrow> fld n_parent s x;
         Some (s, p) }
       else do {
         (s, w) \<leftarrow> (if wlc = BLACK
            then do {
              s \<leftarrow> set_color BLACK wr s;
              s \<leftarrow> set_color RED w s;
              s \<leftarrow> rbtree_left_rotate s w;
              p \<leftarrow> fld n_parent s x;
              w \<leftarrow> fld n_left s p;
              Some (s, w) }
            else Some (s, w));
         p \<leftarrow> fld n_parent s x;
         pc \<leftarrow> fld n_color s p;
         s \<leftarrow> set_color pc w s;
         s \<leftarrow> set_color BLACK p s;
         wl \<leftarrow> fld n_left s w;
         s \<leftarrow> set_color BLACK wl s;
         s \<leftarrow> rbtree_right_rotate s p;
         Some (s, root s) } } }"

partial_function (option) delete_fixup_loop :: "rb_st \<Rightarrow> addr \<Rightarrow> (rb_st \<times> addr) option" where
  "delete_fixup_loop s x =
     (if x \<noteq> root s
      then do {
        c \<leftarrow> fld n_color s x;
        if c = BLACK
        then do { r \<leftarrow> delete_fixup_body s x; delete_fixup_loop (fst r) (snd r) }
        else Some (s, x) }
      else Some (s, x))"

definition rbtree_delete_fixup :: "rb_st \<Rightarrow> addr \<Rightarrow> rb_st option" where
  "rbtree_delete_fixup s x = do {
     (s, x) \<leftarrow> delete_fixup_loop s x;
     set_color BLACK x s }"

definition rbtree_delete :: "rb_st \<Rightarrow> addr \<Rightarrow> (rb_st \<times> addr) option" where
  "rbtree_delete s z = do {
     zl \<leftarrow> fld n_left s z;
     zr \<leftarrow> fld n_right s z;
     y \<leftarrow> (if zl = nil s \<or> zr = nil s then Some z else rbtree_successor s z);
     yl \<leftarrow> fld n_left s y;
     yr \<leftarrow> fld n_right s y;
     let x = (if yl \<noteq> nil s then yl else if yr \<noteq> nil s then yr else nil s);
     yp \<leftarrow> fld n_parent s y;
     s \<leftarrow> upd (\<lambda>n. n\<lparr>n_parent := yp\<rparr>) x s;
     yp \<leftarrow> fld n_parent s y;
     s \<leftarrow> (if yp = nil s then Some (set_root x s)
          else do {
            ypl \<leftarrow> fld n_left s yp;
            if y = ypl then upd (\<lambda>n. n\<lparr>n_left := x\<rparr>) yp s
            else upd (\<lambda>n. n\<lparr>n_right := x\<rparr>) yp s });
     s \<leftarrow> (if y \<noteq> z
          then do {
            zk \<leftarrow> fld n_key s z;
            yk \<leftarrow> fld n_key s y;
            s \<leftarrow> upd (\<lambda>n. n\<lparr>n_key := yk\<rparr>) z s;
            s \<leftarrow> upd (\<lambda>n. n\<lparr>n_key := zk\<rparr>) y s;
            zv \<leftarrow> fld n_value s z;
            yv \<leftarrow> fld n_value s y;
            s \<leftarrow> upd (\<lambda>n. n\<lparr>n_value := yv\<rparr>) z s;
            upd (\<lambda>n. n\<lparr>n_value := zv\<rparr>) y s }
          else Some s);
     yc \<leftarrow> fld n_color s y;
     s \<leftarrow> (if yc = BLACK then rbtree_delete_fixup s x else Some s);
     Some (s, y) }"

section \<open>Search and traversal\<close>

partial_function (option) search_loop :: "rb_st \<Rightarrow> string \<Rightarrow> addr \<Rightarrow> addr option" where
  "search_loop s key node =
     (if node \<noteq> nil s
      then do {
        kp \<leftarrow> fld n_key s node;
        k \<leftarrow> rd_str (rh s) kp;
        if strcmp key k < 0 then do { l \<leftarrow> fld n_left s node; search_loop s key l }
        else if strcmp key k > 0 then do { r \<leftarrow> fld n_right s node; search_loop s key r }
        else Some node }
      else Some (nil s))"

definition rbtree_search :: "rb_st \<Rightarrow> string \<Rightarrow> addr option" where
  "rbtree_search s key = search_loop s key (root s)"

text \<open>\<open>rbtree_traversal\<close>: the text it prints.\<close>

partial_function (option) rbtree_traversal :: "rb_st \<Rightarrow> addr \<Rightarrow> string option" where
  "rbtree_traversal s node =
     (if node \<noteq> nil s
      then do {
        l \<leftarrow> fld n_left s node;
        o1 \<leftarrow> rbtree_traversal s l;
        kp \<leftarrow> fld n_key s node;
        k \<leftarrow> rd_str (rh s) kp;
        vp \<leftarrow> fld n_value s node;
        v \<leftarrow> rd_str (rh s) vp;
        r \<leftarrow> fld n_right s node;
        o2 \<leftarrow> rbtree_traversal s r;
        Some (o1 @ k @ '' : '' @ v @ [CHR 0x0A] @ o2) }
      else Some [])"

section \<open>The operations of the store\<close>

text \<open>
  \<open>rbtree_create_sized sz g p\<close> is \<open>rbtree_create\<close> when the block behind \<open>tree->nil\<close> has
  \<open>sz\<close> usable bytes with the contents \<open>g\<close>.  A node takes 48 bytes: the color is the byte at
  offset 0, the pointers \<open>right\<close>, \<open>left\<close>, \<open>parent\<close>, \<open>key\<close> and \<open>value\<close> lie at
  the offsets 8, 16, 24, 32 and 40.  A store beyond the block is undefined, and so is one through
  a NULL block or a NULL key.
\<close>

definition fits :: "nat \<Rightarrow> nat \<Rightarrow> nat \<Rightarrow> unit option" where
  "fits sz off w = (if off + w \<le> sz then Some () else None)"

definition rbtree_create_sized :: "nat \<Rightarrow> rbtree_node \<Rightarrow> rb_st option \<Rightarrow> (rb_st option \<times> int) option" where
  "rbtree_create_sized sz g p =
     (case p of
        None \<Rightarrow> Some (None, -1)
      | Some s \<Rightarrow> do {
          let (h, nl) = kvstore_malloc (CObj g) (rh s);
          let s = \<lparr>rh = h, rt = \<lparr>t_root = NULL, t_nil = nl, t_count = 0\<rparr>\<rparr>;
          let (h, kp) = kvstore_malloc (CStr []) (rh s);
          let s = s\<lparr>rh := h\<rparr>;
          _ \<leftarrow> fits sz 32 8;
          s \<leftarrow> upd (\<lambda>n. n\<lparr>n_key := kp\<rparr>) nl s;
          _ \<leftarrow> rd_str (rh s) kp;
          _ \<leftarrow> fits sz 0 1;
          s \<leftarrow> set_color BLACK nl s;
          Some (Some (s\<lparr>rt := (rt s)\<lparr>t_root := nl, t_count := 0\<rparr>\<rparr>), 0) })"

text \<open>The size the code passes, and the size of a node.\<close>

definition NIL_SIZE :: nat where "NIL_SIZE = 1"
definition NODE_SIZE :: nat where "NODE_SIZE = 48"

text \<open>
  The code asks for one byte, and its first store lies beyond it (\<open>rbtree_create_overflow\<close> in KV_RBTree_Props).
  The trees that the engine works on are those of \<open>rbtree_create_sized\<close> with room for a node.
\<close>

definition rbtree_create :: "rbtree_node \<Rightarrow> rb_st option \<Rightarrow> (rb_st option \<times> int) option" where
  "rbtree_create = rbtree_create_sized NIL_SIZE"

text \<open>
  \<open>rbtree_destroy\<close>.  The body under \<open>if (!cur)\<close> dereferences a NULL pointer, so it is
  undefined; for every other \<open>cur\<close> nothing is freed.
\<close>

partial_function (option) destroy_loop :: "rb_st \<Rightarrow> addr \<Rightarrow> rb_st option" where
  "destroy_loop s cur =
     (if cur \<noteq> nil s
      then do {
        cur \<leftarrow> rbtree_mini s (root s);
        if cur = nil s then Some s
        else do {
          r \<leftarrow> rbtree_delete s cur;
          if snd r = NULL then None else destroy_loop (fst r) (snd r) } }
      else Some s)"

definition rbtree_destroy :: "rb_st option \<Rightarrow> rb_st option option" where
  "rbtree_destroy p =
     (case p of
        None \<Rightarrow> Some None
      | Some s \<Rightarrow> do {
          kp \<leftarrow> fld n_key s (nil s);
          h \<leftarrow> (if kp \<noteq> NULL then kvstore_free kp (rh s) else Some (rh s));
          s \<leftarrow> destroy_loop (s\<lparr>rh := h\<rparr>) (root s);
          Some (Some s) })"

definition rbtree_exist :: "rb_st \<Rightarrow> string \<Rightarrow> int option" where
  "rbtree_exist s key = do {
     node \<leftarrow> rbtree_search s key;
     Some (if node \<noteq> nil s then 0 else -1) }"

text \<open>\<open>_rbtree_mod\<close> overwrites the pointer to the old value without freeing it.\<close>

definition rbtree_mod :: "rb_st \<Rightarrow> string \<Rightarrow> string \<Rightarrow> (rb_st \<times> int) option" where
  "rbtree_mod s key newValue = do {
     e \<leftarrow> rbtree_exist s key;
     if e = -1 then Some (s, -1)
     else do {
       node \<leftarrow> rbtree_search s key;
       let (h, vp) = kvstore_malloc (CStr newValue) (rh s);
       s \<leftarrow> upd (\<lambda>n. n\<lparr>n_value := vp\<rparr>) node (s\<lparr>rh := h\<rparr>);
       Some (s, if vp = NULL then -1 else 0) } }"

text \<open>
  \<open>rbtree_set\<close>.  The fields of the fresh node that the code leaves uninitialised are zero here;
  \<open>rbtree_insert\<close> writes each of them before it is read.
\<close>

definition fresh_node :: rbtree_node where
  "fresh_node = \<lparr>n_color = RED, n_right = 0, n_left = 0, n_parent = 0, n_key = 0, n_value = 0\<rparr>"

definition rbtree_set :: "rb_st \<Rightarrow> string \<Rightarrow> string \<Rightarrow> (rb_st \<times> int) option" where
  "rbtree_set s key value = do {
     e \<leftarrow> rbtree_exist s key;
     if e \<noteq> -1
     then do {
       (s, ret) \<leftarrow> rbtree_mod s key value;
       if ret = 0 then Some (s, 0) else Some (s, -1) }
     else do {
       let (h, node) = kvstore_malloc (CObj fresh_node) (rh s);
       let s = s\<lparr>rh := h\<rparr>;
       if node = NULL then Some (s, -1)
       else do {
         let (h, kp) = kvstore_malloc (CStr key) (rh s);
         s \<leftarrow> upd (\<lambda>n. n\<lparr>n_key := kp\<rparr>) node (s\<lparr>rh := h\<rparr>);
         if kp = NULL then Some (s, -1)
         else do {
           let (h, vp) = kvstore_malloc (CStr value) (rh s);
           s \<leftarrow> upd (\<lambda>n. n\<lparr>n_value := vp\<rparr>) node (s\<lparr>rh := h\<rparr>);
           if vp = NULL
           then do {
             h \<leftarrow> kvstore_free kp (rh s);
             h \<leftarrow> kvstore_free node h;
             Some (s\<lparr>rh := h\<rparr>, -1) }
           else do {
             s \<leftarrow> rbtree_insert s node;
             Some (s\<lparr>rt := (rt s)\<lparr>t_count := t_count (rt s) + 1\<rparr>\<rparr>, 0) } } } } }"

text \<open>\<open>rbtree_get\<close> returns the pointer to the stored value, or NULL.\<close>

definition rbtree_get :: "rb_st \<Rightarrow> string \<Rightarrow> addr option" where
  "rbtree_get s key = do {
     node \<leftarrow> rbtree_search s key;
     if node = nil s then Some NULL else fld n_value s node }"

definition rbtree_del :: "rb_st \<Rightarrow> string \<Rightarrow> (rb_st \<times> int) option" where
  "rbtree_del s key = do {
     node \<leftarrow> rbtree_search s key;
     if node = nil s then Some (s, -1)
     else do {
       (s, cur) \<leftarrow> rbtree_delete s node;
       if cur = NULL then None
       else Some (s\<lparr>rt := (rt s)\<lparr>t_count := t_count (rt s) - 1\<rparr>\<rparr>, 0) } }"

definition rbtree_count :: "rb_st \<Rightarrow> int" where
  "rbtree_count s = t_count (rt s)"

declare rbtree_mini.simps [code] rbtree_maxi.simps [code] successor_up.simps [code]
  insert_fixup_loop.simps [code] insert_walk.simps [code] delete_fixup_loop.simps [code]
  search_loop.simps [code] rbtree_traversal.simps [code] destroy_loop.simps [code]

end
