(* ===== verification/KV_RBTree_Shape.thy ===== *)
theory KV_RBTree_Shape
  imports KV_RBTree "HOL-Library.Multiset"
begin

text \<open>
  How a state of the pointer program stands for an abstract tree, and what the rotations and the
  colour assignments do to it.  A node of the abstract tree carries its address and its key and
  value pointers; a position of the program is a zipper \<open>plug fs t\<close>.
\<close>

section \<open>Trees in the heap\<close>

type_synonym item = "addr \<times> addr \<times> addr"

type_synonym nmap = "addr \<Rightarrow> rbtree_node option"

abbreviation nmap :: "rb_st \<Rightarrow> nmap" where "nmap s \<equiv> rd_obj (rh s)"

fun ptr :: "addr \<Rightarrow> item rbt \<Rightarrow> addr" where
  "ptr nl Lf = nl"
| "ptr nl (Nd _ _ (a, _, _) _) = a"

fun ctop :: "addr \<Rightarrow> item frame list \<Rightarrow> addr" where
  "ctop nl [] = nl"
| "ctop nl (FL _ (a, _, _) _ # fs) = a"
| "ctop nl (FR _ _ (a, _, _) # fs) = a"

fun shape :: "addr \<Rightarrow> nmap \<Rightarrow> addr \<Rightarrow> item rbt \<Rightarrow> bool" where
  "shape nl h p Lf \<longleftrightarrow> True"
| "shape nl h p (Nd c l (a, k, v) r) \<longleftrightarrow>
     h a = Some \<lparr>n_color = c, n_right = ptr nl r, n_left = ptr nl l, n_parent = p, n_key = k, n_value = v\<rparr> \<and>
     shape nl h a l \<and> shape nl h a r"

fun cshape :: "addr \<Rightarrow> nmap \<Rightarrow> addr \<Rightarrow> item frame list \<Rightarrow> bool" where
  "cshape nl h q [] \<longleftrightarrow> True"
| "cshape nl h q (FL c (a, k, v) r # fs) \<longleftrightarrow>
     h a = Some \<lparr>n_color = c, n_right = ptr nl r, n_left = q, n_parent = ctop nl fs, n_key = k, n_value = v\<rparr> \<and>
     shape nl h a r \<and> cshape nl h a fs"
| "cshape nl h q (FR c l (a, k, v) # fs) \<longleftrightarrow>
     h a = Some \<lparr>n_color = c, n_right = q, n_left = ptr nl l, n_parent = ctop nl fs, n_key = k, n_value = v\<rparr> \<and>
     shape nl h a l \<and> cshape nl h a fs"

fun croot :: "addr \<Rightarrow> item frame list \<Rightarrow> addr" where
  "croot q [] = q"
| "croot q (FL _ (a, _, _) _ # fs) = croot a fs"
| "croot q (FR _ _ (a, _, _) # fs) = croot a fs"

fun addrs :: "item rbt \<Rightarrow> addr list" where
  "addrs Lf = []"
| "addrs (Nd _ l (a, _, _) r) = a # addrs l @ addrs r"

fun caddrs :: "item frame list \<Rightarrow> addr list" where
  "caddrs [] = []"
| "caddrs (FL _ (a, _, _) r # fs) = a # addrs r @ caddrs fs"
| "caddrs (FR _ l (a, _, _) # fs) = a # addrs l @ caddrs fs"

lemma set_addrs: "set (addrs t) = fst ` set (inorder t)"
  by (induction t rule: addrs.induct) auto

lemma ptr_up1_simps [simp]: "ptr nl (up1 (FL c (a, k, v) r) t) = a" "ptr nl (up1 (FR c l (a, k, v)) t) = a"
  by simp_all

lemma shape_plug:
  "shape nl h nl (plug fs t) \<longleftrightarrow> cshape nl h (ptr nl t) fs \<and> shape nl h (ctop nl fs) t"
proof (induction fs arbitrary: t)
  case (Cons f fs)
  show ?case
  proof (cases f)
    case (FL c e r)
    then show ?thesis by (cases e) (auto simp: Cons)
  next
    case (FR c l e)
    then show ?thesis by (cases e) (auto simp: Cons)
  qed
qed simp

lemma ptr_plug: "ptr nl (plug fs t) = croot (ptr nl t) fs"
proof (induction fs arbitrary: t)
  case (Cons f fs)
  show ?case
  proof (cases f)
    case (FL c e r)
    then show ?thesis by (cases e) (auto simp: Cons)
  next
    case (FR c l e)
    then show ?thesis by (cases e) (auto simp: Cons)
  qed
qed simp

lemma mset_plug: "mset (addrs (plug fs t)) = mset (addrs t @ caddrs fs)"
proof (induction fs arbitrary: t)
  case (Cons f fs)
  show ?case
  proof (cases f)
    case (FL c e r)
    then show ?thesis by (cases e) (auto simp: Cons)
  next
    case (FR c l e)
    then show ?thesis by (cases e) (auto simp: Cons)
  qed
qed simp

lemma distinct_plug: "distinct (addrs (plug fs t)) \<longleftrightarrow> distinct (addrs t @ caddrs fs)"
  by (rule mset_eq_imp_distinct_iff [OF mset_plug])

lemma set_plug: "set (addrs (plug fs t)) = set (addrs t) \<union> set (caddrs fs)"
  using mset_eq_setD [OF mset_plug, of fs t] by simp

text \<open>Writing elsewhere leaves a tree, or a context, as it was.\<close>

lemma shape_frame [simp]: "a \<notin> set (addrs t) \<Longrightarrow> shape nl (h(a := x)) p t = shape nl h p t"
  by (induction nl h p t rule: shape.induct) auto

lemma cshape_frame [simp]: "a \<notin> set (caddrs fs) \<Longrightarrow> cshape nl (h(a := x)) q fs = cshape nl h q fs"
  by (induction nl h q fs rule: cshape.induct) auto

lemma ptr_in: "ptr nl t = nl \<or> ptr nl t \<in> set (addrs t)"
  by (cases "(nl, t)" rule: ptr.cases) auto

lemma ptr_neq [simp]:
  "a \<noteq> nl \<Longrightarrow> a \<notin> set (addrs t) \<Longrightarrow> ptr nl t \<noteq> a"
  "a \<noteq> nl \<Longrightarrow> a \<notin> set (addrs t) \<Longrightarrow> a \<noteq> ptr nl t"
  using ptr_in [of nl t] by auto

lemma ptr_nil: "nl \<notin> set (addrs t) \<Longrightarrow> ptr nl t = nl \<longleftrightarrow> t = Lf"
  by (cases "(nl, t)" rule: ptr.cases) auto

lemma ctop_nil: "nl \<notin> set (caddrs fs) \<Longrightarrow> ctop nl fs = nl \<longleftrightarrow> fs = []"
  by (cases "(nl, fs)" rule: ctop.cases) auto

section \<open>Well-formed states and the frame of a step\<close>

definition wf :: "rb_st \<Rightarrow> item rbt \<Rightarrow> bool" where
  "wf s t \<longleftrightarrow>
     shape (nil s) (nmap s) (nil s) t \<and> root s = ptr (nil s) t \<and> distinct (nil s # addrs t) \<and>
     (\<exists>n. nmap s (nil s) = Some n \<and> n_color n = BLACK)"

text \<open>
  What every step inside the tree leaves alone: the sentinel, the count, the strings, the set of
  allocated blocks and the allocator.
\<close>

definition sim :: "rb_st \<Rightarrow> rb_st \<Rightarrow> bool" where
  "sim s s' \<longleftrightarrow>
     nil s' = nil s \<and> t_count (rt s') = t_count (rt s) \<and> brk (rh s') = brk (rh s) \<and> oom (rh s') = oom (rh s) \<and>
     rd_str (rh s') = rd_str (rh s) \<and> dom (cells (rh s')) = dom (cells (rh s)) \<and>
     nmap s' (nil s) = nmap s (nil s)"

lemma sim_refl [simp]: "sim s s"
  by (simp add: sim_def)

lemma sim_trans: "sim s s' \<Longrightarrow> sim s' s'' \<Longrightarrow> sim s s''"
  by (simp add: sim_def)

lemma sim_set_root [simp]: "sim s (set_root p s)"
  by (simp add: sim_def set_root_def)

lemma set_root_simps [simp]:
  "rh (set_root p s) = rh s" "root (set_root p s) = p" "nil (set_root p s) = nil s"
  "t_count (rt (set_root p s)) = t_count (rt s)"
  by (simp_all add: set_root_def)

text \<open>The state after a write to a node.\<close>

definition put :: "addr \<Rightarrow> rbtree_node \<Rightarrow> rb_st \<Rightarrow> rb_st" where
  "put p n s = s\<lparr>rh := (rh s)\<lparr>cells := (cells (rh s))(p \<mapsto> CObj n)\<rparr>\<rparr>"

lemma put_simps [simp]:
  "nmap (put p n s) = (nmap s)(p \<mapsto> n)" "rt (put p n s) = rt s"
  by (auto simp: put_def rd_obj_def fun_eq_iff)

lemma upd_put: "nmap s p = Some n \<Longrightarrow> upd g p s = Some (put p (g n) s)"
  using wr_obj_Some [of "rh s" p n] by (simp add: upd_def put_def flip: rd_obj_Some)

lemma upd_eq: "upd g p s = (case nmap s p of None \<Rightarrow> None | Some n \<Rightarrow> Some (put p (g n) s))"
  by (cases "nmap s p") (simp_all add: upd_put, simp add: upd_def)

lemma fld_nmap: "nmap s p = Some n \<Longrightarrow> fld f s p = Some (f n)"
  by (simp add: fld_def)

lemma sim_put: "nmap s p = Some n0 \<Longrightarrow> p \<noteq> nil s \<Longrightarrow> sim s (put p n s)"
  by (auto simp: sim_def put_def rd_obj_def rd_str_def fun_eq_iff split: option.splits cell.splits)

lemma sim_put_iff [simp]: "nmap t p \<noteq> None \<Longrightarrow> p \<noteq> nil t \<Longrightarrow> sim s (put p n t) \<longleftrightarrow> sim s t"
  by (auto dest!: sim_put [of t p _ n]) (auto simp: sim_def)

lemma sim_set_root_iff [simp]: "sim s (set_root p t) \<longleftrightarrow> sim s t"
  by (simp add: sim_def set_root_def)

lemma wf_plug:
  "wf s (plug fs t) \<longleftrightarrow>
     cshape (nil s) (nmap s) (ptr (nil s) t) fs \<and> shape (nil s) (nmap s) (ctop (nil s) fs) t \<and>
     root s = croot (ptr (nil s) t) fs \<and> nil s \<notin> set (addrs t) \<and> nil s \<notin> set (caddrs fs) \<and>
     distinct (addrs t) \<and> distinct (caddrs fs) \<and> set (addrs t) \<inter> set (caddrs fs) = {} \<and>
     (\<exists>n. nmap s (nil s) = Some n \<and> n_color n = BLACK)"
  by (auto simp: wf_def shape_plug ptr_plug distinct_plug set_plug)

section \<open>Reading at a position\<close>

lemma node_at:
  assumes "wf s (plug fs (Nd c l (a, k, v) r))"
  shows "nmap s a = Some \<lparr>n_color = c, n_right = ptr (nil s) r, n_left = ptr (nil s) l,
      n_parent = ctop (nil s) fs, n_key = k, n_value = v\<rparr>"
  using assms by (simp add: wf_plug)

lemma fld_at:
  assumes "wf s (plug fs (Nd c l (a, k, v) r))"
  shows "fld n_color s a = Some c" "fld n_right s a = Some (ptr (nil s) r)"
    "fld n_left s a = Some (ptr (nil s) l)" "fld n_parent s a = Some (ctop (nil s) fs)"
    "fld n_key s a = Some k" "fld n_value s a = Some v"
  by (simp_all add: fld_nmap [OF node_at [OF assms]])

lemma col_at: "wf s (plug fs t) \<Longrightarrow> fld n_color s (ptr (nil s) t) = Some (col t)"
  by (cases "(nil s, t)" rule: ptr.cases) (auto simp: fld_at, auto simp: wf_plug fld_def)

lemma wf_root_ptr: "wf s t \<Longrightarrow> root s = ptr (nil s) t"
  by (simp add: wf_def)

section \<open>Colours\<close>

lemma set_color_at:
  assumes "wf s (plug fs (Nd c l (a, k, v) r))"
  shows "\<exists>s'. set_color c' a s = Some s' \<and> wf s' (plug fs (Nd c' l (a, k, v) r)) \<and> sim s s'"
proof -
  let ?n = "\<lparr>n_color = c', n_right = ptr (nil s) r, n_left = ptr (nil s) l,
      n_parent = ctop (nil s) fs, n_key = k, n_value = v\<rparr>"
  have "set_color c' a s = Some (put a ?n s)"
    by (simp add: set_color_def upd_put [OF node_at [OF assms]])
  moreover have "wf (put a ?n s) (plug fs (Nd c' l (a, k, v) r))"
    using assms unfolding wf_plug by auto
  moreover have "sim s (put a ?n s)"
    using assms by (intro sim_put [OF node_at [OF assms]]) (auto simp: wf_plug)
  ultimately show ?thesis by blast
qed

section \<open>Rotations\<close>

lemma distinct_neqs:
  "distinct [a, b, c, d, e] \<Longrightarrow>
     a \<noteq> b \<and> b \<noteq> a \<and> a \<noteq> c \<and> c \<noteq> a \<and> a \<noteq> d \<and> d \<noteq> a \<and> a \<noteq> e \<and> e \<noteq> a \<and> b \<noteq> c \<and> c \<noteq> b \<and>
     b \<noteq> d \<and> d \<noteq> b \<and> b \<noteq> e \<and> e \<noteq> b \<and> c \<noteq> d \<and> d \<noteq> c \<and> c \<noteq> e \<and> e \<noteq> c \<and> d \<noteq> e \<and> e \<noteq> d"
  by auto

lemma distinct_neqs4:
  "distinct [a, b, c, d] \<Longrightarrow>
     a \<noteq> b \<and> b \<noteq> a \<and> a \<noteq> c \<and> c \<noteq> a \<and> a \<noteq> d \<and> d \<noteq> a \<and> b \<noteq> c \<and> c \<noteq> b \<and> b \<noteq> d \<and> d \<noteq> b \<and> c \<noteq> d \<and> d \<noteq> c"
  by auto

lemma distinct_neqs3: "distinct [a, b, c] \<Longrightarrow> a \<noteq> b \<and> b \<noteq> a \<and> a \<noteq> c \<and> c \<noteq> a \<and> b \<noteq> c \<and> c \<noteq> b"
  by auto

lemma left_rotate_leaf:
  assumes wf: "wf s (plug fs (Nd c A (x, xk, xv) (Nd d B (y, yk, yv) C)))" and B: "B = Lf"
  shows "\<exists>s'. rbtree_left_rotate s x = Some s' \<and>
    wf s' (plug fs (Nd d (Nd c A (x, xk, xv) B) (y, yk, yv) C)) \<and> sim s s'"
proof -
  from wf obtain n where n: "nmap s (nil s) = Some n" "n_color n = BLACK" by (auto simp: wf_plug)
  show ?thesis
  proof (cases "(nil s, fs)" rule: ctop.cases)
    case (1 nl)
    from 1 wf have "distinct [nl, x, y]" unfolding wf_plug B by auto
    note distinct_neqs3 [OF this]
    then show ?thesis
      using 1 wf n unfolding wf_plug B by (simp add: rbtree_left_rotate_def upd_eq fld_def wf_plug)
  next
    case (2 nl fc p pk pv r gs)
    from 2 wf have "distinct [nl, x, y, p]" unfolding wf_plug B by auto
    note distinct_neqs4 [OF this]
    then show ?thesis
      using 2 wf n unfolding wf_plug B by (simp add: rbtree_left_rotate_def upd_eq fld_def wf_plug)
  next
    case (3 nl fc l p pk pv gs)
    from 3 wf have "distinct [nl, x, y, p]" unfolding wf_plug B by auto
    note distinct_neqs4 [OF this]
    moreover from 3 wf have "x \<noteq> ptr nl l" by (intro ptr_neq) (simp_all add: wf_plug)
    ultimately show ?thesis
      using 3 wf n unfolding wf_plug B by (simp add: rbtree_left_rotate_def upd_eq fld_def wf_plug)
  qed
qed

lemma left_rotate_node:
  assumes wf: "wf s (plug fs (Nd c A (x, xk, xv) (Nd d B (y, yk, yv) C)))"
    and B: "B = Nd cb Bl (b, bk, bv) Br"
  shows "\<exists>s'. rbtree_left_rotate s x = Some s' \<and>
    wf s' (plug fs (Nd d (Nd c A (x, xk, xv) B) (y, yk, yv) C)) \<and> sim s s'"
proof -
  from wf obtain n where n: "nmap s (nil s) = Some n" "n_color n = BLACK" by (auto simp: wf_plug)
  show ?thesis
  proof (cases "(nil s, fs)" rule: ctop.cases)
    case (1 nl)
    from 1 wf have "distinct [nl, x, y, b]" unfolding wf_plug B by auto
    note distinct_neqs4 [OF this]
    then show ?thesis
      using 1 wf n unfolding wf_plug B by (simp add: rbtree_left_rotate_def upd_eq fld_def wf_plug)
  next
    case (2 nl fc p pk pv r gs)
    from 2 wf have "distinct [nl, x, y, b, p]" unfolding wf_plug B by auto
    note distinct_neqs [OF this]
    then show ?thesis
      using 2 wf n unfolding wf_plug B by (simp add: rbtree_left_rotate_def upd_eq fld_def wf_plug)
  next
    case (3 nl fc l p pk pv gs)
    from 3 wf have "distinct [nl, x, y, b, p]" unfolding wf_plug B by auto
    note distinct_neqs [OF this]
    moreover from 3 wf have "x \<noteq> ptr nl l" by (intro ptr_neq) (simp_all add: wf_plug)
    ultimately show ?thesis
      using 3 wf n unfolding wf_plug B by (simp add: rbtree_left_rotate_def upd_eq fld_def wf_plug)
  qed
qed

lemma left_rotate_at:
  assumes "wf s (plug fs (Nd c A (x, xk, xv) (Nd d B (y, yk, yv) C)))"
  shows "\<exists>s'. rbtree_left_rotate s x = Some s' \<and>
    wf s' (plug fs (Nd d (Nd c A (x, xk, xv) B) (y, yk, yv) C)) \<and> sim s s'"
proof (cases B)
  case Lf
  then show ?thesis by (rule left_rotate_leaf [OF assms])
next
  case (Nd cb Bl be Br)
  then obtain b bk bv where "B = Nd cb Bl (b, bk, bv) Br" by (cases be) auto
  then show ?thesis by (rule left_rotate_node [OF assms])
qed

lemma right_rotate_leaf:
  assumes wf: "wf s (plug fs (Nd d (Nd c A (x, xk, xv) B) (y, yk, yv) C))" and B: "B = Lf"
  shows "\<exists>s'. rbtree_right_rotate s y = Some s' \<and>
    wf s' (plug fs (Nd c A (x, xk, xv) (Nd d B (y, yk, yv) C))) \<and> sim s s'"
proof -
  from wf obtain n where n: "nmap s (nil s) = Some n" "n_color n = BLACK" by (auto simp: wf_plug)
  show ?thesis
  proof (cases "(nil s, fs)" rule: ctop.cases)
    case (1 nl)
    from 1 wf have "distinct [nl, x, y]" unfolding wf_plug B by auto
    note distinct_neqs3 [OF this]
    then show ?thesis
      using 1 wf n unfolding wf_plug B by (simp add: rbtree_right_rotate_def upd_eq fld_def wf_plug)
  next
    case (2 nl fc p pk pv r gs)
    from 2 wf have "distinct [nl, x, y, p]" unfolding wf_plug B by auto
    note distinct_neqs4 [OF this]
    moreover from 2 wf have "y \<noteq> ptr nl r" by (intro ptr_neq) (simp_all add: wf_plug)
    ultimately show ?thesis
      using 2 wf n unfolding wf_plug B by (simp add: rbtree_right_rotate_def upd_eq fld_def wf_plug)
  next
    case (3 nl fc l p pk pv gs)
    from 3 wf have "distinct [nl, x, y, p]" unfolding wf_plug B by auto
    note distinct_neqs4 [OF this]
    then show ?thesis
      using 3 wf n unfolding wf_plug B by (simp add: rbtree_right_rotate_def upd_eq fld_def wf_plug)
  qed
qed

lemma right_rotate_node:
  assumes wf: "wf s (plug fs (Nd d (Nd c A (x, xk, xv) B) (y, yk, yv) C))"
    and B: "B = Nd cb Bl (b, bk, bv) Br"
  shows "\<exists>s'. rbtree_right_rotate s y = Some s' \<and>
    wf s' (plug fs (Nd c A (x, xk, xv) (Nd d B (y, yk, yv) C))) \<and> sim s s'"
proof -
  from wf obtain n where n: "nmap s (nil s) = Some n" "n_color n = BLACK" by (auto simp: wf_plug)
  show ?thesis
  proof (cases "(nil s, fs)" rule: ctop.cases)
    case (1 nl)
    from 1 wf have "distinct [nl, x, y, b]" unfolding wf_plug B by auto
    note distinct_neqs4 [OF this]
    then show ?thesis
      using 1 wf n unfolding wf_plug B by (simp add: rbtree_right_rotate_def upd_eq fld_def wf_plug)
  next
    case (2 nl fc p pk pv r gs)
    from 2 wf have "distinct [nl, x, y, b, p]" unfolding wf_plug B by auto
    note distinct_neqs [OF this]
    moreover from 2 wf have "y \<noteq> ptr nl r" by (intro ptr_neq) (simp_all add: wf_plug)
    ultimately show ?thesis
      using 2 wf n unfolding wf_plug B by (simp add: rbtree_right_rotate_def upd_eq fld_def wf_plug)
  next
    case (3 nl fc l p pk pv gs)
    from 3 wf have "distinct [nl, x, y, b, p]" unfolding wf_plug B by auto
    note distinct_neqs [OF this]
    then show ?thesis
      using 3 wf n unfolding wf_plug B by (simp add: rbtree_right_rotate_def upd_eq fld_def wf_plug)
  qed
qed

lemma right_rotate_at:
  assumes "wf s (plug fs (Nd d (Nd c A (x, xk, xv) B) (y, yk, yv) C))"
  shows "\<exists>s'. rbtree_right_rotate s y = Some s' \<and>
    wf s' (plug fs (Nd c A (x, xk, xv) (Nd d B (y, yk, yv) C))) \<and> sim s s'"
proof (cases B)
  case Lf
  then show ?thesis by (rule right_rotate_leaf [OF assms])
next
  case (Nd cb Bl be Br)
  then obtain b bk bv where "B = Nd cb Bl (b, bk, bv) Br" by (cases be) auto
  then show ?thesis by (rule right_rotate_node [OF assms])
qed

end
