(* ===== verification/KV_RBTree_Insert.thy ===== *)
theory KV_RBTree_Insert
  imports KV_RBTree_Shape
begin

text \<open>
  Insertion into the pointer tree refines the zipper functions of RB_Zipper: one iteration of
  \<open>rbtree_insert_fixup\<close> is one \<open>ins_body\<close>, the walk to the insertion point is \<open>zsearch\<close>.
\<close>

section \<open>One iteration of the fix-up\<close>

lemma insert_body_left_red:
  assumes wf: "wf s (plug (f # FL gc (g, gk, gv) u # gs) (Nd zc za (z, zk, zv) zb))"
    and red: "fcol f = RED" "col u = RED"
  shows "\<exists>s'. insert_fixup_body s z = Some (s', g) \<and> sim s s' \<and>
    wf s' (plug gs (Nd RED (up1 (fpaint BLACK f) (Nd zc za (z, zk, zv) zb)) (g, gk, gv) (paint BLACK u)))"
proof -
  obtain l p pk pv r where f: "up1 f (Nd zc za (z, zk, zv) zb) = Nd RED l (p, pk, pv) r"
      "up1 (fpaint BLACK f) (Nd zc za (z, zk, zv) zb) = Nd BLACK l (p, pk, pv) r"
      "\<And>nl fs. ctop nl (f # fs) = p"
    using red by (cases f; metis ctop.simps(2,3) fcol.simps fpaint.simps prod_cases3 up1.simps)
  obtain ul y yk yv ur where u: "u = Nd RED ul (y, yk, yv) ur"
    using red by (cases u) (auto intro: prod_cases3)
  have W0: "wf s (plug (FL gc (g, gk, gv) u # gs) (Nd RED l (p, pk, pv) r))" using wf f by simp
  have Wg: "wf s (plug gs (Nd gc (Nd RED l (p, pk, pv) r) (g, gk, gv) u))" using W0 by simp
  have Wu: "wf s (plug (FR gc (Nd RED l (p, pk, pv) r) (g, gk, gv) # gs) (Nd RED ul (y, yk, yv) ur))" using W0 u by simp
  have pu: "p \<noteq> ptr (nil s) u" "ptr (nil s) u \<noteq> p" using Wu u by (auto simp: wf_plug)
  obtain s1 where s1: "set_color BLACK p s = Some s1"
      "wf s1 (plug (FL gc (g, gk, gv) u # gs) (Nd BLACK l (p, pk, pv) r))" "sim s s1"
    using set_color_at [OF W0] by blast
  have W1: "wf s1 (plug (FR gc (Nd BLACK l (p, pk, pv) r) (g, gk, gv) # gs) (Nd RED ul (y, yk, yv) ur))" using s1(2) u by simp
  obtain s2 where s2: "set_color BLACK y s1 = Some s2"
      "wf s2 (plug (FR gc (Nd BLACK l (p, pk, pv) r) (g, gk, gv) # gs) (Nd BLACK ul (y, yk, yv) ur))" "sim s1 s2"
    using set_color_at [OF W1] by blast
  have W2: "wf s2 (plug gs (Nd gc (Nd BLACK l (p, pk, pv) r) (g, gk, gv) (Nd BLACK ul (y, yk, yv) ur)))" using s2(2) by simp
  obtain s3 where s3: "set_color RED g s2 = Some s3"
      "wf s3 (plug gs (Nd RED (Nd BLACK l (p, pk, pv) r) (g, gk, gv) (Nd BLACK ul (y, yk, yv) ur)))" "sim s2 s3"
    using set_color_at [OF W2] by blast
  have "insert_fixup_body s z = Some (s3, g)"
    using fld_at(4) [OF wf] fld_at [OF W0] fld_at [OF Wg] fld_at(1) [OF Wu] s1(1) s2(1) s3(1) f(3) u pu
    by (simp add: insert_fixup_body_def)
  then show ?thesis using s3(2) f(2) u sim_trans [OF sim_trans [OF s1(3) s2(3)] s3(3)] by auto
qed

lemma insert_body_left_outer:
  assumes wf: "wf s (plug (FL RED (p, pk, pv) t # FL gc (g, gk, gv) u # gs) (Nd zc za (z, zk, zv) zb))"
    and black: "col u = BLACK"
  shows "\<exists>s'. insert_fixup_body s z = Some (s', z) \<and> sim s s' \<and>
    wf s' (plug (FL BLACK (p, pk, pv) (Nd RED t (g, gk, gv) u) # gs) (Nd zc za (z, zk, zv) zb))"
proof -
  have W0: "wf s (plug (FL gc (g, gk, gv) u # gs) (Nd RED (Nd zc za (z, zk, zv) zb) (p, pk, pv) t))" using wf by simp
  have Wg: "wf s (plug gs (Nd gc (Nd RED (Nd zc za (z, zk, zv) zb) (p, pk, pv) t) (g, gk, gv) u))" using W0 by simp
  have Wu: "wf s (plug (FR gc (Nd RED (Nd zc za (z, zk, zv) zb) (p, pk, pv) t) (g, gk, gv) # gs) u)" using W0 by simp
  have neq: "p \<noteq> ptr (nil s) u" "ptr (nil s) u \<noteq> p" "z \<noteq> ptr (nil s) t" "ptr (nil s) t \<noteq> z"
    using Wu by (auto simp: wf_plug dest: ptr_neq)
  obtain s1 where s1: "set_color BLACK p s = Some s1"
      "wf s1 (plug (FL gc (g, gk, gv) u # gs) (Nd BLACK (Nd zc za (z, zk, zv) zb) (p, pk, pv) t))" "sim s s1"
    using set_color_at [OF W0] by blast
  have W1: "wf s1 (plug gs (Nd gc (Nd BLACK (Nd zc za (z, zk, zv) zb) (p, pk, pv) t) (g, gk, gv) u))" using s1(2) by simp
  obtain s2 where s2: "set_color RED g s1 = Some s2"
      "wf s2 (plug gs (Nd RED (Nd BLACK (Nd zc za (z, zk, zv) zb) (p, pk, pv) t) (g, gk, gv) u))" "sim s1 s2"
    using set_color_at [OF W1] by blast
  obtain s3 where s3: "rbtree_right_rotate s2 g = Some s3" "sim s2 s3"
      "wf s3 (plug gs (Nd BLACK (Nd zc za (z, zk, zv) zb) (p, pk, pv) (Nd RED t (g, gk, gv) u)))"
    using right_rotate_at [OF s2(2)] by blast
  have "insert_fixup_body s z = Some (s3, z)"
    using fld_at(4) [OF wf] fld_at [OF W0] fld_at [OF Wg] col_at [OF Wu] black s1(1) s2(1) s3(1)
      fld_at(4) [OF s1(2)] neq
    by (simp add: insert_fixup_body_def)
  then show ?thesis using s3(3) sim_trans [OF sim_trans [OF s1(3) s2(3)] s3(2)] by auto
qed

lemma insert_body_left_inner:
  assumes wf: "wf s (plug (FR RED t (p, pk, pv) # FL gc (g, gk, gv) u # gs) (Nd zc a (z, zk, zv) b))"
    and black: "col u = BLACK"
  shows "\<exists>s'. insert_fixup_body s z = Some (s', p) \<and> sim s s' \<and>
    wf s' (plug (FL BLACK (z, zk, zv) (Nd RED b (g, gk, gv) u) # gs) (Nd RED t (p, pk, pv) a))"
proof -
  have W0: "wf s (plug (FL gc (g, gk, gv) u # gs) (Nd RED t (p, pk, pv) (Nd zc a (z, zk, zv) b)))" using wf by simp
  have Wg: "wf s (plug gs (Nd gc (Nd RED t (p, pk, pv) (Nd zc a (z, zk, zv) b)) (g, gk, gv) u))" using W0 by simp
  have Wu: "wf s (plug (FR gc (Nd RED t (p, pk, pv) (Nd zc a (z, zk, zv) b)) (g, gk, gv) # gs) u)" using W0 by simp
  have neq: "p \<noteq> ptr (nil s) u" "ptr (nil s) u \<noteq> p" using Wu by (auto simp: wf_plug dest: ptr_neq)
  obtain s0 where s0: "rbtree_left_rotate s p = Some s0" "sim s s0"
      "wf s0 (plug (FL gc (g, gk, gv) u # gs) (Nd zc (Nd RED t (p, pk, pv) a) (z, zk, zv) b))"
    using left_rotate_at [OF W0] by blast
  have Wp: "wf s0 (plug (FL zc (z, zk, zv) b # FL gc (g, gk, gv) u # gs) (Nd RED t (p, pk, pv) a))"
    using s0(3) by simp
  obtain s1 where s1: "set_color BLACK z s0 = Some s1" 
      "wf s1 (plug (FL gc (g, gk, gv) u # gs) (Nd BLACK (Nd RED t (p, pk, pv) a) (z, zk, zv) b))" "sim s0 s1"
    using set_color_at [OF s0(3)] by blast
  have W1: "wf s1 (plug gs (Nd gc (Nd BLACK (Nd RED t (p, pk, pv) a) (z, zk, zv) b) (g, gk, gv) u))" using s1(2) by simp
  obtain s2 where s2: "set_color RED g s1 = Some s2"
      "wf s2 (plug gs (Nd RED (Nd BLACK (Nd RED t (p, pk, pv) a) (z, zk, zv) b) (g, gk, gv) u))" "sim s1 s2"
    using set_color_at [OF W1] by blast
  obtain s3 where s3: "rbtree_right_rotate s2 g = Some s3" "sim s2 s3"
      "wf s3 (plug gs (Nd BLACK (Nd RED t (p, pk, pv) a) (z, zk, zv) (Nd RED b (g, gk, gv) u)))"
    using right_rotate_at [OF s2(2)] by blast
  have "insert_fixup_body s z = Some (s3, p)"
    using fld_at(4) [OF wf] fld_at [OF W0] fld_at [OF Wg] col_at [OF Wu] black s0(1) s1(1) s2(1) s3(1)
      fld_at(4) [OF Wp] fld_at(4) [OF s1(2)] neq
    by (simp add: insert_fixup_body_def)
  then show ?thesis using s3(3) sim_trans [OF sim_trans [OF sim_trans [OF s0(2) s1(3)] s2(3)] s3(2)] by auto
qed

lemma insert_body_right_red:
  assumes wf: "wf s (plug (f # FR gc u (g, gk, gv) # gs) (Nd zc za (z, zk, zv) zb))"
    and red: "fcol f = RED" "col u = RED"
  shows "\<exists>s'. insert_fixup_body s z = Some (s', g) \<and> sim s s' \<and>
    wf s' (plug gs (Nd RED (paint BLACK u) (g, gk, gv) (up1 (fpaint BLACK f) (Nd zc za (z, zk, zv) zb))))"
proof -
  obtain l p pk pv r where f: "up1 f (Nd zc za (z, zk, zv) zb) = Nd RED l (p, pk, pv) r"
      "up1 (fpaint BLACK f) (Nd zc za (z, zk, zv) zb) = Nd BLACK l (p, pk, pv) r"
      "\<And>nl fs. ctop nl (f # fs) = p"
    using red by (cases f; metis ctop.simps(2,3) fcol.simps fpaint.simps prod_cases3 up1.simps)
  obtain ul y yk yv ur where u: "u = Nd RED ul (y, yk, yv) ur"
    using red by (cases u) (auto intro: prod_cases3)
  have W0: "wf s (plug (FR gc u (g, gk, gv) # gs) (Nd RED l (p, pk, pv) r))" using wf f by simp
  have Wg: "wf s (plug gs (Nd gc u (g, gk, gv) (Nd RED l (p, pk, pv) r)))" using W0 by simp
  have Wu: "wf s (plug (FL gc (g, gk, gv) (Nd RED l (p, pk, pv) r) # gs) (Nd RED ul (y, yk, yv) ur))" using W0 u by simp
  have pu: "p \<noteq> ptr (nil s) u" "ptr (nil s) u \<noteq> p" using Wu u by (auto simp: wf_plug)
  obtain s1 where s1: "set_color BLACK p s = Some s1"
      "wf s1 (plug (FR gc u (g, gk, gv) # gs) (Nd BLACK l (p, pk, pv) r))" "sim s s1"
    using set_color_at [OF W0] by blast
  have W1: "wf s1 (plug (FL gc (g, gk, gv) (Nd BLACK l (p, pk, pv) r) # gs) (Nd RED ul (y, yk, yv) ur))" using s1(2) u by simp
  obtain s2 where s2: "set_color BLACK y s1 = Some s2"
      "wf s2 (plug (FL gc (g, gk, gv) (Nd BLACK l (p, pk, pv) r) # gs) (Nd BLACK ul (y, yk, yv) ur))" "sim s1 s2"
    using set_color_at [OF W1] by blast
  have W2: "wf s2 (plug gs (Nd gc (Nd BLACK ul (y, yk, yv) ur) (g, gk, gv) (Nd BLACK l (p, pk, pv) r)))" using s2(2) by simp
  obtain s3 where s3: "set_color RED g s2 = Some s3"
      "wf s3 (plug gs (Nd RED (Nd BLACK ul (y, yk, yv) ur) (g, gk, gv) (Nd BLACK l (p, pk, pv) r)))" "sim s2 s3"
    using set_color_at [OF W2] by blast
  have "insert_fixup_body s z = Some (s3, g)"
    using fld_at(4) [OF wf] fld_at [OF W0] fld_at [OF Wg] fld_at(1) [OF Wu] s1(1) s2(1) s3(1) f(3) u pu
    by (simp add: insert_fixup_body_def)
  then show ?thesis using s3(2) f(2) u sim_trans [OF sim_trans [OF s1(3) s2(3)] s3(3)] by auto
qed

lemma insert_body_right_outer:
  assumes wf: "wf s (plug (FR RED t (p, pk, pv) # FR gc u (g, gk, gv) # gs) (Nd zc za (z, zk, zv) zb))"
    and black: "col u = BLACK"
  shows "\<exists>s'. insert_fixup_body s z = Some (s', z) \<and> sim s s' \<and>
    wf s' (plug (FR BLACK (Nd RED u (g, gk, gv) t) (p, pk, pv) # gs) (Nd zc za (z, zk, zv) zb))"
proof -
  have W0: "wf s (plug (FR gc u (g, gk, gv) # gs) (Nd RED t (p, pk, pv) (Nd zc za (z, zk, zv) zb)))" using wf by simp
  have Wg: "wf s (plug gs (Nd gc u (g, gk, gv) (Nd RED t (p, pk, pv) (Nd zc za (z, zk, zv) zb))))" using W0 by simp
  have Wu: "wf s (plug (FL gc (g, gk, gv) (Nd RED t (p, pk, pv) (Nd zc za (z, zk, zv) zb)) # gs) u)" using W0 by simp
  have neq: "p \<noteq> ptr (nil s) u" "ptr (nil s) u \<noteq> p" "z \<noteq> ptr (nil s) t" "ptr (nil s) t \<noteq> z"
    using Wu by (auto simp: wf_plug dest: ptr_neq)
  obtain s1 where s1: "set_color BLACK p s = Some s1"
      "wf s1 (plug (FR gc u (g, gk, gv) # gs) (Nd BLACK t (p, pk, pv) (Nd zc za (z, zk, zv) zb)))" "sim s s1"
    using set_color_at [OF W0] by blast
  have W1: "wf s1 (plug gs (Nd gc u (g, gk, gv) (Nd BLACK t (p, pk, pv) (Nd zc za (z, zk, zv) zb))))" using s1(2) by simp
  obtain s2 where s2: "set_color RED g s1 = Some s2"
      "wf s2 (plug gs (Nd RED u (g, gk, gv) (Nd BLACK t (p, pk, pv) (Nd zc za (z, zk, zv) zb))))" "sim s1 s2"
    using set_color_at [OF W1] by blast
  obtain s3 where s3: "rbtree_left_rotate s2 g = Some s3" "sim s2 s3"
      "wf s3 (plug gs (Nd BLACK (Nd RED u (g, gk, gv) t) (p, pk, pv) (Nd zc za (z, zk, zv) zb)))"
    using left_rotate_at [OF s2(2)] by blast
  have "insert_fixup_body s z = Some (s3, z)"
    using fld_at(4) [OF wf] fld_at [OF W0] fld_at [OF Wg] col_at [OF Wu] black s1(1) s2(1) s3(1)
      fld_at(4) [OF s1(2)] neq
    by (simp add: insert_fixup_body_def)
  then show ?thesis using s3(3) sim_trans [OF sim_trans [OF s1(3) s2(3)] s3(2)] by auto
qed

lemma insert_body_right_inner:
  assumes wf: "wf s (plug (FL RED (p, pk, pv) t # FR gc u (g, gk, gv) # gs) (Nd zc b (z, zk, zv) a))"
    and black: "col u = BLACK"
  shows "\<exists>s'. insert_fixup_body s z = Some (s', p) \<and> sim s s' \<and>
    wf s' (plug (FR BLACK (Nd RED u (g, gk, gv) b) (z, zk, zv) # gs) (Nd RED a (p, pk, pv) t))"
proof -
  have W0: "wf s (plug (FR gc u (g, gk, gv) # gs) (Nd RED (Nd zc b (z, zk, zv) a) (p, pk, pv) t))" using wf by simp
  have Wg: "wf s (plug gs (Nd gc u (g, gk, gv) (Nd RED (Nd zc b (z, zk, zv) a) (p, pk, pv) t)))" using W0 by simp
  have Wu: "wf s (plug (FL gc (g, gk, gv) (Nd RED (Nd zc b (z, zk, zv) a) (p, pk, pv) t) # gs) u)" using W0 by simp
  have neq: "p \<noteq> ptr (nil s) u" "ptr (nil s) u \<noteq> p" using Wu by (auto simp: wf_plug dest: ptr_neq)
  obtain s0 where s0: "rbtree_right_rotate s p = Some s0" "sim s s0"
      "wf s0 (plug (FR gc u (g, gk, gv) # gs) (Nd zc b (z, zk, zv) (Nd RED a (p, pk, pv) t)))"
    using right_rotate_at [OF W0] by blast
  have Wp: "wf s0 (plug (FR zc b (z, zk, zv) # FR gc u (g, gk, gv) # gs) (Nd RED a (p, pk, pv) t))"
    using s0(3) by simp
  obtain s1 where s1: "set_color BLACK z s0 = Some s1" 
      "wf s1 (plug (FR gc u (g, gk, gv) # gs) (Nd BLACK b (z, zk, zv) (Nd RED a (p, pk, pv) t)))" "sim s0 s1"
    using set_color_at [OF s0(3)] by blast
  have W1: "wf s1 (plug gs (Nd gc u (g, gk, gv) (Nd BLACK b (z, zk, zv) (Nd RED a (p, pk, pv) t))))" using s1(2) by simp
  obtain s2 where s2: "set_color RED g s1 = Some s2"
      "wf s2 (plug gs (Nd RED u (g, gk, gv) (Nd BLACK b (z, zk, zv) (Nd RED a (p, pk, pv) t))))" "sim s1 s2"
    using set_color_at [OF W1] by blast
  obtain s3 where s3: "rbtree_left_rotate s2 g = Some s3" "sim s2 s3"
      "wf s3 (plug gs (Nd BLACK (Nd RED u (g, gk, gv) b) (z, zk, zv) (Nd RED a (p, pk, pv) t)))"
    using left_rotate_at [OF s2(2)] by blast
  have "insert_fixup_body s z = Some (s3, p)"
    using fld_at(4) [OF wf] fld_at [OF W0] fld_at [OF Wg] col_at [OF Wu] black s0(1) s1(1) s2(1) s3(1)
      fld_at(4) [OF Wp] fld_at(4) [OF s1(2)] neq
    by (simp add: insert_fixup_body_def)
  then show ?thesis using s3(3) sim_trans [OF sim_trans [OF sim_trans [OF s0(2) s1(3)] s2(3)] s3(2)] by auto
qed

lemma insert_body_left:
  assumes wf: "wf s (plug (f # FL gc (g, gk, gv) u # gs) (Nd zc za (zp, zk, zv) zb))" and red: "fcol f = RED"
    and body: "ins_body f (FL gc (g, gk, gv) u) gs (Nd zc za (zp, zk, zv) zb) = (fs', z')"
  shows "\<exists>s'. insert_fixup_body s (ptr (nil s) (Nd zc za (zp, zk, zv) zb)) = Some (s', ptr (nil s) z') \<and>
    wf s' (plug fs' z') \<and> sim s s'"
proof (cases "col u = RED")
  case True
  from insert_body_left_red [OF wf red True] show ?thesis using body True by auto
next
  case False
  then have u: "col u = BLACK" by simp
  show ?thesis
  proof (cases f)
    case (FL fc fe t)
    then obtain p pk pv where f: "f = FL RED (p, pk, pv) t" using red by (cases fe) auto
    from insert_body_left_outer [OF wf [unfolded f] u] show ?thesis using body u by (auto simp: f)
  next
    case (FR fc t fe)
    then obtain p pk pv where f: "f = FR RED t (p, pk, pv)" using red by (cases fe) auto
    from insert_body_left_inner [OF wf [unfolded f] u] show ?thesis using body u by (auto simp: f)
  qed
qed

lemma insert_body_right:
  assumes wf: "wf s (plug (f # FR gc u (g, gk, gv) # gs) (Nd zc za (zp, zk, zv) zb))" and red: "fcol f = RED"
    and body: "ins_body f (FR gc u (g, gk, gv)) gs (Nd zc za (zp, zk, zv) zb) = (fs', z')"
  shows "\<exists>s'. insert_fixup_body s (ptr (nil s) (Nd zc za (zp, zk, zv) zb)) = Some (s', ptr (nil s) z') \<and>
    wf s' (plug fs' z') \<and> sim s s'"
proof (cases "col u = RED")
  case True
  from insert_body_right_red [OF wf red True] show ?thesis using body True by auto
next
  case False
  then have u: "col u = BLACK" by simp
  show ?thesis
  proof (cases f)
    case (FR fc t fe)
    then obtain p pk pv where f: "f = FR RED t (p, pk, pv)" using red by (cases fe) auto
    from insert_body_right_outer [OF wf [unfolded f] u] show ?thesis using body u by (auto simp: f)
  next
    case (FL fc fe t)
    then obtain p pk pv where f: "f = FL RED (p, pk, pv) t" using red by (cases fe) auto
    from insert_body_right_inner [OF wf [unfolded f] u] show ?thesis using body u by (auto simp: f)
  qed
qed

lemma insert_body_at:
  assumes wf: "wf s (plug (f # gf # gs) z)" and z: "z \<noteq> Lf" and red: "fcol f = RED"
    and body: "ins_body f gf gs z = (fs', z')"
  shows "\<exists>s'. insert_fixup_body s (ptr (nil s) z) = Some (s', ptr (nil s) z') \<and>
    wf s' (plug fs' z') \<and> sim s s'"
proof -
  obtain zc za zp zk zv zb where zN: "z = Nd zc za (zp, zk, zv) zb"
    using z by (cases z) (auto intro: prod_cases3)
  show ?thesis
  proof (cases gf)
    case (FL gc ge u)
    then obtain g gk gv where g: "gf = FL gc (g, gk, gv) u" by (cases ge) auto
    show ?thesis using insert_body_left [OF wf [unfolded g zN] red] body unfolding g zN by blast
  next
    case (FR gc u ge)
    then obtain g gk gv where g: "gf = FR gc u (g, gk, gv)" by (cases ge) auto
    show ?thesis using insert_body_right [OF wf [unfolded g zN] red] body unfolding g zN by blast
  qed
qed

section \<open>The fix-up loop\<close>

lemma ctop_col_at: "wf s (plug fs t) \<Longrightarrow> fld n_color s (ctop (nil s) fs) = Some (ccol fs)"
  by (cases "(nil s, fs)" rule: ctop.cases) (auto simp: wf_plug fld_def)

lemma parent_at: "wf s (plug fs t) \<Longrightarrow> t \<noteq> Lf \<Longrightarrow> fld n_parent s (ptr (nil s) t) = Some (ctop (nil s) fs)"
  by (cases "(nil s, t)" rule: ptr.cases) (auto simp: wf_plug fld_def)

lemma insert_loop_at:
  "wf s (plug fs z) \<Longrightarrow> ins_inv fs z \<Longrightarrow>
   \<exists>s'. insert_fixup_loop s (ptr (nil s) z) = Some s' \<and> wf s' (ins_loop fs z) \<and> sim s s'"
proof (induction fs z arbitrary: s rule: ins_loop.induct)
  case (1 z)
  then have "z \<noteq> Lf" by (auto simp: ins_inv_def)
  from parent_at [OF 1(1) this] ctop_col_at [OF 1(1)] 1(1) show ?case
    by (subst insert_fixup_loop.simps) simp
next
  case (2 f z)
  then have z: "z \<noteq> Lf" and f: "fcol f = BLACK" by (auto simp: ins_inv_def)
  from parent_at [OF 2(1) z] ctop_col_at [OF 2(1)] 2(1) f show ?case
    by (subst insert_fixup_loop.simps) simp
next
  case (3 f g gs z)
  then have z: "z \<noteq> Lf" by (auto simp: ins_inv_def)
  show ?case
  proof (cases "fcol f = RED")
    case False
    then show ?thesis using parent_at [OF 3(2) z] ctop_col_at [OF 3(2)] 3(2)
      by (subst insert_fixup_loop.simps) simp
  next
    case True
    obtain fs' z' where b: "ins_body f g gs z = (fs', z')" by fastforce
    from insert_body_at [OF 3(2) z True b] obtain s1 where
      s1: "insert_fixup_body s (ptr (nil s) z) = Some (s1, ptr (nil s) z')" "wf s1 (plug fs' z')" "sim s s1"
      by blast
    have n: "nil s1 = nil s" using s1(3) by (simp add: sim_def)
    from 3(1) [OF True b [symmetric] s1(2) ins_body_inv [OF 3(3) True b]] obtain s2 where
      s2: "insert_fixup_loop s1 (ptr (nil s) z') = Some s2" "wf s2 (ins_loop fs' z')" "sim s1 s2"
      using n by auto
    then show ?thesis
      using parent_at [OF 3(2) z] ctop_col_at [OF 3(2)] True b s1(1) sim_trans [OF s1(3) s2(3)]
      by (subst insert_fixup_loop.simps) auto
  qed
qed

lemma set_root_black:
  assumes wf: "wf s t" and t: "t \<noteq> Lf"
  shows "\<exists>s'. set_color BLACK (root s) s = Some s' \<and> wf s' (paint BLACK t) \<and> sim s s'"
proof -
  obtain c l a k v r where tN: "t = Nd c l (a, k, v) r" using t by (cases t) (auto intro: prod_cases3)
  have "wf s (plug [] (Nd c l (a, k, v) r))" using wf tN by simp
  from set_color_at [OF this, of BLACK] wf_root_ptr [OF wf] show ?thesis by (simp add: tN)
qed

lemma insert_fixup_at:
  assumes wf: "wf s (plug fs z)" and inv: "ins_inv fs z"
  shows "\<exists>s'. rbtree_insert_fixup s (ptr (nil s) z) = Some s' \<and> wf s' (ins_fix fs z) \<and> sim s s'"
proof -
  from insert_loop_at [OF assms] obtain s1 where
    s1: "insert_fixup_loop s (ptr (nil s) z) = Some s1" "wf s1 (ins_loop fs z)" "sim s s1" by blast
  have "z \<noteq> Lf" using inv by (auto simp: ins_inv_def)
  then have "ins_loop fs z \<noteq> Lf" using ins_loop_inorder [of z fs] by (auto simp: inorder_plug) (cases z; auto)
  from set_root_black [OF s1(2) this] s1 show ?thesis
    by (auto simp: rbtree_insert_fixup_def ins_fix_def intro: sim_trans)
qed

section \<open>Searching\<close>

definition kcmp :: "rb_st \<Rightarrow> string \<Rightarrow> item \<Rightarrow> int" where
  "kcmp s key = (\<lambda>(a, k, v). strcmp key (the (rd_str (rh s) k)))"

definition keys_ok :: "rb_st \<Rightarrow> item rbt \<Rightarrow> bool" where
  "keys_ok s t \<longleftrightarrow> (\<forall>(a, k, v) \<in> set (inorder t). rd_str (rh s) k \<noteq> None)"

lemma keys_ok_Nd [simp]:
  "keys_ok s (Nd c l (a, k, v) r) \<longleftrightarrow> rd_str (rh s) k \<noteq> None \<and> keys_ok s l \<and> keys_ok s r"
  by (fastforce simp: keys_ok_def)

lemma search_loop_at:
  "wf s (plug fs t) \<Longrightarrow> keys_ok s t \<Longrightarrow>
   search_loop s key (ptr (nil s) t) = Some (ptr (nil s) (snd (zsearch (kcmp s key) fs t)))"
proof (induction "kcmp s key" fs t rule: zsearch.induct)
  case (1 fs)
  then show ?case by (subst search_loop.simps) simp
next
  case (2 fs c l e r)
  obtain a k v where e: "e = (a, k, v)" by (cases e) auto
  obtain K where K: "rd_str (rh s) k = Some K" using 2(4) e by auto
  have l: "wf s (plug (FL c e r # fs) l)" and r: "wf s (plug (FR c l e # fs) r)" using 2(3) by simp_all
  have a: "a \<noteq> nil s" using 2(3) e by (auto simp: wf_plug)
  note at = fld_at [OF 2(3) [unfolded e]]
  show ?case
  proof (cases rule: strcmp_cases [of key K])
    case less
    with 2(1) l 2(4) e K have "search_loop s key (ptr (nil s) l) =
        Some (ptr (nil s) (snd (zsearch (kcmp s key) (FL c e r # fs) l)))" by (simp add: kcmp_def)
    then show ?thesis using at a K less by (subst search_loop.simps) (simp add: e kcmp_def)
  next
    case greater
    with 2(2) r 2(4) e K have "search_loop s key (ptr (nil s) r) =
        Some (ptr (nil s) (snd (zsearch (kcmp s key) (FR c l e # fs) r)))" by (simp add: kcmp_def)
    then show ?thesis using at a K greater by (subst search_loop.simps) (simp add: e kcmp_def)
  next
    case equal
    then show ?thesis using at a K by (subst search_loop.simps) (simp add: e kcmp_def)
  qed
qed

lemma insert_walk_at:
  assumes z: "fld n_key s z = Some zk" "rd_str (rh s) zk = Some key"
  shows "wf s (plug fs t) \<Longrightarrow> keys_ok s t \<Longrightarrow>
   insert_walk s z (ctop (nil s) fs) (ptr (nil s) t) =
     (case zsearch (kcmp s key) fs t of (fs', t') \<Rightarrow>
        Some (if t' = Lf then Some (ctop (nil s) fs') else None))"
proof (induction "kcmp s key" fs t rule: zsearch.induct)
  case (1 fs)
  then show ?case by (subst insert_walk.simps) simp
next
  case (2 fs c l e r)
  obtain a k v where e: "e = (a, k, v)" by (cases e) auto
  obtain K where K: "rd_str (rh s) k = Some K" using 2(4) e by auto
  have l: "wf s (plug (FL c e r # fs) l)" and r: "wf s (plug (FR c l e # fs) r)" using 2(3) by simp_all
  have a: "a \<noteq> nil s" using 2(3) e by (auto simp: wf_plug)
  note at = fld_at [OF 2(3) [unfolded e]]
  show ?case
  proof (cases rule: strcmp_cases [of key K])
    case less
    with 2(1) l 2(4) e K have "insert_walk s z a (ptr (nil s) l) =
        (case zsearch (kcmp s key) (FL c e r # fs) l of (fs', t') \<Rightarrow>
          Some (if t' = Lf then Some (ctop (nil s) fs') else None))" by (simp add: kcmp_def)
    then show ?thesis using at a K less z by (subst insert_walk.simps) (simp add: e kcmp_def key_cmp_def)
  next
    case greater
    with 2(2) r 2(4) e K have "insert_walk s z a (ptr (nil s) r) =
        (case zsearch (kcmp s key) (FR c l e # fs) r of (fs', t') \<Rightarrow>
          Some (if t' = Lf then Some (ctop (nil s) fs') else None))" by (simp add: kcmp_def)
    then show ?thesis using at a K greater z by (subst insert_walk.simps) (simp add: e kcmp_def key_cmp_def)
  next
    case equal
    then show ?thesis using at a K z by (subst insert_walk.simps) (simp add: e kcmp_def key_cmp_def)
  qed
qed

section \<open>Linking the new node\<close>

lemma zsearch_top:
  "zsearch cmp fs t = (fs', Lf) \<Longrightarrow> fs' \<noteq> fs \<Longrightarrow>
   \<exists>f gs. fs' = f # gs \<and> (case f of FL c e r \<Rightarrow> cmp e < 0 | FR c l e \<Rightarrow> cmp e > 0)"
proof (induction cmp fs t rule: zsearch.induct)
  case (2 cmp fs c l e r)
  consider (lt) "cmp e < 0" | (gt) "cmp e > 0" | (eq) "cmp e = 0" by linarith
  then show ?case
  proof cases
    case lt
    then show ?thesis using 2 by (cases "fs' = FL c e r # fs") auto
  next
    case gt
    then show ?thesis using 2 by (cases "fs' = FR c l e # fs") auto
  next
    case eq
    then show ?thesis using 2 by simp
  qed
qed simp

text \<open>The statements of \<open>rbtree_insert\<close> between the walk and the fix-up.\<close>

definition link :: "rb_st \<Rightarrow> addr \<Rightarrow> addr \<Rightarrow> rb_st option" where
  "link s z y = do {
     s \<leftarrow> upd (\<lambda>n. n\<lparr>n_parent := y\<rparr>) z s;
     s \<leftarrow> (if y = nil s then Some (set_root z s)
          else do {
            zk \<leftarrow> fld n_key s z;
            yk \<leftarrow> fld n_key s y;
            c \<leftarrow> key_cmp s zk yk;
            if c < 0 then upd (\<lambda>n. n\<lparr>n_left := z\<rparr>) y s
            else upd (\<lambda>n. n\<lparr>n_right := z\<rparr>) y s });
     s \<leftarrow> upd (\<lambda>n. n\<lparr>n_left := nil s\<rparr>) z s;
     s \<leftarrow> upd (\<lambda>n. n\<lparr>n_right := nil s\<rparr>) z s;
     set_color RED z s }"

lemma rbtree_insert_link:
  "rbtree_insert s z = do {
     w \<leftarrow> insert_walk s z (nil s) (root s);
     case w of None \<Rightarrow> Some s | Some y \<Rightarrow> do { s \<leftarrow> link s z y; rbtree_insert_fixup s z } }"
  by (simp add: rbtree_insert_def link_def cong: option.case_cong)

lemma rd_str_put [simp]: "nmap s p \<noteq> None \<Longrightarrow> rd_str (rh (put p n s)) = rd_str (rh s)"
  by (auto simp: put_def rd_obj_def rd_str_def fun_eq_iff split: option.splits cell.splits)

lemma link_at:
  assumes wf: "wf s (plug fs Lf)" and z: "nmap s z = Some nz" "z \<noteq> nil s" "z \<notin> set (caddrs fs)"
    and key: "rd_str (rh s) (n_key nz) = Some key" and ok: "keys_ok s (plug fs Lf)"
    and top: "case fs of [] \<Rightarrow> True
      | FL c e r # gs \<Rightarrow> kcmp s key e < 0 | FR c l e # gs \<Rightarrow> kcmp s key e > 0"
  shows "\<exists>s'. link s z (ctop (nil s) fs) = Some s' \<and>
    wf s' (plug fs (Nd RED Lf (z, n_key nz, n_value nz) Lf)) \<and> sim s s'"
proof -
  from wf obtain n where n: "nmap s (nil s) = Some n" "n_color n = BLACK" by (auto simp: wf_plug)
  show ?thesis
  proof (cases "(nil s, fs)" rule: ctop.cases)
    case (1 nl)
    then show ?thesis
      using wf n z unfolding wf_plug by (simp add: link_def upd_eq wf_plug set_color_def)
  next
    case (2 nl c p pk pv r gs)
    then have neq: "p \<noteq> z" "z \<noteq> p" "p \<noteq> nl" using z wf by (auto simp: wf_plug)
    obtain K where K: "rd_str (rh s) pk = Some K"
      using ok 2 by (auto simp: keys_ok_def inorder_plug)
    then have "strcmp key K < 0" using top 2 by (simp add: kcmp_def)
    then show ?thesis
      using 2 wf n z neq K key unfolding wf_plug
      by (simp add: link_def upd_eq fld_def wf_plug set_color_def key_cmp_def)
  next
    case (3 nl c l p pk pv gs)
    then have neq: "p \<noteq> z" "z \<noteq> p" "p \<noteq> nl" using z wf by (auto simp: wf_plug)
    obtain K where K: "rd_str (rh s) pk = Some K"
      using ok 3 by (auto simp: keys_ok_def inorder_plug)
    then have "\<not> strcmp key K < 0" using top 3 by (simp add: kcmp_def)
    then show ?thesis
      using 3 wf n z neq K key unfolding wf_plug
      by (simp add: link_def upd_eq fld_def wf_plug set_color_def key_cmp_def)
  qed
qed

lemma rbtree_insert_at:
  assumes wf: "wf s t" and rb: "is_rbt t" and ok: "keys_ok s t"
    and z: "nmap s z = Some nz" "z \<noteq> nil s" "z \<notin> set (addrs t)"
    and key: "rd_str (rh s) (n_key nz) = Some key"
    and absent: "zsearch (kcmp s key) [] t = (fs, Lf)"
  shows "\<exists>s'. rbtree_insert s z = Some s' \<and> sim s s' \<and>
    wf s' (ins_fix fs (Nd RED Lf (z, n_key nz, n_value nz) Lf))"
proof -
  from plug_zsearch [OF absent] have t: "t = plug fs Lf" by simp
  have walk: "insert_walk s z (nil s) (root s) = Some (Some (ctop (nil s) fs))"
    using insert_walk_at [of s z "n_key nz" key "[]" t] wf ok key absent fld_nmap [OF z(1), of n_key]
      wf_root_ptr [OF wf] by simp
  have zc: "z \<notin> set (caddrs fs)" using z(3) by (simp add: t set_plug)
  have top: "case fs of [] \<Rightarrow> True
      | FL c e r # gs \<Rightarrow> kcmp s key e < 0 | FR c l e # gs \<Rightarrow> kcmp s key e > 0"
    using zsearch_top [OF absent] by (auto split: list.split frame.split)
  from link_at [OF wf [unfolded t] z(1,2) zc key ok [unfolded t] top] obtain s1 where
    s1: "link s z (ctop (nil s) fs) = Some s1" "sim s s1"
      "wf s1 (plug fs (Nd RED Lf (z, n_key nz, n_value nz) Lf))" by blast
  from insert_fixup_at [OF s1(3) ins_inv_leaf [OF rb [unfolded t]]] obtain s2 where
    s2: "rbtree_insert_fixup s1 z = Some s2" "sim s1 s2"
      "wf s2 (ins_fix fs (Nd RED Lf (z, n_key nz, n_value nz) Lf))" by auto
  have "rbtree_insert s z = Some s2" using walk s1(1) s2(1) by (simp add: rbtree_insert_link)
  then show ?thesis using s2 sim_trans [OF s1(2) s2(2)] by blast
qed

end

