(* ===== verification/KV_RBTree_Delete.thy ===== *)
theory KV_RBTree_Delete
  imports KV_RBTree_Insert
begin

text \<open>
  Deletion from the pointer tree refines the zipper functions of RB_Zipper.  The position \<open>x\<close>
  may be the sentinel, whose parent pointer the code sets before the loop starts and reads in it;
  that pointer is part of what has to be carried along.
\<close>

lemma par_keep:
  assumes "wf s (plug fs x)" "fld n_parent s (ptr (nil s) x) = Some (ctop (nil s) fs)"
    and "wf s' (plug fs' x)" "sim s s'" "ctop (nil s) fs' = ctop (nil s) fs"
  shows "fld n_parent s' (ptr (nil s) x) = Some (ctop (nil s) fs)"
proof (cases "x = Lf")
  case True
  with assms show ?thesis by (auto simp: sim_def fld_def)
next
  case False
  from parent_at [OF assms(3) this] assms show ?thesis by (simp add: sim_def)
qed

lemma wf_root_sim: "wf s' t \<Longrightarrow> sim s s' \<Longrightarrow> root s' = ptr (nil s) t"
  by (simp add: wf_def sim_def)

section \<open>One iteration of the fix-up\<close>

text \<open>The left half of the loop body, from the point where the sibling \<open>w\<close> is black.\<close>

definition del_tail_left :: "rb_st \<Rightarrow> addr \<Rightarrow> addr \<Rightarrow> (rb_st \<times> addr) option" where
  "del_tail_left s x w = do {
     wl \<leftarrow> fld n_left s w;
     wlc \<leftarrow> fld n_color s wl;
     wr \<leftarrow> fld n_right s w;
     wrc \<leftarrow> fld n_color s wr;
     if wlc = BLACK \<and> wrc = BLACK
     then do {
       s \<leftarrow> set_color RED w s;
       p \<leftarrow> fld n_parent s x;
       Some (s, p) }
     else do {
       (s, w) \<leftarrow> (if wrc = BLACK
          then do {
            s \<leftarrow> set_color BLACK wl s;
            s \<leftarrow> set_color RED w s;
            s \<leftarrow> rbtree_right_rotate s w;
            p \<leftarrow> fld n_parent s x;
            w \<leftarrow> fld n_right s p;
            Some (s, w) }
          else Some (s, w));
       p \<leftarrow> fld n_parent s x;
       pc \<leftarrow> fld n_color s p;
       s \<leftarrow> set_color pc w s;
       s \<leftarrow> set_color BLACK p s;
       wr \<leftarrow> fld n_right s w;
       s \<leftarrow> set_color BLACK wr s;
       s \<leftarrow> rbtree_left_rotate s p;
       Some (s, root s) } }"

lemma del_tail_left_black:
  assumes wf: "wf s (plug (FL pc (p, pk, pv) (Nd BLACK wi (w, wk, wv) wo) # fs) x)"
    and par: "fld n_parent s (ptr (nil s) x) = Some p" and c: "col wi = BLACK" "col wo = BLACK"
  shows "\<exists>s'. del_tail_left s (ptr (nil s) x) w = Some (s', p) \<and> sim s s' \<and>
    wf s' (plug fs (Nd pc x (p, pk, pv) (Nd RED wi (w, wk, wv) wo)))"
proof -
  have Ww: "wf s (plug (FR pc x (p, pk, pv) # fs) (Nd BLACK wi (w, wk, wv) wo))" using wf by simp
  have Wi: "wf s (plug (FL BLACK (w, wk, wv) wo # FR pc x (p, pk, pv) # fs) wi)" using wf by simp
  have Wo: "wf s (plug (FR BLACK wi (w, wk, wv) # FR pc x (p, pk, pv) # fs) wo)" using wf by simp
  obtain s1 where s1: "set_color RED w s = Some s1" "sim s s1"
      "wf s1 (plug (FR pc x (p, pk, pv) # fs) (Nd RED wi (w, wk, wv) wo))"
    using set_color_at [OF Ww] by blast
  have "fld n_parent s1 (ptr (nil s) x) = Some p"
    using par_keep [of s "FL pc (p, pk, pv) (Nd BLACK wi (w, wk, wv) wo) # fs" x s1 "FL pc (p, pk, pv) (Nd RED wi (w, wk, wv) wo) # fs"]
      wf s1 par by simp
  then show ?thesis
    using s1 fld_at [OF Ww] col_at [OF Wi] col_at [OF Wo] c by (simp add: del_tail_left_def)
qed

lemma del_tail_left_outer:
  assumes wf: "wf s (plug (FL pc (p, pk, pv) (Nd BLACK wi (w, wk, wv) (Nd RED ol (b, bk, bv) orr)) # fs) x)"
    and par: "fld n_parent s (ptr (nil s) x) = Some p"
  shows "\<exists>s' y. del_tail_left s (ptr (nil s) x) w = Some (s', y) \<and> sim s s' \<and> y = root s' \<and>
    wf s' (plug fs (Nd pc (Nd BLACK x (p, pk, pv) wi) (w, wk, wv) (Nd BLACK ol (b, bk, bv) orr)))"
proof -
  have Ww: "wf s (plug (FR pc x (p, pk, pv) # fs) (Nd BLACK wi (w, wk, wv) (Nd RED ol (b, bk, bv) orr)))" using wf by simp
  have Wi: "wf s (plug (FL BLACK (w, wk, wv) (Nd RED ol (b, bk, bv) orr) # FR pc x (p, pk, pv) # fs) wi)" using wf by simp
  have Wo: "wf s (plug (FR BLACK wi (w, wk, wv) # FR pc x (p, pk, pv) # fs) (Nd RED ol (b, bk, bv) orr))" using wf by simp
  have Wp: "wf s (plug fs (Nd pc x (p, pk, pv) (Nd BLACK wi (w, wk, wv) (Nd RED ol (b, bk, bv) orr))))" using wf by simp
  obtain s1 where s1: "set_color pc w s = Some s1" "sim s s1"
      "wf s1 (plug (FR pc x (p, pk, pv) # fs) (Nd pc wi (w, wk, wv) (Nd RED ol (b, bk, bv) orr)))"
    using set_color_at [OF Ww] by blast
  have W1: "wf s1 (plug fs (Nd pc x (p, pk, pv) (Nd pc wi (w, wk, wv) (Nd RED ol (b, bk, bv) orr))))" using s1(3) by simp
  obtain s2 where s2: "set_color BLACK p s1 = Some s2" "sim s1 s2"
      "wf s2 (plug fs (Nd BLACK x (p, pk, pv) (Nd pc wi (w, wk, wv) (Nd RED ol (b, bk, bv) orr))))"
    using set_color_at [OF W1] by blast
  have W2w: "wf s2 (plug (FR BLACK x (p, pk, pv) # fs) (Nd pc wi (w, wk, wv) (Nd RED ol (b, bk, bv) orr)))" using s2(3) by simp
  have W2: "wf s2 (plug (FR pc wi (w, wk, wv) # FR BLACK x (p, pk, pv) # fs) (Nd RED ol (b, bk, bv) orr))" using s2(3) by simp
  obtain s3 where s3: "set_color BLACK b s2 = Some s3" "sim s2 s3"
      "wf s3 (plug (FR pc wi (w, wk, wv) # FR BLACK x (p, pk, pv) # fs) (Nd BLACK ol (b, bk, bv) orr))"
    using set_color_at [OF W2] by blast
  have W3: "wf s3 (plug fs (Nd BLACK x (p, pk, pv) (Nd pc wi (w, wk, wv) (Nd BLACK ol (b, bk, bv) orr))))" using s3(3) by simp
  obtain s4 where s4: "rbtree_left_rotate s3 p = Some s4" "sim s3 s4"
      "wf s4 (plug fs (Nd pc (Nd BLACK x (p, pk, pv) wi) (w, wk, wv) (Nd BLACK ol (b, bk, bv) orr)))"
    using left_rotate_at [OF W3] by blast
  have n: "nil s2 = nil s" using s1(2) s2(2) by (simp add: sim_def)
  have "del_tail_left s (ptr (nil s) x) w = Some (s4, root s4)"
    using par fld_at [OF Ww] col_at [OF Wi] fld_at(1) [OF Wo] fld_at(1) [OF Wp] s1(1) s2(1) s3(1) s4(1)
      fld_at [OF W2w] n
    by (simp add: del_tail_left_def)
  then show ?thesis using s4(3) sim_trans [OF sim_trans [OF sim_trans [OF s1(2) s2(2)] s3(2)] s4(2)] by blast
qed

lemma del_tail_left_inner:
  assumes wf: "wf s (plug (FL pc (p, pk, pv) (Nd BLACK (Nd RED i1 (b, bk, bv) i2) (w, wk, wv) wo) # fs) x)"
    and par: "fld n_parent s (ptr (nil s) x) = Some p" and c: "col wo = BLACK"
  shows "\<exists>s' y. del_tail_left s (ptr (nil s) x) w = Some (s', y) \<and> sim s s' \<and> y = root s' \<and>
    wf s' (plug fs (Nd pc (Nd BLACK x (p, pk, pv) i1) (b, bk, bv) (Nd BLACK i2 (w, wk, wv) wo)))"
proof -
  have Ww: "wf s (plug (FR pc x (p, pk, pv) # fs) (Nd BLACK (Nd RED i1 (b, bk, bv) i2) (w, wk, wv) wo))" using wf by simp
  have Wi: "wf s (plug (FL BLACK (w, wk, wv) wo # FR pc x (p, pk, pv) # fs) (Nd RED i1 (b, bk, bv) i2))" using wf by simp
  have Wo: "wf s (plug (FR BLACK (Nd RED i1 (b, bk, bv) i2) (w, wk, wv) # FR pc x (p, pk, pv) # fs) wo)" using wf by simp
  obtain s1 where s1: "set_color BLACK b s = Some s1" "sim s s1"
      "wf s1 (plug (FL BLACK (w, wk, wv) wo # FR pc x (p, pk, pv) # fs) (Nd BLACK i1 (b, bk, bv) i2))"
    using set_color_at [OF Wi] by blast
  have W1: "wf s1 (plug (FR pc x (p, pk, pv) # fs) (Nd BLACK (Nd BLACK i1 (b, bk, bv) i2) (w, wk, wv) wo))" using s1(3) by simp
  obtain s2 where s2: "set_color RED w s1 = Some s2" "sim s1 s2"
      "wf s2 (plug (FR pc x (p, pk, pv) # fs) (Nd RED (Nd BLACK i1 (b, bk, bv) i2) (w, wk, wv) wo))"
    using set_color_at [OF W1] by blast
  obtain s3 where s3: "rbtree_right_rotate s2 w = Some s3" "sim s2 s3"
      "wf s3 (plug (FR pc x (p, pk, pv) # fs) (Nd BLACK i1 (b, bk, bv) (Nd RED i2 (w, wk, wv) wo)))"
    using right_rotate_at [OF s2(3)] by blast
  have sim3: "sim s s3" using s1(2) s2(2) s3(2) by (blast intro: sim_trans)
  have n3: "nil s3 = nil s" using sim3 by (simp add: sim_def)
  have par3: "fld n_parent s3 (ptr (nil s) x) = Some p"
    using par_keep [of s "FL pc (p, pk, pv) (Nd BLACK (Nd RED i1 (b, bk, bv) i2) (w, wk, wv) wo) # fs" x s3
      "FL pc (p, pk, pv) (Nd BLACK i1 (b, bk, bv) (Nd RED i2 (w, wk, wv) wo)) # fs"] wf s3(3) sim3 par by simp
  have W3: "wf s3 (plug fs (Nd pc x (p, pk, pv) (Nd BLACK i1 (b, bk, bv) (Nd RED i2 (w, wk, wv) wo))))" using s3(3) by simp
  obtain s4 where s4: "set_color pc b s3 = Some s4" "sim s3 s4"
      "wf s4 (plug (FR pc x (p, pk, pv) # fs) (Nd pc i1 (b, bk, bv) (Nd RED i2 (w, wk, wv) wo)))"
    using set_color_at [OF s3(3)] by blast
  have W4: "wf s4 (plug fs (Nd pc x (p, pk, pv) (Nd pc i1 (b, bk, bv) (Nd RED i2 (w, wk, wv) wo))))" using s4(3) by simp
  obtain s5 where s5: "set_color BLACK p s4 = Some s5" "sim s4 s5"
      "wf s5 (plug fs (Nd BLACK x (p, pk, pv) (Nd pc i1 (b, bk, bv) (Nd RED i2 (w, wk, wv) wo))))"
    using set_color_at [OF W4] by blast
  have W5b: "wf s5 (plug (FR BLACK x (p, pk, pv) # fs) (Nd pc i1 (b, bk, bv) (Nd RED i2 (w, wk, wv) wo)))" using s5(3) by simp
  have W5: "wf s5 (plug (FR pc i1 (b, bk, bv) # FR BLACK x (p, pk, pv) # fs) (Nd RED i2 (w, wk, wv) wo))" using s5(3) by simp
  obtain s6 where s6: "set_color BLACK w s5 = Some s6" "sim s5 s6"
      "wf s6 (plug (FR pc i1 (b, bk, bv) # FR BLACK x (p, pk, pv) # fs) (Nd BLACK i2 (w, wk, wv) wo))"
    using set_color_at [OF W5] by blast
  have W6: "wf s6 (plug fs (Nd BLACK x (p, pk, pv) (Nd pc i1 (b, bk, bv) (Nd BLACK i2 (w, wk, wv) wo))))" using s6(3) by simp
  obtain s7 where s7: "rbtree_left_rotate s6 p = Some s7" "sim s6 s7"
      "wf s7 (plug fs (Nd pc (Nd BLACK x (p, pk, pv) i1) (b, bk, bv) (Nd BLACK i2 (w, wk, wv) wo)))"
    using left_rotate_at [OF W6] by blast
  have "del_tail_left s (ptr (nil s) x) w = Some (s7, root s7)"
    using fld_at [OF Ww] fld_at(1) [OF Wi] col_at [OF Wo] c s1(1) s2(1) s3(1) par3 fld_at [OF W3]
      s4(1) s5(1) fld_at [OF W5b] s6(1) s7(1)
    by (simp add: del_tail_left_def)
  moreover have "sim s s7" using sim3 s4(2) s5(2) s6(2) s7(2) by (blast intro: sim_trans)
  ultimately show ?thesis using s7(3) by blast
qed

lemma del_tail_left_at:
  assumes wf: "wf s (plug (FL pc (p, pk, pv) (Nd BLACK wi (w, wk, wv) wo) # fs) x)"
    and par: "fld n_parent s (ptr (nil s) x) = Some p"
    and body: "del_black (FL pc (p, pk, pv) (Nd BLACK wi (w, wk, wv) wo)) fs x = (fs', x')"
  shows "\<exists>s'. del_tail_left s (ptr (nil s) x) w = Some (s', ptr (nil s) x') \<and> wf s' (plug fs' x') \<and> sim s s'"
proof (cases "col wo = BLACK")
  case True
  show ?thesis
  proof (cases "col wi = BLACK")
    case wi: True
    from del_tail_left_black [OF wf par wi True] body True wi show ?thesis by auto
  next
    case False
    then obtain i1 b bk bv i2 where i: "wi = (Nd RED i1 (b, bk, bv) i2)" by (cases wi) (auto intro: prod_cases3)
    from del_tail_left_inner [OF wf [unfolded i] par True] body True i show ?thesis
      by (auto dest: wf_root_sim)
  qed
next
  case False
  then obtain ol b bk bv orr where o: "wo = (Nd RED ol (b, bk, bv) orr)" by (cases wo) (auto intro: prod_cases3)
  from del_tail_left_outer [OF wf [unfolded o] par] body o show ?thesis
    by (auto dest: wf_root_sim)
qed

text \<open>The right half of the loop body, from the point where the sibling \<open>w\<close> is black.\<close>

definition del_tail_right :: "rb_st \<Rightarrow> addr \<Rightarrow> addr \<Rightarrow> (rb_st \<times> addr) option" where
  "del_tail_right s x w = do {
     wl \<leftarrow> fld n_left s w;
     wlc \<leftarrow> fld n_color s wl;
     wr \<leftarrow> fld n_right s w;
     wrc \<leftarrow> fld n_color s wr;
     if wlc = BLACK \<and> wrc = BLACK
     then do {
       s \<leftarrow> set_color RED w s;
       p \<leftarrow> fld n_parent s x;
       Some (s, p) }
     else do {
       (s, w) \<leftarrow> (if wlc = BLACK
          then do {
            s \<leftarrow> set_color BLACK wr s;
            s \<leftarrow> set_color RED w s;
            s \<leftarrow> rbtree_left_rotate s w;
            p \<leftarrow> fld n_parent s x;
            w \<leftarrow> fld n_left s p;
            Some (s, w) }
          else Some (s, w));
       p \<leftarrow> fld n_parent s x;
       pc \<leftarrow> fld n_color s p;
       s \<leftarrow> set_color pc w s;
       s \<leftarrow> set_color BLACK p s;
       wl \<leftarrow> fld n_left s w;
       s \<leftarrow> set_color BLACK wl s;
       s \<leftarrow> rbtree_right_rotate s p;
       Some (s, root s) } }"

lemma del_tail_right_black:
  assumes wf: "wf s (plug (FR pc (Nd BLACK wo (w, wk, wv) wi) (p, pk, pv) # fs) x)"
    and par: "fld n_parent s (ptr (nil s) x) = Some p" and c: "col wi = BLACK" "col wo = BLACK"
  shows "\<exists>s'. del_tail_right s (ptr (nil s) x) w = Some (s', p) \<and> sim s s' \<and>
    wf s' (plug fs (Nd pc (Nd RED wo (w, wk, wv) wi) (p, pk, pv) x))"
proof -
  have Ww: "wf s (plug (FL pc (p, pk, pv) x # fs) (Nd BLACK wo (w, wk, wv) wi))" using wf by simp
  have Wi: "wf s (plug (FR BLACK wo (w, wk, wv) # FL pc (p, pk, pv) x # fs) wi)" using wf by simp
  have Wo: "wf s (plug (FL BLACK (w, wk, wv) wi # FL pc (p, pk, pv) x # fs) wo)" using wf by simp
  obtain s1 where s1: "set_color RED w s = Some s1" "sim s s1"
      "wf s1 (plug (FL pc (p, pk, pv) x # fs) (Nd RED wo (w, wk, wv) wi))"
    using set_color_at [OF Ww] by blast
  have "fld n_parent s1 (ptr (nil s) x) = Some p"
    using par_keep [of s "FR pc (Nd BLACK wo (w, wk, wv) wi) (p, pk, pv) # fs" x s1 "FR pc (Nd RED wo (w, wk, wv) wi) (p, pk, pv) # fs"]
      wf s1 par by simp
  then show ?thesis
    using s1 fld_at [OF Ww] col_at [OF Wi] col_at [OF Wo] c by (simp add: del_tail_right_def)
qed

lemma del_tail_right_outer:
  assumes wf: "wf s (plug (FR pc (Nd BLACK (Nd RED orr (b, bk, bv) ol) (w, wk, wv) wi) (p, pk, pv) # fs) x)"
    and par: "fld n_parent s (ptr (nil s) x) = Some p"
  shows "\<exists>s' y. del_tail_right s (ptr (nil s) x) w = Some (s', y) \<and> sim s s' \<and> y = root s' \<and>
    wf s' (plug fs (Nd pc (Nd BLACK orr (b, bk, bv) ol) (w, wk, wv) (Nd BLACK wi (p, pk, pv) x)))"
proof -
  have Ww: "wf s (plug (FL pc (p, pk, pv) x # fs) (Nd BLACK (Nd RED orr (b, bk, bv) ol) (w, wk, wv) wi))" using wf by simp
  have Wi: "wf s (plug (FR BLACK (Nd RED orr (b, bk, bv) ol) (w, wk, wv) # FL pc (p, pk, pv) x # fs) wi)" using wf by simp
  have Wo: "wf s (plug (FL BLACK (w, wk, wv) wi # FL pc (p, pk, pv) x # fs) (Nd RED orr (b, bk, bv) ol))" using wf by simp
  have Wp: "wf s (plug fs (Nd pc (Nd BLACK (Nd RED orr (b, bk, bv) ol) (w, wk, wv) wi) (p, pk, pv) x))" using wf by simp
  obtain s1 where s1: "set_color pc w s = Some s1" "sim s s1"
      "wf s1 (plug (FL pc (p, pk, pv) x # fs) (Nd pc (Nd RED orr (b, bk, bv) ol) (w, wk, wv) wi))"
    using set_color_at [OF Ww] by blast
  have W1: "wf s1 (plug fs (Nd pc (Nd pc (Nd RED orr (b, bk, bv) ol) (w, wk, wv) wi) (p, pk, pv) x))" using s1(3) by simp
  obtain s2 where s2: "set_color BLACK p s1 = Some s2" "sim s1 s2"
      "wf s2 (plug fs (Nd BLACK (Nd pc (Nd RED orr (b, bk, bv) ol) (w, wk, wv) wi) (p, pk, pv) x))"
    using set_color_at [OF W1] by blast
  have W2w: "wf s2 (plug (FL BLACK (p, pk, pv) x # fs) (Nd pc (Nd RED orr (b, bk, bv) ol) (w, wk, wv) wi))" using s2(3) by simp
  have W2: "wf s2 (plug (FL pc (w, wk, wv) wi # FL BLACK (p, pk, pv) x # fs) (Nd RED orr (b, bk, bv) ol))" using s2(3) by simp
  obtain s3 where s3: "set_color BLACK b s2 = Some s3" "sim s2 s3"
      "wf s3 (plug (FL pc (w, wk, wv) wi # FL BLACK (p, pk, pv) x # fs) (Nd BLACK orr (b, bk, bv) ol))"
    using set_color_at [OF W2] by blast
  have W3: "wf s3 (plug fs (Nd BLACK (Nd pc (Nd BLACK orr (b, bk, bv) ol) (w, wk, wv) wi) (p, pk, pv) x))" using s3(3) by simp
  obtain s4 where s4: "rbtree_right_rotate s3 p = Some s4" "sim s3 s4"
      "wf s4 (plug fs (Nd pc (Nd BLACK orr (b, bk, bv) ol) (w, wk, wv) (Nd BLACK wi (p, pk, pv) x)))"
    using right_rotate_at [OF W3] by blast
  have n: "nil s2 = nil s" using s1(2) s2(2) by (simp add: sim_def)
  have "del_tail_right s (ptr (nil s) x) w = Some (s4, root s4)"
    using par fld_at [OF Ww] col_at [OF Wi] fld_at(1) [OF Wo] fld_at(1) [OF Wp] s1(1) s2(1) s3(1) s4(1)
      fld_at [OF W2w] n
    by (simp add: del_tail_right_def)
  then show ?thesis using s4(3) sim_trans [OF sim_trans [OF sim_trans [OF s1(2) s2(2)] s3(2)] s4(2)] by blast
qed

lemma del_tail_right_inner:
  assumes wf: "wf s (plug (FR pc (Nd BLACK wo (w, wk, wv) (Nd RED i2 (b, bk, bv) i1)) (p, pk, pv) # fs) x)"
    and par: "fld n_parent s (ptr (nil s) x) = Some p" and c: "col wo = BLACK"
  shows "\<exists>s' y. del_tail_right s (ptr (nil s) x) w = Some (s', y) \<and> sim s s' \<and> y = root s' \<and>
    wf s' (plug fs (Nd pc (Nd BLACK wo (w, wk, wv) i2) (b, bk, bv) (Nd BLACK i1 (p, pk, pv) x)))"
proof -
  have Ww: "wf s (plug (FL pc (p, pk, pv) x # fs) (Nd BLACK wo (w, wk, wv) (Nd RED i2 (b, bk, bv) i1)))" using wf by simp
  have Wi: "wf s (plug (FR BLACK wo (w, wk, wv) # FL pc (p, pk, pv) x # fs) (Nd RED i2 (b, bk, bv) i1))" using wf by simp
  have Wo: "wf s (plug (FL BLACK (w, wk, wv) (Nd RED i2 (b, bk, bv) i1) # FL pc (p, pk, pv) x # fs) wo)" using wf by simp
  obtain s1 where s1: "set_color BLACK b s = Some s1" "sim s s1"
      "wf s1 (plug (FR BLACK wo (w, wk, wv) # FL pc (p, pk, pv) x # fs) (Nd BLACK i2 (b, bk, bv) i1))"
    using set_color_at [OF Wi] by blast
  have W1: "wf s1 (plug (FL pc (p, pk, pv) x # fs) (Nd BLACK wo (w, wk, wv) (Nd BLACK i2 (b, bk, bv) i1)))" using s1(3) by simp
  obtain s2 where s2: "set_color RED w s1 = Some s2" "sim s1 s2"
      "wf s2 (plug (FL pc (p, pk, pv) x # fs) (Nd RED wo (w, wk, wv) (Nd BLACK i2 (b, bk, bv) i1)))"
    using set_color_at [OF W1] by blast
  obtain s3 where s3: "rbtree_left_rotate s2 w = Some s3" "sim s2 s3"
      "wf s3 (plug (FL pc (p, pk, pv) x # fs) (Nd BLACK (Nd RED wo (w, wk, wv) i2) (b, bk, bv) i1))"
    using left_rotate_at [OF s2(3)] by blast
  have sim3: "sim s s3" using s1(2) s2(2) s3(2) by (blast intro: sim_trans)
  have n3: "nil s3 = nil s" using sim3 by (simp add: sim_def)
  have par3: "fld n_parent s3 (ptr (nil s) x) = Some p"
    using par_keep [of s "FR pc (Nd BLACK wo (w, wk, wv) (Nd RED i2 (b, bk, bv) i1)) (p, pk, pv) # fs" x s3
      "FR pc (Nd BLACK (Nd RED wo (w, wk, wv) i2) (b, bk, bv) i1) (p, pk, pv) # fs"] wf s3(3) sim3 par by simp
  have W3: "wf s3 (plug fs (Nd pc (Nd BLACK (Nd RED wo (w, wk, wv) i2) (b, bk, bv) i1) (p, pk, pv) x))" using s3(3) by simp
  obtain s4 where s4: "set_color pc b s3 = Some s4" "sim s3 s4"
      "wf s4 (plug (FL pc (p, pk, pv) x # fs) (Nd pc (Nd RED wo (w, wk, wv) i2) (b, bk, bv) i1))"
    using set_color_at [OF s3(3)] by blast
  have W4: "wf s4 (plug fs (Nd pc (Nd pc (Nd RED wo (w, wk, wv) i2) (b, bk, bv) i1) (p, pk, pv) x))" using s4(3) by simp
  obtain s5 where s5: "set_color BLACK p s4 = Some s5" "sim s4 s5"
      "wf s5 (plug fs (Nd BLACK (Nd pc (Nd RED wo (w, wk, wv) i2) (b, bk, bv) i1) (p, pk, pv) x))"
    using set_color_at [OF W4] by blast
  have W5b: "wf s5 (plug (FL BLACK (p, pk, pv) x # fs) (Nd pc (Nd RED wo (w, wk, wv) i2) (b, bk, bv) i1))" using s5(3) by simp
  have W5: "wf s5 (plug (FL pc (b, bk, bv) i1 # FL BLACK (p, pk, pv) x # fs) (Nd RED wo (w, wk, wv) i2))" using s5(3) by simp
  obtain s6 where s6: "set_color BLACK w s5 = Some s6" "sim s5 s6"
      "wf s6 (plug (FL pc (b, bk, bv) i1 # FL BLACK (p, pk, pv) x # fs) (Nd BLACK wo (w, wk, wv) i2))"
    using set_color_at [OF W5] by blast
  have W6: "wf s6 (plug fs (Nd BLACK (Nd pc (Nd BLACK wo (w, wk, wv) i2) (b, bk, bv) i1) (p, pk, pv) x))" using s6(3) by simp
  obtain s7 where s7: "rbtree_right_rotate s6 p = Some s7" "sim s6 s7"
      "wf s7 (plug fs (Nd pc (Nd BLACK wo (w, wk, wv) i2) (b, bk, bv) (Nd BLACK i1 (p, pk, pv) x)))"
    using right_rotate_at [OF W6] by blast
  have "del_tail_right s (ptr (nil s) x) w = Some (s7, root s7)"
    using fld_at [OF Ww] fld_at(1) [OF Wi] col_at [OF Wo] c s1(1) s2(1) s3(1) par3 fld_at [OF W3]
      s4(1) s5(1) fld_at [OF W5b] s6(1) s7(1)
    by (simp add: del_tail_right_def)
  moreover have "sim s s7" using sim3 s4(2) s5(2) s6(2) s7(2) by (blast intro: sim_trans)
  ultimately show ?thesis using s7(3) by blast
qed

lemma del_tail_right_at:
  assumes wf: "wf s (plug (FR pc (Nd BLACK wo (w, wk, wv) wi) (p, pk, pv) # fs) x)"
    and par: "fld n_parent s (ptr (nil s) x) = Some p"
    and body: "del_black (FR pc (Nd BLACK wo (w, wk, wv) wi) (p, pk, pv)) fs x = (fs', x')"
  shows "\<exists>s'. del_tail_right s (ptr (nil s) x) w = Some (s', ptr (nil s) x') \<and> wf s' (plug fs' x') \<and> sim s s'"
proof (cases "col wo = BLACK")
  case True
  show ?thesis
  proof (cases "col wi = BLACK")
    case wi: True
    from del_tail_right_black [OF wf par wi True] body True wi show ?thesis by auto
  next
    case False
    then obtain i1 b bk bv i2 where i: "wi = (Nd RED i2 (b, bk, bv) i1)" by (cases wi) (auto intro: prod_cases3)
    from del_tail_right_inner [OF wf [unfolded i] par True] body True i show ?thesis
      by (auto dest: wf_root_sim)
  qed
next
  case False
  then obtain ol b bk bv orr where o: "wo = (Nd RED orr (b, bk, bv) ol)" by (cases wo) (auto intro: prod_cases3)
  from del_tail_right_outer [OF wf [unfolded o] par] body o show ?thesis
    by (auto dest: wf_root_sim)
qed

lemma delete_fixup_body_tails:
  "delete_fixup_body s x = do {
     p \<leftarrow> fld n_parent s x;
     pl \<leftarrow> fld n_left s p;
     if x = pl
     then do {
       w \<leftarrow> fld n_right s p;
       wc \<leftarrow> fld n_color s w;
       (s, w) \<leftarrow> (if wc = RED
          then do {
            s \<leftarrow> set_color BLACK w s;
            s \<leftarrow> set_color RED p s;
            s \<leftarrow> rbtree_left_rotate s p;
            p \<leftarrow> fld n_parent s x;
            w \<leftarrow> fld n_right s p;
            Some (s, w) }
          else Some (s, w));
       del_tail_left s x w }
     else do {
       w \<leftarrow> fld n_left s p;
       wc \<leftarrow> fld n_color s w;
       (s, w) \<leftarrow> (if wc = RED
          then do {
            s \<leftarrow> set_color BLACK w s;
            s \<leftarrow> set_color RED p s;
            s \<leftarrow> rbtree_right_rotate s p;
            p \<leftarrow> fld n_parent s x;
            w \<leftarrow> fld n_left s p;
            Some (s, w) }
          else Some (s, w));
       del_tail_right s x w } }"
  by (simp only: delete_fixup_body_def del_tail_left_def del_tail_right_def)

lemma delete_body_left_red:
  assumes wf: "wf s (plug (FL pc (p, pk, pv) (Nd RED (Nd BLACK il (i, ik, iv) ir) (w, wk, wv) wo) # fs) x)"
    and par: "fld n_parent s (ptr (nil s) x) = Some p"
    and body: "del_black (FL RED (p, pk, pv) (Nd BLACK il (i, ik, iv) ir)) (FL BLACK (w, wk, wv) wo # fs) x = (fs', x')"
  shows "\<exists>s'. delete_fixup_body s (ptr (nil s) x) = Some (s', ptr (nil s) x') \<and> wf s' (plug fs' x') \<and> sim s s'"
proof -
  have Ww: "wf s (plug (FR pc x (p, pk, pv) # fs) (Nd RED (Nd BLACK il (i, ik, iv) ir) (w, wk, wv) wo))" using wf by simp
  have Wp: "wf s (plug fs (Nd pc x (p, pk, pv) (Nd RED (Nd BLACK il (i, ik, iv) ir) (w, wk, wv) wo)))" using wf by simp
  have neq: "w \<noteq> ptr (nil s) x" "ptr (nil s) x \<noteq> w" using Ww by (auto simp: wf_plug dest: ptr_neq)
  obtain s1 where s1: "set_color BLACK w s = Some s1" "sim s s1"
      "wf s1 (plug (FR pc x (p, pk, pv) # fs) (Nd BLACK (Nd BLACK il (i, ik, iv) ir) (w, wk, wv) wo))"
    using set_color_at [OF Ww] by blast
  have W1: "wf s1 (plug fs (Nd pc x (p, pk, pv) (Nd BLACK (Nd BLACK il (i, ik, iv) ir) (w, wk, wv) wo)))" using s1(3) by simp
  obtain s2 where s2: "set_color RED p s1 = Some s2" "sim s1 s2"
      "wf s2 (plug fs (Nd RED x (p, pk, pv) (Nd BLACK (Nd BLACK il (i, ik, iv) ir) (w, wk, wv) wo)))"
    using set_color_at [OF W1] by blast
  obtain s3 where s3: "rbtree_left_rotate s2 p = Some s3" "sim s2 s3"
      "wf s3 (plug fs (Nd BLACK (Nd RED x (p, pk, pv) (Nd BLACK il (i, ik, iv) ir)) (w, wk, wv) wo))"
    using left_rotate_at [OF s2(3)] by blast
  have sim3: "sim s s3" using s1(2) s2(2) s3(2) by (blast intro: sim_trans)
  have n3: "nil s3 = nil s" using sim3 by (simp add: sim_def)
  have W3: "wf s3 (plug (FL RED (p, pk, pv) (Nd BLACK il (i, ik, iv) ir) # FL BLACK (w, wk, wv) wo # fs) x)" using s3(3) by simp
  have W3p: "wf s3 (plug (FL BLACK (w, wk, wv) wo # fs) (Nd RED x (p, pk, pv) (Nd BLACK il (i, ik, iv) ir)))" using s3(3) by simp
  have par3: "fld n_parent s3 (ptr (nil s3) x) = Some p"
    using par_keep [OF wf _ W3 sim3] par n3 by simp
  from del_tail_left_at [OF W3 par3 body] obtain s4 where
    s4: "del_tail_left s3 (ptr (nil s3) x) i = Some (s4, ptr (nil s3) x')" "wf s4 (plug fs' x')" "sim s3 s4"
    by blast
  have "delete_fixup_body s (ptr (nil s) x) = Some (s4, ptr (nil s) x')"
    using par fld_at [OF Wp] fld_at(1) [OF Ww] s1(1) s2(1) s3(1) par3 fld_at(2) [OF W3p] s4(1) n3 neq
    by (simp add: delete_fixup_body_tails)
  then show ?thesis using s4(2) sim_trans [OF sim3 s4(3)] by blast
qed

lemma delete_body_left_black:
  assumes wf: "wf s (plug (FL pc (p, pk, pv) (Nd BLACK wi (w, wk, wv) wo) # fs) x)"
    and par: "fld n_parent s (ptr (nil s) x) = Some p"
    and body: "del_black (FL pc (p, pk, pv) (Nd BLACK wi (w, wk, wv) wo)) fs x = (fs', x')"
  shows "\<exists>s'. delete_fixup_body s (ptr (nil s) x) = Some (s', ptr (nil s) x') \<and> wf s' (plug fs' x') \<and> sim s s'"
proof -
  have Ww: "wf s (plug (FR pc x (p, pk, pv) # fs) (Nd BLACK wi (w, wk, wv) wo))" using wf by simp
  have Wp: "wf s (plug fs (Nd pc x (p, pk, pv) (Nd BLACK wi (w, wk, wv) wo)))" using wf by simp
  have neq: "w \<noteq> ptr (nil s) x" "ptr (nil s) x \<noteq> w" using Ww by (auto simp: wf_plug dest: ptr_neq)
  from del_tail_left_at [OF wf par body] show ?thesis
    using par fld_at [OF Wp] fld_at(1) [OF Ww] neq by (auto simp: delete_fixup_body_tails)
qed

lemma delete_body_right_red:
  assumes wf: "wf s (plug (FR pc (Nd RED wo (w, wk, wv) (Nd BLACK il (i, ik, iv) ir)) (p, pk, pv) # fs) x)"
    and par: "fld n_parent s (ptr (nil s) x) = Some p"
    and body: "del_black (FR RED (Nd BLACK il (i, ik, iv) ir) (p, pk, pv)) (FR BLACK wo (w, wk, wv) # fs) x = (fs', x')"
  shows "\<exists>s'. delete_fixup_body s (ptr (nil s) x) = Some (s', ptr (nil s) x') \<and> wf s' (plug fs' x') \<and> sim s s'"
proof -
  have Ww: "wf s (plug (FL pc (p, pk, pv) x # fs) (Nd RED wo (w, wk, wv) (Nd BLACK il (i, ik, iv) ir)))" using wf by simp
  have Wp: "wf s (plug fs (Nd pc (Nd RED wo (w, wk, wv) (Nd BLACK il (i, ik, iv) ir)) (p, pk, pv) x))" using wf by simp
  have neq: "w \<noteq> ptr (nil s) x" "ptr (nil s) x \<noteq> w" using Ww by (auto simp: wf_plug dest: ptr_neq)
  obtain s1 where s1: "set_color BLACK w s = Some s1" "sim s s1"
      "wf s1 (plug (FL pc (p, pk, pv) x # fs) (Nd BLACK wo (w, wk, wv) (Nd BLACK il (i, ik, iv) ir)))"
    using set_color_at [OF Ww] by blast
  have W1: "wf s1 (plug fs (Nd pc (Nd BLACK wo (w, wk, wv) (Nd BLACK il (i, ik, iv) ir)) (p, pk, pv) x))" using s1(3) by simp
  obtain s2 where s2: "set_color RED p s1 = Some s2" "sim s1 s2"
      "wf s2 (plug fs (Nd RED (Nd BLACK wo (w, wk, wv) (Nd BLACK il (i, ik, iv) ir)) (p, pk, pv) x))"
    using set_color_at [OF W1] by blast
  obtain s3 where s3: "rbtree_right_rotate s2 p = Some s3" "sim s2 s3"
      "wf s3 (plug fs (Nd BLACK wo (w, wk, wv) (Nd RED (Nd BLACK il (i, ik, iv) ir) (p, pk, pv) x)))"
    using right_rotate_at [OF s2(3)] by blast
  have sim3: "sim s s3" using s1(2) s2(2) s3(2) by (blast intro: sim_trans)
  have n3: "nil s3 = nil s" using sim3 by (simp add: sim_def)
  have W3: "wf s3 (plug (FR RED (Nd BLACK il (i, ik, iv) ir) (p, pk, pv) # FR BLACK wo (w, wk, wv) # fs) x)" using s3(3) by simp
  have W3p: "wf s3 (plug (FR BLACK wo (w, wk, wv) # fs) (Nd RED (Nd BLACK il (i, ik, iv) ir) (p, pk, pv) x))" using s3(3) by simp
  have par3: "fld n_parent s3 (ptr (nil s3) x) = Some p"
    using par_keep [OF wf _ W3 sim3] par n3 by simp
  from del_tail_right_at [OF W3 par3 body] obtain s4 where
    s4: "del_tail_right s3 (ptr (nil s3) x) i = Some (s4, ptr (nil s3) x')" "wf s4 (plug fs' x')" "sim s3 s4"
    by blast
  have "delete_fixup_body s (ptr (nil s) x) = Some (s4, ptr (nil s) x')"
    using par fld_at [OF Wp] fld_at(1) [OF Ww] s1(1) s2(1) s3(1) par3 fld_at(3) [OF W3p] s4(1) n3 neq
    by (simp add: delete_fixup_body_tails)
  then show ?thesis using s4(2) sim_trans [OF sim3 s4(3)] by blast
qed

lemma delete_body_right_black:
  assumes wf: "wf s (plug (FR pc (Nd BLACK wo (w, wk, wv) wi) (p, pk, pv) # fs) x)"
    and par: "fld n_parent s (ptr (nil s) x) = Some p"
    and body: "del_black (FR pc (Nd BLACK wo (w, wk, wv) wi) (p, pk, pv)) fs x = (fs', x')"
  shows "\<exists>s'. delete_fixup_body s (ptr (nil s) x) = Some (s', ptr (nil s) x') \<and> wf s' (plug fs' x') \<and> sim s s'"
proof -
  have Ww: "wf s (plug (FL pc (p, pk, pv) x # fs) (Nd BLACK wo (w, wk, wv) wi))" using wf by simp
  have Wp: "wf s (plug fs (Nd pc (Nd BLACK wo (w, wk, wv) wi) (p, pk, pv) x))" using wf by simp
  have neq: "w \<noteq> ptr (nil s) x" "ptr (nil s) x \<noteq> w" using Ww by (auto simp: wf_plug dest: ptr_neq)
  from del_tail_right_at [OF wf par body] show ?thesis
    using par fld_at [OF Wp] fld_at(1) [OF Ww] neq by (auto simp: delete_fixup_body_tails)
qed

lemma delete_body_at:
  assumes wf: "wf s (plug (f # fs) x)"
    and par: "fld n_parent s (ptr (nil s) x) = Some (ctop (nil s) (f # fs))"
    and inv: "del_inv (f # fs) x" and body: "del_body f fs x = (fs', x')"
  shows "\<exists>s'. delete_fixup_body s (ptr (nil s) x) = Some (s', ptr (nil s) x') \<and> wf s' (plug fs' x') \<and> sim s s'"
proof -
  from inv have h: "bheight (sib f) = Suc (bheight x)" by (simp add: del_inv_def)
  show ?thesis
  proof (cases f)
    case f: (FL pc pe t)
    obtain p pk pv where pe: "pe = (p, pk, pv)" by (cases pe) auto
    obtain wc wi w wk wv wo where t: "t = Nd wc wi (w, wk, wv) wo"
      using h f by (cases t) (auto intro: prod_cases3)
    show ?thesis
    proof (cases wc)
      case RED
      then obtain il i ik iv ir where wi: "wi = Nd BLACK il (i, ik, iv) ir"
        using h inv f t by (cases wi) (auto simp: del_inv_def intro: prod_cases3)
      show ?thesis
        using delete_body_left_red [OF wf [unfolded f t RED wi pe]] par body f t RED wi pe by simp
    next
      case BLACK
      show ?thesis
        using delete_body_left_black [OF wf [unfolded f t BLACK pe]] par body f t BLACK pe by simp
    qed
  next
    case f: (FR pc t pe)
    obtain p pk pv where pe: "pe = (p, pk, pv)" by (cases pe) auto
    obtain wc wi w wk wv wo where t: "t = Nd wc wo (w, wk, wv) wi"
      using h f by (cases t) (auto intro: prod_cases3)
    show ?thesis
    proof (cases wc)
      case RED
      then obtain il i ik iv ir where wi: "wi = Nd BLACK il (i, ik, iv) ir"
        using h inv f t by (cases wi) (auto simp: del_inv_def intro: prod_cases3)
      show ?thesis
        using delete_body_right_red [OF wf [unfolded f t RED wi pe]] par body f t RED wi pe by simp
    next
      case BLACK
      show ?thesis
        using delete_body_right_black [OF wf [unfolded f t BLACK pe]] par body f t BLACK pe by simp
    qed
  qed
qed

section \<open>The fix-up loop\<close>

lemma croot_in: "croot q fs = q \<or> croot q fs \<in> set (caddrs fs)"
  by (induction q fs rule: croot.induct) auto

lemma root_neq:
  assumes "wf s (plug (f # fs) x)"
  shows "root s \<noteq> ptr (nil s) x"
proof -
  have "root s = croot (ptr (nil s) (up1 f x)) fs" using assms by (simp add: wf_plug)
  then have "root s \<in> set (caddrs (f # fs))"
    using croot_in [of "ptr (nil s) (up1 f x)" fs] by (cases "(nil s, f # fs)" rule: ctop.cases) auto
  moreover have "ptr (nil s) x \<notin> set (caddrs (f # fs))"
    using assms [unfolded wf_plug] ptr_in [of "nil s" x] by auto
  ultimately show ?thesis by auto
qed

lemma put_same: "nmap s p = Some n \<Longrightarrow> put p n s = s"
  by (simp add: put_def rd_obj_Some fun_upd_idem)

text \<open>Blackening the position, which may be the sentinel.\<close>

lemma set_black_at:
  assumes wf: "wf s (plug fs x)"
  shows "\<exists>s'. set_color BLACK (ptr (nil s) x) s = Some s' \<and> wf s' (plug fs (paint BLACK x)) \<and> sim s s'"
proof (cases x)
  case Lf
  obtain n where n: "nmap s (nil s) = Some n" "n_color n = BLACK" using wf by (auto simp: wf_plug)
  then have "n\<lparr>n_color := BLACK\<rparr> = n" by simp
  then show ?thesis using Lf wf put_same [OF n(1)] by (simp add: set_color_def upd_put [OF n(1)])
next
  case (Nd c l e r)
  obtain a k v where e: "e = (a, k, v)" by (cases e) auto
  from set_color_at [OF wf [unfolded Nd e], of BLACK] show ?thesis by (simp add: Nd e)
qed

lemma del_black_not_Lf: "del_black f fs x = (fs', x') \<Longrightarrow> sib f \<noteq> Lf \<Longrightarrow> x' \<noteq> Lf"
  by (cases "(f, fs, x)" rule: del_black.cases) (auto split: if_splits rbt.splits simp: plug_not_Lf)

lemma del_body_not_Lf:
  assumes inv: "del_inv (f # fs) x" and body: "del_body f fs x = (fs', x')"
  shows "x' \<noteq> Lf"
proof -
  from inv have h: "bheight (sib f) = Suc (bheight x)" by (simp add: del_inv_def)
  then have nl: "sib f \<noteq> Lf" by auto
  show ?thesis
  proof (cases "(f, fs, x)" rule: del_body.cases)
    case (1 pc pe wl we wr fs x)
    then have "wl \<noteq> Lf" using h by auto
    then show ?thesis using 1 body del_black_not_Lf [of "FL RED pe wl"] by simp
  next
    case (2 pc wl we wr pe fs x)
    then have "wr \<noteq> Lf" using h inv by (auto simp: del_inv_def)
    then show ?thesis using 2 body del_black_not_Lf [of "FR RED wr pe"] by simp
  qed (use body nl in \<open>auto split: if_splits rbt.splits simp: plug_not_Lf\<close>)
qed

lemma delete_loop_at:
  "wf s (plug fs x) \<Longrightarrow> del_inv fs x \<Longrightarrow>
   fld n_parent s (ptr (nil s) x) = Some (ctop (nil s) fs) \<Longrightarrow>
   \<exists>s1 y s'. delete_fixup_loop s (ptr (nil s) x) = Some (s1, y) \<and> set_color BLACK y s1 = Some s' \<and>
     wf s' (del_loop fs x) \<and> sim s s'"
proof (induction fs x arbitrary: s rule: del_loop.induct)
  case (1 x)
  then have "root s = ptr (nil s) x" by (simp add: wf_def)
  with set_black_at [OF 1(1)] show ?case by (subst delete_fixup_loop.simps) auto
next
  case (2 f fs x)
  note nr = root_neq [OF 2(2)]
  show ?case
  proof (cases "col x = BLACK")
    case False
    then have "col x = RED" by simp
    with set_black_at [OF 2(2)] nr col_at [OF 2(2)] show ?thesis
      by (subst delete_fixup_loop.simps) auto
  next
    case True
    obtain fs' x' where b: "del_body f fs x = (fs', x')" by fastforce
    from delete_body_at [OF 2(2,4,3) b] obtain s1 where
      s1: "delete_fixup_body s (ptr (nil s) x) = Some (s1, ptr (nil s) x')" "wf s1 (plug fs' x')" "sim s s1"
      by blast
    have n: "nil s1 = nil s" using s1(3) by (simp add: sim_def)
    have x': "x' \<noteq> Lf" by (rule del_body_not_Lf [OF 2(3) b])
    from 2(1) [OF True b [symmetric] s1(2) del_body_inv [OF 2(3) True b] parent_at [OF s1(2) x']]
    obtain s2 y s' where
      s2: "delete_fixup_loop s1 (ptr (nil s) x') = Some (s2, y)" "set_color BLACK y s2 = Some s'"
        "wf s' (del_loop fs' x')" "sim s1 s'" using n by auto
    then show ?thesis
      using nr col_at [OF 2(2)] True b s1(1) sim_trans [OF s1(3) s2(4)]
      by (subst delete_fixup_loop.simps) auto
  qed
qed

lemma delete_fixup_at:
  assumes "wf s (plug fs x)" "del_inv fs x" "fld n_parent s (ptr (nil s) x) = Some (ctop (nil s) fs)"
  shows "\<exists>s'. rbtree_delete_fixup s (ptr (nil s) x) = Some s' \<and> wf s' (del_loop fs x) \<and> sim s s'"
  using delete_loop_at [OF assms] by (auto simp: rbtree_delete_fixup_def)

section \<open>The leftmost node\<close>

lemma mini_at:
  "wf s (plug fs t) \<Longrightarrow> t \<noteq> Lf \<Longrightarrow>
   rbtree_mini s (ptr (nil s) t) = Some (ptr (nil s) (snd (zmin fs t)))"
proof (induction fs t rule: zmin.induct)
  case (2 fs c l e r)
  obtain a k v where e: "e = (a, k, v)" by (cases e) auto
  note at = fld_at [OF 2(2) [unfolded e]]
  have nl: "ptr (nil s) l = nil s \<longleftrightarrow> l = Lf" using 2(2) by (intro ptr_nil) (simp add: wf_plug e)
  show ?case
  proof (cases "l = Lf")
    case True
    then show ?thesis using at by (subst rbtree_mini.simps) (simp add: e)
  next
    case False
    have "wf s (plug (FL c e r # fs) l)" using 2(2) by simp
    from 2(1) [OF False this False] show ?thesis
      using at nl False by (subst rbtree_mini.simps) (simp add: e)
  qed
qed simp

section \<open>Unlinking\<close>

text \<open>The frame of a deletion: as \<open>sim\<close>, but the parent pointer of the sentinel may change.\<close>

definition dsim :: "rb_st \<Rightarrow> rb_st \<Rightarrow> bool" where
  "dsim s s' \<longleftrightarrow>
     nil s' = nil s \<and> t_count (rt s') = t_count (rt s) \<and> brk (rh s') = brk (rh s) \<and> oom (rh s') = oom (rh s) \<and>
     rd_str (rh s') = rd_str (rh s) \<and> dom (cells (rh s')) = dom (cells (rh s)) \<and>
     map_option (\<lambda>n. n\<lparr>n_parent := 0\<rparr>) (nmap s' (nil s)) = map_option (\<lambda>n. n\<lparr>n_parent := 0\<rparr>) (nmap s (nil s))"

lemma sim_dsim: "sim s s' \<Longrightarrow> dsim s s'"
  by (simp add: sim_def dsim_def)

lemma dsim_trans: "dsim s s' \<Longrightarrow> dsim s' s'' \<Longrightarrow> dsim s s''"
  by (simp add: dsim_def)

lemma dsim_refl [simp]: "dsim s s"
  by (simp add: dsim_def)

lemma dsim_set_root_iff [simp]: "dsim s (set_root p t) \<longleftrightarrow> dsim s t"
  by (simp add: dsim_def)

lemma dsim_put_iff [simp]: "nmap t p \<noteq> None \<Longrightarrow> p \<noteq> nil t \<Longrightarrow> dsim s (put p n t) \<longleftrightarrow> dsim s t"
  by (auto dest!: sim_put [of t p _ n]) (auto simp: sim_def dsim_def)

lemma dsim_put_nil:
  assumes "nil t = p" "nmap t p = Some n0" "n0\<lparr>n_parent := 0\<rparr> = n\<lparr>n_parent := 0\<rparr>"
  shows "dsim s (put p n t) \<longleftrightarrow> dsim s t"
proof -
  have "dom (cells (rh (put p n t))) = dom (cells (rh t))"
    using assms(2) by (auto simp: put_def rd_obj_Some)
  then show ?thesis using assms
    by (auto simp: dsim_def) (auto simp: put_def)
qed

definition unlink :: "rb_st \<Rightarrow> addr \<Rightarrow> (rb_st \<times> addr) option" where
  "unlink s y = do {
     yl \<leftarrow> fld n_left s y;
     yr \<leftarrow> fld n_right s y;
     let x = (if yl \<noteq> nil s then yl else if yr \<noteq> nil s then yr else nil s);
     yp \<leftarrow> fld n_parent s y;
     s \<leftarrow> upd (\<lambda>n. n\<lparr>n_parent := yp\<rparr>) x s;
     yp \<leftarrow> fld n_parent s y;
     s \<leftarrow> (if yp = nil s then Some (set_root x s)
          else do {
            ypl \<leftarrow> fld n_left s yp;
            if y = ypl then upd (\<lambda>n. n\<lparr>n_left := x\<rparr>) yp s
            else upd (\<lambda>n. n\<lparr>n_right := x\<rparr>) yp s });
     Some (s, x) }"

lemma unlink_x:
  assumes wf: "wf s (plug fs (Nd c l (y, yk, yv) r))" and leaf: "l = Lf \<or> r = Lf"
    and X: "X = (if l = Lf then r else l)"
  shows "(if ptr (nil s) l \<noteq> nil s then ptr (nil s) l
      else if ptr (nil s) r \<noteq> nil s then ptr (nil s) r else nil s) = ptr (nil s) X"
proof -
  have "nil s \<notin> set (addrs l)" "nil s \<notin> set (addrs r)" using wf by (auto simp: wf_plug)
  then show ?thesis using leaf X by (auto simp: ptr_nil)
qed

lemma unlink_leaf:
  assumes wf: "wf s (plug fs (Nd c l (y, yk, yv) r))" and leaf: "l = Lf \<or> r = Lf"
    and X: "X = (if l = Lf then r else l)"
    and Lf: "X = Lf"
  shows "\<exists>s'. unlink s y = Some (s', ptr (nil s) X) \<and> wf s' (plug fs X) \<and>
    fld n_parent s' (ptr (nil s) X) = Some (ctop (nil s) fs) \<and> dsim s s' \<and> nmap s' y = nmap s y"
proof -
  from wf obtain n where n: "nmap s (nil s) = Some n" "n_color n = BLACK" by (auto simp: wf_plug)
  have un: "unlink s y = do {
     s1 \<leftarrow> upd (\<lambda>n. n\<lparr>n_parent := ctop (nil s) fs\<rparr>) (ptr (nil s) X) s;
     yp \<leftarrow> fld n_parent s1 y;
     s2 \<leftarrow> (if yp = nil s1 then Some (set_root (ptr (nil s) X) s1)
          else do {
            ypl \<leftarrow> fld n_left s1 yp;
            if y = ypl then upd (\<lambda>n. n\<lparr>n_left := ptr (nil s) X\<rparr>) yp s1
            else upd (\<lambda>n. n\<lparr>n_right := ptr (nil s) X\<rparr>) yp s1 });
     Some (s2, ptr (nil s) X) }"
    by (simp only: unlink_def Let_def fld_at [OF wf] Option.bind.simps unlink_x [OF wf leaf X])
  have wX: "shape (nil s) (nmap s) y X" "nil s \<notin> set (addrs X)" "y \<notin> set (addrs X)" "distinct (addrs X)"
     "set (addrs X) \<inter> set (caddrs fs) = {}" "y \<noteq> nil s"
     "y \<notin> set (caddrs fs)" "nil s \<notin> set (caddrs fs)" "distinct (caddrs fs)"
     "cshape (nil s) (nmap s) y fs" "root s = croot y fs"
    using wf X unfolding wf_plug by (auto split: if_splits)
  note ny = node_at [OF wf]
  show ?thesis
  proof (cases "(nil s, fs)" rule: ctop.cases)
    case (1 nl)
    then show ?thesis
      using wX n ny Lf un by (simp add: upd_eq fld_def wf_def dsim_put_nil)
  next
    case (2 nl fc p pk pv t gs)
    then have "distinct [nl, y, p]" using wX by auto
    note distinct_neqs3 [OF this]
    then show ?thesis
      using 2 wX n ny Lf un by (simp add: upd_eq fld_def wf_plug dsim_put_nil)
  next
    case (3 nl fc t p pk pv gs)
    then have "distinct [nl, y, p]" using wX by auto
    note distinct_neqs3 [OF this]
    moreover have "y \<noteq> ptr nl t" using 3 wX by (intro ptr_neq) auto
    ultimately show ?thesis
      using 3 wX n ny Lf un by (simp add: upd_eq fld_def wf_plug dsim_put_nil)
  qed
qed

lemma unlink_inner:
  assumes wf: "wf s (plug fs (Nd c l (y, yk, yv) r))" and leaf: "l = Lf \<or> r = Lf"
    and X: "X = (if l = Lf then r else l)"
    and XN: "X = Nd xc xl (x, xk, xv) xr"
  shows "\<exists>s'. unlink s y = Some (s', ptr (nil s) X) \<and> wf s' (plug fs X) \<and>
    fld n_parent s' (ptr (nil s) X) = Some (ctop (nil s) fs) \<and> dsim s s' \<and> nmap s' y = nmap s y"
proof -
  from wf obtain n where n: "nmap s (nil s) = Some n" "n_color n = BLACK" by (auto simp: wf_plug)
  have un: "unlink s y = do {
     s1 \<leftarrow> upd (\<lambda>n. n\<lparr>n_parent := ctop (nil s) fs\<rparr>) (ptr (nil s) X) s;
     yp \<leftarrow> fld n_parent s1 y;
     s2 \<leftarrow> (if yp = nil s1 then Some (set_root (ptr (nil s) X) s1)
          else do {
            ypl \<leftarrow> fld n_left s1 yp;
            if y = ypl then upd (\<lambda>n. n\<lparr>n_left := ptr (nil s) X\<rparr>) yp s1
            else upd (\<lambda>n. n\<lparr>n_right := ptr (nil s) X\<rparr>) yp s1 });
     Some (s2, ptr (nil s) X) }"
    by (simp only: unlink_def Let_def fld_at [OF wf] Option.bind.simps unlink_x [OF wf leaf X])
  have wX: "shape (nil s) (nmap s) y X" "nil s \<notin> set (addrs X)" "y \<notin> set (addrs X)" "distinct (addrs X)"
     "set (addrs X) \<inter> set (caddrs fs) = {}" "y \<noteq> nil s"
     "y \<notin> set (caddrs fs)" "nil s \<notin> set (caddrs fs)" "distinct (caddrs fs)"
     "cshape (nil s) (nmap s) y fs" "root s = croot y fs"
    using wf X unfolding wf_plug by (auto split: if_splits)
  note ny = node_at [OF wf]
  show ?thesis
  proof (cases "(nil s, fs)" rule: ctop.cases)
    case (1 nl)
    then have "distinct [nl, x, y]" using wX XN by auto
    note distinct_neqs3 [OF this]
    then show ?thesis
      using 1 wX n ny XN un by (simp add: upd_eq fld_def wf_def)
  next
    case (2 nl fc p pk pv t gs)
    then have "distinct [nl, x, y, p]" using wX XN by auto
    note distinct_neqs4 [OF this]
    then show ?thesis
      using 2 wX n ny XN un by (simp add: upd_eq fld_def wf_plug Int_Un_distrib Int_Un_distrib2)
  next
    case (3 nl fc t p pk pv gs)
    then have "distinct [nl, x, y, p]" using wX XN by auto
    note distinct_neqs4 [OF this]
    moreover have "y \<noteq> ptr nl t" using 3 wX by (intro ptr_neq) auto
    ultimately show ?thesis
      using 3 wX n ny XN un
      by (simp add: upd_eq fld_def wf_plug Int_Un_distrib Int_Un_distrib2 Int_commute)
  qed
qed

lemma unlink_at:
  assumes wf: "wf s (plug fs (Nd c l (y, yk, yv) r))" and leaf: "l = Lf \<or> r = Lf"
    and X: "X = (if l = Lf then r else l)"
  shows "\<exists>s'. unlink s y = Some (s', ptr (nil s) X) \<and> wf s' (plug fs X) \<and>
    fld n_parent s' (ptr (nil s) X) = Some (ctop (nil s) fs) \<and> dsim s s' \<and> nmap s' y = nmap s y"
proof (cases X)
  case Lf
  show ?thesis by (rule unlink_leaf [OF assms Lf])
next
  case (Nd xc xl xe xr)
  then obtain x xk xv where "X = Nd xc xl (x, xk, xv) xr" by (cases xe) auto
  then show ?thesis by (rule unlink_inner [OF assms])
qed

section \<open>Deletion\<close>

text \<open>The exchange of keys and values between the node to delete and the node unlinked.\<close>

definition swap_kv :: "rb_st \<Rightarrow> addr \<Rightarrow> addr \<Rightarrow> rb_st option" where
  "swap_kv s z y = do {
     zk \<leftarrow> fld n_key s z;
     yk \<leftarrow> fld n_key s y;
     s \<leftarrow> upd (\<lambda>n. n\<lparr>n_key := yk\<rparr>) z s;
     s \<leftarrow> upd (\<lambda>n. n\<lparr>n_key := zk\<rparr>) y s;
     zv \<leftarrow> fld n_value s z;
     yv \<leftarrow> fld n_value s y;
     s \<leftarrow> upd (\<lambda>n. n\<lparr>n_value := yv\<rparr>) z s;
     upd (\<lambda>n. n\<lparr>n_value := zv\<rparr>) y s }"

lemma rbtree_delete_parts:
  "rbtree_delete s z = do {
     zl \<leftarrow> fld n_left s z;
     zr \<leftarrow> fld n_right s z;
     y \<leftarrow> (if zl = nil s \<or> zr = nil s then Some z else rbtree_successor s z);
     (s, x) \<leftarrow> unlink s y;
     s \<leftarrow> (if y \<noteq> z then swap_kv s z y else Some s);
     yc \<leftarrow> fld n_color s y;
     s \<leftarrow> (if yc = BLACK then rbtree_delete_fixup s x else Some s);
     Some (s, y) }"
  by (simp add: rbtree_delete_def unlink_def swap_kv_def Let_def cong: if_cong)

lemma swap_kv_at:
  assumes wf: "wf s (plug fs (Nd c l (z, zk, zv) r))" and y: "nmap s y = Some ny" "y \<noteq> nil s"
    and out: "y \<notin> set (addrs (plug fs (Nd c l (z, zk, zv) r)))"
  shows "\<exists>s'. swap_kv s z y = Some s' \<and> wf s' (plug fs (Nd c l (z, n_key ny, n_value ny) r)) \<and> sim s s' \<and>
    nmap s' y = Some (ny\<lparr>n_key := zk, n_value := zv\<rparr>)"
proof -
  from wf obtain n where n: "nmap s (nil s) = Some n" "n_color n = BLACK" by (auto simp: wf_plug)
  have "distinct [nil s, z, y]" using wf y(2) out by (auto simp: wf_plug set_plug)
  note distinct_neqs3 [OF this]
  then show ?thesis
    using wf n y out unfolding wf_plug set_plug
    by (simp add: swap_kv_def upd_eq fld_def wf_plug)
qed

text \<open>Colours do not see the items.\<close>

lemma is_rbt_item: "is_rbt (plug fs (Nd c l e r)) \<longleftrightarrow> is_rbt (plug fs (Nd c l e' r))"
  by (simp add: is_rbt_def invc_plug invh_plug col_plug)

lemma ctop_append: "ds \<noteq> [] \<Longrightarrow> ctop nl (ds @ fs) = ctop nl ds"
  by (cases "(nl, ds)" rule: ctop.cases) auto

lemma addrs_inorder: "mset (addrs t) = mset (map fst (inorder t))"
  by (induction t rule: addrs.induct) auto

text \<open>
  \<open>rbtree_delete\<close>: the tree loses one item, the one whose key and value pointers \<open>z\<close> had; the
  node that leaves is returned, and it is still allocated.
\<close>

lemma fixup_or_not:
  assumes wf: "wf s (plug gs X)" and par: "fld n_parent s (ptr (nil s) X) = Some (ctop (nil s) gs)"
    and rb: "is_rbt (plug gs (Nd c l e r))" and leaf: "l = Lf \<or> r = Lf" and X: "X = (if l = Lf then r else l)"
  shows "\<exists>s'. (if c = BLACK then rbtree_delete_fixup s (ptr (nil s) X) else Some s) = Some s' \<and>
    wf s' (del_at gs c X) \<and> sim s s'"
proof (cases "c = BLACK")
  case True
  have "del_inv gs X"
    using rb leaf X True by (auto simp: is_rbt_def invc_plug invh_plug col_plug del_inv_def split: if_splits)
  from delete_fixup_at [OF wf this par] True show ?thesis by (simp add: del_at_def)
next
  case False
  then show ?thesis using wf by (simp add: del_at_def)
qed

lemma delete_one_child:
  assumes wf: "wf s (plug fs (Nd c l (z, zk, zv) r))" and rb: "is_rbt (plug fs (Nd c l (z, zk, zv) r))"
    and leaf: "l = Lf \<or> r = Lf"
  shows "\<exists>s' y t'. rbtree_delete s z = Some (s', y) \<and> wf s' t' \<and> is_rbt t' \<and> dsim s s' \<and>
    map snd (inorder t') = map snd (lin fs @ inorder l @ inorder r @ rin fs) \<and>
    y \<in> set (addrs (plug fs (Nd c l (z, zk, zv) r))) \<and>
    mset (addrs t') = mset (addrs (plug fs (Nd c l (z, zk, zv) r))) - {#y#}"
proof -
  note atz = fld_at [OF wf]
  have nl: "nil s \<notin> set (addrs l)" "nil s \<notin> set (addrs r)" using wf by (auto simp: wf_plug)
  define X where "X = (if l = Lf then r else l)"
  from unlink_at [OF wf leaf X_def] obtain s1 where
    s1: "unlink s z = Some (s1, ptr (nil s) X)" "wf s1 (plug fs X)" "dsim s s1"
      "fld n_parent s1 (ptr (nil s) X) = Some (ctop (nil s) fs)" "nmap s1 z = nmap s z" by blast
  have n1: "nil s1 = nil s" using s1(3) by (simp add: dsim_def)
  obtain s2 where
    s2: "(if c = BLACK then rbtree_delete_fixup s1 (ptr (nil s) X) else Some s1) = Some s2"
      "wf s2 (del_at fs c X)" "sim s1 s2"
    using fixup_or_not [OF s1(2) _ rb leaf X_def] s1(4) unfolding n1 by blast
  note da = del_at_correct [OF rb, of X]
  have c1: "fld n_color s1 z = Some c" using s1(5) node_at [OF wf] by (simp add: fld_def)
  have "rbtree_delete s z = Some (s2, z)"
    using atz nl leaf s1(1) s2(1) c1 by (auto simp: rbtree_delete_parts ptr_nil)
  moreover have "is_rbt (del_at fs c X)" using da(1) leaf X_def by (cases "l = Lf") auto
  moreover have io: "inorder (del_at fs c X) = lin fs @ inorder l @ inorder r @ rin fs"
    using da(2) leaf X_def by (cases "l = Lf") auto
  moreover have "mset (addrs (del_at fs c X)) = mset (addrs (plug fs (Nd c l (z, zk, zv) r))) - {#z#}"
    by (simp add: addrs_inorder io inorder_plug)
  moreover have "z \<in> set (addrs (plug fs (Nd c l (z, zk, zv) r)))" by (simp add: set_plug)
  moreover have "dsim s s2" using s1(3) s2(3) by (blast intro: dsim_trans sim_dsim)
  ultimately show ?thesis using s2(2) by metis
qed

text \<open>The successor is unlinked, and its key and value go to the node of the deleted one.\<close>

lemma two_children_swapped:
  assumes wf: "wf s (plug fs (Nd c l (z, zk, zv) r))" and lr: "l \<noteq> Lf" "r \<noteq> Lf"
  obtains ds yc y yk yv X s1 s2 where
    "plug ds (Nd yc Lf (y, yk, yv) X) = r" "lin ds = []" "rbtree_successor s z = Some y" "y \<noteq> z"
    "unlink s y = Some (s1, ptr (nil s) X)" "swap_kv s1 z y = Some s2" "fld n_color s2 y = Some yc" "dsim s s2" "nil s2 = nil s"
    "wf s2 (plug (ds @ FR c l (z, yk, yv) # fs) X)"
    "fld n_parent s2 (ptr (nil s2) X) = Some (ctop (nil s2) (ds @ FR c l (z, yk, yv) # fs))"
proof -
  note atz = fld_at [OF wf]
  have nl: "nil s \<notin> set (addrs l)" "nil s \<notin> set (addrs r)" using wf by (auto simp: wf_plug)
  let ?Z = "FR c l (z, zk, zv)"
  obtain ds yc ye X where zm: "zmin (?Z # fs) r = (ds @ ?Z # fs, Nd yc Lf ye X)"
    using zmin_node [OF lr(2)] by blast
  obtain y yk yv where ye: "ye = (y, yk, yv)" by (cases ye) auto
  have pz: "plug ds (Nd yc Lf (y, yk, yv) X) = r"
    using plug_zmin [of "[]" r ds "Nd yc Lf (y, yk, yv) X"] zmin_append [of "[]" "?Z # fs" r] zm ye
    by (cases "zmin [] r") auto
  have ld: "lin ds = []" by (rule zmin_lin [OF zm])
  have Wr: "wf s (plug (?Z # fs) r)" using wf by simp
  have Wy: "wf s (plug (ds @ ?Z # fs) (Nd yc Lf (y, yk, yv) X))"
    using wf by (simp add: plug_append pz)
  have succ: "rbtree_successor s z = Some y"
    using atz nl lr mini_at [OF Wr lr(2)] zm ye by (simp add: rbtree_successor_def ptr_nil)
  obtain s1 where s1: "unlink s y = Some (s1, ptr (nil s) X)" "wf s1 (plug (ds @ ?Z # fs) X)" "dsim s s1"
      "fld n_parent s1 (ptr (nil s) X) = Some (ctop (nil s) (ds @ ?Z # fs))" "nmap s1 y = nmap s y"
    using unlink_at [OF Wy, of X] by auto
  have n1: "nil s1 = nil s" using s1(3) by (simp add: dsim_def)
  have W1: "wf s1 (plug fs (Nd c l (z, zk, zv) (plug ds X)))" using s1(2) by (simp add: plug_append)
  have ny: "nmap s1 y = Some \<lparr>n_color = yc, n_right = ptr (nil s) X, n_left = nil s,
      n_parent = ctop (nil s) (ds @ ?Z # fs), n_key = yk, n_value = yv\<rparr>"
    using s1(5) node_at [OF Wy] by simp
  have eq: "plug fs (Nd c l (z, zk, zv) (plug ds X)) = plug (ds @ ?Z # fs) X" by (simp add: plug_append)
  have dy: "y \<noteq> nil s" "y \<notin> set (addrs (plug fs (Nd c l (z, zk, zv) (plug ds X))))"
    using Wy unfolding eq wf_plug set_plug by auto
  then have "y \<noteq> z" by (auto simp: set_plug)
  obtain s2 where s2: "swap_kv s1 z y = Some s2" "sim s1 s2"
      "wf s2 (plug fs (Nd c l (z, yk, yv) (plug ds X)))" "fld n_color s2 y = Some yc"
    using swap_kv_at [OF W1 ny _ dy(2)] dy(1) n1 by (auto simp: fld_def)
  have n2: "nil s2 = nil s" using s2(2) n1 by (simp add: sim_def)
  let ?gs = "ds @ FR c l (z, yk, yv) # fs"
  have W2: "wf s2 (plug ?gs X)" using s2(3) by (simp add: plug_append)
  have ct: "ctop (nil s) ?gs = ctop (nil s) (ds @ ?Z # fs)" by (cases "ds = []") (simp_all add: ctop_append)
  have par2: "fld n_parent s2 (ptr (nil s2) X) = Some (ctop (nil s2) ?gs)"
    using par_keep [OF s1(2) _ W2 s2(2)] s1(4) n1 n2 ct by simp
  have "dsim s s2" using s1(3) s2(2) by (blast intro: dsim_trans sim_dsim)
  then show thesis using that pz ld succ \<open>y \<noteq> z\<close> s1(1) s2(1,4) n2 W2 par2 by blast
qed

lemma delete_two_children:
  assumes wf: "wf s (plug fs (Nd c l (z, zk, zv) r))" and rb: "is_rbt (plug fs (Nd c l (z, zk, zv) r))"
    and lr: "l \<noteq> Lf" "r \<noteq> Lf"
  shows "\<exists>s' y t'. rbtree_delete s z = Some (s', y) \<and> wf s' t' \<and> is_rbt t' \<and> dsim s s' \<and>
    map snd (inorder t') = map snd (lin fs @ inorder l @ inorder r @ rin fs) \<and>
    y \<in> set (addrs (plug fs (Nd c l (z, zk, zv) r))) \<and>
    mset (addrs t') = mset (addrs (plug fs (Nd c l (z, zk, zv) r))) - {#y#}"
proof -
  note atz = fld_at [OF wf]
  have nl: "nil s \<notin> set (addrs l)" "nil s \<notin> set (addrs r)" using wf by (auto simp: wf_plug)
  obtain ds yc y yk yv X s1 s2 where
    pz: "plug ds (Nd yc Lf (y, yk, yv) X) = r" and ld: "lin ds = []" and succ: "rbtree_successor s z = Some y" "y \<noteq> z"
    and s2: "unlink s y = Some (s1, ptr (nil s) X)" "swap_kv s1 z y = Some s2" "fld n_color s2 y = Some yc" "dsim s s2" "nil s2 = nil s"
      "wf s2 (plug (ds @ FR c l (z, yk, yv) # fs) X)"
      "fld n_parent s2 (ptr (nil s2) X) = Some (ctop (nil s2) (ds @ FR c l (z, yk, yv) # fs))"
    by (rule two_children_swapped [OF wf lr])
  let ?gs = "ds @ FR c l (z, yk, yv) # fs"
  have ior: "inorder r = (y, yk, yv) # inorder X @ rin ds"
    using ld by (subst pz [symmetric]) (simp add: inorder_plug)
  have rb': "is_rbt (plug ?gs (Nd yc Lf (y, yk, yv) X))"
    using rb is_rbt_item [of fs c l "(z, zk, zv)" r "(z, yk, yv)"] by (simp add: plug_append pz)
  obtain s3 where
    s3: "(if yc = BLACK then rbtree_delete_fixup s2 (ptr (nil s) X) else Some s2) = Some s3"
      "wf s3 (del_at ?gs yc X)" "sim s2 s3"
    using fixup_or_not [OF s2(6,7) rb'] unfolding s2(5) by auto
  note da = del_at_correct [OF rb', of X, simplified]
  have run: "rbtree_delete s z = Some (s3, y)"
    using atz nl lr succ s2(1-3) s3(1) by (simp add: rbtree_delete_parts ptr_nil)
  have io: "inorder (del_at ?gs yc X) = lin fs @ inorder l @ (z, yk, yv) # inorder X @ rin ds @ rin fs"
    using da(2) ld by (simp add: lin_append rin_append)
  have "map snd (inorder (del_at ?gs yc X)) = map snd (lin fs @ inorder l @ inorder r @ rin fs)"
    by (simp add: io ior)
  moreover have "mset (addrs (del_at ?gs yc X)) = mset (addrs (plug fs (Nd c l (z, zk, zv) r))) - {#y#}"
    by (simp add: addrs_inorder io inorder_plug ior)
  moreover have "y \<in> set (addrs (plug fs (Nd c l (z, zk, zv) r)))"
    by (simp add: set_addrs inorder_plug ior)
  moreover have "dsim s s3" using s2(4) s3(3) by (blast intro: dsim_trans sim_dsim)
  ultimately show ?thesis using run s3(2) da(1) by metis
qed

lemma rbtree_delete_at:
  assumes wf: "wf s (plug fs (Nd c l (z, zk, zv) r))" and rb: "is_rbt (plug fs (Nd c l (z, zk, zv) r))"
  shows "\<exists>s' y t'. rbtree_delete s z = Some (s', y) \<and> wf s' t' \<and> is_rbt t' \<and> dsim s s' \<and>
    map snd (inorder t') = map snd (lin fs @ inorder l @ inorder r @ rin fs) \<and>
    y \<in> set (addrs (plug fs (Nd c l (z, zk, zv) r))) \<and>
    mset (addrs t') = mset (addrs (plug fs (Nd c l (z, zk, zv) r))) - {#y#}"
  using delete_one_child [OF assms] delete_two_children [OF assms] by blast

end

