(* ===== verification/KV_Engine.thy ===== *)
theory KV_Engine
  imports C_Memory C_Decimal
begin

text \<open>
  The interface between the protocol of kvstore.c and its three storage engines.

  kvstore.c reaches every engine through the same seven wrappers (\<open>kvstore_array_set\<close>,
  \<open>kvstore_rbtree_set\<close>, \<open>kvstore_hash_set\<close> and so on), and the switch of
  \<open>kvstore_parser_protocol\<close> has three copies of the same five cases.  The wrappers of one engine
  are a record here, the five cases are functions of that record, and the locale \<open>kv_engine\<close>
  states what the protocol relies on: the engine behaves like a finite map.  The locale is
  interpreted for each engine in the theory of that engine.
\<close>

section \<open>Replies\<close>

definition BUFFER_LENGTH :: nat where "BUFFER_LENGTH = 1024"

text \<open>\<open>snprintf(msg, BUFFER_LENGTH, "%s", v)\<close> keeps at most \<open>BUFFER_LENGTH - 1\<close> bytes.\<close>

definition snprintf_s :: "string \<Rightarrow> string" where
  "snprintf_s v = take (BUFFER_LENGTH - 1) v"

text \<open>\<open>snprintf(msg, BUFFER_LENGTH, "%d", n)\<close>\<close>

definition snprintf_d :: "int \<Rightarrow> string" where
  "snprintf_d n = (if n < 0 then CHR ''-'' # dec_nat (nat (- n)) else dec_nat (nat n))"

lemma snprintf_d_1 [simp]: "snprintf_d 1 = ''1''"
  by code_simp

section \<open>Engines and the handlers of the protocol\<close>

record 's engine =
  eng_exist :: "'s \<Rightarrow> string \<Rightarrow> int option"
  eng_set :: "'s \<Rightarrow> string \<Rightarrow> string \<Rightarrow> ('s \<times> int) option"
  eng_get :: "'s \<Rightarrow> string \<Rightarrow> addr option"
  eng_del :: "'s \<Rightarrow> string \<Rightarrow> ('s \<times> int) option"
  eng_count :: "'s \<Rightarrow> int option"
  eng_str :: "'s \<Rightarrow> addr \<Rightarrow> string option" \<comment> \<open>the text behind a pointer the engine returned\<close>

definition kvs_cmd_set :: "'s engine \<Rightarrow> 's \<Rightarrow> string \<Rightarrow> string \<Rightarrow> ('s \<times> string) option" where
  "kvs_cmd_set e s k v = do {
     (s, ret) \<leftarrow> eng_set e s k v;
     if ret = 0 then Some (s, ''SUCCESS'') else Some (s, ''ERROR'') }"

definition kvs_cmd_get :: "'s engine \<Rightarrow> 's \<Rightarrow> string \<Rightarrow> ('s \<times> string) option" where
  "kvs_cmd_get e s k = do {
     ret \<leftarrow> eng_exist e s k;
     if ret \<ge> 0
     then do {
       p \<leftarrow> eng_get e s k;
       if p \<noteq> NULL
       then do { v \<leftarrow> eng_str e s p; Some (s, snprintf_s v) }
       else Some (s, ''ERROR'') }
     else Some (s, ''NO EXIST'') }"

definition kvs_cmd_del :: "'s engine \<Rightarrow> 's \<Rightarrow> string \<Rightarrow> ('s \<times> string) option" where
  "kvs_cmd_del e s k = do {
     ret \<leftarrow> eng_exist e s k;
     if ret \<ge> 0
     then do {
       (s, r) \<leftarrow> eng_del e s k;
       if r = 0 then Some (s, ''SUCCESS'') else Some (s, ''ERROR'') }
     else Some (s, ''NO EXIST'') }"

definition kvs_cmd_exist :: "'s engine \<Rightarrow> 's \<Rightarrow> string \<Rightarrow> ('s \<times> string) option" where
  "kvs_cmd_exist e s k = do {
     ret \<leftarrow> eng_exist e s k;
     if ret \<ge> 0 then Some (s, ''EXISTED'') else Some (s, ''NO EXIST'') }"

definition kvs_cmd_count :: "'s engine \<Rightarrow> 's \<Rightarrow> ('s \<times> string) option" where
  "kvs_cmd_count e s = do {
     ret \<leftarrow> eng_count e s;
     if ret < 0 then Some (s, ''ERROR'') else Some (s, snprintf_d ret) }"

text \<open>A well-formed request to one engine, and the handler it selects.\<close>

datatype kv_req = SET string string | GET string | DEL string | COUNT | EXIST string

fun kvs_handle :: "'s engine \<Rightarrow> 's \<Rightarrow> kv_req \<Rightarrow> ('s \<times> string) option" where
  "kvs_handle e s (SET k v) = kvs_cmd_set e s k v"
| "kvs_handle e s (GET k) = kvs_cmd_get e s k"
| "kvs_handle e s (DEL k) = kvs_cmd_del e s k"
| "kvs_handle e s COUNT = kvs_cmd_count e s"
| "kvs_handle e s (EXIST k) = kvs_cmd_exist e s k"

fun kvs_run :: "'s engine \<Rightarrow> 's \<Rightarrow> kv_req list \<Rightarrow> ('s \<times> string list) option" where
  "kvs_run e s [] = Some (s, [])"
| "kvs_run e s (r # rs) = do {
     (s, msg) \<leftarrow> kvs_handle e s r;
     (s, msgs) \<leftarrow> kvs_run e s rs;
     Some (s, msg # msgs) }"

section \<open>The abstract store\<close>

text \<open>What the store promises, as a function on finite maps with an optional capacity.\<close>

type_synonym store = "string \<Rightarrow> string option"

definition has_room :: "nat option \<Rightarrow> store \<Rightarrow> bool" where
  "has_room cap m = (case cap of None \<Rightarrow> True | Some n \<Rightarrow> card (dom m) \<noteq> n)"

fun spec_step :: "nat option \<Rightarrow> store \<Rightarrow> kv_req \<Rightarrow> store \<times> string" where
  "spec_step cap m (SET k v) = (if has_room cap m then (m(k \<mapsto> v), ''SUCCESS'') else (m, ''ERROR''))"
| "spec_step cap m (GET k) = (m, case m k of None \<Rightarrow> ''NO EXIST'' | Some v \<Rightarrow> snprintf_s v)"
| "spec_step cap m (DEL k) = (case m k of None \<Rightarrow> (m, ''NO EXIST'') | Some v \<Rightarrow> (m(k := None), ''SUCCESS''))"
| "spec_step cap m COUNT = (m, snprintf_d (int (card (dom m))))"
| "spec_step cap m (EXIST k) = (m, if m k = None then ''NO EXIST'' else ''EXISTED'')"

fun spec_run :: "nat option \<Rightarrow> store \<Rightarrow> kv_req list \<Rightarrow> store \<times> string list" where
  "spec_run cap m [] = (m, [])"
| "spec_run cap m (r # rs) =
     (let (m, msg) = spec_step cap m r; (m, msgs) = spec_run cap m rs in (m, msg # msgs))"

fun req_key :: "kv_req \<Rightarrow> string option" where
  "req_key (SET k v) = Some k"
| "req_key (GET k) = Some k"
| "req_key (DEL k) = Some k"
| "req_key COUNT = None"
| "req_key (EXIST k) = Some k"

definition req_ok :: "(string \<Rightarrow> bool) \<Rightarrow> kv_req \<Rightarrow> bool" where
  "req_ok ok r = (case req_key r of None \<Rightarrow> True | Some k \<Rightarrow> ok k)"

lemma req_ok_True [simp]: "req_ok (\<lambda>_. True) r"
  by (simp add: req_ok_def split: option.split)

lemma req_ok_simps [simp]:
  "req_ok ok (SET k v) = ok k" "req_ok ok (GET k) = ok k" "req_ok ok (DEL k) = ok k"
  "req_ok ok COUNT" "req_ok ok (EXIST k) = ok k"
  by (simp_all add: req_ok_def)

section \<open>The contract of an engine\<close>

locale kv_engine =
  fixes e :: "'s engine"
    and inv :: "'s \<Rightarrow> bool"
    and amap :: "'s \<Rightarrow> store"
    and ok :: "string \<Rightarrow> bool"
    and cap :: "nat option"
  assumes exist: "inv s \<Longrightarrow> ok k \<Longrightarrow> \<exists>r. eng_exist e s k = Some r \<and> (0 \<le> r \<longleftrightarrow> k \<in> dom (amap s))"
    and get: "inv s \<Longrightarrow> ok k \<Longrightarrow> amap s k = Some v \<Longrightarrow>
      \<exists>p. eng_get e s k = Some p \<and> p \<noteq> NULL \<and> eng_str e s p = Some v"
    and set_room: "inv s \<Longrightarrow> ok k \<Longrightarrow> has_room cap (amap s) \<Longrightarrow>
      \<exists>s'. eng_set e s k v = Some (s', 0) \<and> inv s' \<and> amap s' = (amap s)(k \<mapsto> v)"
    and set_full: "inv s \<Longrightarrow> ok k \<Longrightarrow> \<not> has_room cap (amap s) \<Longrightarrow> eng_set e s k v = Some (s, -1)"
    and del: "inv s \<Longrightarrow> ok k \<Longrightarrow> amap s k \<noteq> None \<Longrightarrow>
      \<exists>s'. eng_del e s k = Some (s', 0) \<and> inv s' \<and> amap s' = (amap s)(k := None)"
    and count: "inv s \<Longrightarrow> eng_count e s = Some (int (card (dom (amap s))))"
begin

lemma existing:
  assumes "inv s" "ok k"
  obtains x where "eng_exist e s k = Some x" "0 \<le> x \<longleftrightarrow> amap s k \<noteq> None"
  using exist [OF assms] by auto

lemma set_refines:
  assumes "inv s" "ok k"
  shows "\<exists>s'. kvs_cmd_set e s k v = Some (s', snd (spec_step cap (amap s) (SET k v))) \<and> inv s' \<and>
    amap s' = fst (spec_step cap (amap s) (SET k v))"
proof (cases "has_room cap (amap s)")
  case True
  from set_room [OF assms True, of v] True show ?thesis by (auto simp: kvs_cmd_set_def)
next
  case False
  with set_full [OF assms False, of v] assms(1) show ?thesis by (auto simp: kvs_cmd_set_def)
qed

lemma get_refines:
  assumes "inv s" "ok k"
  shows "kvs_cmd_get e s k = Some (s, snd (spec_step cap (amap s) (GET k)))"
proof -
  obtain x where x: "eng_exist e s k = Some x" "0 \<le> x \<longleftrightarrow> amap s k \<noteq> None" by (rule existing [OF assms])
  show ?thesis
  proof (cases "amap s k")
    case None
    then show ?thesis using x by (simp add: kvs_cmd_get_def)
  next
    case (Some v)
    from get [OF assms Some] x Some show ?thesis by (auto simp: kvs_cmd_get_def)
  qed
qed

lemma del_refines:
  assumes "inv s" "ok k"
  shows "\<exists>s'. kvs_cmd_del e s k = Some (s', snd (spec_step cap (amap s) (DEL k))) \<and> inv s' \<and>
    amap s' = fst (spec_step cap (amap s) (DEL k))"
proof -
  obtain x where x: "eng_exist e s k = Some x" "0 \<le> x \<longleftrightarrow> amap s k \<noteq> None" by (rule existing [OF assms])
  show ?thesis
  proof (cases "amap s k")
    case None
    then show ?thesis using x assms(1) by (auto simp: kvs_cmd_del_def)
  next
    case (Some v)
    from del [OF assms] x Some show ?thesis by (auto simp: kvs_cmd_del_def)
  qed
qed

lemma exist_refines:
  assumes "inv s" "ok k"
  shows "kvs_cmd_exist e s k = Some (s, snd (spec_step cap (amap s) (EXIST k)))"
  by (rule existing [OF assms]) (auto simp: kvs_cmd_exist_def)

lemma count_refines: "inv s \<Longrightarrow> kvs_cmd_count e s = Some (s, snd (spec_step cap (amap s) COUNT))"
  using count by (simp add: kvs_cmd_count_def)

lemma handle_refines:
  assumes inv: "inv s" and ok: "req_ok ok r"
  shows "\<exists>s'. kvs_handle e s r = Some (s', snd (spec_step cap (amap s) r)) \<and> inv s' \<and>
    amap s' = fst (spec_step cap (amap s) r)"
proof (cases r)
  case (SET k v)
  then show ?thesis using set_refines [OF inv, of k v] ok by simp
next
  case (GET k)
  then show ?thesis using get_refines [OF inv, of k] inv ok by simp
next
  case (DEL k)
  then show ?thesis using del_refines [OF inv, of k] ok by simp
next
  case COUNT
  then show ?thesis using count_refines [OF inv] inv by simp
next
  case (EXIST k)
  then show ?thesis using exist_refines [OF inv, of k] inv ok by simp
qed

text \<open>A session: every reply is the reply of the abstract store, and no request is undefined.\<close>

lemma run_refines:
  "inv s \<Longrightarrow> \<forall>r \<in> set rs. req_ok ok r \<Longrightarrow>
   \<exists>s'. kvs_run e s rs = Some (s', snd (spec_run cap (amap s) rs)) \<and> inv s' \<and>
     amap s' = fst (spec_run cap (amap s) rs)"
proof (induction rs arbitrary: s)
  case (Cons r rs)
  then have ok: "req_ok ok r" "\<forall>r \<in> set rs. req_ok ok r" by simp_all
  from handle_refines [OF Cons(2) ok(1)] obtain s1 where s1:
    "kvs_handle e s r = Some (s1, snd (spec_step cap (amap s) r))" "inv s1"
    "amap s1 = fst (spec_step cap (amap s) r)" by auto
  from Cons(1) [OF s1(2) ok(2)] s1 show ?case by (auto simp: Let_def case_prod_beta)
qed simp

lemma get_after_set:
  assumes "inv s" "ok k" "has_room cap (amap s)"
  shows "\<exists>s'. kvs_run e s [SET k v, GET k] = Some (s', [''SUCCESS'', snprintf_s v])"
  using run_refines [of s "[SET k v, GET k]"] assms by (auto simp: req_ok_def)

end

end
