(* ===== verification/KV_RBTree_Store.thy ===== *)
theory KV_RBTree_Store
  imports KV_RBTree_Delete KV_Engine
begin

text \<open>
  The red-black tree engine as a finite map: the representation invariant of the store, what each
  operation of kvstore_rbtree.c does to the map, the contract with the protocol, and the places
  where the code loses memory or leaves the model.
\<close>

section \<open>Representation\<close>

definition kv_str :: "rb_st \<Rightarrow> addr \<times> addr \<Rightarrow> string \<times> string" where
  "kv_str s = (\<lambda>(k, v). (the (rd_str (rh s) k), the (rd_str (rh s) v)))"

definition ents :: "rb_st \<Rightarrow> item rbt \<Rightarrow> (string \<times> string) list" where
  "ents s t = map (kv_str s) (map snd (inorder t))"

definition strs_ok :: "rb_st \<Rightarrow> item rbt \<Rightarrow> bool" where
  "strs_ok s t \<longleftrightarrow> (\<forall>(k, v) \<in> set (map snd (inorder t)). rd_str (rh s) k \<noteq> None \<and> rd_str (rh s) v \<noteq> None)"

definition rb_rep :: "rb_st \<Rightarrow> item rbt \<Rightarrow> bool" where
  "rb_rep s t \<longleftrightarrow>
     heap_ok (rh s) \<and> wf s t \<and> is_rbt t \<and> strs_ok s t \<and> sorted_wrt (<) (map fst (ents s t)) \<and>
     t_count (rt s) = int (length (ents s t))"

definition rb_wf :: "rb_st \<Rightarrow> bool" where
  "rb_wf s \<longleftrightarrow> (\<exists>t. rb_rep s t)"

definition rb_inv :: "rb_st \<Rightarrow> bool" where
  "rb_inv s \<longleftrightarrow> oom (rh s) = [] \<and> rb_wf s"

text \<open>
  The entries of the tree, read off the heap by a walk with fuel; no tree has more nodes than
  addresses were handed out.
\<close>

fun read_tree :: "nat \<Rightarrow> rb_st \<Rightarrow> addr \<Rightarrow> (string \<times> string) list" where
  "read_tree 0 s p = []"
| "read_tree (Suc f) s p =
     (if p = nil s then []
      else case nmap s p of
        None \<Rightarrow> []
      | Some n \<Rightarrow> read_tree f s (n_left n) @ kv_str s (n_key n, n_value n) # read_tree f s (n_right n))"

definition rb_map :: "rb_st \<Rightarrow> store" where
  "rb_map s = map_of (read_tree (brk (rh s)) s (root s))"

lemma read_tree_shape:
  "shape (nil s) (nmap s) p t \<Longrightarrow> nil s \<notin> set (addrs t) \<Longrightarrow> length (addrs t) \<le> f \<Longrightarrow>
   read_tree f s (ptr (nil s) t) = ents s t"
proof (induction t arbitrary: p f)
  case Lf
  then show ?case by (cases f) (simp_all add: ents_def)
next
  case (Nd c l e r)
  obtain a k v where e: "e = (a, k, v)" by (cases e) auto
  obtain g where g: "f = Suc g" using Nd(5) e by (cases f) auto
  have "read_tree g s (ptr (nil s) l) = ents s l" "read_tree g s (ptr (nil s) r) = ents s r"
    using Nd.IH(1) [of a g] Nd.IH(2) [of a g] Nd.prems e g by simp_all
  then show ?case using Nd.prems e g by (simp add: ents_def)
qed

lemma wf_alloc: "wf s t \<Longrightarrow> p \<in> set (addrs t) \<Longrightarrow> nmap s p \<noteq> None"
proof -
  have "shape nl h q t \<Longrightarrow> p \<in> set (addrs t) \<Longrightarrow> h p \<noteq> None" for nl h q
    by (induction t arbitrary: q rule: addrs.induct) auto
  then show "wf s t \<Longrightarrow> p \<in> set (addrs t) \<Longrightarrow> nmap s p \<noteq> None" by (auto simp: wf_def)
qed

lemma wf_below_brk: "heap_ok (rh s) \<Longrightarrow> wf s t \<Longrightarrow> p \<in> set (addrs t) \<Longrightarrow> p < brk (rh s)"
  using wf_alloc [of s t p] by (auto simp: rd_obj_Some intro: heap_ok_below_brk)

lemma rb_rep_map:
  assumes "rb_rep s t"
  shows "rb_map s = map_of (ents s t)"
proof -
  from assms have wf: "wf s t" and ok: "heap_ok (rh s)" by (auto simp: rb_rep_def)
  have "set (addrs t) \<subseteq> {..< brk (rh s)}" using wf_below_brk [OF ok wf] by auto
  then have "card (set (addrs t)) \<le> brk (rh s)" using subset_eq_atLeast0_lessThan_card lessThan_atLeast0 by metis
  moreover have "card (set (addrs t)) = length (addrs t)" using wf by (simp add: wf_def distinct_card)
  ultimately have "read_tree (brk (rh s)) s (ptr (nil s) t) = ents s t"
    using wf by (intro read_tree_shape [where p = "nil s"]) (auto simp: wf_def)
  then show ?thesis using wf by (simp add: rb_map_def wf_def)
qed

lemma ents_distinct: "rb_rep s t \<Longrightarrow> distinct (map fst (ents s t))"
  by (auto simp: rb_rep_def strict_sorted_iff intro: sorted_wrt_mono_rel)

lemma ents_plug: "ents s (plug fs t) = map (kv_str s) (map snd (lin fs)) @ ents s t @ map (kv_str s) (map snd (rin fs))"
  by (simp add: ents_def inorder_plug)

lemma strs_keys: "strs_ok s t \<Longrightarrow> keys_ok s t"
  by (fastforce simp: strs_ok_def keys_ok_def)

section \<open>Search in a sorted tree\<close>

lemma zsearch_found: "zsearch cmp fs t = (fs', Nd c l e r) \<Longrightarrow> cmp e = 0"
  by (induction cmp fs t rule: zsearch.induct) (auto split: if_splits)

lemma zsearch_absent:
  "zsearch (\<lambda>e. strcmp key (K e)) fs t = (fs', Lf) \<Longrightarrow> sorted_wrt (<) (map K (inorder t)) \<Longrightarrow>
   \<exists>L R. inorder t = L @ R \<and> lin fs' = lin fs @ L \<and> rin fs' = R @ rin fs \<and>
     (\<forall>e \<in> set L. K e < key) \<and> (\<forall>e \<in> set R. key < K e)"
proof (induction "\<lambda>e. strcmp key (K e)" fs t rule: zsearch.induct)
  case (2 fs c l e r)
  have s: "sorted_wrt (<) (map K (inorder l))" "sorted_wrt (<) (map K (inorder r))"
    "\<forall>x \<in> set (inorder l). K x < K e" "\<forall>x \<in> set (inorder r). K e < K x"
    using 2(4) by (auto simp: sorted_wrt_append)
  show ?case
  proof (cases rule: strcmp_cases [of key "K e"])
    case less
    from 2(1) [OF less(2) _ s(1)] 2(3) less obtain L R where
      LR: "inorder l = L @ R" "lin fs' = lin fs @ L" "rin fs' = R @ e # inorder r @ rin fs"
        "\<forall>e \<in> set L. K e < key" "\<forall>e \<in> set R. key < K e" by auto
    have "\<forall>x \<in> set (R @ e # inorder r). key < K x" using LR(5) less(1) s(4) by (auto intro: less_trans)
    then show ?thesis using LR by (intro exI [of _ L] exI [of _ "R @ e # inorder r"]) simp
  next
    case greater
    then have ng: "\<not> strcmp key (K e) < 0" by simp
    from 2(2) [OF ng greater(2) _ s(2)] 2(3) greater obtain L R where
      LR: "inorder r = L @ R" "lin fs' = lin fs @ inorder l @ e # L" "rin fs' = R @ rin fs"
        "\<forall>e \<in> set L. K e < key" "\<forall>e \<in> set R. key < K e" by auto
    have "\<forall>x \<in> set (inorder l @ e # L). K x < key" using LR(4) greater(1) s(3) by (auto intro: less_trans)
    then show ?thesis using LR by (intro exI [of _ "inorder l @ e # L"] exI [of _ R]) simp
  next
    case equal
    then show ?thesis using 2(3) by simp
  qed
qed simp

section \<open>Search, exist, get\<close>

definition key_of :: "rb_st \<Rightarrow> item \<Rightarrow> string" where
  "key_of s e = fst (kv_str s (snd e))"

lemma kcmp_key_of: "kcmp s key = (\<lambda>e. strcmp key (key_of s e))"
  by (auto simp: kcmp_def key_of_def kv_str_def fun_eq_iff)

lemma ents_keys: "map fst (ents s t) = map (key_of s) (inorder t)"
  by (simp add: ents_def key_of_def)

lemma search_cases:
  assumes rep: "rb_rep s t"
  obtains (found) fs c l a k v r V where "t = plug fs (Nd c l (a, k, v) r)" "rbtree_search s key = Some a"
      "a \<noteq> nil s" "rd_str (rh s) k = Some key" "rd_str (rh s) v = Some V" "rb_map s key = Some V"
  | (absent) fs L R where "t = plug fs Lf" "zsearch (kcmp s key) [] t = (fs, Lf)"
      "rbtree_search s key = Some (nil s)" "rb_map s key = None" "lin fs = L" "rin fs = R"
      "inorder t = L @ R" "\<forall>e \<in> set L. key_of s e < key" "\<forall>e \<in> set R. key < key_of s e"
proof -
  from rep have wf: "wf s t" and st: "strs_ok s t" and srt: "sorted_wrt (<) (map (key_of s) (inorder t))"
    by (simp_all add: rb_rep_def ents_keys)
  obtain fs t' where z: "zsearch (kcmp s key) [] t = (fs, t')" by fastforce
  from plug_zsearch [OF z] have t: "t = plug fs t'" by simp
  have sr: "rbtree_search s key = Some (ptr (nil s) t')"
    using search_loop_at [of s "[]" t key] wf strs_keys [OF st] z wf_root_ptr [OF wf]
    by (simp add: rbtree_search_def)
  show thesis
  proof (cases t')
    case Lf
    from zsearch_absent [OF z [unfolded Lf kcmp_key_of] srt] obtain L R where
      LR: "inorder t = L @ R" "lin fs = L" "rin fs = R" "\<forall>e \<in> set L. key_of s e < key" "\<forall>e \<in> set R. key < key_of s e"
      by auto
    have "key \<notin> set (map fst (ents s t))" using LR by (auto simp: ents_keys)
    then have "rb_map s key = None" by (simp add: rb_rep_map [OF rep] map_of_eq_None_iff)
    then show thesis using absent [of fs L R] t z sr Lf LR by simp
  next
    case (Nd c l e r)
    obtain a k v where e: "e = (a, k, v)" by (cases e) auto
    have "(k, v) \<in> set (map snd (inorder t))" by (simp add: t inorder_plug Nd e)
    then obtain K V where KV: "rd_str (rh s) k = Some K" "rd_str (rh s) v = Some V"
      using st by (fastforce simp: strs_ok_def)
    have "kcmp s key e = 0" by (rule zsearch_found [OF z [unfolded Nd]])
    then have K: "K = key" using KV by (simp add: kcmp_def e)
    have "(key, V) \<in> set (ents s t)" unfolding t ents_plug by (simp add: Nd e ents_def kv_str_def KV K)
    then have m: "rb_map s key = Some V" using ents_distinct [OF rep] by (simp add: rb_rep_map [OF rep])
    have "a \<noteq> nil s" using wf [unfolded t Nd e wf_plug] by auto
    then show thesis using found [of fs c l a k v r V] t sr Nd e KV K m by simp
  qed
qed

lemma rbtree_exist_spec:
  assumes "rb_wf s"
  shows "rbtree_exist s k = Some (if k \<in> dom (rb_map s) then 0 else -1)"
proof -
  from assms obtain t where "rb_rep s t" by (auto simp: rb_wf_def)
  then show ?thesis by (cases rule: search_cases [where key = k]) (auto simp: rbtree_exist_def)
qed

lemma rbtree_get_spec:
  assumes "rb_wf s"
  shows "\<exists>p. rbtree_get s k = Some p \<and>
    (case rb_map s k of None \<Rightarrow> p = NULL | Some v \<Rightarrow> p \<noteq> NULL \<and> rd_str (rh s) p = Some v)"
proof -
  from assms obtain t where rep: "rb_rep s t" by (auto simp: rb_wf_def)
  then show ?thesis
  proof (cases rule: search_cases [where key = k])
    case (found fs c l a kp vp r V)
    have "wf s (plug fs (Nd c l (a, kp, vp) r))" "heap_ok (rh s)" using rep found(1) by (auto simp: rb_rep_def)
    then show ?thesis using found fld_at(6) [of s fs c l a kp vp r] heap_ok_not_null [of "rh s" vp]
      by (auto simp: rbtree_get_def rd_str_Some)
  next
    case (absent fs L R)
    then show ?thesis by (simp add: rbtree_get_def)
  qed
qed

lemma rbtree_count_spec:
  assumes "rb_wf s"
  shows "rbtree_count s = int (card (dom (rb_map s)))" "finite (dom (rb_map s))"
proof -
  from assms obtain t where rep: "rb_rep s t" by (auto simp: rb_wf_def)
  show "rbtree_count s = int (card (dom (rb_map s)))"
    using rep ents_distinct [OF rep] by (simp add: rbtree_count_def rb_rep_map [OF rep] card_dom_map_of rb_rep_def)
  show "finite (dom (rb_map s))" by (simp add: rb_rep_map [OF rep] finite_dom_map_of)
qed

section \<open>Update\<close>

text \<open>Cells outside the tree do not matter to it.\<close>

lemma shape_cong:
  "(\<And>p. p \<in> set (addrs t) \<Longrightarrow> h' p = h p) \<Longrightarrow> shape nl h' q t = shape nl h q t"
  by (induction t arbitrary: q rule: addrs.induct) auto

lemma wf_cong:
  assumes "rt s' = rt s" "\<And>p. p \<in> set (addrs t) \<or> p = nil s \<Longrightarrow> nmap s' p = nmap s p"
  shows "wf s' t = wf s t"
  using assms shape_cong [of t "nmap s'" "nmap s"] by (simp add: wf_def)

lemma set_value_at:
  assumes wf: "wf s (plug fs (Nd c l (a, k, v) r))"
  shows "\<exists>s'. upd (\<lambda>n. n\<lparr>n_value := v'\<rparr>) a s = Some s' \<and> wf s' (plug fs (Nd c l (a, k, v') r)) \<and> sim s s'"
proof -
  let ?n = "\<lparr>n_color = c, n_right = ptr (nil s) r, n_left = ptr (nil s) l,
      n_parent = ctop (nil s) fs, n_key = k, n_value = v'\<rparr>"
  have "upd (\<lambda>n. n\<lparr>n_value := v'\<rparr>) a s = Some (put a ?n s)"
    by (simp add: upd_put [OF node_at [OF wf]])
  moreover have "wf (put a ?n s) (plug fs (Nd c l (a, k, v') r))"
    using wf unfolding wf_plug by auto
  moreover have "sim s (put a ?n s)"
    using wf by (intro sim_put [OF node_at [OF wf]]) (auto simp: wf_plug)
  ultimately show ?thesis by blast
qed

text \<open>A fresh block.\<close>

definition alloc :: "rbtree_node cell \<Rightarrow> rb_st \<Rightarrow> rb_st" where
  "alloc c s = s\<lparr>rh := (rh s)\<lparr>cells := (cells (rh s))(brk (rh s) \<mapsto> c), brk := Suc (brk (rh s)), oom := []\<rparr>\<rparr>"

lemma alloc_simps [simp]:
  "rt (alloc c s) = rt s" "brk (rh (alloc c s)) = Suc (brk (rh s))" "oom (rh (alloc c s)) = []"
  "s\<lparr>rh := rh (alloc c s)\<rparr> = alloc c s"
  by (simp_all add: alloc_def)

lemma malloc_alloc: "oom (rh s) = [] \<Longrightarrow> kvstore_malloc c (rh s) = (rh (alloc c s), brk (rh s))"
  by (simp add: alloc_def)

lemma heap_ok_alloc [simp]: "heap_ok (rh s) \<Longrightarrow> heap_ok (rh (alloc c s))"
  by (auto simp: alloc_def heap_ok_def)

lemma rd_str_alloc:
  "rd_str (rh (alloc c s)) p =
     (if p = brk (rh s) then (case c of CStr x \<Rightarrow> Some x | _ \<Rightarrow> None) else rd_str (rh s) p)"
  by (simp add: alloc_def rd_str_def split: cell.split)

lemma nmap_alloc:
  "nmap (alloc c s) p = (if p = brk (rh s) then (case c of CObj x \<Rightarrow> Some x | _ \<Rightarrow> None) else nmap s p)"
  by (simp add: alloc_def rd_obj_def split: cell.split)

lemma heap_ok_sim:
  assumes "heap_ok (rh s)" "dom (cells (rh s')) = dom (cells (rh s))" "brk (rh s') = brk (rh s)"
  shows "heap_ok (rh s')"
proof -
  have "cells (rh s') p = None \<longleftrightarrow> cells (rh s) p = None" for p using assms(2) by (metis domIff)
  with assms(1,3) show ?thesis by (simp add: heap_ok_def)
qed

lemma wf_nil_below: "heap_ok (rh s) \<Longrightarrow> wf s t \<Longrightarrow> nil s < brk (rh s)"
  by (auto simp: wf_def rd_obj_Some intro: heap_ok_below_brk)

lemma wf_alloc_iff:
  assumes "heap_ok (rh s)" "wf s t"
  shows "wf (alloc c s) t"
proof -
  have "wf (alloc c s) t = wf s t"
    by (rule wf_cong) (use assms wf_below_brk [OF assms] wf_nil_below [OF assms] in \<open>auto simp: nmap_alloc\<close>)
  with assms show ?thesis by simp
qed

text \<open>Strings that stay where they are.\<close>

definition str_ext :: "rb_st \<Rightarrow> rb_st \<Rightarrow> bool" where
  "str_ext s s' \<longleftrightarrow> (\<forall>p x. rd_str (rh s) p = Some x \<longrightarrow> rd_str (rh s') p = Some x)"

definition pairs_ok :: "rb_st \<Rightarrow> (addr \<times> addr) list \<Rightarrow> bool" where
  "pairs_ok s ys \<longleftrightarrow> (\<forall>(k, v) \<in> set ys. rd_str (rh s) k \<noteq> None \<and> rd_str (rh s) v \<noteq> None)"

lemma str_ext_refl [simp]: "str_ext s s"
  by (simp add: str_ext_def)

lemma str_ext_trans: "str_ext s s' \<Longrightarrow> str_ext s' s'' \<Longrightarrow> str_ext s s''"
  by (simp add: str_ext_def)

lemma str_ext_alloc: "heap_ok (rh s) \<Longrightarrow> str_ext s (alloc c s)"
  by (auto simp: str_ext_def rd_str_alloc rd_str_Some dest: heap_ok_below_brk)

lemma str_ext_eq: "rd_str (rh s') = rd_str (rh s) \<Longrightarrow> str_ext s s'"
  by (simp add: str_ext_def)

lemma pairs_ext:
  assumes "str_ext s s'" "pairs_ok s ys"
  shows "pairs_ok s' ys" "map (kv_str s') ys = map (kv_str s) ys"
proof -
  have *: "rd_str (rh s') k = rd_str (rh s) k \<and> rd_str (rh s') v = rd_str (rh s) v" if "(k, v) \<in> set ys" for k v
    using assms that by (fastforce simp: str_ext_def pairs_ok_def)
  then show "map (kv_str s') ys = map (kv_str s) ys" by (auto simp: kv_str_def)
  show "pairs_ok s' ys" using * assms(2) by (fastforce simp: pairs_ok_def)
qed

lemma pairs_ok_append [simp]: "pairs_ok s (xs @ ys) \<longleftrightarrow> pairs_ok s xs \<and> pairs_ok s ys"
  by (simp add: pairs_ok_def ball_Un)

lemma pairs_ok_Cons [simp]:
  "pairs_ok s ((k, v) # ys) \<longleftrightarrow> rd_str (rh s) k \<noteq> None \<and> rd_str (rh s) v \<noteq> None \<and> pairs_ok s ys"
  by (auto simp: pairs_ok_def)

lemma strs_pairs: "strs_ok s t \<longleftrightarrow> pairs_ok s (map snd (inorder t))"
  by (simp add: strs_ok_def pairs_ok_def)

text \<open>The representation, given the pairs in order and what they spell.\<close>

lemma rb_repI:
  assumes "heap_ok (rh s)" "wf s t" "is_rbt t" "map snd (inorder t) = ys" "pairs_ok s ys"
    "map (kv_str s) ys = kvs" "sorted_wrt (<) (map fst kvs)" "t_count (rt s) = int (length kvs)"
  shows "rb_rep s t \<and> rb_map s = map_of kvs"
proof -
  have rep: "rb_rep s t" using assms by (simp add: rb_rep_def strs_pairs ents_def)
  moreover have "rb_map s = map_of kvs" using rb_rep_map [OF rep] assms by (simp add: ents_def)
  ultimately show ?thesis ..
qed

text \<open>One pair in the middle is new, what the others spell is as it was.\<close>

lemma rb_rep_mid:
  assumes s': "heap_ok (rh s')" "wf s' t'" "is_rbt t'" "map snd (inorder t') = A @ (kp, vp) # B" "oom (rh s') = []"
    and ext: "str_ext s s'" "pairs_ok s A" "pairs_ok s B" "rd_str (rh s') kp = Some key" "rd_str (rh s') vp = Some v"
    and srt: "sorted_wrt (<) (map fst (map (kv_str s) A @ (key, v) # map (kv_str s) B))"
    and cnt: "t_count (rt s') = int (Suc (length A + length B))"
  shows "rb_inv s' \<and> rb_map s' = map_of (map (kv_str s) A @ (key, v) # map (kv_str s) B)"
proof -
  note old = pairs_ext [OF ext(1,2)] pairs_ext [OF ext(1,3)]
  have "rb_rep s' t' \<and> rb_map s' = map_of (map (kv_str s) A @ (key, v) # map (kv_str s) B)"
  proof (rule rb_repI [OF s'(1-4) _ _ srt])
    show "pairs_ok s' (A @ (kp, vp) # B)" using old ext(4,5) by simp
    show "map (kv_str s') (A @ (kp, vp) # B) = map (kv_str s) A @ (key, v) # map (kv_str s) B"
      using old ext(4,5) by (simp add: kv_str_def)
  qed (use cnt in simp)
  then show ?thesis using s'(5) by (auto simp: rb_inv_def rb_wf_def)
qed

lemma rbtree_mod_ok:
  assumes inv: "rb_inv s" and k: "rb_map s key = Some w"
  shows "\<exists>s'. rbtree_mod s key v = Some (s', 0) \<and> rb_inv s' \<and> rb_map s' = (rb_map s)(key \<mapsto> v)"
proof -
  from inv obtain t where rep: "rb_rep s t" and oom: "oom (rh s) = []" by (auto simp: rb_inv_def rb_wf_def)
  then show ?thesis
  proof (cases rule: search_cases [where key = key])
    case (absent fs L R)
    then show ?thesis using k by simp
  next
    case (found fs c l a kp vp r V)
    let ?b = "brk (rh s)" and ?s1 = "alloc (CStr v) s" and ?A = "map snd (lin fs @ inorder l)" and ?B = "map snd (inorder r @ rin fs)"
    have ok: "heap_ok (rh s)" and wft: "wf s t" and rb: "is_rbt t" and st: "pairs_ok s (map snd (inorder t))"
      and srt: "sorted_wrt (<) (map fst (ents s t))" and cnt: "t_count (rt s) = int (length (ents s t))"
      using rep by (simp_all add: rb_rep_def strs_pairs)
    have wf1: "wf ?s1 (plug fs (Nd c l (a, kp, vp) r))" using wf_alloc_iff [OF ok wft] found(1) by simp
    obtain s' where s': "upd (\<lambda>n. n\<lparr>n_value := ?b\<rparr>) a ?s1 = Some s'"
        "wf s' (plug fs (Nd c l (a, kp, ?b) r))" "sim ?s1 s'"
      using set_value_at [OF wf1] by blast
    have b: "?b \<noteq> NULL" using ok by simp
    have ex: "rbtree_exist s key = Some 0" using found by (simp add: rbtree_exist_def)
    have run: "rbtree_mod s key v = Some (s', 0)"
      using found(2) ex s'(1) b by (simp add: rbtree_mod_def malloc_alloc [OF oom])
    have ext: "str_ext s s'"
      by (rule str_ext_trans [OF str_ext_alloc [OF ok] str_ext_eq]) (use s'(3) in \<open>simp add: sim_def\<close>)
    have io: "map snd (inorder t) = ?A @ (kp, vp) # ?B" by (simp add: found(1) inorder_plug)
    have e0: "ents s t = map (kv_str s) ?A @ (key, V) # map (kv_str s) ?B"
      unfolding ents_def io using found(4,5) by (simp add: kv_str_def)
    have "rb_inv s' \<and> rb_map s' = map_of (map (kv_str s) ?A @ (key, v) # map (kv_str s) ?B)"
    proof (rule rb_rep_mid [OF _ s'(2) _ _ _ ext])
      show "heap_ok (rh s')" using heap_ok_sim [of ?s1 s'] s'(3) ok by (simp add: sim_def)
      show "is_rbt (plug fs (Nd c l (a, kp, ?b) r))"
        using rb is_rbt_item [of fs c l "(a, kp, vp)" r "(a, kp, ?b)"] unfolding found(1) by simp
      show "map snd (inorder (plug fs (Nd c l (a, kp, ?b) r))) = ?A @ (kp, ?b) # ?B" by (simp add: inorder_plug)
      show "pairs_ok s ?A" "pairs_ok s ?B" using st unfolding io by simp_all
      show "rd_str (rh s') kp = Some key" using ext found(4) by (simp add: str_ext_def)
      show "rd_str (rh s') ?b = Some v" "oom (rh s') = []" using s'(3) oom by (simp_all add: sim_def rd_str_alloc)
      show "sorted_wrt (<) (map fst (map (kv_str s) ?A @ (key, v) # map (kv_str s) ?B))" using srt unfolding e0 by simp
      show "t_count (rt s') = int (Suc (length ?A + length ?B))" using cnt s'(3) unfolding e0 by (simp add: sim_def)
    qed
    then show ?thesis
      using run ents_distinct [OF rep] map_of_replace_mid [of "map (kv_str s) ?A" key V "map (kv_str s) ?B" v]
      unfolding rb_rep_map [OF rep] e0 by auto
  qed
qed

section \<open>Insertion of a new key\<close>

lemma heap_ok_put: "nmap s p = Some n0 \<Longrightarrow> heap_ok (rh s) \<Longrightarrow> heap_ok (rh (put p n s))"
  using heap_ok_write [of "rh s" p] by (simp add: put_def rd_obj_Some)

lemma zsearch_cong:
  "(\<And>e. e \<in> set (inorder t) \<Longrightarrow> cmp e = cmp' e) \<Longrightarrow> zsearch cmp fs t = zsearch cmp' fs t"
  by (induction cmp fs t rule: zsearch.induct) auto

lemma kcmp_ext:
  assumes "str_ext s s'" "pairs_ok s (map snd (inorder t))" "e \<in> set (inorder t)"
  shows "kcmp s' key e = kcmp s key e"
proof -
  obtain a k v where e: "e = (a, k, v)" by (cases e) auto
  have "(k, v) \<in> set (map snd (inorder t))" using assms(3) e by force
  then obtain x where "rd_str (rh s) k = Some x" using assms(2) by (fastforce simp: pairs_ok_def)
  then show ?thesis using assms(1) by (simp add: kcmp_def e str_ext_def)
qed

lemma map_of_insert_mid: "k \<notin> fst ` set k1 \<Longrightarrow> map_of (k1 @ (k, v) # k2) = (map_of (k1 @ k2))(k \<mapsto> v)"
  by (induction k1) auto

text \<open>The state in which \<open>rbtree_set\<close> calls \<open>rbtree_insert\<close>: the new node, its key and its value are stored.\<close>

definition new_node_entry :: "rb_st \<Rightarrow> rbtree_node" where
  "new_node_entry s = fresh_node\<lparr>n_key := Suc (brk (rh s)), n_value := Suc (Suc (brk (rh s)))\<rparr>"

definition new_entry :: "rb_st \<Rightarrow> string \<Rightarrow> string \<Rightarrow> rb_st" where
  "new_entry s key v =
     (let b = brk (rh s);
          s3 = put b (fresh_node\<lparr>n_key := Suc b\<rparr>) (alloc (CStr key) (alloc (CObj fresh_node) s))
      in put b (new_node_entry s) (alloc (CStr v) s3))"

lemma new_entry_spec:
  assumes ok: "heap_ok (rh s)" and oom: "oom (rh s) = []" and wft: "wf s t" and st: "pairs_ok s (map snd (inorder t))"
    and ex: "rbtree_exist s key = Some (-1)"
  shows "rbtree_set s key v = do {
      s' \<leftarrow> rbtree_insert (new_entry s key v) (brk (rh s));
      Some (s'\<lparr>rt := (rt s')\<lparr>t_count := t_count (rt s') + 1\<rparr>\<rparr>, 0) }"
    "heap_ok (rh (new_entry s key v))" "wf (new_entry s key v) t" "str_ext s (new_entry s key v)"
    "nmap (new_entry s key v) (brk (rh s)) = Some (new_node_entry s)" "brk (rh s) \<noteq> nil (new_entry s key v)"
    "rd_str (rh (new_entry s key v)) (Suc (brk (rh s))) = Some key"
    "rd_str (rh (new_entry s key v)) (Suc (Suc (brk (rh s)))) = Some v"
    "rt (new_entry s key v) = rt s" "oom (rh (new_entry s key v)) = []"
proof -
  let ?b = "brk (rh s)"
  let ?s1 = "alloc (CObj fresh_node) s"
  let ?s2 = "alloc (CStr key) ?s1"
  let ?n3 = "fresh_node\<lparr>n_key := Suc ?b\<rparr>"
  let ?s3 = "put ?b ?n3 ?s2"
  let ?s4 = "alloc (CStr v) ?s3"
  let ?n5 = "?n3\<lparr>n_value := Suc (Suc ?b)\<rparr>"
  let ?s5 = "put ?b ?n5 ?s4"
  have s5: "new_entry s key v = ?s5" "new_node_entry s = ?n5" by (simp_all add: new_entry_def new_node_entry_def Let_def)
  have brk3: "brk (rh ?s3) = Suc (Suc ?b)" "oom (rh ?s3) = []" using oom by (simp_all add: put_def)
  have bn: "nmap ?s2 ?b = Some fresh_node" "nmap ?s4 ?b = Some ?n3"
    using brk3 by (simp_all add: nmap_alloc)
  have pos: "?b \<noteq> NULL" using ok by simp
  have ok3: "heap_ok (rh ?s3)" using ok by (intro heap_ok_put [OF bn(1)]) simp
  show "heap_ok (rh (new_entry s key v))" unfolding s5 using ok3 by (intro heap_ok_put [OF bn(2)]) simp
  have below: "p < ?b" if "p \<in> set (addrs t) \<or> p = nil s" for p
    using that wf_below_brk [OF ok wft] wf_nil_below [OF ok wft] by auto
  have "wf ?s5 t = wf s t" by (rule wf_cong) (use below brk3 in \<open>fastforce simp: nmap_alloc\<close>)+
  with wft show "wf (new_entry s key v) t" unfolding s5 by simp
  show "nmap (new_entry s key v) ?b = Some (new_node_entry s)" "?b \<noteq> nil (new_entry s key v)"
    unfolding s5 using below by auto
  show "rd_str (rh (new_entry s key v)) (Suc ?b) = Some key" "rd_str (rh (new_entry s key v)) (Suc (Suc ?b)) = Some v"
    unfolding s5 using bn brk3 by (simp_all add: rd_str_alloc)
  have "str_ext s ?s2" by (rule str_ext_trans [OF str_ext_alloc [OF ok] str_ext_alloc]) (simp add: ok)
  moreover have "str_ext ?s2 ?s3" by (rule str_ext_eq) (simp add: bn)
  moreover have "str_ext ?s3 ?s4" by (rule str_ext_alloc [OF ok3])
  moreover have "str_ext ?s4 ?s5" by (rule str_ext_eq) (simp add: bn)
  ultimately show "str_ext s (new_entry s key v)" unfolding s5 by (blast intro: str_ext_trans)
  show "rt (new_entry s key v) = rt s" "oom (rh (new_entry s key v)) = []"
    unfolding s5 using oom by (simp_all add: put_def)
  have "upd (\<lambda>n. n\<lparr>n_key := Suc ?b\<rparr>) ?b ?s2 = Some ?s3" by (rule upd_put [OF bn(1)])
  moreover have "upd (\<lambda>n. n\<lparr>n_value := Suc (Suc ?b)\<rparr>) ?b ?s4 = Some ?s5" by (rule upd_put [OF bn(2)])
  moreover have "kvstore_malloc (CObj fresh_node) (rh s) = (rh ?s1, ?b)" using oom by (rule malloc_alloc)
  moreover have "kvstore_malloc (CStr key) (rh ?s1) = (rh ?s2, Suc ?b)" using malloc_alloc [of ?s1] oom by simp
  moreover have "kvstore_malloc (CStr v) (rh ?s3) = (rh ?s4, Suc (Suc ?b))" using malloc_alloc [of ?s3] brk3 by simp
  ultimately show "rbtree_set s key v = do {
      s' \<leftarrow> rbtree_insert (new_entry s key v) ?b;
      Some (s'\<lparr>rt := (rt s')\<lparr>t_count := t_count (rt s') + 1\<rparr>\<rparr>, 0) }"
    unfolding s5 using pos by (simp add: rbtree_set_def ex)
qed

lemma rbtree_set_new:
  assumes inv: "rb_inv s" and k: "rb_map s key = None"
  shows "\<exists>s'. rbtree_set s key v = Some (s', 0) \<and> rb_inv s' \<and> rb_map s' = (rb_map s)(key \<mapsto> v)"
proof -
  from inv obtain t where rep: "rb_rep s t" and oom: "oom (rh s) = []" by (auto simp: rb_inv_def rb_wf_def)
  then show ?thesis
  proof (cases rule: search_cases [where key = key])
    case (found fs c l a kp vp r V)
    then show ?thesis using k by simp
  next
    case (absent fs L R)
    let ?b = "brk (rh s)" and ?s5 = "new_entry s key v"
    have ok: "heap_ok (rh s)" and wft: "wf s t" and rb: "is_rbt t" and st: "pairs_ok s (map snd (inorder t))"
      and srt: "sorted_wrt (<) (map fst (ents s t))" and cnt: "t_count (rt s) = int (length (ents s t))"
      using rep by (simp_all add: rb_rep_def strs_pairs)
    have ex: "rbtree_exist s key = Some (-1)" using absent by (simp add: rbtree_exist_def)
    note N = new_entry_spec [OF ok oom wft st ex, of v]
    have nb: "?b \<notin> set (addrs t)" using wf_below_brk [OF ok wft] by auto
    have keys: "keys_ok ?s5 t" using pairs_ext(1) [OF N(4) st] strs_pairs strs_keys by blast
    have zs: "zsearch (kcmp ?s5 key) [] t = (fs, Lf)"
      using zsearch_cong [of t "kcmp ?s5 key" "kcmp s key"] kcmp_ext [OF N(4) st] absent(2) by simp
    have "rd_str (rh ?s5) (n_key (new_node_entry s)) = Some key" using N(7) by (simp add: new_node_entry_def)
    from rbtree_insert_at [OF N(3) rb keys N(5,6) nb this zs] obtain s6 where
      s6: "rbtree_insert ?s5 ?b = Some s6" "sim ?s5 s6"
        "wf s6 (ins_fix fs (Nd RED Lf (?b, Suc ?b, Suc (Suc ?b)) Lf))" by (auto simp: new_node_entry_def)
    let ?s' = "s6\<lparr>rt := (rt s6)\<lparr>t_count := t_count (rt s6) + 1\<rparr>\<rparr>"
    let ?t' = "ins_fix fs (Nd RED Lf (?b, Suc ?b, Suc (Suc ?b)) Lf)"
    have run: "rbtree_set s key v = Some (?s', 0)" using N(1) s6(1) by simp
    have io: "map snd (inorder t) = map snd L @ map snd R" using absent(7) by simp
    have e0: "ents s t = map (kv_str s) (map snd L) @ map (kv_str s) (map snd R)"
      unfolding ents_def io by simp
    have rd6: "rd_str (rh ?s') = rd_str (rh ?s5)" using s6(2) by (simp add: sim_def)
    have "rb_inv ?s' \<and> rb_map ?s' = map_of (map (kv_str s) (map snd L) @ (key, v) # map (kv_str s) (map snd R))"
    proof (rule rb_rep_mid [where t' = ?t' and kp = "Suc ?b" and vp = "Suc (Suc ?b)"])
      show "heap_ok (rh ?s')" using heap_ok_sim [of ?s5 s6] s6(2) N(2) by (simp add: sim_def)
      show "wf ?s' ?t'" using s6(3) by (simp add: wf_def)
      show "is_rbt ?t'" by (rule ins_fix_rbt [OF ins_inv_leaf [OF rb [unfolded absent(1)]]])
      show "map snd (inorder ?t') = map snd L @ (Suc ?b, Suc (Suc ?b)) # map snd R"
        using absent by (simp add: ins_fix_inorder inorder_plug)
      show "str_ext s ?s'" by (rule str_ext_trans [OF N(4) str_ext_eq [OF rd6]])
      show "pairs_ok s (map snd L)" "pairs_ok s (map snd R)" using st unfolding io by simp_all
      show "rd_str (rh ?s') (Suc ?b) = Some key" "rd_str (rh ?s') (Suc (Suc ?b)) = Some v" using N(7,8) unfolding rd6 by simp_all
      show "sorted_wrt (<) (map fst (map (kv_str s) (map snd L) @ (key, v) # map (kv_str s) (map snd R)))"
        using srt absent(8,9) unfolding e0 by (fastforce simp: sorted_wrt_append key_of_def)
      show "t_count (rt ?s') = int (Suc (length (map snd L) + length (map snd R)))" "oom (rh ?s') = []"
        using cnt s6(2) N(9,10) unfolding e0 by (simp_all add: sim_def)
    qed
    moreover have "map_of (map (kv_str s) (map snd L) @ (key, v) # map (kv_str s) (map snd R)) = (rb_map s)(key \<mapsto> v)"
      unfolding rb_rep_map [OF rep] e0
      by (rule map_of_insert_mid) (use absent(8) in \<open>auto simp: key_of_def\<close>)
    ultimately show ?thesis using run by metis
  qed
qed

lemma rbtree_set_ok:
  assumes inv: "rb_inv s"
  shows "\<exists>s'. rbtree_set s key v = Some (s', 0) \<and> rb_inv s' \<and> rb_map s' = (rb_map s)(key \<mapsto> v)"
proof (cases "rb_map s key")
  case None
  then show ?thesis by (rule rbtree_set_new [OF inv])
next
  case (Some w)
  have "rbtree_exist s key = Some 0" using rbtree_exist_spec [of s key] inv Some by (auto simp: rb_inv_def)
  then show ?thesis using rbtree_mod_ok [OF inv Some, of v] by (auto simp: rbtree_set_def)
qed

section \<open>Deletion of a key\<close>

text \<open>The heap keeps every block: node, key and value of the deleted entry are lost.\<close>

lemma rbtree_del_rep:
  assumes rep: "rb_rep s t" and k: "rb_map s key \<noteq> None"
  shows "\<exists>s'. rbtree_del s key = Some (s', 0) \<and> rb_wf s' \<and> rb_map s' = (rb_map s)(key := None) \<and>
    oom (rh s') = oom (rh s) \<and> dom (cells (rh s')) = dom (cells (rh s))"
  using rep
proof (cases rule: search_cases [where key = key])
  case (absent fs L R)
  then show ?thesis using k by simp
next
  case (found fs c l a kp vp r V)
  have ok: "heap_ok (rh s)" and wft: "wf s t" and rb: "is_rbt t" and st: "pairs_ok s (map snd (inorder t))"
    and srt: "sorted_wrt (<) (map fst (ents s t))" and cnt: "t_count (rt s) = int (length (ents s t))"
    using rep by (simp_all add: rb_rep_def strs_pairs)
  from rbtree_delete_at [OF wft [unfolded found(1)] rb [unfolded found(1)]] obtain s1 y t' where
    d: "rbtree_delete s a = Some (s1, y)" "wf s1 t'" "is_rbt t'" "dsim s s1"
      "map snd (inorder t') = map snd (lin fs @ inorder l @ inorder r @ rin fs)"
      "y \<in> set (addrs t)" unfolding found(1) by blast
  let ?s' = "s1\<lparr>rt := (rt s1)\<lparr>t_count := t_count (rt s1) - 1\<rparr>\<rparr>"
  let ?A = "map snd (lin fs @ inorder l)" and ?B = "map snd (inorder r @ rin fs)"
  have y: "y \<noteq> NULL" using wf_alloc [OF wft d(6)] ok by (auto simp: rd_obj_Some dest: heap_ok_not_null)
  have run: "rbtree_del s key = Some (?s', 0)" using found d(1) y by (simp add: rbtree_del_def)
  have io: "map snd (inorder t) = ?A @ (kp, vp) # ?B" by (simp add: found(1) inorder_plug)
  have e0: "ents s t = map (kv_str s) ?A @ (key, V) # map (kv_str s) ?B"
    unfolding ents_def io using found(4,5) by (simp add: kv_str_def)
  have rd: "rd_str (rh ?s') = rd_str (rh s)" using d(4) by (simp add: dsim_def)
  then have kv: "kv_str ?s' = kv_str s" by (simp add: kv_str_def)
  let ?kvs = "map (kv_str s) ?A @ map (kv_str s) ?B"
  have "rb_rep ?s' t' \<and> rb_map ?s' = map_of ?kvs"
  proof (rule rb_repI)
    show "heap_ok (rh ?s')" using heap_ok_sim [of s s1] d(4) ok by (simp add: dsim_def)
    show "wf ?s' t'" using d(2) by (simp add: wf_def)
    show "map snd (inorder t') = ?A @ ?B" using d(5) by simp
    show "pairs_ok ?s' (?A @ ?B)" using st unfolding io pairs_ok_def rd by auto
    show "map (kv_str ?s') (?A @ ?B) = ?kvs" by (simp only: kv map_append)
    show "sorted_wrt (<) (map fst ?kvs)" using srt unfolding e0 by (simp add: sorted_wrt_append)
    show "t_count (rt ?s') = int (length ?kvs)" using cnt d(4) unfolding e0 by (simp add: dsim_def)
  qed (rule d(3))
  moreover have "map_of ?kvs = (rb_map s)(key := None)"
    using ents_distinct [OF rep] map_of_delete_mid [of "map (kv_str s) ?A" key V "map (kv_str s) ?B"]
    unfolding rb_rep_map [OF rep] e0 by simp
  ultimately show ?thesis using run d(4) by (auto simp: rb_wf_def dsim_def)
qed

lemma rbtree_del_ok:
  assumes "rb_inv s" "rb_map s key \<noteq> None"
  shows "\<exists>s'. rbtree_del s key = Some (s', 0) \<and> rb_inv s' \<and> rb_map s' = (rb_map s)(key := None)"
  using assms rbtree_del_rep [of s _ key] unfolding rb_inv_def rb_wf_def by metis

lemma rbtree_del_absent:
  assumes "rb_wf s" "rb_map s key = None"
  shows "rbtree_del s key = Some (s, -1)"
proof -
  from assms obtain t where "rb_rep s t" by (auto simp: rb_wf_def)
  then show ?thesis by (cases rule: search_cases [where key = key]) (use assms in \<open>auto simp: rbtree_del_def\<close>)
qed

section \<open>Creation and the contract\<close>

lemma rbtree_create_inv:
  assumes "heap_ok (rh s)" "oom (rh s) = []" "cells (rh s) = Map.empty" "NODE_SIZE \<le> sz"
  shows "\<exists>s'. rbtree_create_sized sz g (Some s) = Some (Some s', 0) \<and> rb_inv s' \<and> rb_map s' = Map.empty"
proof -
  let ?b = "brk (rh s)"
  let ?n = "g\<lparr>n_key := Suc ?b, n_color := BLACK\<rparr>"
  let ?s' = "\<lparr>rh = (rh s)\<lparr>brk := Suc (Suc ?b), oom := [], cells := [Suc ?b \<mapsto> CStr [], ?b \<mapsto> CObj ?n]\<rparr>,
      rt = \<lparr>t_root = ?b, t_nil = ?b, t_count = 0\<rparr>\<rparr>"
  have "rbtree_create_sized sz g (Some s) = Some (Some ?s', 0)"
    using assms by (simp add: rbtree_create_sized_def NODE_SIZE_def fits_def Let_def
        upd_def set_color_def rd_obj_def wr_obj_def rd_str_def fun_upd_twist)
  moreover have "rb_rep ?s' Lf"
    using assms heap_ok_brk_pos [OF assms(1)]
    by (auto simp: rb_rep_def heap_ok_def wf_def is_rbt_def strs_ok_def ents_def rd_obj_def)
  ultimately show ?thesis
    using rb_rep_map [of ?s' Lf] by (auto simp: rb_inv_def rb_wf_def ents_def)
qed

text \<open>\<open>kvstore_rbtree_*\<close> call the engine on the global \<open>Tree\<close>.\<close>

definition kvstore_rbtree_exist :: "rb_st \<Rightarrow> string \<Rightarrow> int option" where
  "kvstore_rbtree_exist s key = rbtree_exist s key"

definition kvstore_rbtree_set :: "rb_st \<Rightarrow> string \<Rightarrow> string \<Rightarrow> (rb_st \<times> int) option" where
  "kvstore_rbtree_set s key value = rbtree_set s key value"

definition kvstore_rbtree_get :: "rb_st \<Rightarrow> string \<Rightarrow> addr option" where
  "kvstore_rbtree_get s key = rbtree_get s key"

definition kvstore_rbtree_del :: "rb_st \<Rightarrow> string \<Rightarrow> (rb_st \<times> int) option" where
  "kvstore_rbtree_del s key = rbtree_del s key"

definition kvstore_rbtree_count :: "rb_st \<Rightarrow> int option" where
  "kvstore_rbtree_count s = Some (rbtree_count s)"

definition rbtree_engine :: "rb_st engine" where
  "rbtree_engine =
     \<lparr>eng_exist = kvstore_rbtree_exist, eng_set = kvstore_rbtree_set, eng_get = kvstore_rbtree_get,
      eng_del = kvstore_rbtree_del, eng_count = kvstore_rbtree_count,
      eng_str = (\<lambda>s p. rd_str (rh s) p)\<rparr>"

lemma rb_inv_wf: "rb_inv s \<Longrightarrow> rb_wf s"
  by (simp add: rb_inv_def)

interpretation re: kv_engine rbtree_engine rb_inv rb_map "\<lambda>_. True" None
proof (unfold_locales, goal_cases)
  case (1 s k)
  then show ?case using rbtree_exist_spec [OF rb_inv_wf] by (simp add: rbtree_engine_def kvstore_rbtree_exist_def)
next
  case (2 s k v)
  then show ?case using rbtree_get_spec [OF rb_inv_wf, of s k]
    by (auto simp: rbtree_engine_def kvstore_rbtree_get_def)
next
  case (3 s k v)
  from rbtree_set_ok [OF 3(1), of k v] show ?case by (simp add: rbtree_engine_def kvstore_rbtree_set_def)
next
  case (4 s k v)
  then show ?case by (simp add: has_room_def)
next
  case (5 s k)
  from rbtree_del_ok [OF 5(1,3)] show ?case by (simp add: rbtree_engine_def kvstore_rbtree_del_def)
next
  case (6 s)
  then show ?case by (simp add: rbtree_engine_def kvstore_rbtree_count_def rbtree_count_spec(1) rb_inv_wf)
qed

end
