(* ===== verification/KV_RBTree_Props.thy ===== *)
theory KV_RBTree_Props
  imports KV_RBTree_Store
begin

text \<open>
  The properties of the red-black tree engine: its sessions, the balance of the tree, the order of
  the traversal, and what the code does with memory it should give back or did not get.
\<close>

section \<open>Balance\<close>

fun height :: "'e rbt \<Rightarrow> nat" where
  "height Lf = 0"
| "height (Nd c l e r) = Suc (max (height l) (height r))"

lemma rbt_height: "invc t \<Longrightarrow> invh t \<Longrightarrow> height t \<le> 2 * bheight t + (if col t = RED then 1 else 0)"
proof (induction t)
  case (Nd c l e r)
  then show ?case by (cases c) (auto split: if_splits)
qed simp

lemma rbt_size: "invh t \<Longrightarrow> 2 ^ bheight t \<le> Suc (length (inorder t))"
proof (induction t)
  case (Nd c l e r)
  then have "2 ^ bheight l \<le> Suc (length (inorder l))" "2 ^ bheight l \<le> Suc (length (inorder r))" by auto
  then show ?case by (cases c) auto
qed simp

text \<open>The loop of \<open>rbtree_search\<close> with a budget of iterations: \<open>None\<close> when it runs out.\<close>

fun search_budget :: "nat \<Rightarrow> rb_st \<Rightarrow> string \<Rightarrow> addr \<Rightarrow> addr option" where
  "search_budget f s key node =
     (if node \<noteq> nil s
      then (case f of
         0 \<Rightarrow> None
       | Suc f \<Rightarrow> do {
           kp \<leftarrow> fld n_key s node;
           k \<leftarrow> rd_str (rh s) kp;
           if strcmp key k < 0 then do { l \<leftarrow> fld n_left s node; search_budget f s key l }
           else if strcmp key k > 0 then do { r \<leftarrow> fld n_right s node; search_budget f s key r }
           else Some node })
      else Some (nil s))"

declare search_budget.simps [simp del]

lemma search_budget_at:
  "wf s (plug fs t) \<Longrightarrow> keys_ok s t \<Longrightarrow> height t \<le> f \<Longrightarrow>
   search_budget f s key (ptr (nil s) t) = search_loop s key (ptr (nil s) t)"
proof (induction t arbitrary: fs f)
  case Lf
  then show ?case by (simp add: search_budget.simps search_loop.simps)
next
  case (Nd c l e r)
  obtain a k v where e: "e = (a, k, v)" by (cases e) auto
  obtain K where K: "rd_str (rh s) k = Some K" using Nd(4) e by auto
  obtain g where g: "f = Suc g" "height l \<le> g" "height r \<le> g" using Nd(5) by (cases f) auto
  have "wf s (plug (FL c e r # fs) l)" "wf s (plug (FR c l e # fs) r)" using Nd(3) by simp_all
  then have "search_budget g s key (ptr (nil s) l) = search_loop s key (ptr (nil s) l)"
    "search_budget g s key (ptr (nil s) r) = search_loop s key (ptr (nil s) r)"
    using Nd.IH(1) [of "FL c e r # fs" g] Nd.IH(2) [of "FR c l e # fs" g] Nd(4) g e by auto
  then show ?case using fld_at [OF Nd(3) [unfolded e]] K g(1)
    by (subst search_budget.simps, subst search_loop.simps) (simp add: e)
qed

section \<open>Traversal\<close>

definition traversal_line :: "string \<times> string \<Rightarrow> string" where
  "traversal_line kv = fst kv @ '' : '' @ snd kv @ [CHR 0x0A]"

lemma traversal_line_pair: "traversal_line (k, v) = k @ '' : '' @ v @ [CHR 0x0A]"
  by (simp add: traversal_line_def)

lemma ents_Nd: "ents s (Nd c l e r) = ents s l @ kv_str s (snd e) # ents s r"
  by (simp add: ents_def)

lemma traversal_at:
  "wf s (plug fs t) \<Longrightarrow> strs_ok s t \<Longrightarrow>
   rbtree_traversal s (ptr (nil s) t) = Some (concat (map traversal_line (ents s t)))"
proof (induction t arbitrary: fs)
  case Lf
  then show ?case by (simp add: rbtree_traversal.simps ents_def)
next
  case (Nd c l e r)
  obtain a k v where e: "e = (a, k, v)" by (cases e) auto
  obtain K V where KV: "rd_str (rh s) k = Some K" "rd_str (rh s) v = Some V"
    using Nd(4) e by (auto simp: strs_ok_def)
  have w: "wf s (plug (FL c e r # fs) l)" "wf s (plug (FR c l e # fs) r)" using Nd(3) by simp_all
  have st: "strs_ok s l" "strs_ok s r" using Nd(4) unfolding strs_pairs by (simp_all add: e)
  have "a \<noteq> nil s" using Nd(3) by (auto simp: wf_plug e)
  then show ?case
    using fld_at [OF Nd(3) [unfolded e]] KV Nd.IH(1) [OF w(1) st(1)] Nd.IH(2) [OF w(2) st(2)]
    by (subst rbtree_traversal.simps) (simp add: e ents_Nd kv_str_def traversal_line_pair)
qed

section \<open>Destruction\<close>

lemma nmap_None_iff: "nmap s p = None \<longleftrightarrow> p \<notin> dom (cells (rh s)) \<or> rd_str (rh s) p \<noteq> None"
  by (auto simp: rd_obj_def rd_str_def split: option.splits cell.splits)

lemma dsim_None: "dsim s s' \<Longrightarrow> nmap s p = None \<Longrightarrow> nmap s' p = None"
  unfolding nmap_None_iff by (simp add: dsim_def)

lemma destroy_loop_undefined:
  "wf s t \<Longrightarrow> is_rbt t \<Longrightarrow> nmap s (nil s) = Some n \<Longrightarrow> nmap s (n_left n) = None \<Longrightarrow> cur \<noteq> nil s \<Longrightarrow>
   destroy_loop s cur = None"
proof (induction "length (inorder t)" arbitrary: s t n cur rule: less_induct)
  case less
  show ?case
  proof (cases "t = Lf")
    case True
    then have r: "root s = nil s" using less(2) by (simp add: wf_def)
    have "n_left n \<noteq> nil s" using less(4,5) by auto
    moreover have "fld n_left s (n_left n) = None" using less(5) by (simp add: fld_def)
    then have "rbtree_mini s (n_left n) = None" by (subst rbtree_mini.simps) simp
    ultimately have "rbtree_mini s (root s) = None"
      using less(4) r by (subst rbtree_mini.simps) (simp add: fld_def)
    then show ?thesis using less(6) by (subst destroy_loop.simps) simp
  next
    case False
    obtain ds c e r where z: "zmin [] t = (ds, Nd c Lf e r)" using zmin_node [OF False, of "[]"] by auto
    obtain a k v where e: "e = (a, k, v)" by (cases e) auto
    have t: "t = plug ds (Nd c Lf (a, k, v) r)" using plug_zmin [OF z] e by simp
    have m: "rbtree_mini s (root s) = Some a"
      using mini_at [of s "[]" t] less(2) False z e wf_root_ptr [OF less(2)] by simp
    have a: "a \<noteq> nil s" using less(2) by (auto simp: t wf_plug)
    from rbtree_delete_at [OF less(2) [unfolded t] less(3) [unfolded t]] obtain s1 y t' where
      d: "rbtree_delete s a = Some (s1, y)" "wf s1 t'" "is_rbt t'" "dsim s s1"
        "map snd (inorder t') = map snd (lin ds @ inorder r @ rin ds)" "y \<in> set (addrs t)"
      unfolding t by auto
    have len: "length (inorder t') < length (inorder t)"
      using arg_cong [OF d(5), of length] by (simp add: t inorder_plug)
    obtain n1 where n1: "nmap s1 (nil s1) = Some n1" "n_left n1 = n_left n"
    proof -
      have "map_option (\<lambda>n. n\<lparr>n_parent := 0\<rparr>) (nmap s1 (nil s1)) = Some (n\<lparr>n_parent := 0\<rparr>)"
        using d(4) less(4) by (simp add: dsim_def)
      then obtain n1 where "nmap s1 (nil s1) = Some n1" "n1\<lparr>n_parent := 0\<rparr> = n\<lparr>n_parent := 0\<rparr>" by auto
      moreover from this(2) have "n_left n1 = n_left n" by (metis rbtree_node.simps(3) rbtree_node.select_convs(3) rbtree_node.surjective rbtree_node.update_convs(4))
      ultimately show thesis using that by blast
    qed
    have "y \<noteq> nil s1" using d(4,6) less(2) by (auto simp: dsim_def wf_def)
    then have "destroy_loop s1 y = None"
      using less(1) [OF len d(2,3) n1(1)] dsim_None [OF d(4) less(5)] n1(2) by simp
    then show ?thesis using less(6) m a d(1) by (subst destroy_loop.simps) simp
  qed
qed

section \<open>A tree with one node\<close>

definition one_st :: "bool list \<Rightarrow> rb_st" where
  "one_st fs =
     \<lparr>rh = \<lparr>cells =
        [1 \<mapsto> CObj \<lparr>n_color = BLACK, n_right = 0, n_left = 0, n_parent = 0, n_key = 2, n_value = 0\<rparr>,
         2 \<mapsto> CStr [],
         3 \<mapsto> CObj \<lparr>n_color = BLACK, n_right = 1, n_left = 1, n_parent = 1, n_key = 4, n_value = 5\<rparr>,
         4 \<mapsto> CStr ''k'', 5 \<mapsto> CStr ''v''],
        brk = 6, oom = fs\<rparr>,
      rt = \<lparr>t_root = 3, t_nil = 1, t_count = 1\<rparr>\<rparr>"

lemma one_st_rep: "rb_rep (one_st fs) (Nd BLACK Lf (3, 4, 5) Lf)"
  by (auto simp: one_st_def rb_rep_def heap_ok_def wf_def is_rbt_def strs_ok_def ents_def rd_obj_def rd_str_def kv_str_def)

lemma one_st_wf: "rb_wf (one_st fs)"
  using one_st_rep by (auto simp: rb_wf_def)

lemma one_st_map: "rb_map (one_st fs) ''k'' = Some ''v''"
  unfolding rb_rep_map [OF one_st_rep] by (simp add: ents_def kv_str_def one_st_def rd_str_def)

section \<open>Properties\<close>

text \<open>
  C6: on every well-formed tree, and whatever its size, every session of requests to the red-black tree engine is
  defined, its replies are those of an unbounded finite map, the map it leaves is that of the session, and
  the pointers again form a sorted red-black tree with consistent parent pointers and an exact count.
  A tree is made well formed by \<open>rbtree_create_sized\<close> with room for a node in the sentinel; \<open>rbtree_create\<close> itself
  asks for one byte, so that it is undefined for every tree.
\<close>

theorem rbtree_session:
  assumes "rb_inv s"
  shows "\<exists>s'. kvs_run rbtree_engine s reqs = Some (s', snd (spec_run None (rb_map s) reqs)) \<and> rb_inv s' \<and>
    rb_map s' = fst (spec_run None (rb_map s) reqs) \<and> rbtree_create g (Some s) = None"
  using re.run_refines [OF assms, of reqs]
  by (auto simp: rbtree_create_def rbtree_create_sized_def NIL_SIZE_def fits_def Let_def split: prod.split)

definition empty_rb_st :: rb_st where
  "empty_rb_st = \<lparr>rh = empty_heap, rt = \<lparr>t_root = 0, t_nil = 0, t_count = 0\<rparr>\<rparr>"

theorem rbtree_session_witness:
  "\<exists>s0 s'. rbtree_create_sized NODE_SIZE fresh_node (Some empty_rb_st) = Some (Some s0, 0) \<and>
    kvs_run rbtree_engine s0 [SET ''b'' ''1'', SET ''a'' ''2'', SET ''b'' ''3'', DEL ''a'', GET ''b'', COUNT] =
      Some (s', [''SUCCESS'', ''SUCCESS'', ''SUCCESS'', ''SUCCESS'', ''3'', ''1''])"
proof -
  obtain s0 where s0: "rbtree_create_sized NODE_SIZE fresh_node (Some empty_rb_st) = Some (Some s0, 0)" "rb_inv s0"
      "rb_map s0 = Map.empty"
    using rbtree_create_inv [of empty_rb_st NODE_SIZE fresh_node] by (auto simp: empty_rb_st_def)
  from rbtree_session [OF s0(2), of "[SET ''b'' ''1'', SET ''a'' ''2'', SET ''b'' ''3'', DEL ''a'', GET ''b'', COUNT]"] s0
  show ?thesis by (auto simp: has_room_def snprintf_s_def BUFFER_LENGTH_def)
qed

text \<open>
  C10: a search in a well-formed tree of \<open>n\<close> keys ends within \<open>2 * log2 (n + 1)\<close> iterations:
  with any budget \<open>f\<close> such that \<open>2 * h \<le> f\<close> for the largest \<open>h\<close> with \<open>2 ^ h \<le> n + 1\<close>, the
  budgeted loop gives what \<open>rbtree_search\<close> gives, and \<open>rbtree_search\<close> does return.
\<close>

theorem rbtree_search_logarithmic:
  assumes "rb_wf s" "\<And>h. 2 ^ h \<le> Suc (nat (rbtree_count s)) \<Longrightarrow> 2 * h \<le> f"
  shows "\<exists>p. search_budget f s key (root s) = Some p \<and> rbtree_search s key = Some p"
proof -
  from assms(1) obtain t where rep: "rb_rep s t" by (auto simp: rb_wf_def)
  then have wf: "wf s t" and rb: "is_rbt t" and st: "strs_ok s t" by (simp_all add: rb_rep_def)
  have "rbtree_count s = int (length (inorder t))" using rep by (simp add: rb_rep_def rbtree_count_def ents_def)
  then have "2 * bheight t \<le> f" using rbt_size [of t] rb assms(2) by (simp add: is_rbt_def)
  then have "height t \<le> f" using rbt_height [of t] rb by (simp add: is_rbt_def)
  then have "search_budget f s key (root s) = rbtree_search s key"
    using search_budget_at [of s "[]" t f key] wf strs_keys [OF st] wf_root_ptr [OF wf]
    by (simp add: rbtree_search_def)
  moreover have "\<exists>p. rbtree_search s key = Some p"
    by (cases rule: search_cases [OF rep, of key]) auto
  ultimately show ?thesis by auto
qed

theorem rbtree_search_logarithmic_witness:
  "\<exists>p. search_budget 2 (one_st []) ''k'' (root (one_st [])) = Some p \<and> rbtree_search (one_st []) ''k'' = Some p"
proof (rule rbtree_search_logarithmic [OF one_st_wf])
  fix h :: nat
  assume "2 ^ h \<le> Suc (nat (rbtree_count (one_st [])))"
  then have "(2::nat) ^ h \<le> 2 ^ 1" by (simp add: rbtree_count_def one_st_def)
  then have "h \<le> 1" by (rule power_le_imp_le_exp [rotated]) simp
  then show "2 * h \<le> 2" by simp
qed

text \<open>
  \<open>rbtree_traversal\<close> of the root prints one line per entry of the map, in strictly
  increasing order of the keys.
\<close>

theorem rbtree_traversal_sorted:
  assumes "rb_wf s"
  shows "\<exists>kvs. rbtree_traversal s (root s) = Some (concat (map traversal_line kvs)) \<and>
    sorted_wrt (<) (map fst kvs) \<and> map_of kvs = rb_map s"
proof -
  from assms obtain t where rep: "rb_rep s t" by (auto simp: rb_wf_def)
  then have "wf s t" "strs_ok s t" by (simp_all add: rb_rep_def)
  then have "rbtree_traversal s (root s) = Some (concat (map traversal_line (ents s t)))"
    using traversal_at [of s "[]" t] wf_root_ptr [of s t] by simp
  then show ?thesis using rep rb_rep_map [OF rep] by (auto simp: rb_rep_def)
qed

theorem rbtree_traversal_sorted_witness:
  "\<exists>kvs. rbtree_traversal (one_st []) (root (one_st [])) = Some (concat (map traversal_line kvs)) \<and>
    map_of kvs ''k'' = Some ''v''"
  using rbtree_traversal_sorted [OF one_st_wf, of "[]"] one_st_map by metis

text \<open>
  \<open>rbtree_del\<close> of a present key removes it from the map and frees nothing: the set of
  allocated blocks is what it was, so node, key and value of the entry are leaked.
\<close>

theorem rbtree_del_leaks:
  assumes "rb_wf s" "rb_map s key \<noteq> None"
  shows "\<exists>s'. rbtree_del s key = Some (s', 0) \<and> rb_wf s' \<and> rb_map s' = (rb_map s)(key := None) \<and>
    dom (cells (rh s')) = dom (cells (rh s))"
  using rbtree_del_rep [of s _ key] assms unfolding rb_wf_def by metis

theorem rbtree_del_leaks_witness:
  "\<exists>s'. rbtree_del (one_st []) ''k'' = Some (s', 0) \<and> rb_map s' ''k'' = None \<and>
    {3, 4, 5} \<subseteq> dom (cells (rh s'))"
proof -
  obtain s' where s': "rbtree_del (one_st []) ''k'' = Some (s', 0)"
      "rb_map s' = (rb_map (one_st []))(''k'' := None)" "dom (cells (rh s')) = dom (cells (rh (one_st [])))"
    using rbtree_del_leaks [OF one_st_wf, of "[]" "''k''"] one_st_map by auto
  have "{3, 4, 5} \<subseteq> dom (cells (rh (one_st [])))" by (auto simp: one_st_def)
  with s' show ?thesis by auto
qed

text \<open>
  \<open>rbtree_set\<close> of a present key under a failed allocation answers -1 and has already
  replaced the value pointer of the node by NULL: the old value is lost.
\<close>

theorem rbtree_set_oom_loses_value:
  assumes "rb_wf s" "rb_map s key = Some w" "oom (rh s) = True # fs"
  shows "\<exists>s' a. rbtree_search s key = Some a \<and> rbtree_set s key v = Some (s', -1) \<and> fld n_value s' a = Some NULL"
proof -
  from assms(1) obtain t where rep: "rb_rep s t" by (auto simp: rb_wf_def)
  then show ?thesis
  proof (cases rule: search_cases [where key = key])
    case (absent gs L R)
    then show ?thesis using assms(2) by simp
  next
    case (found gs c l a kp vp r V)
    let ?s1 = "s\<lparr>rh := (rh s)\<lparr>oom := fs\<rparr>\<rparr>"
    have "wf ?s1 t = wf s t" by (rule wf_cong) (simp_all add: rd_obj_def)
    then have "wf ?s1 (plug gs (Nd c l (a, kp, vp) r))" using rep found(1) by (simp add: rb_rep_def)
    from set_value_at [OF this, of NULL] obtain s' where
      s': "upd (\<lambda>n. n\<lparr>n_value := NULL\<rparr>) a ?s1 = Some s'" "wf s' (plug gs (Nd c l (a, kp, NULL) r))" by blast
    have ex: "rbtree_exist s key = Some 0" using found by (simp add: rbtree_exist_def)
    have "rbtree_mod s key v = Some (s', -1)"
      using found(2) s'(1) ex by (simp add: rbtree_mod_def malloc_fail [OF assms(3)])
    then have "rbtree_set s key v = Some (s', -1)" using ex by (simp add: rbtree_set_def)
    then show ?thesis using fld_at(6) [OF s'(2)] found(2) by blast
  qed
qed

theorem rbtree_set_oom_loses_value_witness:
  "\<exists>s' a. rbtree_set (one_st [True]) ''k'' ''w'' = Some (s', -1) \<and> fld n_value s' a = Some NULL"
proof -
  have "oom (rh (one_st [True])) = True # []" by (simp add: one_st_def)
  from rbtree_set_oom_loses_value [OF one_st_wf one_st_map this, of "''w''"] show ?thesis by blast
qed

text \<open>
  \<open>rbtree_create\<close> with the block of one byte that the code allocates for the sentinel is
  undefined: the first store, of the key pointer at offset 32, is out of its bounds.
\<close>

theorem rbtree_create_overflow:
  "rbtree_create g (Some s) = None"
  by (simp add: rbtree_create_def rbtree_create_sized_def NIL_SIZE_def fits_def Let_def split: prod.split)

text \<open>
  \<open>rbtree_destroy\<close> of a non-empty tree never finishes its loop properly: after the last node it looks
  for the minimum of the empty tree through the sentinel's own \<open>left\<close> pointer, which the code never set, so with
  any value there that is not a node (NULL, for one) the call is undefined.
\<close>

theorem rbtree_destroy_undefined:
  assumes "rb_wf s" "rb_map s \<noteq> Map.empty" "nmap s (nil s) = Some n"
    "rd_str (rh s) (n_key n) \<noteq> None" "nmap s (n_left n) = None"
  shows "rbtree_destroy (Some s) = None"
proof -
  from assms(1) obtain t where rep: "rb_rep s t" by (auto simp: rb_wf_def)
  then have wf: "wf s t" and rb: "is_rbt t" by (simp_all add: rb_rep_def)
  have t: "t \<noteq> Lf" using assms(2) rb_rep_map [OF rep] by (auto simp: ents_def)
  have key: "cells (rh s) (n_key n) \<noteq> None" using assms(4) by (auto simp: rd_str_def split: option.splits)
  have nokey: "nmap s (n_key n) = None" using assms(4) by (simp add: nmap_None_iff)
  let ?s1 = "s\<lparr>rh := (rh s)\<lparr>cells := (cells (rh s))(n_key n := None)\<rparr>\<rparr>"
  have nm: "nmap ?s1 = nmap s" using nokey by (auto simp: rd_obj_def fun_eq_iff)
  have "wf ?s1 t" using wf nm by (simp add: wf_def)
  moreover have "root s \<noteq> nil s" using wf t ptr_nil [of "nil s" t] by (simp add: wf_def)
  ultimately have dl: "destroy_loop ?s1 (root s) = None"
    using destroy_loop_undefined [of ?s1 t n "root s"] rb nm assms(3,5) by simp
  have "heap_ok (rh s)" using rep by (simp add: rb_rep_def)
  then have "n_key n \<noteq> NULL" using key by (auto dest: heap_ok_not_null)
  then show ?thesis
    using dl key assms(3) by (simp add: rbtree_destroy_def fld_def kvstore_free_def)
qed

theorem rbtree_destroy_undefined_witness: "rbtree_destroy (Some (one_st [])) = None"
proof (rule rbtree_destroy_undefined [OF one_st_wf])
  show "rb_map (one_st []) \<noteq> Map.empty" using one_st_map [of "[]"] by auto
  show "nmap (one_st []) (nil (one_st [])) =
      Some \<lparr>n_color = BLACK, n_right = 0, n_left = 0, n_parent = 0, n_key = 2, n_value = 0\<rparr>"
    by (simp add: one_st_def rd_obj_def)
qed (simp_all add: one_st_def rd_obj_def rd_str_def)

end
