(* ===== verification/TP_Queue.thy ===== *)
theory TP_Queue
  imports C_Memory
begin

text \<open>
  The task queue of thread_pool.c: a singly linked list of tasks with a tail that is a pointer to
  a pointer.  \<open>void **tail\<close> points either to \<open>queue->head\<close> or to the \<open>next\<close> field, the first
  one, of the last task; a \<^theory_text>\<open>link\<close> says which.  The locale states what the pool relies on, a
  first-in first-out queue.
\<close>

section \<open>State\<close>

record task_t =
  t_next :: addr
  t_func :: nat \<comment> \<open>the handler, by name\<close>
  t_arg :: nat

datatype link = HeadLink | NextOf addr

record task_queue_t =
  q_head :: addr
  q_tail :: link
  q_block :: int

record tq_st =
  th :: "task_t heap"
  tq :: task_queue_t

type_synonym job = "nat \<times> nat"

section \<open>Operations\<close>

text \<open>\<open>*link = v\<close>\<close>

definition store_link :: "link \<Rightarrow> addr \<Rightarrow> tq_st \<Rightarrow> tq_st option" where
  "store_link l v s =
     (case l of
        HeadLink \<Rightarrow> Some (s\<lparr>tq := (tq s)\<lparr>q_head := v\<rparr>\<rparr>)
      | NextOf p \<Rightarrow> do {
          t \<leftarrow> rd_obj (th s) p;
          h \<leftarrow> wr_obj p (t\<lparr>t_next := v\<rparr>) (th s);
          Some (s\<lparr>th := h\<rparr>) })"

text \<open>The part of \<open>__taskqueue_create\<close> that sets up the members of a fresh queue.\<close>

definition taskqueue_init :: "tq_st \<Rightarrow> tq_st" where
  "taskqueue_init s = s\<lparr>tq := \<lparr>q_head = NULL, q_tail = HeadLink, q_block = 1\<rparr>\<rparr>"

definition add_task :: "tq_st \<Rightarrow> addr \<Rightarrow> tq_st option" where
  "add_task s task = do {
     s \<leftarrow> store_link (NextOf task) NULL s;
     s \<leftarrow> store_link (q_tail (tq s)) task s;
     Some (s\<lparr>tq := (tq s)\<lparr>q_tail := NextOf task\<rparr>\<rparr>) }"

definition pop_task :: "tq_st \<Rightarrow> (tq_st \<times> addr) option" where
  "pop_task s =
     (if q_head (tq s) = NULL then Some (s, NULL)
      else do {
        let task = q_head (tq s);
        t \<leftarrow> rd_obj (th s) task;
        let s = s\<lparr>tq := (tq s)\<lparr>q_head := t_next t\<rparr>\<rparr>;
        let s = (if q_head (tq s) = NULL then s\<lparr>tq := (tq s)\<lparr>q_tail := HeadLink\<rparr>\<rparr> else s);
        Some (s, task) })"

text \<open>\<open>__taskqueue_destroy\<close>: pop and free until the queue is empty.\<close>

partial_function (option) taskqueue_drain :: "tq_st \<Rightarrow> tq_st option" where
  "taskqueue_drain s = do {
     r \<leftarrow> pop_task s;
     if snd r = NULL then Some (fst r)
     else do {
       h \<leftarrow> kvstore_free (snd r) (th (fst r));
       taskqueue_drain ((fst r)\<lparr>th := h\<rparr>) } }"

text \<open>
  \<open>thread_pool_post\<close> up to the signal: allocate a task, fill it, append it.  The result is the
  return value of the code.
\<close>

definition post_task :: "tq_st \<Rightarrow> job \<Rightarrow> (tq_st \<times> int) option" where
  "post_task s j =
     (let (h, task) = kvstore_malloc (CObj \<lparr>t_next = NULL, t_func = fst j, t_arg = snd j\<rparr>) (th s)
      in if task = NULL then Some (s\<lparr>th := h\<rparr>, -1)
         else do { s \<leftarrow> add_task (s\<lparr>th := h\<rparr>) task; Some (s, 0) })"

text \<open>
  What a worker does with \<open>__pop_task\<close>: read function and argument, free the task.  \<open>None\<close>
  inside: the queue was empty.
\<close>

definition take_task :: "tq_st \<Rightarrow> (tq_st \<times> job option) option" where
  "take_task s = do {
     (s, task) \<leftarrow> pop_task s;
     if task = NULL then Some (s, None)
     else do {
       t \<leftarrow> rd_obj (th s) task;
       h \<leftarrow> kvstore_free task (th s);
       Some (s\<lparr>th := h\<rparr>, Some (t_func t, t_arg t)) } }"

declare taskqueue_drain.simps [code]

section \<open>The list in the heap\<close>

fun tseg :: "task_t heap \<Rightarrow> addr \<Rightarrow> (addr \<times> job) list \<Rightarrow> bool" where
  "tseg h p [] \<longleftrightarrow> p = NULL"
| "tseg h p ((a, j) # ts) \<longleftrightarrow>
     p = a \<and> a \<noteq> NULL \<and>
     (\<exists>n. cells h a = Some (CObj \<lparr>t_next = n, t_func = fst j, t_arg = snd j\<rparr>) \<and> tseg h n ts)"

definition tail_of :: "(addr \<times> job) list \<Rightarrow> link" where
  "tail_of ts = (if ts = [] then HeadLink else NextOf (fst (last ts)))"

text \<open>The list, the tail, no task twice, and no other block than the tasks of the queue.\<close>

definition tq_rep :: "tq_st \<Rightarrow> (addr \<times> job) list \<Rightarrow> bool" where
  "tq_rep s ts \<longleftrightarrow>
     heap_ok (th s) \<and> tseg (th s) (q_head (tq s)) ts \<and> q_tail (tq s) = tail_of ts \<and>
     distinct (map fst ts) \<and> dom (cells (th s)) = fst ` set ts"

definition tq_wf :: "tq_st \<Rightarrow> bool" where
  "tq_wf s \<longleftrightarrow> (\<exists>ts. tq_rep s ts)"

fun read_tasks :: "nat \<Rightarrow> task_t heap \<Rightarrow> addr \<Rightarrow> job list" where
  "read_tasks 0 h p = []"
| "read_tasks (Suc f) h p =
     (case rd_obj h p of None \<Rightarrow> [] | Some t \<Rightarrow> (t_func t, t_arg t) # read_tasks f h (t_next t))"

definition tq_jobs :: "tq_st \<Rightarrow> job list" where
  "tq_jobs s = read_tasks (brk (th s)) (th s) (q_head (tq s))"

lemma tseg_frame: "tseg h p ts \<Longrightarrow> (\<And>a. a \<in> fst ` set ts \<Longrightarrow> cells h' a = cells h a) \<Longrightarrow> tseg h' p ts"
  by (induction h p ts rule: tseg.induct) auto

lemma read_tasks_tseg:
  "heap_ok h \<Longrightarrow> tseg h p ts \<Longrightarrow> length ts \<le> f \<Longrightarrow> read_tasks f h p = map snd ts"
proof (induction f arbitrary: p ts)
  case (Suc f)
  show ?case
  proof (cases ts)
    case Nil
    then show ?thesis using Suc.prems by (simp add: rd_obj_def heap_ok_def)
  next
    case (Cons t us)
    then show ?thesis using Suc by (cases t) (auto simp: rd_obj_def)
  qed
qed simp

lemma tq_rep_jobs:
  assumes rep: "tq_rep s ts"
  shows "tq_jobs s = map snd ts"
proof -
  have ok: "heap_ok (th s)" using rep by (simp add: tq_rep_def)
  have "fst ` set ts \<subseteq> {..< brk (th s)}"
    using rep heap_ok_below_brk [OF ok] unfolding tq_rep_def by (metis domD lessThan_iff subsetI)
  then have "card (fst ` set ts) \<le> card {..< brk (th s)}" by (intro card_mono) simp_all
  then have "length ts \<le> brk (th s)"
    using rep distinct_card [of "map fst ts"] by (simp add: tq_rep_def)
  then show ?thesis using rep read_tasks_tseg [OF ok] by (simp add: tq_jobs_def tq_rep_def)
qed

lemma tseg_append:
  "tseg h p (ts @ [(a, j)]) \<Longrightarrow> distinct (map fst (ts @ [(a, j)])) \<Longrightarrow> b \<noteq> NULL \<Longrightarrow>
   b \<notin> fst ` set (ts @ [(a, j)]) \<Longrightarrow> cells h b = Some (CObj \<lparr>t_next = NULL, t_func = fst k, t_arg = snd k\<rparr>) \<Longrightarrow>
   tseg (h\<lparr>cells := (cells h)(a \<mapsto> CObj \<lparr>t_next = b, t_func = fst j, t_arg = snd j\<rparr>)\<rparr>) p (ts @ [(a, j), (b, k)])"
proof (induction ts arbitrary: p)
  case (Cons t ts)
  then show ?case by (cases t) auto
qed auto

section \<open>The operations on the list\<close>

lemma add_task_rep:
  assumes rep: "tq_rep s ts" and new: "a = brk (th s)"
    and h: "h = (th s)\<lparr>cells := (cells (th s))(a \<mapsto> CObj \<lparr>t_next = x, t_func = fst j, t_arg = snd j\<rparr>),
      brk := Suc a, oom := os\<rparr>"
  shows "\<exists>s'. add_task (s\<lparr>th := h\<rparr>) a = Some s' \<and> tq_rep s' (ts @ [(a, j)]) \<and>
    q_block (tq s') = q_block (tq s) \<and> oom (th s') = os"
proof -
  have ok: "heap_ok (th s)" using rep by (simp add: tq_rep_def)
  have a: "a \<noteq> NULL" "cells (th s) a = None" using ok new by auto
  have anew: "a \<notin> fst ` set ts" using rep a(2) unfolding tq_rep_def by (metis domIff)
  let ?n = "CObj \<lparr>t_next = NULL, t_func = fst j, t_arg = snd j\<rparr>"
  let ?h1 = "(th s)\<lparr>cells := (cells (th s))(a \<mapsto> ?n), brk := Suc a, oom := os\<rparr>"
  have ok1: "heap_ok ?h1" using ok new by (auto simp: heap_ok_def)
  have st1: "store_link (NextOf a) NULL (s\<lparr>th := h\<rparr>) = Some (s\<lparr>th := ?h1\<rparr>)"
    by (simp add: store_link_def h rd_obj_def wr_obj_def)
  show ?thesis
  proof (cases ts rule: rev_cases)
    case Nil
    then show ?thesis
      using rep st1 ok1 a by (auto simp: add_task_def store_link_def tq_rep_def tail_of_def)
  next
    case (snoc us u)
    obtain b k where u: "u = (b, k)" by (cases u) auto
    let ?h2 = "?h1\<lparr>cells := (cells ?h1)(b \<mapsto> CObj \<lparr>t_next = a, t_func = fst k, t_arg = snd k\<rparr>)\<rparr>"
    have seg: "tseg ?h1 (q_head (tq s)) (us @ [(b, k)])"
      by (rule tseg_frame [of "th s"]) (use rep snoc u anew in \<open>auto simp: tq_rep_def\<close>)
    have "\<exists>n. cells (th s) b = Some (CObj \<lparr>t_next = n, t_func = fst k, t_arg = snd k\<rparr>)"
    proof -
      have "tseg hh p (us @ [(b, k)]) \<Longrightarrow> \<exists>n. cells hh b = Some (CObj \<lparr>t_next = n, t_func = fst k, t_arg = snd k\<rparr>)" for hh p
        by (induction us arbitrary: p) auto
      then show ?thesis using rep snoc u by (auto simp: tq_rep_def)
    qed
    then obtain n where b: "cells (th s) b = Some (CObj \<lparr>t_next = n, t_func = fst k, t_arg = snd k\<rparr>)" ..
    have ba: "b \<noteq> a" using anew snoc u by auto
    have "tseg ?h2 (q_head (tq s)) (us @ [(b, k), (a, j)])"
      using tseg_append [OF seg _ a(1), of j] rep anew snoc u by (simp add: tq_rep_def)
    moreover have "heap_ok ?h2" using heap_ok_write [OF ok1, of b] b ba by simp
    moreover have "store_link (NextOf b) a (s\<lparr>th := ?h1\<rparr>) = Some (s\<lparr>th := ?h2\<rparr>)"
      using b ba by (simp add: store_link_def rd_obj_def wr_obj_def)
    ultimately show ?thesis
      using rep st1 snoc u anew by (auto simp: add_task_def tq_rep_def tail_of_def)
  qed
qed

lemma take_task_rep:
  assumes rep: "tq_rep s ts"
  shows "\<exists>s'. take_task s = Some (s', case ts of [] \<Rightarrow> None | t # _ \<Rightarrow> Some (snd t)) \<and>
    tq_rep s' (tl ts) \<and> oom (th s') = oom (th s) \<and> q_block (tq s') = q_block (tq s)"
proof (cases ts)
  case Nil
  then show ?thesis using rep by (auto simp: take_task_def pop_task_def tq_rep_def)
next
  case (Cons t us)
  obtain a j where t: "t = (a, j)" by (cases t) auto
  obtain n where n: "cells (th s) a = Some (CObj \<lparr>t_next = n, t_func = fst j, t_arg = snd j\<rparr>)"
      "tseg (th s) n us" "a \<noteq> NULL" "q_head (tq s) = a"
    using rep Cons t by (auto simp: tq_rep_def)
  have ok: "heap_ok (th s)" using rep by (simp add: tq_rep_def)
  have au: "a \<notin> fst ` set us" using rep Cons t by (auto simp: tq_rep_def)
  let ?h = "(th s)\<lparr>cells := (cells (th s))(a := None)\<rparr>"
  let ?q = "(tq s)\<lparr>q_head := n, q_tail := (if n = NULL then HeadLink else q_tail (tq s))\<rparr>"
  have "take_task s = Some (s\<lparr>th := ?h, tq := ?q\<rparr>, Some j)"
    using n by (auto simp: take_task_def pop_task_def Let_def rd_obj_def kvstore_free_def)
  moreover have "tseg ?h n us" by (rule tseg_frame [OF n(2)]) (use au in auto)
  moreover have "n = NULL \<longleftrightarrow> us = []" using n(2) by (cases us) auto
  then have "q_tail ?q = tail_of us" using rep Cons by (auto simp: tq_rep_def tail_of_def)
  moreover have "dom (cells ?h) = fst ` set us" using rep Cons t au by (auto simp: tq_rep_def)
  ultimately have "tq_rep (s\<lparr>th := ?h, tq := ?q\<rparr>) us"
    using rep Cons heap_ok_free [OF ok] by (simp add: tq_rep_def)
  with \<open>take_task s = _\<close> show ?thesis by (auto simp: Cons t)
qed

lemma take_task_ok:
  assumes "tq_wf s"
  shows "\<exists>s'. take_task s = Some (s', case tq_jobs s of [] \<Rightarrow> None | j # _ \<Rightarrow> Some j) \<and> tq_wf s' \<and>
    tq_jobs s' = tl (tq_jobs s) \<and> oom (th s') = oom (th s) \<and> q_block (tq s') = q_block (tq s)"
proof -
  from assms obtain ts where rep: "tq_rep s ts" by (auto simp: tq_wf_def)
  from take_task_rep [OF rep] obtain s' where s':
    "take_task s = Some (s', case ts of [] \<Rightarrow> None | t # _ \<Rightarrow> Some (snd t))" "tq_rep s' (tl ts)"
    "oom (th s') = oom (th s)" "q_block (tq s') = q_block (tq s)" by blast
  then show ?thesis using tq_rep_jobs [OF rep] tq_rep_jobs [OF s'(2)]
    by (cases ts) (auto simp: tq_wf_def map_tl)
qed

lemma post_task_law:
  assumes "tq_wf s"
  shows "\<exists>s' r. post_task s j = Some (s', r) \<and> tq_wf s' \<and> q_block (tq s') = q_block (tq s) \<and>
    (r = 0 \<and> tq_jobs s' = tq_jobs s @ [j] \<or> r = -1 \<and> tq_jobs s' = tq_jobs s)"
proof -
  from assms obtain ts where rep: "tq_rep s ts" by (auto simp: tq_wf_def)
  then have pos: "brk (th s) \<noteq> NULL" by (auto simp: tq_rep_def)
  show ?thesis
  proof (cases rule: malloc_cases [of "th s" "CObj \<lparr>t_next = NULL, t_func = fst j, t_arg = snd j\<rparr>"])
    case (fail fs)
    have "tq_rep (s\<lparr>th := (th s)\<lparr>oom := fs\<rparr>\<rparr>) ts"
      using rep tseg_frame [of "th s" "q_head (tq s)" ts "(th s)\<lparr>oom := fs\<rparr>"] by (simp add: tq_rep_def)
    with rep tq_rep_jobs [OF rep] tq_rep_jobs [OF this] fail show ?thesis
      by (auto simp: post_task_def tq_wf_def)
  next
    case fresh
    from add_task_rep [OF rep refl refl, where x = NULL and j = j and os = "tl (oom (th s))"]
    obtain s' where s': "add_task (s\<lparr>th := (th s)\<lparr>cells := (cells (th s))(brk (th s) \<mapsto>
        CObj \<lparr>t_next = NULL, t_func = fst j, t_arg = snd j\<rparr>), brk := Suc (brk (th s)), oom := tl (oom (th s))\<rparr>\<rparr>)
        (brk (th s)) = Some s'"
      "tq_rep s' (ts @ [(brk (th s), j)])" "q_block (tq s') = q_block (tq s)" by blast
    have "post_task s j = Some (s', 0)" using pos s'(1) fresh by (simp add: post_task_def)
    then show ?thesis using s' tq_rep_jobs [OF rep] tq_rep_jobs [OF s'(2)] by (auto simp: tq_wf_def)
  qed
qed

lemma tq_wf_block [simp]:
  "tq_wf (s\<lparr>tq := (tq s)\<lparr>q_block := b\<rparr>\<rparr>) = tq_wf s"
  "tq_jobs (s\<lparr>tq := (tq s)\<lparr>q_block := b\<rparr>\<rparr>) = tq_jobs s"
  by (simp_all add: tq_wf_def tq_rep_def tq_jobs_def)

lemma taskqueue_init_wf:
  "tq_wf (taskqueue_init \<lparr>th = \<lparr>cells = Map.empty, brk = 1, oom = os\<rparr>, tq = q\<rparr>)"
  "tq_jobs (taskqueue_init \<lparr>th = \<lparr>cells = Map.empty, brk = 1, oom = os\<rparr>, tq = q\<rparr>) = []"
proof -
  have "tq_rep (taskqueue_init \<lparr>th = \<lparr>cells = Map.empty, brk = 1, oom = os\<rparr>, tq = q\<rparr>) []"
    by (simp add: tq_rep_def taskqueue_init_def tail_of_def heap_ok_def)
  from this tq_rep_jobs [OF this] show
    "tq_wf (taskqueue_init \<lparr>th = \<lparr>cells = Map.empty, brk = 1, oom = os\<rparr>, tq = q\<rparr>)"
    "tq_jobs (taskqueue_init \<lparr>th = \<lparr>cells = Map.empty, brk = 1, oom = os\<rparr>, tq = q\<rparr>) = []"
    by (auto simp: tq_wf_def)
qed

lemma taskqueue_drain_ok:
  "tq_rep s ts \<Longrightarrow> \<exists>s'. taskqueue_drain s = Some s' \<and> cells (th s') = Map.empty \<and> q_head (tq s') = NULL"
proof (induction ts arbitrary: s)
  case Nil
  then have "taskqueue_drain s = Some s"
    by (subst taskqueue_drain.simps) (simp add: pop_task_def tq_rep_def)
  then show ?case using Nil by (simp add: tq_rep_def)
next
  case (Cons t ts)
  from take_task_rep [OF Cons.prems] obtain s1 where
    s1: "take_task s = Some (s1, Some (snd t))" "tq_rep s1 ts" by auto
  then obtain s2 a n h where s2: "pop_task s = Some (s2, a)" "a \<noteq> NULL"
      "kvstore_free a (th s2) = Some h" "s1 = s2\<lparr>th := h\<rparr>"
    by (auto simp: take_task_def split: Option.bind_splits if_splits)
  then have "taskqueue_drain s = taskqueue_drain s1"
    by (subst taskqueue_drain.simps) simp
  then show ?case using Cons.IH [OF s1(2)] by simp
qed

section \<open>The queue as the pool sees it\<close>

text \<open>
  The interface between the queue and the threads: what is put in comes out once and in that
  order, and neither operation touches the control word.
\<close>

locale fifo =
  fixes inv :: "'s \<Rightarrow> bool"
    and items :: "'s \<Rightarrow> 'a list"
    and control :: "'s \<Rightarrow> int"
    and put_in :: "'s \<Rightarrow> 'a \<Rightarrow> ('s \<times> int) option"
    and take_out :: "'s \<Rightarrow> ('s \<times> 'a option) option"
  assumes put_law: "inv s \<Longrightarrow> \<exists>s' r. put_in s x = Some (s', r) \<and> inv s' \<and> control s' = control s \<and>
      (r = 0 \<and> items s' = items s @ [x] \<or> r = -1 \<and> items s' = items s)"
    and take_law: "inv s \<Longrightarrow> \<exists>s'. take_out s = Some (s', case items s of [] \<Rightarrow> None | x # _ \<Rightarrow> Some x) \<and>
      inv s' \<and> control s' = control s \<and> items s' = tl (items s)"
begin

lemma put_defined: "inv s \<Longrightarrow> put_in s x \<noteq> None"
  using put_law by fastforce

lemma take_defined: "inv s \<Longrightarrow> take_out s \<noteq> None"
  using take_law by fastforce

lemma put_history:
  assumes "inv s" "put_in s x = Some (s', r)" "taken @ items s = posted"
  shows "inv s' \<and> control s' = control s \<and> taken @ items s' = (if r = 0 then posted @ [x] else posted)"
  using put_law [OF assms(1), of x] assms(2,3) by auto

lemma take_history:
  assumes "inv s" "take_out s = Some (s', r)" "taken @ items s = posted"
  shows "inv s' \<and> control s' = control s \<and>
    (case r of None \<Rightarrow> items s = [] \<and> items s' = [] \<and> taken @ items s' = posted
     | Some x \<Rightarrow> items s = x # items s' \<and> (taken @ [x]) @ items s' = posted)"
  using take_law [OF assms(1)] assms(2,3) by (cases "items s") auto

end

interpretation tqi: fifo tq_wf tq_jobs "\<lambda>s. q_block (tq s)" post_task take_task
proof unfold_locales
  fix s x
  assume "tq_wf s"
  then show "\<exists>s' r. post_task s x = Some (s', r) \<and> tq_wf s' \<and> q_block (tq s') = q_block (tq s) \<and>
      (r = 0 \<and> tq_jobs s' = tq_jobs s @ [x] \<or> r = -1 \<and> tq_jobs s' = tq_jobs s)"
    by (rule post_task_law)
next
  fix s
  assume "tq_wf s"
  then show "\<exists>s'. take_task s = Some (s', case tq_jobs s of [] \<Rightarrow> None | x # _ \<Rightarrow> Some x) \<and> tq_wf s' \<and>
      q_block (tq s') = q_block (tq s) \<and> tq_jobs s' = tl (tq_jobs s)"
    using take_task_ok by blast
qed

end
