(* ===== verification/TP_Pool.thy ===== *)
theory TP_Pool
  imports TP_Queue "HOL-Library.Multiset"
begin

text \<open>
  The threads of thread_pool.c.  Every worker and every client thread is a program counter; one
  action is one step of one thread, up to the next point where another thread can interfere: an
  atomic load or store, a lock operation, a condition-variable operation, or a section under the
  spin lock (those sections never block, so they are one step).  The memory of a task is private to
  the thread that allocated or popped it, so filling and freeing it belongs to that step.  The
  actions are a parameter: a property of all action lists is a property of all schedules.
\<close>

section \<open>State\<close>

datatype wpc =
    WLoop \<comment> \<open>\<open>while (atomic_load(&pool->quit) == 0)\<close>\<close>
  | WPop \<comment> \<open>\<open>__pop_task\<close> in \<open>__get_task\<close>\<close>
  | WLock \<comment> \<open>\<open>pthread_mutex_lock\<close>\<close>
  | WCheck \<comment> \<open>\<open>atomic_load(&queue->block) == 0\<close>\<close>
  | WCondWait \<comment> \<open>about to call \<open>pthread_cond_wait\<close>\<close>
  | WWait \<comment> \<open>asleep in \<open>pthread_cond_wait\<close>\<close>
  | WWoken \<comment> \<open>woken, not yet the owner of the mutex again\<close>
  | WUnlock \<comment> \<open>\<open>pthread_mutex_unlock\<close>\<close>
  | WRun job \<comment> \<open>\<open>func(ctx)\<close>\<close>
  | WExit

datatype cpc =
    CIdle
  | CPost job \<comment> \<open>\<open>thread_pool_post\<close> after the test of \<open>quit\<close>\<close>
  | CSignal \<comment> \<open>\<open>pthread_cond_signal\<close> at the end of \<open>__add_task\<close>\<close>
  | CNonblock \<comment> \<open>\<open>atomic_store(&queue->block, 0)\<close> in \<open>__nonblock\<close>\<close>
  | CBroadcast \<comment> \<open>\<open>pthread_cond_broadcast\<close> in \<open>__nonblock\<close>\<close>

record pool_t =
  p_queue :: tq_st
  p_quit :: int
  p_mutex :: "nat option" \<comment> \<open>the worker that owns \<open>queue->mutex\<close>\<close>
  p_workers :: "wpc list"
  p_clients :: "cpc list"
  p_posted :: "job list" \<comment> \<open>history: tasks appended\<close>
  p_taken :: "job list" \<comment> \<open>history: tasks popped by workers\<close>
  p_ran :: "job list" \<comment> \<open>history: handlers that returned\<close>

datatype call = Post job | Terminate

datatype act =
    Worker nat
  | Call nat call \<comment> \<open>an idle client enters the library\<close>
  | Client nat nat \<comment> \<open>a client goes on; the second number chooses the sleeper a signal wakes\<close>
  | Spurious nat \<comment> \<open>a sleeper wakes without a signal, as POSIX allows\<close>

datatype 'a outcome = Undef | Blocked | Go 'a

section \<open>Steps\<close>

definition goto :: "nat \<Rightarrow> wpc \<Rightarrow> pool_t \<Rightarrow> pool_t" where
  "goto i pc s = s\<lparr>p_workers := (p_workers s)[i := pc]\<rparr>"

definition cgoto :: "nat \<Rightarrow> cpc \<Rightarrow> pool_t \<Rightarrow> pool_t" where
  "cgoto i pc s = s\<lparr>p_clients := (p_clients s)[i := pc]\<rparr>"

text \<open>\<open>__get_task\<close>: it returns NULL from \<open>WCheck\<close> with the mutex locked.\<close>

fun get_task_step :: "nat \<Rightarrow> wpc \<Rightarrow> pool_t \<Rightarrow> pool_t outcome" where
  "get_task_step i WPop s =
     (case take_task (p_queue s) of
        None \<Rightarrow> Undef
      | Some (q, None) \<Rightarrow> Go (goto i WLock (s\<lparr>p_queue := q\<rparr>))
      | Some (q, Some j) \<Rightarrow> Go (goto i (WRun j) (s\<lparr>p_queue := q, p_taken := p_taken s @ [j]\<rparr>)))"
| "get_task_step i WLock s =
     (if p_mutex s = None then Go (goto i WCheck (s\<lparr>p_mutex := Some i\<rparr>)) else Blocked)"
| "get_task_step i WCheck s =
     Go (goto i (if q_block (tq (p_queue s)) = 0 then WExit else WCondWait) s)"
| "get_task_step i WCondWait s = Go (goto i WWait (s\<lparr>p_mutex := None\<rparr>))"
| "get_task_step i WWoken s =
     (if p_mutex s = None then Go (goto i WUnlock (s\<lparr>p_mutex := Some i\<rparr>)) else Blocked)"
| "get_task_step i WUnlock s = Go (goto i WPop (s\<lparr>p_mutex := None\<rparr>))"
| "get_task_step i pc s = Blocked"

text \<open>\<open>__threadpool_worker\<close>: the loop around \<open>__get_task\<close>.\<close>

fun worker_step :: "nat \<Rightarrow> wpc \<Rightarrow> pool_t \<Rightarrow> pool_t outcome" where
  "worker_step i WLoop s = Go (goto i (if p_quit s = 0 then WPop else WExit) s)"
| "worker_step i (WRun j) s = Go (goto i WLoop (s\<lparr>p_ran := p_ran s @ [j]\<rparr>))"
| "worker_step i pc s = get_task_step i pc s"

text \<open>\<open>pthread_cond_broadcast\<close>\<close>

definition wake_all :: "pool_t \<Rightarrow> pool_t" where
  "wake_all s = s\<lparr>p_workers := map (\<lambda>pc. if pc = WWait then WWoken else pc) (p_workers s)\<rparr>"

text \<open>\<open>pthread_cond_signal\<close>: one sleeper, if there is one.\<close>

definition wake_one :: "nat \<Rightarrow> pool_t \<Rightarrow> pool_t outcome" where
  "wake_one w s =
     (if WWait \<notin> set (p_workers s) then Go s
      else if w < length (p_workers s) \<and> p_workers s ! w = WWait then Go (goto w WWoken s)
      else Blocked)"

text \<open>The entry of \<open>thread_pool_post\<close> and of \<open>thread_pool_terminate\<close>.\<close>

fun enter_call :: "nat \<Rightarrow> call \<Rightarrow> pool_t \<Rightarrow> pool_t" where
  "enter_call c (Post j) s = (if p_quit s = 1 then s else cgoto c (CPost j) s)"
| "enter_call c Terminate s = cgoto c CNonblock (s\<lparr>p_quit := 1\<rparr>)"

fun client_step :: "nat \<Rightarrow> nat \<Rightarrow> cpc \<Rightarrow> pool_t \<Rightarrow> pool_t outcome" where
  "client_step c w CIdle s = Blocked"
| "client_step c w (CPost j) s =
     (case post_task (p_queue s) j of
        None \<Rightarrow> Undef
      | Some (q, r) \<Rightarrow>
          if r = 0 then Go (cgoto c CSignal (s\<lparr>p_queue := q, p_posted := p_posted s @ [j]\<rparr>))
          else Go (cgoto c CIdle (s\<lparr>p_queue := q\<rparr>)))"
| "client_step c w CSignal s =
     (case wake_one w s of Go s' \<Rightarrow> Go (cgoto c CIdle s') | x \<Rightarrow> x)"
| "client_step c w CNonblock s =
     Go (cgoto c CBroadcast (s\<lparr>p_queue := (p_queue s)\<lparr>tq := (tq (p_queue s))\<lparr>q_block := 0\<rparr>\<rparr>\<rparr>))"
| "client_step c w CBroadcast s = Go (cgoto c CIdle (wake_all s))"

fun act_step :: "act \<Rightarrow> pool_t \<Rightarrow> pool_t outcome" where
  "act_step (Worker i) s =
     (if i < length (p_workers s) then worker_step i (p_workers s ! i) s else Blocked)"
| "act_step (Call c k) s =
     (if c < length (p_clients s) \<and> p_clients s ! c = CIdle then Go (enter_call c k s) else Blocked)"
| "act_step (Client c w) s =
     (if c < length (p_clients s) then client_step c w (p_clients s ! c) s else Blocked)"
| "act_step (Spurious i) s =
     (if i < length (p_workers s) \<and> p_workers s ! i = WWait then Go (goto i WWoken s) else Blocked)"

fun run_acts :: "act list \<Rightarrow> pool_t \<Rightarrow> pool_t outcome" where
  "run_acts [] s = Go s"
| "run_acts (a # as) s = (case act_step a s of Go s' \<Rightarrow> run_acts as s' | x \<Rightarrow> x)"

inductive pool_step :: "pool_t \<Rightarrow> pool_t \<Rightarrow> bool" where
  "act_step a s = Go s' \<Longrightarrow> pool_step s s'"

text \<open>
  What \<open>thread_pool_create\<close> hands out when nothing fails: \<open>n\<close> workers at the head of their loop;
  \<open>m\<close> threads of the program use the pool.  The list says which allocations of tasks will fail.
\<close>

definition pool_start :: "nat \<Rightarrow> nat \<Rightarrow> bool list \<Rightarrow> pool_t" where
  "pool_start n m os =
     \<lparr>p_queue = taskqueue_init \<lparr>th = \<lparr>cells = Map.empty, brk = 1, oom = os\<rparr>,
        tq = \<lparr>q_head = NULL, q_tail = HeadLink, q_block = 0\<rparr>\<rparr>,
      p_quit = 0, p_mutex = None, p_workers = replicate n WLoop, p_clients = replicate m CIdle,
      p_posted = [], p_taken = [], p_ran = []\<rparr>"

inductive reachable :: "pool_t \<Rightarrow> bool" where
  start: "reachable (pool_start n m os)"
| step: "reachable s \<Longrightarrow> pool_step s s' \<Longrightarrow> reachable s'"

text \<open>\<open>thread_pool_waitdone\<close>: join every worker, then drain the queue.\<close>

definition thread_pool_waitdone :: "pool_t \<Rightarrow> pool_t outcome" where
  "thread_pool_waitdone s =
     (if \<forall>pc \<in> set (p_workers s). pc = WExit
      then (case taskqueue_drain (p_queue s) of None \<Rightarrow> Undef | Some q \<Rightarrow> Go (s\<lparr>p_queue := q\<rparr>))
      else Blocked)"

inductive_cases pool_stepE: "pool_step s s'"

section \<open>Invariants\<close>

text \<open>Where a live worker owns the mutex.\<close>

fun holds_lock :: "wpc \<Rightarrow> bool" where
  "holds_lock WCheck = True"
| "holds_lock WCondWait = True"
| "holds_lock WUnlock = True"
| "holds_lock _ = False"

definition mutex_ok :: "pool_t \<Rightarrow> bool" where
  "mutex_ok s \<longleftrightarrow>
     (\<forall>i. p_mutex s = Some i \<longrightarrow>
        i < length (p_workers s) \<and> (holds_lock (p_workers s ! i) \<or> p_workers s ! i = WExit)) \<and>
     (\<forall>i < length (p_workers s). holds_lock (p_workers s ! i) \<longrightarrow> p_mutex s = Some i)"

fun run_job :: "wpc \<Rightarrow> job multiset" where
  "run_job (WRun j) = {#j#}"
| "run_job _ = {#}"

definition running :: "pool_t \<Rightarrow> job multiset" where
  "running s = sum_list (map run_job (p_workers s))"

definition pool_inv :: "pool_t \<Rightarrow> bool" where
  "pool_inv s \<longleftrightarrow>
     tq_wf (p_queue s) \<and> p_taken s @ tq_jobs (p_queue s) = p_posted s \<and> mutex_ok s \<and>
     mset (p_ran s) + running s = mset (p_taken s)"

lemma goto_simps [simp]:
  "p_queue (goto i pc s) = p_queue s" "p_quit (goto i pc s) = p_quit s"
  "p_mutex (goto i pc s) = p_mutex s" "p_workers (goto i pc s) = (p_workers s)[i := pc]"
  "p_clients (goto i pc s) = p_clients s" "p_posted (goto i pc s) = p_posted s"
  "p_taken (goto i pc s) = p_taken s" "p_ran (goto i pc s) = p_ran s"
  by (simp_all add: goto_def)

lemma cgoto_simps [simp]:
  "p_queue (cgoto i cp s) = p_queue s" "p_quit (cgoto i cp s) = p_quit s"
  "p_mutex (cgoto i cp s) = p_mutex s" "p_workers (cgoto i cp s) = p_workers s"
  "p_clients (cgoto i cp s) = (p_clients s)[i := cp]" "p_posted (cgoto i cp s) = p_posted s"
  "p_taken (cgoto i cp s) = p_taken s" "p_ran (cgoto i cp s) = p_ran s"
  by (simp_all add: cgoto_def)

lemma wake_all_simps [simp]:
  "p_queue (wake_all s) = p_queue s" "p_quit (wake_all s) = p_quit s"
  "p_mutex (wake_all s) = p_mutex s" "p_clients (wake_all s) = p_clients s"
  "p_posted (wake_all s) = p_posted s" "p_taken (wake_all s) = p_taken s" "p_ran (wake_all s) = p_ran s"
  "length (p_workers (wake_all s)) = length (p_workers s)"
  "i < length (p_workers s) \<Longrightarrow>
     p_workers (wake_all s) ! i = (if p_workers s ! i = WWait then WWoken else p_workers s ! i)"
  by (simp_all add: wake_all_def)

lemma sum_list_update_run:
  "i < length ws \<Longrightarrow>
   sum_list (map run_job (ws[i := pc])) + run_job (ws ! i) = sum_list (map run_job ws) + run_job pc"
proof (induction ws arbitrary: i)
  case (Cons w ws)
  then show ?case by (cases i) (auto simp: ac_simps)
qed simp

lemma running_goto:
  "i < length (p_workers s) \<Longrightarrow> running (goto i pc s) + run_job (p_workers s ! i) = running s + run_job pc"
  by (simp add: running_def sum_list_update_run)

lemma running_wake_all [simp]: "running (wake_all s) = running s"
proof -
  have "sum_list (map run_job (map (\<lambda>pc. if pc = WWait then WWoken else pc) ws)) = sum_list (map run_job ws)" for ws
    by (induction ws) auto
  then show ?thesis by (simp add: running_def wake_all_def)
qed

lemma running_cong:
  "p_workers s = p_workers s' \<Longrightarrow> running s = running s'"
  by (simp add: running_def)

text \<open>A worker moves while the mutex stays as it is, is taken by it, or is given up by it.\<close>

lemma mutex_okD:
  "mutex_ok s \<Longrightarrow> p_mutex s = Some i \<Longrightarrow> i < length (p_workers s)"
  "mutex_ok s \<Longrightarrow> p_mutex s = Some i \<Longrightarrow> holds_lock (p_workers s ! i) \<or> p_workers s ! i = WExit"
  "mutex_ok s \<Longrightarrow> i < length (p_workers s) \<Longrightarrow> holds_lock (p_workers s ! i) \<Longrightarrow> p_mutex s = Some i"
  unfolding mutex_ok_def by blast+

lemma mutex_okI:
  assumes "\<And>i. p_mutex s = Some i \<Longrightarrow>
      i < length (p_workers s) \<and> (holds_lock (p_workers s ! i) \<or> p_workers s ! i = WExit)"
    and "\<And>i. i < length (p_workers s) \<Longrightarrow> holds_lock (p_workers s ! i) \<Longrightarrow> p_mutex s = Some i"
  shows "mutex_ok s"
  using assms unfolding mutex_ok_def by blast

lemma mutex_ok_keep:
  assumes ok: "mutex_ok s" and i: "i < length (p_workers s)" and ws: "p_workers s' = (p_workers s)[i := pc]"
    and other: "p_mutex s' = p_mutex s"
    "holds_lock (p_workers s ! i) \<longrightarrow> holds_lock pc \<or> pc = WExit"
    "holds_lock pc \<longrightarrow> holds_lock (p_workers s ! i)" "p_workers s ! i \<noteq> WExit"
  shows "mutex_ok s'"
proof (rule mutex_okI)
  fix k
  assume "p_mutex s' = Some k"
  then show "k < length (p_workers s') \<and> (holds_lock (p_workers s' ! k) \<or> p_workers s' ! k = WExit)"
    using mutex_okD(1,2) [OF ok, of k] other i by (cases "k = i") (simp_all add: ws)
next
  fix k
  assume "k < length (p_workers s')" "holds_lock (p_workers s' ! k)"
  then show "p_mutex s' = Some k"
    using mutex_okD(3) [OF ok, of k] mutex_okD(3) [OF ok, of i] other i by (cases "k = i") (auto simp: ws)
qed

lemma mutex_ok_take:
  assumes ok: "mutex_ok s" and i: "i < length (p_workers s)" and ws: "p_workers s' = (p_workers s)[i := pc]"
    and other: "p_mutex s = None" "p_mutex s' = Some i" "holds_lock pc"
  shows "mutex_ok s'"
proof (rule mutex_okI)
  fix k
  assume "p_mutex s' = Some k"
  then show "k < length (p_workers s') \<and> (holds_lock (p_workers s' ! k) \<or> p_workers s' ! k = WExit)"
    using mutex_okD(1,2) [OF ok, of k] other i by (cases "k = i") (simp_all add: ws)
next
  fix k
  assume "k < length (p_workers s')" "holds_lock (p_workers s' ! k)"
  then show "p_mutex s' = Some k"
    using mutex_okD(3) [OF ok, of k] mutex_okD(3) [OF ok, of i] other i by (cases "k = i") (auto simp: ws)
qed

lemma mutex_ok_give:
  assumes ok: "mutex_ok s" and i: "i < length (p_workers s)" and ws: "p_workers s' = (p_workers s)[i := pc]"
    and other: "holds_lock (p_workers s ! i)" "p_mutex s' = None" "\<not> holds_lock pc"
  shows "mutex_ok s'"
proof (rule mutex_okI)
  fix k
  assume "p_mutex s' = Some k"
  then show "k < length (p_workers s') \<and> (holds_lock (p_workers s' ! k) \<or> p_workers s' ! k = WExit)"
    using mutex_okD(1,2) [OF ok, of k] other i by (cases "k = i") (simp_all add: ws)
next
  fix k
  assume "k < length (p_workers s')" "holds_lock (p_workers s' ! k)"
  then show "p_mutex s' = Some k"
    using mutex_okD(3) [OF ok, of k] mutex_okD(3) [OF ok, of i] other i by (cases "k = i") (auto simp: ws)
qed

lemma mutex_ok_wake_all:
  assumes ok: "mutex_ok s"
  shows "mutex_ok (wake_all s)"
proof (rule mutex_okI)
  fix k
  assume "p_mutex (wake_all s) = Some k"
  then show "k < length (p_workers (wake_all s)) \<and>
      (holds_lock (p_workers (wake_all s) ! k) \<or> p_workers (wake_all s) ! k = WExit)"
    using mutex_okD(1,2) [OF ok, of k] by auto
next
  fix k
  assume "k < length (p_workers (wake_all s))" "holds_lock (p_workers (wake_all s) ! k)"
  then show "p_mutex (wake_all s) = Some k"
    using mutex_okD(3) [OF ok, of k] by (cases "p_workers s ! k = WWait") simp_all
qed

lemma mutex_ok_cong:
  "mutex_ok s \<Longrightarrow> p_workers s' = p_workers s \<Longrightarrow> p_mutex s' = p_mutex s \<Longrightarrow> mutex_ok s'"
  unfolding mutex_ok_def by metis

section \<open>Every step keeps the invariant and is defined\<close>

text \<open>A worker that moves: what it does with the queue, with its job and with the mutex.\<close>

lemma worker_move:
  assumes inv: "pool_inv s" and i: "i < length (p_workers s)"
    and mutex: "mutex_ok t" and ws: "p_workers t = (p_workers s)[i := pc]"
    and queue: "tq_wf (p_queue t)" "p_taken t @ tq_jobs (p_queue t) = p_posted t"
    and jobs: "mset (p_ran t) + run_job pc + mset (p_taken s) = mset (p_taken t) + run_job (p_workers s ! i) + mset (p_ran s)"
  shows "pool_inv t"
proof -
  have "running t = running (goto i pc s)" by (rule running_cong) (simp add: ws)
  then have run: "running t + run_job (p_workers s ! i) = running s + run_job pc" using running_goto [OF i] by simp
  have "mset (p_ran s) + running s = mset (p_taken s)" using inv by (simp add: pool_inv_def)
  then have "(mset (p_ran t) + running t) + (run_job (p_workers s ! i) + mset (p_ran s)) =
      mset (p_taken t) + (run_job (p_workers s ! i) + mset (p_ran s))"
    using run jobs by (metis (no_types, opaque_lifting) add.assoc add.commute)
  then have "mset (p_ran t) + running t = mset (p_taken t)" by (simp only: add_right_cancel)
  then show ?thesis using mutex queue by (simp add: pool_inv_def)
qed

lemma worker_silent:
  assumes "pool_inv s" "i < length (p_workers s)" "mutex_ok t" "p_workers t = (p_workers s)[i := pc]"
    "p_queue t = p_queue s" "p_taken t = p_taken s" "p_posted t = p_posted s" "p_ran t = p_ran s"
    "run_job pc = {#}" "run_job (p_workers s ! i) = {#}"
  shows "pool_inv t"
  by (rule worker_move [OF assms(1-4)]) (use assms in \<open>simp_all add: pool_inv_def add.commute\<close>)

lemma worker_pops:
  assumes inv: "pool_inv s" and i: "i < length (p_workers s)" and pc: "p_workers s ! i = WPop"
  shows "worker_step i WPop s \<noteq> Undef \<and> (\<forall>s'. worker_step i WPop s = Go s' \<longrightarrow> pool_inv s')"
proof -
  have wf: "tq_wf (p_queue s)" and h: "p_taken s @ tq_jobs (p_queue s) = p_posted s" and m: "mutex_ok s"
    using inv by (auto simp: pool_inv_def)
  obtain q x where q: "take_task (p_queue s) = Some (q, x)" using tqi.take_defined [OF wf] by fastforce
  note hist = tqi.take_history [OF wf q h]
  show ?thesis
  proof (cases x)
    case None
    have "pool_inv (goto i WLock (s\<lparr>p_queue := q\<rparr>))"
      by (rule worker_move [OF inv i, of _ WLock], rule mutex_ok_keep [OF m i, of _ WLock])
        (use hist in \<open>auto simp: pc None add.commute\<close>)
    then show ?thesis by (simp add: q None)
  next
    case (Some j)
    have "pool_inv (goto i (WRun j) (s\<lparr>p_queue := q, p_taken := p_taken s @ [j]\<rparr>))"
      by (rule worker_move [OF inv i, of _ "WRun j"], rule mutex_ok_keep [OF m i, of _ "WRun j"])
        (use hist in \<open>simp_all add: pc Some add.commute\<close>)
    then show ?thesis by (simp add: q Some)
  qed
qed

lemma pool_inv_step_worker:
  assumes inv: "pool_inv s" and i: "i < length (p_workers s)"
  shows "worker_step i (p_workers s ! i) s \<noteq> Undef \<and>
    (\<forall>s'. worker_step i (p_workers s ! i) s = Go s' \<longrightarrow> pool_inv s')"
proof -
  have m: "mutex_ok s" using inv by (auto simp: pool_inv_def)
  note silent = worker_silent [OF inv i]
  show ?thesis
  proof (cases "p_workers s ! i")
    case WPop
    then show ?thesis using worker_pops [OF inv i WPop] by simp
  next
    case WLoop
    let ?pc = "if p_quit s = 0 then WPop else WExit"
    have "pool_inv (goto i ?pc s)"
      by (rule silent [of _ ?pc], rule mutex_ok_keep [OF m i, of _ ?pc]) (simp_all add: WLoop)
    then show ?thesis by (simp add: WLoop)
  next
    case WLock
    have "pool_inv (goto i WCheck (s\<lparr>p_mutex := Some i\<rparr>))" if "p_mutex s = None"
      by (rule silent [of _ WCheck], rule mutex_ok_take [OF m i, of _ WCheck]) (simp_all add: WLock that)
    then show ?thesis by (simp add: WLock)
  next
    case WCheck
    let ?pc = "if q_block (tq (p_queue s)) = 0 then WExit else WCondWait"
    have "pool_inv (goto i ?pc s)"
      by (rule silent [of _ ?pc], rule mutex_ok_keep [OF m i, of _ ?pc]) (simp_all add: WCheck)
    then show ?thesis by (simp add: WCheck)
  next
    case WCondWait
    have "pool_inv (goto i WWait (s\<lparr>p_mutex := None\<rparr>))"
      by (rule silent [of _ WWait], rule mutex_ok_give [OF m i, of _ WWait]) (simp_all add: WCondWait)
    then show ?thesis by (simp add: WCondWait)
  next
    case WWoken
    have "pool_inv (goto i WUnlock (s\<lparr>p_mutex := Some i\<rparr>))" if "p_mutex s = None"
      by (rule silent [of _ WUnlock], rule mutex_ok_take [OF m i, of _ WUnlock]) (simp_all add: WWoken that)
    then show ?thesis by (simp add: WWoken)
  next
    case WUnlock
    have "pool_inv (goto i WPop (s\<lparr>p_mutex := None\<rparr>))"
      by (rule silent [of _ WPop], rule mutex_ok_give [OF m i, of _ WPop]) (simp_all add: WUnlock)
    then show ?thesis by (simp add: WUnlock)
  next
    case (WRun j)
    have "pool_inv (goto i WLoop (s\<lparr>p_ran := p_ran s @ [j]\<rparr>))"
      by (rule worker_move [OF inv i, of _ WLoop], rule mutex_ok_keep [OF m i, of _ WLoop])
        (use inv in \<open>simp_all add: WRun pool_inv_def add.commute\<close>)
    then show ?thesis by (simp add: WRun)
  qed simp_all
qed

lemma pool_inv_wake_one:
  assumes inv: "pool_inv s" and go: "wake_one w s = Go s'"
  shows "pool_inv s'"
proof (cases "WWait \<in> set (p_workers s)")
  case True
  then have w: "w < length (p_workers s)" "p_workers s ! w = WWait" and s': "s' = goto w WWoken s"
    using go by (auto simp: wake_one_def split: if_splits)
  have "mutex_ok s'"
    by (rule mutex_ok_keep [of s, OF _ w(1), of _ WWoken]) (use inv w in \<open>simp_all add: s' pool_inv_def\<close>)
  moreover have "running s' = running s"
    using running_goto [OF w(1), of WWoken] w(2) by (simp add: s')
  ultimately show ?thesis using inv by (simp add: pool_inv_def s')
next
  case False
  then show ?thesis using assms by (simp add: wake_one_def)
qed

lemma pool_inv_goto_woken:
  assumes inv: "pool_inv s" and w: "w < length (p_workers s)" "p_workers s ! w = WWait"
  shows "pool_inv (goto w WWoken s)"
  using pool_inv_wake_one [OF inv, of w] w nth_mem [OF w(1)] by (simp add: wake_one_def)

lemma pool_inv_cgoto [simp]: "pool_inv (cgoto c pc s) = pool_inv s"
  unfolding pool_inv_def mutex_ok_def running_def by simp

lemma pool_inv_quit [simp]: "pool_inv (s\<lparr>p_quit := q\<rparr>) = pool_inv s"
  unfolding pool_inv_def mutex_ok_def running_def by simp

lemma pool_inv_block [simp]:
  "pool_inv (s\<lparr>p_queue := (p_queue s)\<lparr>tq := (tq (p_queue s))\<lparr>q_block := b\<rparr>\<rparr>\<rparr>) = pool_inv s"
  unfolding pool_inv_def mutex_ok_def running_def by simp

lemma pool_inv_wake_all: "pool_inv s \<Longrightarrow> pool_inv (wake_all s)"
  using mutex_ok_wake_all [of s] by (simp add: pool_inv_def)

lemma pool_inv_post:
  assumes inv: "pool_inv s" and q: "post_task (p_queue s) j = Some (q, r)"
  shows "pool_inv (if r = 0 then s\<lparr>p_queue := q, p_posted := p_posted s @ [j]\<rparr> else s\<lparr>p_queue := q\<rparr>)"
proof -
  have wf: "tq_wf (p_queue s)" and h: "p_taken s @ tq_jobs (p_queue s) = p_posted s"
    and m: "mutex_ok s" and r: "mset (p_ran s) + running s = mset (p_taken s)"
    using inv by (auto simp: pool_inv_def)
  have ms: "mutex_ok (if r = 0 then s\<lparr>p_queue := q, p_posted := p_posted s @ [j]\<rparr> else s\<lparr>p_queue := q\<rparr>)"
    by (rule mutex_ok_cong [OF m]) auto
  then show ?thesis
    using tqi.put_history [OF wf q h] r by (auto simp: pool_inv_def running_def)
qed

lemma pool_inv_step_client:
  assumes inv: "pool_inv s"
  shows "client_step c w pc s \<noteq> Undef \<and> (\<forall>s'. client_step c w pc s = Go s' \<longrightarrow> pool_inv s')"
proof (cases pc)
  case (CPost j)
  have wf: "tq_wf (p_queue s)" using inv by (simp add: pool_inv_def)
  obtain q r where q: "post_task (p_queue s) j = Some (q, r)"
    using tqi.put_defined [OF wf, of j] by fastforce
  show ?thesis using pool_inv_post [OF inv q] by (auto simp: CPost q)
next
  case CSignal
  then show ?thesis using pool_inv_wake_one [OF inv, of w]
    by (cases "wake_one w s") (auto simp: wake_one_def split: if_splits)
qed (use inv pool_inv_wake_all [OF inv] in auto)

lemma pool_inv_enter: "pool_inv s \<Longrightarrow> pool_inv (enter_call c k s)"
  by (cases k) auto

lemma act_step_inv:
  assumes "pool_inv s"
  shows "act_step a s \<noteq> Undef" and "act_step a s = Go s' \<Longrightarrow> pool_inv s'"
  using pool_inv_step_worker [OF assms] pool_inv_step_client [OF assms] pool_inv_enter [OF assms]
    pool_inv_goto_woken [OF assms]
  by (cases a; force split: if_splits)+

lemma pool_start_inv: "pool_inv (pool_start n m os)"
proof -
  have "sum_list (map run_job (replicate n WLoop)) = {#}" by (induction n) auto
  then show ?thesis
    by (simp add: pool_inv_def pool_start_def taskqueue_init_wf mutex_ok_def running_def del: One_nat_def)
qed

lemma reachable_inv: "reachable s \<Longrightarrow> pool_inv s"
  by (induction rule: reachable.induct) (auto simp: pool_start_inv elim!: pool_stepE dest: act_step_inv(2))

end
