(* ===== verification/TP_Props.thy ===== *)
theory TP_Props
  imports TP_Pool
begin

text \<open>
  What the thread pool guarantees under every schedule, and where it can hang: a worker that finds
  the queue closed leaves with the mutex locked, and neither the signal nor the broadcast is sent
  under the mutex.
\<close>

section \<open>Schedules\<close>

lemma run_acts_reachable: "reachable s \<Longrightarrow> run_acts as s = Go s' \<Longrightarrow> reachable s'"
proof (induction as arbitrary: s)
  case (Cons a as)
  from Cons.prems(2) obtain s1 where s1: "act_step a s = Go s1" "run_acts as s1 = Go s'"
    by (auto split: outcome.splits)
  have "reachable s1" using Cons.prems(1) pool_step.intros [OF s1(1)] by (rule reachable.step)
  then show ?case using s1(2) by (rule Cons.IH)
qed simp

lemma run_acts_append:
  "run_acts (as @ bs) s = (case run_acts as s of Go s' \<Rightarrow> run_acts bs s' | x \<Rightarrow> x)"
  by (induction as arbitrary: s) (auto split: outcome.splits)

lemma run_acts_inv: "pool_inv s \<Longrightarrow> run_acts as s \<noteq> Undef"
proof (induction as arbitrary: s)
  case (Cons a as)
  then show ?case using act_step_inv [OF Cons.prems, of a] by (auto split: outcome.splits)
qed simp

section \<open>Workers behind a locked mutex\<close>

text \<open>The program counters inside \<open>__get_task\<close>.\<close>

fun in_get :: "wpc \<Rightarrow> bool" where
  "in_get WLoop = False"
| "in_get (WRun j) = False"
| "in_get WExit = False"
| "in_get _ = True"

text \<open>
  The pool is closed, its queue is empty and stays so; some worker is inside \<open>__get_task\<close>, and
  either another one is too or an exited worker owns the mutex.
\<close>

definition closed :: "pool_t \<Rightarrow> bool" where
  "closed s \<longleftrightarrow>
     p_quit s = 1 \<and> q_block (tq (p_queue s)) = 0 \<and> tq_jobs (p_queue s) = [] \<and>
     (\<forall>j. CPost j \<notin> set (p_clients s))"

definition inside :: "pool_t \<Rightarrow> nat" where
  "inside s = length (filter in_get (p_workers s))"

definition orphaned :: "pool_t \<Rightarrow> bool" where
  "orphaned s \<longleftrightarrow> (\<exists>k < length (p_workers s). p_mutex s = Some k \<and> p_workers s ! k = WExit)"

definition stranded :: "pool_t \<Rightarrow> bool" where
  "stranded s \<longleftrightarrow> 2 \<le> inside s \<or> (1 \<le> inside s \<and> orphaned s)"

lemma filter_update_length:
  "i < length ws \<Longrightarrow>
   length (filter P (ws[i := x])) + (if P (ws ! i) then 1 else 0) = length (filter P ws) + (if P x then 1 else 0)"
proof (induction ws arbitrary: i)
  case (Cons w ws)
  then show ?case by (cases i) auto
qed simp

lemma inside_update:
  "i < length (p_workers s) \<Longrightarrow> p_workers s' = (p_workers s)[i := pc] \<Longrightarrow>
   inside s' + (if in_get (p_workers s ! i) then 1 else 0) = inside s + (if in_get pc then 1 else 0)"
  by (simp add: inside_def filter_update_length)

lemma inside_two:
  assumes "i < length ws" "k < length ws" "i \<noteq> k" "P (ws ! i)" "P (ws ! k)"
  shows "2 \<le> length (filter P ws)"
proof -
  have "card {i, k} \<le> card {i. i < length ws \<and> P (ws ! i)}"
    using assms by (intro card_mono) auto
  then show ?thesis using assms(3) by (simp add: length_filter_conv_card)
qed

lemma orphaned_keep:
  "orphaned s \<Longrightarrow> p_workers s' = (p_workers s)[w := pc] \<Longrightarrow> p_mutex s' = p_mutex s \<Longrightarrow>
   p_workers s ! w \<noteq> WExit \<Longrightarrow> orphaned s'"
  unfolding orphaned_def by (metis length_list_update nth_list_update_neq)

lemma orphaned_no_holder: "orphaned s \<Longrightarrow> mutex_ok s \<Longrightarrow> i < length (p_workers s) \<Longrightarrow> \<not> holds_lock (p_workers s ! i)"
  using mutex_okD(3) by (fastforce simp: orphaned_def)

lemma stranded_not_done: "stranded s \<Longrightarrow> thread_pool_waitdone s = Blocked"
proof -
  assume "stranded s"
  then have "filter in_get (p_workers s) \<noteq> []" by (auto simp: stranded_def inside_def)
  then obtain pc where "pc \<in> set (p_workers s)" "in_get pc" by (auto simp: filter_empty_conv)
  then show ?thesis by (auto simp: thread_pool_waitdone_def)
qed

text \<open>A step that keeps the number of workers inside and does not touch the mutex.\<close>

lemma stranded_keep:
  assumes "stranded s" "w < length (p_workers s)" "p_workers s' = (p_workers s)[w := pc]"
    "p_mutex s' = p_mutex s" "p_workers s ! w \<noteq> WExit" "in_get pc = in_get (p_workers s ! w)"
  shows "stranded s'"
  using inside_update [OF assms(2,3)] orphaned_keep [OF _ assms(3,4,5)] assms(1,6)
  by (auto simp: stranded_def split: if_splits)

text \<open>A step of a lock holder, or of a worker that finds the mutex free, inside \<open>__get_task\<close>.\<close>

lemma stranded_lock:
  assumes "stranded s" "w < length (p_workers s)" "p_workers s' = (p_workers s)[w := pc]" "\<not> orphaned s"
    "in_get (p_workers s ! w)" "in_get pc"
  shows "stranded s'"
  using inside_update [OF assms(2,3)] assms(1,4,5,6) by (simp add: stranded_def)

lemma stranded_wake_all: "stranded s \<Longrightarrow> stranded (wake_all s)"
proof -
  have "filter in_get (map (\<lambda>pc. if pc = WWait then WWoken else pc) ws) =
      map (\<lambda>pc. if pc = WWait then WWoken else pc) (filter in_get ws)" for ws
    by (induction ws) auto
  then have "inside (wake_all s) = inside s" by (simp add: inside_def wake_all_def)
  moreover have "orphaned s \<Longrightarrow> orphaned (wake_all s)" by (auto simp: orphaned_def)
  ultimately show "stranded s \<Longrightarrow> stranded (wake_all s)" by (auto simp: stranded_def)
qed

lemma closed_pop:
  assumes inv: "pool_inv s" and c: "closed s" and st: "stranded s" and w: "w < length (p_workers s)"
    and pc: "p_workers s ! w = WPop" and go: "worker_step w (p_workers s ! w) s = Go s'"
  shows "closed s' \<and> stranded s'"
proof -
  have wf: "tq_wf (p_queue s)" using inv by (simp add: pool_inv_def)
  obtain q where q: "take_task (p_queue s) = Some (q, None)" "tq_jobs q = []" "q_block (tq q) = 0"
    using tqi.take_law [OF wf] c by (auto simp: closed_def)
  have s': "s' = goto w WLock (s\<lparr>p_queue := q\<rparr>)" using go by (simp add: pc q)
  have "stranded s'" by (rule stranded_keep [OF st w, of _ WLock]) (simp_all add: s' pc)
  then show ?thesis using c q by (simp add: s' closed_def)
qed

text \<open>A worker that finds the queue closed leaves with the mutex.\<close>

lemma closed_check:
  assumes inv: "pool_inv s" and c: "closed s" and st: "stranded s" and w: "w < length (p_workers s)"
    and pc: "p_workers s ! w = WCheck" and go: "worker_step w (p_workers s ! w) s = Go s'"
  shows "closed s' \<and> stranded s'"
proof -
  have m: "mutex_ok s" using inv by (simp add: pool_inv_def)
  have own: "\<not> orphaned s" using orphaned_no_holder [OF _ m w] pc by auto
  have s': "s' = goto w WExit s" using go c by (simp add: pc closed_def)
  have "p_mutex s = Some w" using mutex_okD(3) [OF m w] by (simp add: pc)
  then have "orphaned s'" using w by (auto simp: orphaned_def s')
  moreover have "inside s' + 1 = inside s" using inside_update [OF w, of s' WExit] by (simp add: s' pc)
  moreover have "2 \<le> inside s" using st own by (simp add: stranded_def)
  ultimately show ?thesis using c by (simp add: s' closed_def stranded_def)
qed

lemma closed_worker_step:
  assumes inv: "pool_inv s" and c: "closed s" and st: "stranded s" and w: "w < length (p_workers s)"
    and go: "worker_step w (p_workers s ! w) s = Go s'"
  shows "closed s' \<and> stranded s'"
proof -
  have m: "mutex_ok s" using inv by (simp add: pool_inv_def)
  have own: "\<not> orphaned s" if "holds_lock (p_workers s ! w)"
    using orphaned_no_holder [OF _ m w] that by blast
  have free: "\<not> orphaned s" if "p_mutex s = None" using that by (simp add: orphaned_def)
  show ?thesis
  proof (cases "p_workers s ! w")
    case WPop
    then show ?thesis using closed_pop [OF inv c st w WPop go] by simp
  next
    case WLoop
    have s': "s' = goto w WExit s" using go c by (simp add: WLoop closed_def)
    have "stranded s'" by (rule stranded_keep [OF st w, of _ WExit]) (simp_all add: s' WLoop)
    then show ?thesis using c by (simp add: s' closed_def)
  next
    case WLock
    have s': "s' = goto w WCheck (s\<lparr>p_mutex := Some w\<rparr>)" "p_mutex s = None"
      using go by (auto simp: WLock split: if_splits)
    have "stranded s'" by (rule stranded_lock [OF st w, of _ WCheck]) (use free s' in \<open>simp_all add: WLock\<close>)
    then show ?thesis using c by (simp add: s' closed_def)
  next
    case WCheck
    then show ?thesis using closed_check [OF inv c st w WCheck go] by simp
  next
    case WCondWait
    have s': "s' = goto w WWait (s\<lparr>p_mutex := None\<rparr>)" using go by (simp add: WCondWait)
    have "stranded s'" by (rule stranded_lock [OF st w, of _ WWait]) (use own s' in \<open>simp_all add: WCondWait\<close>)
    then show ?thesis using c by (simp add: s' closed_def)
  next
    case WWoken
    have s': "s' = goto w WUnlock (s\<lparr>p_mutex := Some w\<rparr>)" "p_mutex s = None"
      using go by (auto simp: WWoken split: if_splits)
    have "stranded s'" by (rule stranded_lock [OF st w, of _ WUnlock]) (use free s' in \<open>simp_all add: WWoken\<close>)
    then show ?thesis using c by (simp add: s' closed_def)
  next
    case WUnlock
    have s': "s' = goto w WPop (s\<lparr>p_mutex := None\<rparr>)" using go by (simp add: WUnlock)
    have "stranded s'" by (rule stranded_lock [OF st w, of _ WPop]) (use own s' in \<open>simp_all add: WUnlock\<close>)
    then show ?thesis using c by (simp add: s' closed_def)
  next
    case (WRun j)
    have s': "s' = goto w WLoop (s\<lparr>p_ran := p_ran s @ [j]\<rparr>)" using go by (simp add: WRun)
    have "stranded s'" by (rule stranded_keep [OF st w, of _ WLoop]) (simp_all add: s' WRun)
    then show ?thesis using c by (simp add: s' closed_def)
  qed (use go in simp_all)
qed

lemma closed_cgoto:
  assumes "closed t" "\<And>j. pc \<noteq> CPost j"
  shows "closed (cgoto k pc t)"
proof -
  have "CPost j \<notin> set ((p_clients t)[k := pc])" for j
    using assms set_update_subset_insert [of "p_clients t" k pc] unfolding closed_def by blast
  then show ?thesis using assms(1) by (simp add: closed_def)
qed

lemma stranded_cgoto [simp]: "stranded (cgoto k pc t) = stranded t"
  by (simp add: stranded_def inside_def orphaned_def)

lemma closed_client_step:
  assumes c: "closed s" and st: "stranded s" and k: "k < length (p_clients s)"
    and go: "client_step k w (p_clients s ! k) s = Go s'"
  shows "closed s' \<and> stranded s'"
proof -
  have cg: "closed (cgoto k pc t) \<and> stranded (cgoto k pc t)"
    if "closed t" "stranded t" "\<And>j. pc \<noteq> CPost j" for t pc
    using that closed_cgoto by simp
  show ?thesis
  proof (cases "p_clients s ! k")
    case CIdle
    then show ?thesis using go by simp
  next
    case (CPost j)
    then have "CPost j \<in> set (p_clients s)" using k nth_mem by metis
    moreover have "CPost j \<notin> set (p_clients s)" using c unfolding closed_def by blast
    ultimately show ?thesis by blast
  next
    case CSignal
    then obtain t where t: "wake_one w s = Go t" "s' = cgoto k CIdle t"
      using go by (auto split: outcome.splits)
    have "stranded t \<and> closed t"
    proof (cases "t = s")
      case False
      then have w: "w < length (p_workers s)" "p_workers s ! w = WWait" "t = goto w WWoken s"
        using t(1) by (auto simp: wake_one_def split: if_splits)
      have "stranded t" by (rule stranded_keep [OF st w(1), of _ WWoken]) (simp_all add: w(2,3))
      then show ?thesis using c by (simp add: closed_def w(3))
    qed (use st c in simp)
    then show ?thesis using cg t(2) by simp
  next
    case CNonblock
    let ?t = "s\<lparr>p_queue := (p_queue s)\<lparr>tq := (tq (p_queue s))\<lparr>q_block := 0\<rparr>\<rparr>\<rparr>"
    have "closed ?t" "stranded ?t"
      using c st by (simp_all add: closed_def stranded_def inside_def orphaned_def)
    moreover have "s' = cgoto k CBroadcast ?t" using go CNonblock by simp
    ultimately show ?thesis using cg by simp
  next
    case CBroadcast
    have "closed (wake_all s)" using c by (simp add: closed_def)
    moreover have "s' = cgoto k CIdle (wake_all s)" using go CBroadcast by simp
    ultimately show ?thesis using cg stranded_wake_all [OF st] by simp
  qed
qed

lemma closed_enter:
  assumes "closed s" "stranded s"
  shows "closed (enter_call k call s) \<and> stranded (enter_call k call s)"
proof (cases call)
  case (Post j)
  then show ?thesis using assms by (simp add: closed_def)
next
  case Terminate
  have "closed (s\<lparr>p_quit := 1\<rparr>)" "stranded (s\<lparr>p_quit := 1\<rparr>)"
    using assms by (simp_all add: closed_def stranded_def inside_def orphaned_def)
  then show ?thesis using Terminate closed_cgoto by simp
qed

lemma closed_act_step:
  assumes inv: "pool_inv s" and c: "closed s" and st: "stranded s" and go: "act_step a s = Go s'"
  shows "closed s' \<and> stranded s'"
proof (cases a)
  case (Worker i)
  then show ?thesis using go closed_worker_step [OF inv c st] by (auto split: if_splits)
next
  case (Call k call)
  then show ?thesis using go closed_enter [OF c st] by (auto split: if_splits)
next
  case (Client k w)
  then show ?thesis using go closed_client_step [OF c st] by (auto split: if_splits)
next
  case (Spurious w)
  then have w: "w < length (p_workers s)" "p_workers s ! w = WWait" "s' = goto w WWoken s"
    using go by (auto split: if_splits)
  have "stranded s'" by (rule stranded_keep [OF st w(1), of _ WWoken]) (simp_all add: w(2,3))
  then show ?thesis using c by (simp add: closed_def w(3))
qed

lemma closed_run:
  "pool_inv s \<Longrightarrow> closed s \<Longrightarrow> stranded s \<Longrightarrow> run_acts as s = Go s' \<Longrightarrow> stranded s'"
proof (induction as arbitrary: s)
  case (Cons a as)
  from Cons.prems(4) obtain s1 where s1: "act_step a s = Go s1" "run_acts as s1 = Go s'"
    by (auto split: outcome.splits)
  show ?case
    using Cons.IH [OF _ _ _ s1(2)] act_step_inv(2) [OF Cons.prems(1) s1(1)]
      closed_act_step [OF Cons.prems(1,2,3) s1(1)] by simp
qed simp

text \<open>Two sleepers, an empty queue, and a client that calls \<open>thread_pool_terminate\<close>.\<close>

lemma terminate_closes:
  assumes inv: "pool_inv s" and idle: "\<forall>pc \<in> set (p_clients s). pc = CIdle" "k < length (p_clients s)"
    and empty: "tq_jobs (p_queue s) = []"
    and two: "i < length (p_workers s)" "w < length (p_workers s)" "i \<noteq> w"
      "p_workers s ! i = WWait" "p_workers s ! w = WWait"
    and run: "run_acts (Call k Terminate # Client k 0 # as) s = Go s'"
  shows "stranded s'"
proof -
  let ?s1 = "cgoto k CNonblock (s\<lparr>p_quit := 1\<rparr>)"
  let ?s2 = "cgoto k CBroadcast (?s1\<lparr>p_queue := (p_queue s)\<lparr>tq := (tq (p_queue s))\<lparr>q_block := 0\<rparr>\<rparr>\<rparr>)"
  have k: "p_clients s ! k = CIdle" using idle by (simp add: nth_mem)
  have "run_acts as ?s2 = Go s'" using run k idle(2) by simp
  moreover have "pool_inv ?s1" using inv by simp
  then have "pool_inv ?s2" using pool_inv_block [of 0 ?s1] by simp
  moreover have "CPost j \<notin> set ((p_clients s)[k := CNonblock])" for j
    using idle(1) set_update_subset_insert [of "p_clients s" k CNonblock] by fastforce
  then have "closed (?s1\<lparr>p_queue := (p_queue s)\<lparr>tq := (tq (p_queue s))\<lparr>q_block := 0\<rparr>\<rparr>\<rparr>)"
    using empty by (simp add: closed_def)
  then have "closed ?s2" by (rule closed_cgoto) simp
  moreover have "stranded ?s2"
    using inside_two [of i "p_workers s" w in_get] two by (simp add: stranded_def inside_def)
  ultimately show ?thesis using closed_run by blast
qed

section \<open>One worker\<close>

definition closing :: "pool_t \<Rightarrow> bool" where
  "closing s \<longleftrightarrow> p_quit s = 1 \<and> q_block (tq (p_queue s)) = 0"

text \<open>How many more steps the only worker of a closed pool takes.\<close>

fun steps_left :: "wpc \<Rightarrow> nat" where
  "steps_left WExit = 0"
| "steps_left WLoop = 1"
| "steps_left (WRun j) = 2"
| "steps_left WCheck = 1"
| "steps_left WLock = 2"
| "steps_left WPop = 3"
| "steps_left WUnlock = 4"
| "steps_left WWoken = 5"
| "steps_left WCondWait = 0"
| "steps_left WWait = 0"

lemma single_worker_step:
  assumes inv: "pool_inv s" and c: "closing s" and ws: "p_workers s = [pc]"
    and pc: "pc \<noteq> WCondWait" "pc \<noteq> WWait" "pc \<noteq> WExit"
  shows "\<exists>s' pc'. act_step (Worker 0) s = Go s' \<and> pool_inv s' \<and> closing s' \<and> p_workers s' = [pc'] \<and>
    pc' \<noteq> WCondWait \<and> pc' \<noteq> WWait \<and> steps_left pc' < steps_left pc"
proof -
  have m: "mutex_ok s" and wf: "tq_wf (p_queue s)" using inv by (simp_all add: pool_inv_def)
  have free: "p_mutex s = None" if "\<not> holds_lock pc"
    using mutex_okD(1,2) [OF m] that ws pc(3) by (cases "p_mutex s") fastforce+
  obtain q where q: "take_task (p_queue s) = Some (q, case tq_jobs (p_queue s) of [] \<Rightarrow> None | j # _ \<Rightarrow> Some j)"
      "q_block (tq q) = q_block (tq (p_queue s))"
    using tqi.take_law [OF wf] by blast
  have "\<exists>s' pc'. act_step (Worker 0) s = Go s' \<and> closing s' \<and> p_workers s' = [pc'] \<and>
    pc' \<noteq> WCondWait \<and> pc' \<noteq> WWait \<and> steps_left pc' < steps_left pc"
    using free pc c q by (cases pc; cases "tq_jobs (p_queue s)") (simp_all add: ws closing_def)
  then show ?thesis using act_step_inv(2) [OF inv] by blast
qed

lemma single_worker_run:
  assumes "pool_inv s" "closing s" "p_workers s = [pc]" "pc \<noteq> WCondWait" "pc \<noteq> WWait"
  shows "\<exists>n \<le> steps_left pc. \<exists>s'. run_acts (replicate n (Worker 0)) s = Go s' \<and> pool_inv s' \<and> p_workers s' = [WExit]"
  using assms
proof (induction "steps_left pc" arbitrary: s pc rule: less_induct)
  case less
  show ?case
  proof (cases "pc = WExit")
    case True
    then show ?thesis using less.prems by (intro exI [of _ 0]) simp
  next
    case False
    from single_worker_step [OF less.prems False] obtain s1 p1 where s1:
      "act_step (Worker 0) s = Go s1" "pool_inv s1" "closing s1" "p_workers s1 = [p1]"
      "p1 \<noteq> WCondWait" "p1 \<noteq> WWait" "steps_left p1 < steps_left pc" by blast
    from less.hyps [OF s1(7,2,3,4,5,6)] obtain n s' where n: "n \<le> steps_left p1"
      "run_acts (replicate n (Worker 0)) s1 = Go s'" "pool_inv s'" "p_workers s' = [WExit]" by blast
    then show ?thesis using s1(1,7) by (intro exI [of _ "Suc n"]) simp
  qed
qed

lemma waitdone_drains:
  assumes "pool_inv s" "\<forall>pc \<in> set (p_workers s). pc = WExit"
  shows "\<exists>s'. thread_pool_waitdone s = Go s' \<and> cells (th (p_queue s')) = Map.empty"
proof -
  obtain ts where "tq_rep (p_queue s) ts" using assms(1) by (auto simp: pool_inv_def tq_wf_def)
  from taskqueue_drain_ok [OF this] assms(2) show ?thesis by (auto simp: thread_pool_waitdone_def)
qed

section \<open>A wake-up between the test and the wait\<close>

text \<open>What a worker's step leaves alone.\<close>

lemma worker_step_frame:
  assumes inv: "pool_inv s" and go: "worker_step m pc s = Go s'"
  shows "(\<exists>pc'. p_workers s' = (p_workers s)[m := pc']) \<and> p_clients s' = p_clients s \<and> p_quit s' = p_quit s \<and>
    q_block (tq (p_queue s')) = q_block (tq (p_queue s))"
proof (cases "pc = WPop")
  case True
  have "tq_wf (p_queue s)" using inv by (simp add: pool_inv_def)
  then obtain q r where q: "take_task (p_queue s) = Some (q, r)" "q_block (tq q) = q_block (tq (p_queue s))"
    using tqi.take_law by blast
  then show ?thesis using go by (cases r) (auto simp: True)
next
  case False
  then show ?thesis using go by (cases pc) (auto split: if_splits)
qed

text \<open>Actions that send no wake-up once the call \<open>c\<close> is over; posts are refused when it was a terminate.\<close>

fun silent :: "call \<Rightarrow> act \<Rightarrow> bool" where
  "silent c (Worker m) = True"
| "silent c (Client k w) = True"
| "silent c (Call k d) = (c = Terminate \<and> d \<noteq> Terminate)"
| "silent c (Spurious m) = False"

definition asleep :: "call \<Rightarrow> nat \<Rightarrow> pool_t \<Rightarrow> bool" where
  "asleep c i s \<longleftrightarrow> pool_inv s \<and> i < length (p_workers s) \<and> p_workers s ! i = WWait \<and>
     (\<forall>pc \<in> set (p_clients s). pc = CIdle) \<and>
     (c = Terminate \<longrightarrow> p_quit s = 1 \<and> q_block (tq (p_queue s)) = 0)"

lemma asleep_step:
  assumes a: "asleep c i s" and go: "act_step a s = Go s'" and quiet: "silent c a"
  shows "asleep c i s'"
proof (cases a)
  case (Worker m)
  then have w: "worker_step m (p_workers s ! m) s = Go s'" using go by (auto split: if_splits)
  then have "m \<noteq> i" using a by (auto simp: asleep_def)
  moreover have "pool_inv s'" using act_step_inv(2) [OF _ go] a by (simp add: asleep_def)
  moreover have "pool_inv s" using a by (simp add: asleep_def)
  note worker_step_frame [OF this w]
  ultimately show ?thesis using a by (auto simp: asleep_def)
next
  case (Call k d)
  then obtain j where "d = Post j" "c = Terminate" using quiet by (cases d) auto
  then show ?thesis using go a by (auto simp: Call asleep_def split: if_splits)
next
  case (Client k w)
  then show ?thesis using go a by (auto simp: asleep_def all_set_conv_all_nth split: if_splits)
qed (use quiet in simp)

lemma asleep_run: "asleep c i s \<Longrightarrow> run_acts as s = Go s' \<Longrightarrow> \<forall>a \<in> set as. silent c a \<Longrightarrow> asleep c i s'"
proof (induction as arbitrary: s)
  case (Cons a as)
  then show ?case using asleep_step [OF Cons.prems(1)] by (auto split: outcome.splits)
qed simp

lemma asleep_alone:
  assumes "asleep (Post j) i s" "\<forall>m < length (p_workers s). m \<noteq> i \<longrightarrow> p_workers s ! m = WExit" "silent (Post j) a"
  shows "act_step a s = Blocked"
proof (cases a)
  case (Worker m)
  then show ?thesis using assms by (cases "m = i") (auto simp: asleep_def)
next
  case (Client k w)
  then show ?thesis using assms(1) by (auto simp: asleep_def all_set_conv_all_nth)
qed (use assms in auto)

text \<open>The call runs while worker \<open>i\<close> stands before \<open>pthread_cond_wait\<close>, then the worker goes to sleep.\<close>

lemma call_misses_worker:
  assumes inv: "pool_inv s" and i: "i < length (p_workers s)" "p_workers s ! i = WCondWait"
    and idle: "\<forall>pc \<in> set (p_clients s). pc = CIdle"
    and run: "run_acts [Call k c, Client k w, Client k w', Worker i] s = Go s'"
  shows "asleep c i s' \<and> (\<forall>m < length (p_workers s'). p_workers s ! m = WExit \<longrightarrow> p_workers s' ! m = WExit) \<and>
    length (p_workers s') = length (p_workers s) \<and>
    (\<forall>j. c = Post j \<longrightarrow> tq_jobs (p_queue s') = tq_jobs (p_queue s) @ [j])"
proof -
  have k: "k < length (p_clients s)" "p_clients s ! k = CIdle" using run by (auto split: if_splits)
  have upd: "\<forall>pc \<in> set ((p_clients s)[k := CIdle]). pc = CIdle"
    using idle set_update_subset_insert [of "p_clients s" k CIdle] by auto
  obtain s3 where s3: "run_acts [Call k c, Client k w, Client k w'] s = Go s3" "act_step (Worker i) s3 = Go s'"
    using run run_acts_append [of "[Call k c, Client k w, Client k w']" "[Worker i]" s]
    by (auto split: outcome.splits)
  have inv3: "pool_inv s3"
  proof -
    have "run_acts as x = Go y \<Longrightarrow> pool_inv x \<Longrightarrow> pool_inv y" for as x y
      by (induction as arbitrary: x) (auto split: outcome.splits dest: act_step_inv(2))
    then show ?thesis using s3(1) inv by blast
  qed
  have "length (p_workers s3) = length (p_workers s) \<and> p_workers s3 ! i = WCondWait \<and>
      (\<forall>m < length (p_workers s). p_workers s ! m = WExit \<longrightarrow> p_workers s3 ! m = WExit) \<and>
      p_clients s3 = (p_clients s)[k := CIdle] \<and> (c = Terminate \<longrightarrow> p_quit s3 = 1 \<and> q_block (tq (p_queue s3)) = 0) \<and>
      (\<forall>j. c = Post j \<longrightarrow> tq_jobs (p_queue s3) = tq_jobs (p_queue s) @ [j])"
  proof (cases c)
    case (Post j)
    have "tq_wf (p_queue s)" using inv by (simp add: pool_inv_def)
    then obtain q r where q: "post_task (p_queue s) j = Some (q, r)"
        "r = 0 \<and> tq_jobs q = tq_jobs (p_queue s) @ [j] \<or> r = -1" using tqi.put_law by blast
    show ?thesis using s3(1) k q i
      by (auto simp: Post wake_one_def nth_list_update split: if_splits)
  next
    case Terminate
    then show ?thesis using s3(1) k i by auto
  qed
  moreover from this have "s' = goto i WWait (s3\<lparr>p_mutex := None\<rparr>)" using s3(2) i(1) by simp
  moreover have "pool_inv s'" by (rule act_step_inv(2) [OF inv3 s3(2)])
  ultimately show ?thesis using i upd by (auto simp: asleep_def nth_list_update)
qed

section \<open>Properties\<close>

text \<open>
  C17: under every schedule of any number of workers and client threads, and whatever allocations
  fail, no step is undefined behaviour: no worker pops a dangling task, none is freed twice.
\<close>

theorem pool_schedules_defined: "run_acts as (pool_start n m os) \<noteq> Undef"
  by (rule run_acts_inv [OF pool_start_inv])

text \<open>
  C14: in every reachable state the tasks taken by the workers and then the tasks in the queue are
  the tasks posted, in the order of posting; each task taken is running or has been run, once.
\<close>

theorem pool_fifo:
  assumes "reachable s"
  shows "p_taken s @ tq_jobs (p_queue s) = p_posted s \<and> mset (p_ran s) + running s = mset (p_taken s)"
  using reachable_inv [OF assms] by (simp add: pool_inv_def)

theorem pool_fifo_witness:
  "\<exists>s. run_acts [Call 0 (Post (7, 8)), Client 0 0, Worker 0, Worker 0] (pool_start 1 1 []) = Go s \<and>
    p_taken s @ tq_jobs (p_queue s) = [(7, 8)] \<and> running s = {#(7, 8)#}"
proof -
  obtain s where s: "run_acts [Call 0 (Post (7, 8)), Client 0 0, Worker 0, Worker 0] (pool_start 1 1 []) = Go s"
      "p_posted s = [(7, 8)]" "p_ran s = []" "p_taken s = [(7, 8)]"
    by (simp add: pool_start_def taskqueue_init_def post_task_def add_task_def store_link_def take_task_def
        pop_task_def cgoto_def goto_def rd_obj_def wr_obj_def kvstore_malloc_def kvstore_free_def Let_def)
  then have "reachable s" using run_acts_reachable [OF reachable.start] by blast
  from pool_fifo [OF this] s show ?thesis by auto
qed

lemmas pool_exec =
  pool_start_def taskqueue_init_def post_task_def add_task_def store_link_def take_task_def pop_task_def
  cgoto_def goto_def rd_obj_def wr_obj_def kvstore_malloc_def kvstore_free_def Let_def wake_one_def wake_all_def

text \<open>
  C15: \<open>thread_pool_terminate\<close> on an idle pool with two sleeping workers can never be followed by a
  return of \<open>thread_pool_waitdone\<close>, whatever the schedule and even with spurious wake-ups: the
  first worker to see \<open>block == 0\<close> returns from \<open>__get_task\<close> without unlocking the mutex.
\<close>

theorem terminate_strands_workers:
  assumes "reachable s" "\<forall>pc \<in> set (p_clients s). pc = CIdle" "k < length (p_clients s)"
    "tq_jobs (p_queue s) = []" "i < length (p_workers s)" "w < length (p_workers s)" "i \<noteq> w"
    "p_workers s ! i = WWait" "p_workers s ! w = WWait"
    "run_acts (Call k Terminate # Client k 0 # as) s = Go s'"
  shows "thread_pool_waitdone s' = Blocked"
  using terminate_closes [OF reachable_inv [OF assms(1)] assms(2-10)] by (rule stranded_not_done)

theorem terminate_strands_workers_witness:
  "\<exists>s. run_acts (replicate 5 (Worker 0) @ replicate 5 (Worker 1) @ [Call 0 Terminate, Client 0 0, Client 0 0] @
      replicate 5 (Worker 0)) (pool_start 2 1 []) = Go s \<and> p_workers s = [WExit, WWoken] \<and>
    thread_pool_waitdone s = Blocked"
proof -
  let ?pre = "replicate 5 (Worker 0) @ replicate 5 (Worker 1)"
  let ?suf = "Client 0 0 # replicate 5 (Worker 0)"
  obtain s where s: "run_acts ?pre (pool_start 2 1 []) = Go s"
      "p_clients s = [CIdle]" "p_workers s = [WWait, WWait]" "tq_jobs (p_queue s) = []"
    by (simp add: pool_exec numeral_eq_Suc tq_jobs_def)
  have "\<exists>s'. run_acts (?pre @ Call 0 Terminate # Client 0 0 # ?suf) (pool_start 2 1 []) = Go s' \<and>
      p_workers s' = [WExit, WWoken]"
    by (simp add: pool_exec numeral_eq_Suc)
  then obtain s' where s': "run_acts (?pre @ Call 0 Terminate # Client 0 0 # ?suf) (pool_start 2 1 []) = Go s'"
      "p_workers s' = [WExit, WWoken]" by blast
  have run: "run_acts (Call 0 Terminate # Client 0 0 # ?suf) s = Go s'"
    using s'(1) by (simp only: run_acts_append [of ?pre] s(1) outcome.case)
  have "thread_pool_waitdone s' = Blocked"
    by (rule terminate_strands_workers [OF run_acts_reachable [OF reachable.start s(1)], of 0 0 1 ?suf])
      (use s(2-4) run in \<open>simp_all del: run_acts.simps\<close>)
  then show ?thesis using s' by simp
qed

text \<open>
  C18: a wake-up can be lost.  In any reachable state of any pool, let a worker stand between the test of \<open>block\<close>
  and the call of \<open>pthread_cond_wait\<close> while a client runs a whole call: neither the signal of a post nor the
  broadcast of a terminate is sent under the mutex.  The worker then sleeps, under every schedule without a
  spurious wake-up and without another call that wakes: after a terminate \<open>thread_pool_waitdone\<close> can never
  return although the pool is closed, and a task that was posted stays queued when the other workers are gone.
\<close>

theorem pool_lost_wakeup:
  assumes "reachable s" "i < length (p_workers s)" "p_workers s ! i = WCondWait"
    "\<forall>pc \<in> set (p_clients s). pc = CIdle"
    "run_acts ([Call k c, Client k w, Client k w', Worker i] @ as) s = Go s'" "\<forall>a \<in> set as. silent c a"
  shows "p_workers s' ! i = WWait \<and> thread_pool_waitdone s' = Blocked \<and>
    (case c of
       Terminate \<Rightarrow> p_quit s' = 1 \<and> q_block (tq (p_queue s')) = 0
     | Post j \<Rightarrow> (\<forall>m < length (p_workers s). m \<noteq> i \<longrightarrow> p_workers s ! m = WExit) \<longrightarrow>
         tq_jobs (p_queue s') = tq_jobs (p_queue s) @ [j])"
proof -
  from assms(5) obtain s1 where s1: "run_acts [Call k c, Client k w, Client k w', Worker i] s = Go s1" "run_acts as s1 = Go s'"
    unfolding run_acts_append by (auto split: outcome.splits)
  note m = call_misses_worker [OF reachable_inv [OF assms(1)] assms(2-4) s1(1)]
  then have a: "asleep c i s'" using asleep_run [OF _ s1(2) assms(6)] by blast
  moreover from this have "thread_pool_waitdone s' = Blocked"
    using nth_mem [of i "p_workers s'"] by (auto simp: asleep_def thread_pool_waitdone_def)
  moreover have "tq_jobs (p_queue s') = tq_jobs (p_queue s) @ [j]"
    if "c = Post j" "\<forall>m < length (p_workers s). m \<noteq> i \<longrightarrow> p_workers s ! m = WExit" for j
  proof -
    have "act_step b s1 = Blocked" if "b \<in> set as" for b
      using asleep_alone [of j i s1 b] m \<open>c = Post j\<close> that assms(6) \<open>\<forall>m < _. _\<close> by auto
    then have "as = []" using s1(2) by (cases as) auto
    then show ?thesis using s1(2) m that(1) by simp
  qed
  ultimately show ?thesis by (auto simp: asleep_def split: call.split)
qed

theorem pool_lost_wakeup_witness:
  "\<exists>s s'. run_acts (replicate 4 (Worker 0)) (pool_start 2 1 []) = Go s \<and>
    run_acts ([Call 0 Terminate, Client 0 0, Client 0 0, Worker 0] @ [Worker 1]) s = Go s' \<and>
    p_workers s' = [WWait, WExit] \<and> thread_pool_waitdone s' = Blocked"
proof -
  obtain s where s: "run_acts (replicate 4 (Worker 0)) (pool_start 2 1 []) = Go s"
      "p_workers s = [WCondWait, WLoop]" "p_clients s = [CIdle]" "p_quit s = 0"
    by (simp add: pool_exec numeral_eq_Suc)
  obtain s' where s': "run_acts ([Call 0 Terminate, Client 0 0, Client 0 0, Worker 0] @ [Worker 1]) s = Go s'"
      "p_workers s' = [WWait, WExit]"
    using s(2-4) by (simp add: pool_exec)
  from pool_lost_wakeup [OF run_acts_reachable [OF reachable.start s(1)] _ _ _ s'(1)] s s' show ?thesis by simp
qed

text \<open>
  the only worker of a closed pool that is awake leaves within five of its own steps, and
  \<open>thread_pool_waitdone\<close> then returns with every task block freed.
\<close>

theorem single_worker_exits:
  assumes "reachable s" "p_quit s = 1" "q_block (tq (p_queue s)) = 0" "p_workers s = [pc]"
    "pc \<noteq> WCondWait" "pc \<noteq> WWait"
  shows "\<exists>n \<le> 5. \<exists>s1 s2. run_acts (replicate n (Worker 0)) s = Go s1 \<and>
    thread_pool_waitdone s1 = Go s2 \<and> cells (th (p_queue s2)) = Map.empty"
proof -
  have c: "closing s" using assms(2,3) by (simp add: closing_def)
  from single_worker_run [OF reachable_inv [OF assms(1)] c assms(4-6)]
  obtain n s1 where s1: "n \<le> steps_left pc" "run_acts (replicate n (Worker 0)) s = Go s1"
    "pool_inv s1" "p_workers s1 = [WExit]" by blast
  moreover have "steps_left pc \<le> 5" by (cases pc) auto
  moreover obtain s2 where "thread_pool_waitdone s1 = Go s2" "cells (th (p_queue s2)) = Map.empty"
    using waitdone_drains [OF s1(3)] s1(4) by auto
  ultimately show ?thesis by (meson order_trans)
qed

theorem single_worker_exits_witness:
  "\<exists>n \<le> 5. \<exists>s s1 s2. run_acts [Call 0 Terminate, Client 0 0, Client 0 0] (pool_start 1 1 []) = Go s \<and>
    run_acts (replicate n (Worker 0)) s = Go s1 \<and>
    thread_pool_waitdone s1 = Go s2 \<and> cells (th (p_queue s2)) = Map.empty"
proof -
  obtain s where s: "run_acts [Call 0 Terminate, Client 0 0, Client 0 0] (pool_start 1 1 []) = Go s"
      "p_quit s = 1" "q_block (tq (p_queue s)) = 0" "p_workers s = [WLoop]"
    by (simp add: pool_exec)
  from single_worker_exits [OF run_acts_reachable [OF reachable.start s(1)] s(2-4)] s(1) show ?thesis by blast
qed

end
