(* ===== verification/TP_Create.thy ===== *)
theory TP_Create
  imports TP_Props "HOL-Library.Word"
begin

text \<open>
  Creation of the pool in thread_pool.c, with its rollback: every function is the list of the
  resources it acquires and releases and its result.  The outcomes of malloc and of the pthread
  calls are the environment, and so is what the threads do that run already: the rollback joins
  them, so the model of the pool says whether it returns.  \<open>None\<close> is a join that has not returned when the
  schedule ends, or undefined behaviour.
\<close>

section \<open>Resources\<close>

datatype res =
    RPool \<comment> \<open>the block of \<open>pool\<close>\<close>
  | RQueue \<comment> \<open>the block of \<open>queue\<close>\<close>
  | RMutex | RCond | RSpin | RAttr
  | RThreads \<comment> \<open>the block of \<open>pool->threads\<close>\<close>
  | RThread nat

datatype ev = Acq res | Rel res

text \<open>What a thread that was created does meanwhile: a step, or waking from a wait without a signal.\<close>

datatype wact = Runs nat | Wakes nat

fun act_of :: "wact \<Rightarrow> act" where
  "act_of (Runs i) = Worker i"
| "act_of (Wakes i) = Spurious i"

record tp_env =
  malloc_pool :: bool
  malloc_queue :: bool
  mutex_init :: int
  cond_init :: int
  spin_init :: int
  attr_init :: int
  malloc_threads :: "64 word \<Rightarrow> bool" \<comment> \<open>by the number of bytes\<close>
  pthread_create :: "nat \<Rightarrow> int"
  sched_up :: "wact list" \<comment> \<open>until the rollback stores \<open>quit\<close>\<close>
  sched_quit :: "wact list" \<comment> \<open>until it stores \<open>block\<close>\<close>
  sched_block :: "wact list" \<comment> \<open>until its broadcast\<close>
  sched_join :: "wact list" \<comment> \<open>until the last join\<close>

text \<open>What is held after a list of events, and which releases were of something not held.\<close>

fun settle_ev :: "ev \<Rightarrow> res set \<times> res list \<Rightarrow> res set \<times> res list" where
  "settle_ev (Acq r) (H, b) = (insert r H, b)"
| "settle_ev (Rel r) (H, b) = (H - {r}, if r \<in> H then b else b @ [r])"

definition settle :: "ev list \<Rightarrow> res set \<times> res list \<Rightarrow> res set \<times> res list" where
  "settle evs = fold settle_ev evs"

section \<open>The functions\<close>

definition taskqueue_create :: "tp_env \<Rightarrow> ev list \<times> bool" where
  "taskqueue_create e =
     (if malloc_queue e
      then (if mutex_init e = 0
            then (if cond_init e = 0
                  then (if spin_init e = 0
                        then ([Acq RQueue, Acq RMutex, Acq RCond, Acq RSpin], True)
                        else ([Acq RQueue, Acq RMutex, Acq RCond, Rel RSpin, Rel RCond, Rel RMutex, Rel RQueue], False))
                  else ([Acq RQueue, Acq RMutex, Rel RMutex, Rel RQueue], False))
            else ([Acq RQueue, Rel RQueue], False))
      else ([], False))"

text \<open>The loop of \<open>pthread_create\<close>: the index at which it stops, of \<open>n\<close>.\<close>

fun create_loop :: "(nat \<Rightarrow> int) \<Rightarrow> nat \<Rightarrow> nat \<Rightarrow> nat" where
  "create_loop cr i 0 = i"
| "create_loop cr i (Suc left) = (if cr i \<noteq> 0 then i else create_loop cr (Suc i) left)"

text \<open>
  \<open>__threads_terminate\<close> among the steps of the \<open>i\<close> threads created so far; the creating thread is client 0
  of their pool.  The joins return when every thread has left its function.
\<close>

definition terminate_acts :: "tp_env \<Rightarrow> act list" where
  "terminate_acts e =
     map act_of (sched_up e) @ Call 0 Terminate # map act_of (sched_quit e) @ Client 0 0 # map act_of (sched_block e) @
     Client 0 0 # map act_of (sched_join e)"

definition threads_terminate :: "tp_env \<Rightarrow> nat \<Rightarrow> (ev list \<times> nat option) option" where
  "threads_terminate e i =
     (case run_acts (terminate_acts e) (pool_start i 1 []) of
        Go s \<Rightarrow> (if \<forall>pc \<in> set (p_workers s). pc = WExit
                 then Some (map (\<lambda>k. Rel (RThread k)) [0..<i], p_mutex s) else None)
      | _ \<Rightarrow> None)"

text \<open>
  \<open>__threads_create\<close>; the count is a \<open>size_t\<close>, \<open>sizeof(pthread_t)\<close> is 8.  The last result is the thread that
  left with the mutex of the queue, if one did.
\<close>

definition threads_create :: "tp_env \<Rightarrow> 64 word \<Rightarrow> (ev list \<times> int \<times> nat option) option" where
  "threads_create e n =
     (if attr_init e = 0
      then (if malloc_threads e (8 * n)
            then (let i = create_loop (pthread_create e) 0 (unat n);
                      evs = [Acq RAttr, Acq RThreads] @ map (\<lambda>k. Acq (RThread k)) [0..<i] @ [Rel RAttr]
                  in if i = unat n then Some (evs, 0, None)
                     else do {
                       (rel, owner) \<leftarrow> threads_terminate e i;
                       Some (evs @ rel @ [Rel RThreads], -1, owner) })
            else Some ([Acq RAttr], -1, None))
      else Some ([], -1, None))"

text \<open>
  \<open>__taskqueue_destroy\<close> of the empty queue; to destroy a mutex that a thread has left locked is undefined.
\<close>

definition taskqueue_release :: "nat option \<Rightarrow> ev list option" where
  "taskqueue_release owner = (if owner = None then Some [Rel RSpin, Rel RCond, Rel RMutex, Rel RQueue] else None)"

definition thread_pool_create :: "tp_env \<Rightarrow> int \<Rightarrow> (ev list \<times> bool) option" where
  "thread_pool_create e threads_count =
     (if malloc_pool e
      then (let (qevs, qok) = taskqueue_create e in
            if qok
            then do {
              (tevs, r, owner) \<leftarrow> threads_create e (word_of_int threads_count);
              if r = 0 then Some (Acq RPool # qevs @ tevs, True)
              else do {
                rel \<leftarrow> taskqueue_release owner;
                Some (Acq RPool # qevs @ tevs @ rel @ [Rel RPool], False) } }
            else Some (Acq RPool # qevs @ [Rel RPool], False))
      else Some ([], False))"

section \<open>Accounting\<close>

lemma settle_simps [simp]:
  "settle [] s = s" "settle (e # es) s = settle es (settle_ev e s)" "settle (es @ fs) s = settle fs (settle es s)"
  by (simp_all add: settle_def)

lemma settle_acq_threads: "settle (map (\<lambda>k. Acq (RThread k)) ks) (H, b) = (H \<union> RThread ` set ks, b)"
  by (induction ks arbitrary: H) auto

lemma settle_rel_threads:
  "distinct ks \<Longrightarrow> RThread ` set ks \<subseteq> H \<Longrightarrow>
   settle (map (\<lambda>k. Rel (RThread k)) ks) (H, b) = (H - RThread ` set ks, b)"
proof (induction ks arbitrary: H)
  case (Cons k ks)
  then have "settle (map (\<lambda>k. Rel (RThread k)) ks) (H - {RThread k}, b) = (H - {RThread k} - RThread ` set ks, b)"
    by (intro Cons.IH) auto
  then show ?case using Cons.prems by auto
qed simp

definition queue_res :: "res set" where
  "queue_res = {RPool, RQueue, RMutex, RCond, RSpin}"

text \<open>What \<open>__threads_create\<close> adds to the resources of pool and queue.\<close>

lemma settle_threads_create:
  assumes "threads_create e n = Some (evs, r, owner)"
  shows "settle evs (queue_res, []) =
    (if r = 0 then (queue_res \<union> {RThreads} \<union> RThread ` {..<unat n}, [])
     else (queue_res \<union> (if attr_init e = 0 \<and> \<not> malloc_threads e (8 * n) then {RAttr} else {}), []))"
proof -
  have rel: "settle (map (\<lambda>k. Rel (RThread k)) [0..<i])
      (insert RThreads (insert RAttr (insert RPool (insert RQueue (insert RMutex (insert RCond (insert RSpin
        (RThread ` {0..<i}))))))) - {RAttr}, []) = ({RThreads, RPool, RQueue, RMutex, RCond, RSpin}, [])" for i
    by (subst settle_rel_threads) auto
  show ?thesis using assms
    by (auto simp: threads_create_def Let_def queue_res_def settle_acq_threads threads_terminate_def
        rel lessThan_atLeast0 split: if_splits Option.bind_splits outcome.splits)
qed

lemma settle_create:
  assumes "thread_pool_create e n = Some (evs, ok)"
  shows "settle evs ({}, []) =
    (if ok
     then (queue_res \<union> {RThreads} \<union> RThread ` {..<unat (word_of_int n :: 64 word)}, [])
     else (if malloc_pool e \<and> snd (taskqueue_create e) \<and> attr_init e = 0 \<and>
             \<not> malloc_threads e (8 * word_of_int n) then {RAttr} else {},
           if malloc_pool e \<and> malloc_queue e \<and> mutex_init e = 0 \<and> cond_init e = 0 \<and> spin_init e \<noteq> 0
           then [RSpin] else []))"
proof (cases "malloc_pool e \<and> snd (taskqueue_create e)")
  case False
  then show ?thesis using assms by (auto simp: thread_pool_create_def taskqueue_create_def split: if_splits)
next
  case True
  have q: "taskqueue_create e = ([Acq RQueue, Acq RMutex, Acq RCond, Acq RSpin], True)" "spin_init e = 0"
    using True by (auto simp: taskqueue_create_def split: if_splits)
  obtain tevs r owner where t: "threads_create e (word_of_int n) = Some (tevs, r, owner)"
    using assms True q by (auto simp: thread_pool_create_def split: Option.bind_splits)
  have start: "{RSpin, RCond, RMutex, RQueue, RPool} = queue_res" by (auto simp: queue_res_def)
  show ?thesis using True settle_threads_create [OF t] assms
    by (auto simp: thread_pool_create_def t q start taskqueue_release_def queue_res_def split: if_splits)
qed

section \<open>Whether the rollback returns\<close>

text \<open>The creation of the threads stops at thread \<open>created e n\<close>, before the last one, and the rollback begins.\<close>

definition created :: "tp_env \<Rightarrow> int \<Rightarrow> nat" where
  "created e n = create_loop (pthread_create e) 0 (unat (word_of_int n :: 64 word))"

definition rolls_back :: "tp_env \<Rightarrow> int \<Rightarrow> bool" where
  "rolls_back e n \<longleftrightarrow> malloc_pool e \<and> snd (taskqueue_create e) \<and> attr_init e = 0 \<and> malloc_threads e (8 * word_of_int n) \<and>
     created e n \<noteq> unat (word_of_int n :: 64 word)"

lemma create_returns:
  "thread_pool_create e n \<noteq> None \<longleftrightarrow>
     (rolls_back e n \<longrightarrow> (\<exists>rel. threads_terminate e (created e n) = Some (rel, None)))"
  by (auto simp: thread_pool_create_def rolls_back_def threads_create_def taskqueue_create_def created_def Let_def
      taskqueue_release_def split: if_splits Option.bind_splits)

text \<open>While the queue is open and empty, threads inside \<open>__get_task\<close> stay there.\<close>

definition idle_pool :: "pool_t \<Rightarrow> bool" where
  "idle_pool s \<longleftrightarrow> pool_inv s \<and> q_block (tq (p_queue s)) \<noteq> 0 \<and> tq_jobs (p_queue s) = []"

lemma idle_worker:
  assumes s: "idle_pool s" and m: "m < length (p_workers s)" and go: "worker_step m (p_workers s ! m) s = Go s'"
  shows "inside s \<le> inside s' \<and> tq_jobs (p_queue s') = []"
proof -
  have mono: "inside s \<le> inside t" if "p_workers t = (p_workers s)[m := pc]" "in_get (p_workers s ! m) \<longrightarrow> in_get pc" for t pc
    using inside_update [OF m that(1)] that(2) by (auto split: if_splits)
  show ?thesis
  proof (cases "p_workers s ! m = WPop")
    case True
    have "tq_wf (p_queue s)" using s by (simp add: idle_pool_def pool_inv_def)
    then obtain q where q: "take_task (p_queue s) = Some (q, None)" "tq_jobs q = []"
      using tqi.take_law [of "p_queue s"] s by (auto simp: idle_pool_def)
    have s': "s' = goto m WLock (s\<lparr>p_queue := q\<rparr>)" using go by (simp add: True q)
    show ?thesis using mono [of s' WLock] q(2) by (simp add: s')
  next
    case False
    then obtain pc where "p_workers s' = (p_workers s)[m := pc]" "in_get (p_workers s ! m) \<longrightarrow> in_get pc"
        "p_queue s' = p_queue s"
      using go s by (cases "p_workers s ! m") (auto simp: idle_pool_def split: if_splits)
    then show ?thesis using mono [of s' pc] s by (simp add: idle_pool_def)
  qed
qed

lemma idle_step:
  assumes s: "idle_pool s" and go: "act_step (act_of a) s = Go s'"
  shows "idle_pool s' \<and> inside s \<le> inside s' \<and> p_clients s' = p_clients s \<and> p_quit s' = p_quit s"
proof -
  have inv: "pool_inv s" "pool_inv s'" using s act_step_inv(2) [OF _ go] by (simp_all add: idle_pool_def)
  show ?thesis
  proof (cases a)
    case (Runs m)
    then have m: "m < length (p_workers s)" "worker_step m (p_workers s ! m) s = Go s'" using go by (auto split: if_splits)
    show ?thesis using worker_step_frame [OF inv(1) m(2)] idle_worker [OF s m] inv(2) s by (auto simp: idle_pool_def)
  next
    case (Wakes m)
    then have m: "m < length (p_workers s)" "p_workers s ! m = WWait" "s' = goto m WWoken s" using go by (auto split: if_splits)
    show ?thesis using inside_update [OF m(1), of s' WWoken] m(2,3) inv(2) s by (simp add: idle_pool_def)
  qed
qed

lemma idle_run:
  "idle_pool s \<Longrightarrow> run_acts (map act_of as) s = Go s' \<Longrightarrow>
   idle_pool s' \<and> inside s \<le> inside s' \<and> p_clients s' = p_clients s \<and> p_quit s' = p_quit s"
proof (induction as arbitrary: s)
  case (Cons a as)
  from Cons.prems(2) obtain s1 where s1: "act_step (act_of a) s = Go s1" "run_acts (map act_of as) s1 = Go s'"
    by (auto split: outcome.splits)
  note step = idle_step [OF Cons.prems(1) s1(1)]
  then show ?case using Cons.IH [OF _ s1(2)] by auto
qed simp

lemma idle_start: "idle_pool (pool_start i 1 [])"
  using pool_start_inv [of i 1 "[]"] by (simp add: idle_pool_def pool_start_def taskqueue_init_def tq_jobs_def rd_obj_def)

lemma run_acts_split:
  "run_acts (as @ bs) s = Go s' \<longleftrightarrow> (\<exists>s1. run_acts as s = Go s1 \<and> run_acts bs s1 = Go s')"
  by (auto simp: run_acts_append split: outcome.splits)

text \<open>Two threads inside when the rollback begins: one of them at least never leaves.\<close>

lemma terminate_hangs:
  assumes up: "run_acts (map act_of (sched_up e)) (pool_start i 1 []) = Go s" and two: "2 \<le> inside s"
  shows "threads_terminate e i = None"
proof (cases "run_acts (terminate_acts e) (pool_start i 1 [])")
  case (Go s')
  note idle = idle_run [OF idle_start up]
  have clients: "p_clients s = [CIdle]" using idle by (simp add: pool_start_def)
  let ?b = "map act_of (sched_block e) @ Client 0 0 # map act_of (sched_join e)"
  have "run_acts (map act_of (sched_quit e) @ Client 0 0 # ?b) (cgoto 0 CNonblock (s\<lparr>p_quit := 1\<rparr>)) = Go s'"
    using Go up clients by (simp add: terminate_acts_def run_acts_append del: map_append)
  then obtain s3 where run: "run_acts (map act_of (sched_quit e)) (cgoto 0 CNonblock (s\<lparr>p_quit := 1\<rparr>)) = Go s3"
      "run_acts (Client 0 0 # ?b) s3 = Go s'" unfolding run_acts_split by blast
  from run(2) obtain s4 where run2: "act_step (Client 0 0) s3 = Go s4" "run_acts ?b s4 = Go s'"
    by (cases "act_step (Client 0 0) s3") simp_all
  have "idle_pool (cgoto 0 CNonblock (s\<lparr>p_quit := 1\<rparr>))" "inside (cgoto 0 CNonblock (s\<lparr>p_quit := 1\<rparr>)) = inside s"
    using idle by (simp_all add: idle_pool_def inside_def)
  then have s3: "idle_pool s3" "2 \<le> inside s3" "p_clients s3 = [CNonblock]" "p_quit s3 = 1"
    using idle_run [OF _ run(1)] two clients by auto
  then have s4: "s4 = cgoto 0 CBroadcast (s3\<lparr>p_queue := (p_queue s3)\<lparr>tq := (tq (p_queue s3))\<lparr>q_block := 0\<rparr>\<rparr>\<rparr>)"
    using run2(1) by simp
  have "pool_inv s4" using act_step_inv(2) [OF _ run2(1)] s3(1) by (simp add: idle_pool_def)
  moreover have "closed s4" "stranded s4"
    using s3 by (simp_all add: s4 closed_def stranded_def inside_def idle_pool_def)
  ultimately have "stranded s'" using closed_run run2(2) by blast
  then have "thread_pool_waitdone s' = Blocked" by (rule stranded_not_done)
  then show ?thesis using Go by (auto simp: threads_terminate_def thread_pool_waitdone_def split: if_splits option.splits)
qed (simp_all add: threads_terminate_def)

text \<open>Threads that start after \<open>quit\<close> is stored leave at once.\<close>

lemma late_starters:
  "p_quit s = 1 \<Longrightarrow> p_workers s = replicate a WExit @ replicate b WLoop \<Longrightarrow>
   run_acts (map act_of (map Runs [a..<a + b])) s = Go (s\<lparr>p_workers := replicate (a + b) WExit\<rparr>)"
proof (induction b arbitrary: a s)
  case (Suc b)
  have "(replicate a WExit @ replicate (Suc b) WLoop)[a := WExit] = replicate (Suc a) WExit @ replicate b WLoop"
    by (simp add: list_update_append replicate_append_same)
  then show ?case
    using Suc.IH [of "goto a WExit s" "Suc a"] Suc.prems
    by (simp add: nth_append goto_def upt_rec [of a "Suc (a + b)"] del: upt_Suc)
qed simp

lemma terminate_returns:
  assumes "sched_up e = []" "sched_quit e = map Runs [0..<i]" "sched_block e = []" "sched_join e = []"
  shows "\<exists>rel. threads_terminate e i = Some (rel, None)"
proof -
  let ?s = "cgoto 0 CNonblock (pool_start i 1 []\<lparr>p_quit := 1\<rparr>)"
  have "run_acts (map act_of (map Runs [0..<0 + i])) ?s = Go (?s\<lparr>p_workers := replicate (0 + i) WExit\<rparr>)"
    by (rule late_starters) (simp_all add: pool_start_def)
  then have "run_acts (terminate_acts e) (pool_start i 1 []) =
      run_acts [Client 0 0, Client 0 0] (?s\<lparr>p_workers := replicate i WExit\<rparr>)"
    using assms by (simp add: terminate_acts_def run_acts_append pool_start_def)
  then show ?thesis
    by (simp add: threads_terminate_def pool_start_def cgoto_def wake_all_def)
qed

section \<open>Properties\<close>

text \<open>
  C19: \<open>thread_pool_create\<close> under every outcome of the calls it makes and every schedule of the threads it has
  created.  When it returns with success the pool holds the two blocks, the three synchronisation objects and
  one thread per unit of the count.  When it returns with failure nothing is held any more, except the thread attribute when
  the array of threads could not be allocated; and the one release of something that was never set up is
  that of the spin lock whose initialisation failed.  It returns unless a thread cannot be created after
  others were: then it returns if those have not run yet, and it never returns, whatever they do later,
  if two of them are inside \<open>__get_task\<close>.
\<close>

theorem thread_pool_create_rollback:
  "(\<forall>evs ok. thread_pool_create e n = Some (evs, ok) \<longrightarrow> settle evs ({}, []) =
     (if ok
      then (queue_res \<union> {RThreads} \<union> RThread ` {..<unat (word_of_int n :: 64 word)}, [])
      else (if malloc_pool e \<and> snd (taskqueue_create e) \<and> attr_init e = 0 \<and>
              \<not> malloc_threads e (8 * word_of_int n) then {RAttr} else {},
            if malloc_pool e \<and> malloc_queue e \<and> mutex_init e = 0 \<and> cond_init e = 0 \<and> spin_init e \<noteq> 0
            then [RSpin] else []))) \<and>
   (\<not> rolls_back e n \<longrightarrow> thread_pool_create e n \<noteq> None) \<and>
   (sched_up e = [] \<and> sched_quit e = map Runs [0..<created e n] \<and> sched_block e = [] \<and> sched_join e = [] \<longrightarrow>
      thread_pool_create e n \<noteq> None) \<and>
   (\<forall>s. rolls_back e n \<and> run_acts (map act_of (sched_up e)) (pool_start (created e n) 1 []) = Go s \<and> 2 \<le> inside s \<longrightarrow>
      thread_pool_create e n = None)"
  using settle_create [of e n] create_returns [of e n] terminate_returns [of e "created e n"]
    terminate_hangs [of e "created e n"] by auto

text \<open>Three threads are asked for and the third is refused: with two that sleep, and with two that have not run.\<close>

definition refused_third :: tp_env where
  "refused_third =
     \<lparr>malloc_pool = True, malloc_queue = True, mutex_init = 0, cond_init = 0, spin_init = 0, attr_init = 0,
      malloc_threads = (\<lambda>_. True), pthread_create = (\<lambda>i. if i < 2 then 0 else 11),
      sched_up = [], sched_quit = [Runs 0, Runs 1], sched_block = [], sched_join = []\<rparr>"

theorem thread_pool_create_rollback_witness:
  "thread_pool_create (refused_third\<lparr>sched_up := replicate 5 (Runs 0) @ replicate 5 (Runs 1), sched_quit := []\<rparr>) 3 = None \<and>
   (\<exists>evs. thread_pool_create refused_third 3 = Some (evs, False) \<and> settle evs ({}, []) = ({}, []))"
proof
  let ?e = "refused_third\<lparr>sched_up := replicate 5 (Runs 0) @ replicate 5 (Runs 1), sched_quit := []\<rparr>"
  have three: "create_loop (\<lambda>i. if i < 2 then 0 else 11) 0 3 = 2" by (simp add: eval_nat_numeral)
  have c: "created refused_third 3 = 2" "created ?e 3 = 2" "rolls_back refused_third 3" "rolls_back ?e 3"
    by (simp_all add: created_def rolls_back_def refused_third_def taskqueue_create_def three)
  have "\<exists>s. run_acts (map act_of (sched_up ?e)) (pool_start 2 1 []) = Go s \<and> 2 \<le> inside s"
    by (simp add: pool_exec numeral_eq_Suc inside_def refused_third_def)
  then show "thread_pool_create ?e 3 = None"
    using thread_pool_create_rollback [of ?e 3] c by (metis (no_types))
  have "thread_pool_create refused_third 3 \<noteq> None"
    using thread_pool_create_rollback [of refused_third 3] c(1) by (simp add: refused_third_def numeral_2_eq_2)
  then obtain evs ok where r: "thread_pool_create refused_third 3 = Some (evs, ok)" by auto
  have "\<not> ok" using r c(3)
    by (auto simp: thread_pool_create_def threads_create_def rolls_back_def created_def Let_def split: if_splits Option.bind_splits prod.splits)
  then show "\<exists>evs. thread_pool_create refused_third 3 = Some (evs, False) \<and> settle evs ({}, []) = ({}, [])"
    using thread_pool_create_rollback [of refused_third 3] r by (auto simp: refused_third_def)
qed

end
