(* ===== verification/KV_Array.thy ===== *)
theory KV_Array
  imports KV_Engine
begin

text \<open>
  The array engine (kvstore_array.c): a table of 1024 slots, each a pair of pointers to a key
  and a value string, of which the first \<open>array_index\<close> are in use.

  An \<open>array_t *\<close> is an option value: \<open>None\<close> is the NULL pointer, which most operations
  test for.  A \<open>char *\<close> parameter is an optional string (\<open>None\<close> is NULL); the pointers
  inside the table are addresses in the heap, so that a freed or missing string shows up as a
  read of an unallocated cell.
\<close>

section \<open>State\<close>

record kvs_array_item =
  item_key :: addr
  item_value :: addr

record array_t =
  array_table :: addr
  array_index :: nat

record array_st =
  ah :: "kvs_array_item list heap"
  arr :: array_t

definition KVS_ARRAY_SIZE :: nat where "KVS_ARRAY_SIZE = 1024"

definition null_item :: kvs_array_item where
  "null_item = \<lparr>item_key = NULL, item_value = NULL\<rparr>"

text \<open>Access to a slot of the table: the table must be allocated and the index in range.\<close>

definition get_slot :: "array_st \<Rightarrow> nat \<Rightarrow> kvs_array_item option" where
  "get_slot a i = do {
     tab \<leftarrow> rd_obj (ah a) (array_table (arr a));
     if i < length tab then Some (tab ! i) else None }"

definition set_slot :: "nat \<Rightarrow> kvs_array_item \<Rightarrow> array_st \<Rightarrow> array_st option" where
  "set_slot i it a = do {
     tab \<leftarrow> rd_obj (ah a) (array_table (arr a));
     if i < length tab
     then do { h \<leftarrow> wr_obj (array_table (arr a)) (tab[i := it]) (ah a); Some (a\<lparr>ah := h\<rparr>) }
     else None }"

section \<open>Operations\<close>

text \<open>
  \<open>array_create\<close> allocates and zeroes the table; a failed allocation leaves a NULL table.
\<close>

definition array_create :: "array_st option \<Rightarrow> array_st option \<times> int" where
  "array_create p =
     (case p of
        None \<Rightarrow> (None, -1)
      | Some a \<Rightarrow>
          (let (h, t) = kvstore_malloc (CObj (replicate KVS_ARRAY_SIZE null_item)) (ah a);
               a = a\<lparr>ah := h, arr := (arr a)\<lparr>array_table := t\<rparr>\<rparr>
           in if t \<noteq> NULL
              then (Some (a\<lparr>arr := (arr a)\<lparr>array_index := 0\<rparr>\<rparr>), 0)
              else (Some a, -1)))"

text \<open>\<open>array_destroy\<close>: the code frees the table only when the pointer is NULL.\<close>

definition array_destroy :: "array_st option \<Rightarrow> array_st option option" where
  "array_destroy p =
     (case p of
        None \<Rightarrow> Some None
      | Some a \<Rightarrow>
          if array_table (arr a) = NULL
          then do { h \<leftarrow> kvstore_free (array_table (arr a)) (ah a); Some (Some (a\<lparr>ah := h\<rparr>)) }
          else Some (Some a))"

function array_exist_loop :: "array_st \<Rightarrow> string option \<Rightarrow> nat \<Rightarrow> int option" where
  "array_exist_loop a key i =
     (if i < array_index (arr a)
      then do {
        it \<leftarrow> get_slot a i;
        k \<leftarrow> rd_str (ah a) (item_key it);
        key' \<leftarrow> key;
        if strcmp k key' = 0 then Some (int i) else array_exist_loop a key (Suc i) }
      else Some (-1))"
  by pat_completeness auto
termination
  by (relation "measure (\<lambda>(a, key, i). array_index (arr a) - i)") auto

definition array_exist :: "array_st option \<Rightarrow> string option \<Rightarrow> int option" where
  "array_exist p key =
     (case p of None \<Rightarrow> Some (-1) | Some a \<Rightarrow> array_exist_loop a key 0)"

definition array_mod :: "array_st option \<Rightarrow> string option \<Rightarrow> string \<Rightarrow> (array_st option \<times> int) option" where
  "array_mod p key newValue =
     (if key = None \<or> p = None then Some (p, -1)
      else do {
        i \<leftarrow> array_exist p key;
        if i = -1 then Some (p, 1)
        else do {
          a \<leftarrow> p;
          it \<leftarrow> get_slot a (nat i);
          let tmp = item_value it;
          let (h, vcopy) = kvstore_malloc (CStr newValue) (ah a);
          let a = a\<lparr>ah := h\<rparr>;
          if vcopy = NULL then Some (Some a, -1)
          else do {
            a \<leftarrow> set_slot (nat i) (it\<lparr>item_value := vcopy\<rparr>) a;
            h \<leftarrow> kvstore_free tmp (ah a);
            Some (Some (a\<lparr>ah := h\<rparr>), 0) } } })"

definition array_set ::
  "array_st option \<Rightarrow> string option \<Rightarrow> string option \<Rightarrow> (array_st option \<times> int) option" where
  "array_set p key value =
     (case (p, key, value) of
        (Some a, Some k, Some v) \<Rightarrow>
          if array_index (arr a) = KVS_ARRAY_SIZE then Some (p, -1)
          else do {
            e \<leftarrow> array_exist p key;
            if e \<noteq> -1
            then do { (p, _) \<leftarrow> array_mod p key v; Some (p, 0) }
            else do {
              let (h, kcopy) = kvstore_malloc (CStr k) (ah a);
              let a = a\<lparr>ah := h\<rparr>;
              if kcopy = NULL then Some (Some a, -1)
              else do {
                let (h, vcopy) = kvstore_malloc (CStr v) (ah a);
                let a = a\<lparr>ah := h\<rparr>;
                if vcopy = NULL
                then do { h \<leftarrow> kvstore_free kcopy (ah a); Some (Some (a\<lparr>ah := h\<rparr>), -1) }
                else do {
                  a \<leftarrow> set_slot (array_index (arr a)) \<lparr>item_key = kcopy, item_value = vcopy\<rparr> a;
                  Some (Some (a\<lparr>arr := (arr a)\<lparr>array_index := Suc (array_index (arr a))\<rparr>\<rparr>), 0) }
              } } }
      | _ \<Rightarrow> Some (p, -1))"

text \<open>\<open>array_get\<close> returns a pointer to the stored value, or NULL.\<close>

definition array_get :: "array_st option \<Rightarrow> string option \<Rightarrow> addr option" where
  "array_get p key =
     (if p = None \<or> key = None then Some NULL
      else do {
        i \<leftarrow> array_exist p key;
        if i = -1 then Some NULL
        else do { a \<leftarrow> p; it \<leftarrow> get_slot a (nat i); Some (item_value it) } })"

text \<open>The loop that moves the later slots one place down; \<open>n\<close> is \<open>array_index\<close>.\<close>

function array_shift :: "nat \<Rightarrow> nat \<Rightarrow> array_st \<Rightarrow> array_st option" where
  "array_shift j n a =
     (if j < n - 1
      then do {
        it \<leftarrow> get_slot a (j + 1);
        a \<leftarrow> set_slot j it a;
        array_shift (j + 1) n a }
      else Some a)"
  by pat_completeness auto
termination
  by (relation "measure (\<lambda>(j, n, a). n - j)") auto

definition array_del :: "array_st option \<Rightarrow> string option \<Rightarrow> (array_st option \<times> int) option" where
  "array_del p key =
     (if key = None then Some (p, -1)
      else do {
        i \<leftarrow> array_exist p key;
        if i = -1 then Some (p, -1)
        else do {
          a \<leftarrow> p;
          it \<leftarrow> get_slot a (nat i);
          h \<leftarrow> kvstore_free (item_key it) (ah a);
          h \<leftarrow> kvstore_free (item_value it) h;
          let a = a\<lparr>ah := h\<rparr>;
          a \<leftarrow> set_slot (nat i) null_item a;
          a \<leftarrow> array_shift (nat i) (array_index (arr a)) a;
          Some (Some (a\<lparr>arr := (arr a)\<lparr>array_index := array_index (arr a) - 1\<rparr>\<rparr>), 0) } })"

definition array_count :: "array_st option \<Rightarrow> int option" where
  "array_count p = do { a \<leftarrow> p; Some (int (array_index (arr a))) }"

declare array_exist_loop.simps [simp del] array_shift.simps [simp del]

section \<open>Representation and invariant\<close>

text \<open>
  \<open>array_rep a live rest kvs\<close>: the table of \<open>a\<close> consists of the slots \<open>live\<close> in use and the
  slots \<open>rest\<close> beyond \<open>array_index\<close>; the live slots point to pairwise distinct allocated
  strings that spell the association list \<open>kvs\<close>, whose keys are distinct; and nothing but the
  table and these strings is allocated (no leak).
\<close>

definition slot_ok :: "kvs_array_item list heap \<Rightarrow> kvs_array_item \<Rightarrow> string \<times> string \<Rightarrow> bool" where
  "slot_ok h it kv \<longleftrightarrow>
     cells h (item_key it) = Some (CStr (fst kv)) \<and> cells h (item_value it) = Some (CStr (snd kv))"

fun item_ptrs :: "kvs_array_item list \<Rightarrow> addr list" where
  "item_ptrs [] = []"
| "item_ptrs (it # its) = item_key it # item_value it # item_ptrs its"

definition array_rep ::
  "array_st \<Rightarrow> kvs_array_item list \<Rightarrow> kvs_array_item list \<Rightarrow> (string \<times> string) list \<Rightarrow> bool" where
  "array_rep a live rest kvs \<longleftrightarrow>
     heap_ok (ah a) \<and>
     cells (ah a) (array_table (arr a)) = Some (CObj (live @ rest)) \<and>
     length (live @ rest) = KVS_ARRAY_SIZE \<and>
     array_index (arr a) = length live \<and>
     list_all2 (slot_ok (ah a)) live kvs \<and>
     distinct (item_ptrs live) \<and>
     dom (cells (ah a)) = insert (array_table (arr a)) (set (item_ptrs live)) \<and>
     distinct (map fst kvs)"

text \<open>The association list the table stands for, and the map the engine implements.\<close>

definition array_live :: "array_st \<Rightarrow> kvs_array_item list" where
  "array_live a =
     (case rd_obj (ah a) (array_table (arr a)) of
        None \<Rightarrow> [] | Some tab \<Rightarrow> take (array_index (arr a)) tab)"

definition array_entries :: "array_st \<Rightarrow> (string \<times> string) list" where
  "array_entries a =
     map (\<lambda>it. (the (rd_str (ah a) (item_key it)), the (rd_str (ah a) (item_value it)))) (array_live a)"

definition array_map :: "array_st \<Rightarrow> string \<Rightarrow> string option" where
  "array_map a = map_of (array_entries a)"

definition array_wf :: "array_st \<Rightarrow> bool" where
  "array_wf a \<longleftrightarrow> (\<exists>live rest kvs. array_rep a live rest kvs)"

text \<open>The invariant for a run in which no allocation fails.\<close>

definition array_inv :: "array_st \<Rightarrow> bool" where
  "array_inv a \<longleftrightarrow> oom (ah a) = [] \<and> array_wf a"

lemma item_ptrs_append [simp]: "item_ptrs (xs @ ys) = item_ptrs xs @ item_ptrs ys"
  by (induction xs) auto

lemma slots_frame:
  "list_all2 (slot_ok h) live kvs \<Longrightarrow> (\<And>p. p \<in> set (item_ptrs live) \<Longrightarrow> cells h' p = cells h p) \<Longrightarrow>
   list_all2 (slot_ok h') live kvs"
  by (induction live kvs rule: list_all2_induct) (auto simp: slot_ok_def)

lemma slots_ptr_str:
  "list_all2 (slot_ok h) live kvs \<Longrightarrow> p \<in> set (item_ptrs live) \<Longrightarrow> \<exists>s. cells h p = Some (CStr s)"
  by (induction live kvs rule: list_all2_induct) (auto simp: slot_ok_def)

lemma slots_map:
  "list_all2 (slot_ok h) live kvs \<Longrightarrow>
   map (\<lambda>it. (the (rd_str h (item_key it)), the (rd_str h (item_value it)))) live = kvs"
  by (induction live kvs rule: list_all2_induct) (auto simp: slot_ok_def rd_str_def)

lemma array_rep_table_notin:
  "array_rep a live rest kvs \<Longrightarrow> array_table (arr a) \<notin> set (item_ptrs live)"
  unfolding array_rep_def by (metis cell.distinct(1) option.inject slots_ptr_str)

lemma array_rep_entries: "array_rep a live rest kvs \<Longrightarrow> array_entries a = kvs"
  by (auto simp: array_rep_def array_entries_def array_live_def rd_obj_def slots_map)

lemma array_rep_map: "array_rep a live rest kvs \<Longrightarrow> array_map a = map_of kvs"
  by (simp add: array_map_def array_rep_entries)

lemma array_rep_length: "array_rep a live rest kvs \<Longrightarrow> length kvs = length live"
  by (auto simp: array_rep_def dest: list_all2_lengthD)

lemma array_rep_slot:
  assumes "array_rep a live rest kvs" "i < length live"
  shows "get_slot a i = Some (live ! i)"
    and "cells (ah a) (item_key (live ! i)) = Some (CStr (fst (kvs ! i)))"
    and "cells (ah a) (item_value (live ! i)) = Some (CStr (snd (kvs ! i)))"
  using assms by (auto simp: array_rep_def get_slot_def rd_obj_def nth_append list_all2_conv_all_nth slot_ok_def)

section \<open>Search\<close>

lemma array_exist_loop_spec:
  assumes rep: "array_rep a live rest kvs"
  shows "\<exists>r. array_exist_loop a (Some k) i = Some r \<and>
     (r = -1 \<and> (\<forall>j. i \<le> j \<and> j < length kvs \<longrightarrow> fst (kvs ! j) \<noteq> k) \<or>
      (\<exists>j. r = int j \<and> j < length kvs \<and> fst (kvs ! j) = k))"
proof (induction "length live - i" arbitrary: i rule: less_induct)
  case less
  note len = array_rep_length [OF rep]
  have idx: "array_index (arr a) = length live" using rep by (simp add: array_rep_def)
  show ?case
  proof (cases "i < length live")
    case False
    then show ?thesis by (subst array_exist_loop.simps) (auto simp: idx len)
  next
    case True
    note slot = array_rep_slot [OF rep True]
    show ?thesis
    proof (cases "fst (kvs ! i) = k")
      case eq: True
      then show ?thesis
        using True slot len by (subst array_exist_loop.simps) (auto simp: idx rd_str_def)
    next
      case neq: False
      with True slot have step: "array_exist_loop a (Some k) i = array_exist_loop a (Some k) (Suc i)"
        by (subst array_exist_loop.simps) (simp add: idx rd_str_def)
      from True have "length live - Suc i < length live - i" by arith
      from less.hyps [OF this] neq show ?thesis
        unfolding step by (metis Suc_leI le_neq_implies_less)
    qed
  qed
qed

text \<open>
  \<open>array_exist\<close> returns -1 exactly for an absent key, and otherwise the index of its slot.
\<close>

lemma array_exist_cases:
  assumes rep: "array_rep a live rest kvs"
  obtains (absent) "array_exist (Some a) (Some k) = Some (-1)" "map_of kvs k = None"
  | (found) j where "array_exist (Some a) (Some k) = Some (int j)" "j < length live"
      "fst (kvs ! j) = k" "map_of kvs k = Some (snd (kvs ! j))"
proof -
  obtain r where r: "array_exist_loop a (Some k) 0 = Some r"
    and *: "r = -1 \<and> (\<forall>j. 0 \<le> j \<and> j < length kvs \<longrightarrow> fst (kvs ! j) \<noteq> k) \<or>
      (\<exists>j. r = int j \<and> j < length kvs \<and> fst (kvs ! j) = k)"
    using array_exist_loop_spec [OF rep, of k 0] by (elim exE conjE)
  have d: "distinct (map fst kvs)" using rep by (simp add: array_rep_def)
  from * show thesis
  proof
    assume "r = -1 \<and> (\<forall>j. 0 \<le> j \<and> j < length kvs \<longrightarrow> fst (kvs ! j) \<noteq> k)"
    then have "map_of kvs k = None" and "r = -1"
      by (force simp: map_of_eq_None_iff in_set_conv_nth)+
    with r show thesis by (intro absent) (simp_all add: array_exist_def)
  next
    assume "\<exists>j. r = int j \<and> j < length kvs \<and> fst (kvs ! j) = k"
    then obtain j where j: "r = int j" "j < length kvs" "fst (kvs ! j) = k" by blast
    show thesis
    proof (rule found)
      show "array_exist (Some a) (Some k) = Some (int j)" using r j by (simp add: array_exist_def)
      show "j < length live" using j array_rep_length [OF rep] by simp
      show "map_of kvs k = Some (snd (kvs ! j))" using map_of_distinct_Some [OF d j(2)] j by simp
    qed (rule j)
  qed
qed

lemma array_exist_spec:
  assumes "array_inv a"
  shows "\<exists>r. array_exist (Some a) (Some k) = Some r \<and> (0 \<le> r \<longleftrightarrow> k \<in> dom (array_map a))"
proof -
  from assms obtain live rest kvs where rep: "array_rep a live rest kvs"
    by (auto simp: array_inv_def array_wf_def)
  show ?thesis
    by (cases rule: array_exist_cases [OF rep, of k]) (auto simp: array_rep_map [OF rep])
qed

lemma array_get_spec:
  assumes "array_inv a"
  shows "\<exists>p. array_get (Some a) (Some k) = Some p \<and>
    (case array_map a k of None \<Rightarrow> p = NULL | Some v \<Rightarrow> p \<noteq> NULL \<and> rd_str (ah a) p = Some v)"
proof -
  from assms obtain live rest kvs where rep: "array_rep a live rest kvs"
    by (auto simp: array_inv_def array_wf_def)
  then have ok: "heap_ok (ah a)" by (simp add: array_rep_def)
  from rep show ?thesis
  proof (cases rule: array_exist_cases [where k = k])
    case absent
    then show ?thesis by (simp add: array_get_def array_rep_map [OF rep])
  next
    case (found j)
    with array_rep_slot [OF rep found(2)] heap_ok_not_null [OF ok] show ?thesis
      by (simp add: array_get_def array_rep_map [OF rep] rd_str_def)
  qed
qed

section \<open>Update and insertion\<close>

lemma set_slot_rep:
  assumes "cells (ah a) (array_table (arr a)) = Some (CObj tab)" "i < length tab"
  shows "set_slot i it a =
    Some (a\<lparr>ah := (ah a)\<lparr>cells := (cells (ah a))(array_table (arr a) \<mapsto> CObj (tab[i := it]))\<rparr>\<rparr>)"
  using assms by (simp add: set_slot_def rd_obj_def wr_obj_def)

text \<open>A key that is present gets a fresh copy of the new value, and the old copy is freed.\<close>

lemma array_mid:
  assumes rep: "array_rep a (l1 @ it # l2) rest (k1 @ (k, v0) # k2)" and len: "length k1 = length l1"
  shows "heap_ok (ah a)" "cells (ah a) (array_table (arr a)) = Some (CObj ((l1 @ it # l2) @ rest))"
    "distinct (item_ptrs (l1 @ it # l2))" "dom (cells (ah a)) = insert (array_table (arr a)) (set (item_ptrs (l1 @ it # l2)))"
    "list_all2 (slot_ok (ah a)) l1 k1" "list_all2 (slot_ok (ah a)) l2 k2" "slot_ok (ah a) it (k, v0)"
    "array_table (arr a) \<notin> set (item_ptrs (l1 @ it # l2))" "array_index (arr a) = length (l1 @ it # l2)"
    "list_all2 (slot_ok (ah a)) (l1 @ it # l2) (k1 @ (k, v0) # k2)"
proof -
  from rep show "heap_ok (ah a)" and tab: "cells (ah a) (array_table (arr a)) = Some (CObj ((l1 @ it # l2) @ rest))"
    and "distinct (item_ptrs (l1 @ it # l2))" and "dom (cells (ah a)) = insert (array_table (arr a)) (set (item_ptrs (l1 @ it # l2)))"
    and "array_index (arr a) = length (l1 @ it # l2)" and sl: "list_all2 (slot_ok (ah a)) (l1 @ it # l2) (k1 @ (k, v0) # k2)"
    by (auto simp: array_rep_def)
  from sl len show "list_all2 (slot_ok (ah a)) l1 k1" "list_all2 (slot_ok (ah a)) l2 k2" "slot_ok (ah a) it (k, v0)"
    by (auto simp: list_all2_append)
  show "array_table (arr a) \<notin> set (item_ptrs (l1 @ it # l2))" using slots_ptr_str [OF sl] tab by fastforce
qed

lemma array_mod_rep:
  assumes rep: "array_rep a (l1 @ it # l2) rest (k1 @ (k, v0) # k2)"
    and len: "length k1 = length l1" and oom: "oom (ah a) = []"
    and ex: "array_exist (Some a) (Some k) = Some (int (length l1))"
  shows "\<exists>a'. array_mod (Some a) (Some k) v = Some (Some a', 0) \<and> oom (ah a') = [] \<and>
    array_rep a' (l1 @ it\<lparr>item_value := brk (ah a)\<rparr> # l2) rest (k1 @ (k, v) # k2)"
proof -
  let ?t = "array_table (arr a)" and ?b = "brk (ah a)" and ?C = "cells (ah a)"
  let ?it = "it\<lparr>item_value := ?b\<rparr>" and ?old = "item_value it"
  let ?live = "l1 @ it # l2"
  note M = array_mid [OF rep len]
  note ok = M(1) and tab = M(2) and ds = M(3) and dm = M(4) and s1 = M(5) and s2 = M(6) and si = M(7) and sl = M(10)
  have "?C ?b = None" using ok by simp
  then have bt: "?b \<noteq> ?t" "?b \<noteq> NULL" "?C ?b = None" "?t \<noteq> NULL" "?old \<noteq> NULL"
    using ok tab si heap_ok_below_brk [OF ok tab]
    by (auto simp: slot_ok_def dest: heap_ok_not_null)
  have ptrs: "?b \<notin> set (item_ptrs ?live)" "?t \<notin> set (item_ptrs ?live)"
    using slots_ptr_str [OF sl] bt(3) tab by fastforce+
  let ?h = "(ah a)\<lparr>cells := (?C(?b \<mapsto> CStr v, ?t \<mapsto> CObj (l1 @ ?it # l2 @ rest)))(?old := None),
              brk := Suc ?b, oom := []\<rparr>"
  let ?a = "a\<lparr>ah := ?h\<rparr>"
  have run: "array_mod (Some a) (Some k) v = Some (Some ?a, 0)"
    using ex array_rep_slot(1) [OF rep, of "length l1"] tab bt ptrs si oom
    by (simp add: array_mod_def set_slot_rep kvstore_free_def slot_ok_def list_update_append)
  have "heap_ok ?h"
    using ok bt heap_ok_below_brk [OF ok tab] heap_ok_not_null [OF ok tab]
    by (auto simp: heap_ok_def)
  moreover have "list_all2 (slot_ok ?h) (l1 @ ?it # l2) (k1 @ (k, v) # k2)"
  proof -
    have "list_all2 (slot_ok ?h) l1 k1" "list_all2 (slot_ok ?h) l2 k2"
      using ptrs ds by (auto intro!: slots_frame [OF s1] slots_frame [OF s2])
    moreover have "slot_ok ?h ?it (k, v)"
      using si ptrs ds bt by (auto simp: slot_ok_def)
    ultimately show ?thesis by (auto intro: list_all2_appendI)
  qed
  moreover have "dom (cells ?h) = insert ?t (set (item_ptrs (l1 @ ?it # l2)))"
    using dm ptrs ds by auto
  moreover have "distinct (item_ptrs (l1 @ ?it # l2))" using ds ptrs(1) by auto
  ultimately have "array_rep ?a (l1 @ ?it # l2) rest (k1 @ (k, v) # k2)"
    using rep bt(1,5) ptrs(2) unfolding array_rep_def by simp
  with run show ?thesis by auto
qed

text \<open>A key that is absent is appended, with fresh copies of key and value.\<close>

lemma array_append_rep:
  assumes rep: "array_rep a live (r # rest) kvs" and oom: "oom (ah a) = []"
    and ex: "array_exist (Some a) (Some k) = Some (-1)" and new: "map_of kvs k = None"
  shows "\<exists>a'. array_set (Some a) (Some k) (Some v) = Some (Some a', 0) \<and> oom (ah a') = [] \<and>
    array_rep a' (live @ [\<lparr>item_key = brk (ah a), item_value = Suc (brk (ah a))\<rparr>]) rest (kvs @ [(k, v)])"
proof -
  let ?t = "array_table (arr a)" and ?b = "brk (ah a)" and ?C = "cells (ah a)"
  let ?it = "\<lparr>item_key = ?b, item_value = Suc ?b\<rparr>"
  from rep have ok: "heap_ok (ah a)" and tab: "?C ?t = Some (CObj (live @ r # rest))"
    and ds: "distinct (item_ptrs live)" and idx: "array_index (arr a) = length live"
    and sl: "list_all2 (slot_ok (ah a)) live kvs" and lt: "length live < KVS_ARRAY_SIZE"
    and dm: "dom ?C = insert ?t (set (item_ptrs live))"
    by (auto simp: array_rep_def)
  have fresh: "?C ?b = None" "?C (Suc ?b) = None" using ok by (auto simp: heap_ok_def)
  then have bt: "?b \<noteq> ?t" "Suc ?b \<noteq> ?t" "?b \<noteq> NULL" "?b \<noteq> Suc ?b"
    using ok tab heap_ok_below_brk [OF ok tab] by auto
  have ptrs: "?b \<notin> set (item_ptrs live)" "Suc ?b \<notin> set (item_ptrs live)" "?t \<notin> set (item_ptrs live)"
    using slots_ptr_str [OF sl] fresh tab by fastforce+
  let ?h = "(ah a)\<lparr>cells := ?C(?b \<mapsto> CStr k, Suc ?b \<mapsto> CStr v, ?t \<mapsto> CObj (live @ ?it # rest)),
              brk := Suc (Suc ?b), oom := []\<rparr>"
  let ?a = "a\<lparr>ah := ?h, arr := (arr a)\<lparr>array_index := Suc (length live)\<rparr>\<rparr>"
  have run: "array_set (Some a) (Some k) (Some v) = Some (Some ?a, 0)"
    using ex tab bt idx lt oom
    by (simp add: array_set_def set_slot_rep list_update_append)
  have "heap_ok ?h"
    using ok bt heap_ok_below_brk [OF ok tab] heap_ok_not_null [OF ok tab]
    by (auto simp: heap_ok_def)
  moreover have "list_all2 (slot_ok ?h) (live @ [?it]) (kvs @ [(k, v)])"
  proof -
    have "list_all2 (slot_ok ?h) live kvs"
      using ptrs by (auto intro!: slots_frame [OF sl])
    moreover have "slot_ok ?h ?it (k, v)"
      using bt by (simp add: slot_ok_def)
    ultimately show ?thesis by (auto intro: list_all2_appendI)
  qed
  moreover have "dom (cells ?h) = insert ?t (set (item_ptrs (live @ [?it])))"
    using dm by auto
  ultimately have "array_rep ?a (live @ [?it]) rest (kvs @ [(k, v)])"
    using rep ds ptrs bt new by (auto simp: array_rep_def map_of_eq_None_iff)
  with run oom show ?thesis by auto
qed

text \<open>
  \<open>array_set\<close>: a full table refuses every key, also one it holds; otherwise the map is
  updated.
\<close>

definition array_full :: "array_st \<Rightarrow> bool" where
  "array_full a \<longleftrightarrow> array_index (arr a) = KVS_ARRAY_SIZE"

lemma array_set_full:
  "array_full a \<Longrightarrow> array_set (Some a) (Some k) (Some v) = Some (Some a, -1)"
  by (simp add: array_set_def array_full_def)

lemma array_set_ok:
  assumes inv: "array_inv a" and nf: "\<not> array_full a"
  shows "\<exists>a'. array_set (Some a) (Some k) (Some v) = Some (Some a', 0) \<and> array_inv a' \<and>
    array_map a' = (array_map a)(k \<mapsto> v)"
proof -
  from inv obtain live rest kvs where rep: "array_rep a live rest kvs" and oom: "oom (ah a) = []"
    by (auto simp: array_inv_def array_wf_def)
  have d: "distinct (map fst kvs)" using rep by (simp add: array_rep_def)
  from rep show ?thesis
  proof (cases rule: array_exist_cases [where k = k])
    case absent
    from rep nf obtain r rest' where rest: "rest = r # rest'"
      by (cases rest) (auto simp: array_rep_def array_full_def)
    from array_append_rep [OF rep [unfolded rest] oom absent, of v] obtain a' live' where
      a': "array_set (Some a) (Some k) (Some v) = Some (Some a', 0)" "oom (ah a') = []"
        "array_rep a' live' rest' (kvs @ [(k, v)])"
      by blast
    then show ?thesis
      using map_of_snoc_new [OF absent(2), of v] array_rep_map [OF rep] array_rep_map [OF a'(3)]
      by (auto simp: array_inv_def array_wf_def)
  next
    case (found j)
    let ?it = "live ! j"
    have lk: "length kvs = length live" by (rule array_rep_length [OF rep])
    have split: "live = take j live @ ?it # drop (Suc j) live"
      "kvs = take j kvs @ (k, snd (kvs ! j)) # drop (Suc j) kvs"
      using found lk by (metis id_take_nth_drop, metis id_take_nth_drop prod.collapse)
    have j: "length (take j live) = j" "length (take j kvs) = j" using found lk by auto
    have "array_rep a (take j live @ ?it # drop (Suc j) live) rest
            (take j kvs @ (k, snd (kvs ! j)) # drop (Suc j) kvs)"
      using rep split by simp
    from array_mod_rep [OF this _ oom, of v] obtain a' where
      a': "array_mod (Some a) (Some k) v = Some (Some a', 0)" "oom (ah a') = []"
        "array_rep a' (take j live @ ?it\<lparr>item_value := brk (ah a)\<rparr> # drop (Suc j) live) rest
           (take j kvs @ (k, v) # drop (Suc j) kvs)"
      using found j by auto
    have "map_of (take j kvs @ (k, v) # drop (Suc j) kvs) = (map_of kvs)(k \<mapsto> v)"
      using map_of_replace_mid [of "take j kvs" k _ "drop (Suc j) kvs" v] d split(2) by metis
    then show ?thesis
      using a' found nf array_rep_map [OF a'(3)] array_rep_map [OF rep]
      by (auto simp: array_set_def array_full_def array_inv_def array_wf_def)
  qed
qed

section \<open>Deletion\<close>

lemma array_shift_rep:
  assumes "cells (ah a) (array_table (arr a)) = Some (CObj (l1 @ x # l2 @ rest))"
  shows "array_shift (length l1) (Suc (length l1 + length l2)) a =
    Some (a\<lparr>ah := (ah a)\<lparr>cells := (cells (ah a))
      (array_table (arr a) \<mapsto> CObj (l1 @ l2 @ last (x # l2) # rest))\<rparr>\<rparr>)"
  using assms
proof (induction l2 arbitrary: l1 x a)
  case Nil
  then have "(cells (ah a))(array_table (arr a) \<mapsto> CObj (l1 @ x # rest)) = cells (ah a)"
    by (intro ext) simp
  then show ?case by (subst array_shift.simps) simp
next
  case (Cons y l2)
  let ?a = "a\<lparr>ah := (ah a)\<lparr>cells := (cells (ah a))
      (array_table (arr a) \<mapsto> CObj ((l1 @ [y]) @ y # l2 @ rest))\<rparr>\<rparr>"
  have g: "get_slot a (Suc (length l1)) = Some y"
    using Cons.prems by (simp add: get_slot_def rd_obj_def nth_append)
  have s: "set_slot (length l1) y a = Some ?a"
    using Cons.prems by (simp add: set_slot_rep list_update_append)
  have "array_shift (length l1) (Suc (length l1 + length (y # l2))) a
      = array_shift (length (l1 @ [y])) (Suc (length (l1 @ [y]) + length l2)) ?a"
    by (subst array_shift.simps) (simp add: g s)
  also have "\<dots> = Some (?a\<lparr>ah := (ah ?a)\<lparr>cells := (cells (ah ?a))
      (array_table (arr ?a) \<mapsto> CObj ((l1 @ [y]) @ l2 @ last (y # l2) # rest))\<rparr>\<rparr>)"
    by (rule Cons.IH) simp
  finally show ?case by (simp add: fun_upd_def cong: if_cong)
qed

text \<open>
  Deleting a key that is present frees exactly its two strings, closes the gap in the table and
  keeps the order of the remaining entries.
\<close>

lemma array_del_rep:
  assumes rep: "array_rep a (l1 @ it # l2) rest (k1 @ (k, v0) # k2)"
    and len: "length k1 = length l1"
    and ex: "array_exist (Some a) (Some k) = Some (int (length l1))"
  shows "\<exists>a' r. array_del (Some a) (Some k) = Some (Some a', 0) \<and> oom (ah a') = oom (ah a) \<and>
    array_rep a' (l1 @ l2) (r # rest) (k1 @ k2)"
proof -
  let ?t = "array_table (arr a)" and ?C = "cells (ah a)"
  let ?live = "l1 @ it # l2"
  let ?k = "item_key it" and ?v = "item_value it"
  note M = array_mid [OF rep len]
  note ok = M(1) and tab = M(2) and ds = M(3) and dm = M(4) and s1 = M(5) and s2 = M(6) and si = M(7) and ptrs = M(8) and idx = M(9)
  have nn: "?k \<noteq> NULL" "?v \<noteq> NULL" "?k \<noteq> ?v" "?k \<noteq> ?t" "?v \<noteq> ?t"
    using si ds ptrs heap_ok_not_null [OF ok] by (auto simp: slot_ok_def)
  let ?last = "last (null_item # l2)"
  let ?h = "(ah a)\<lparr>cells := ?C(?k := None, ?v := None, ?t \<mapsto> CObj (l1 @ l2 @ ?last # rest))\<rparr>"
  let ?a = "a\<lparr>ah := ?h, arr := (arr a)\<lparr>array_index := length (l1 @ l2)\<rparr>\<rparr>"
  have run: "array_del (Some a) (Some k) = Some (Some ?a, 0)"
  proof -
    let ?hz = "(ah a)\<lparr>cells := ?C(?k := None, ?v := None, ?t \<mapsto> CObj (l1 @ null_item # l2 @ rest))\<rparr>"
    have "set_slot (length l1) null_item (a\<lparr>ah := (ah a)\<lparr>cells := ?C(?k := None, ?v := None)\<rparr>\<rparr>)
        = Some (a\<lparr>ah := ?hz\<rparr>)"
      using tab nn by (subst set_slot_rep [where tab = "?live @ rest"]) (auto simp: list_update_append)
    moreover have "array_shift (length l1) (Suc (length l1 + length l2)) (a\<lparr>ah := ?hz\<rparr>)
        = Some (a\<lparr>ah := ?h\<rparr>)"
      using array_shift_rep [of "a\<lparr>ah := ?hz\<rparr>" l1 null_item l2 rest] by (simp del: last.simps)
    ultimately show ?thesis
      using ex array_rep_slot(1) [OF rep, of "length l1"] si nn idx
      by (simp add: array_del_def kvstore_free_def slot_ok_def)
  qed
  have "heap_ok ?h"
    using ok heap_ok_below_brk [OF ok tab] heap_ok_not_null [OF ok tab]
    by (auto simp: heap_ok_def)
  moreover have "list_all2 (slot_ok ?h) (l1 @ l2) (k1 @ k2)"
  proof -
    have "list_all2 (slot_ok ?h) l1 k1"
      by (rule slots_frame [OF s1]) (use ptrs ds in auto)
    moreover have "list_all2 (slot_ok ?h) l2 k2"
      by (rule slots_frame [OF s2]) (use ptrs ds in auto)
    ultimately show ?thesis by (rule list_all2_appendI)
  qed
  moreover have "dom (cells ?h) = insert ?t (set (item_ptrs (l1 @ l2)))"
    using dm ptrs ds by auto
  moreover have "length k2 = length l2" using s2 by (auto dest: list_all2_lengthD)
  ultimately have "array_rep ?a (l1 @ l2) (?last # rest) (k1 @ k2)"
    using rep ds ptrs by (auto simp: array_rep_def)
  with run show ?thesis by auto
qed

lemma array_del_absent:
  assumes "array_inv a" "array_map a k = None"
  shows "array_del (Some a) (Some k) = Some (Some a, -1)"
proof -
  from assms obtain live rest kvs where rep: "array_rep a live rest kvs"
    by (auto simp: array_inv_def array_wf_def)
  then show ?thesis
    using assms(2) by (cases rule: array_exist_cases [where k = k])
      (auto simp: array_del_def array_rep_map [OF rep])
qed

lemma array_del_ok:
  assumes inv: "array_inv a" and k: "array_map a k \<noteq> None"
  shows "\<exists>a'. array_del (Some a) (Some k) = Some (Some a', 0) \<and> array_inv a' \<and>
    array_map a' = (array_map a)(k := None) \<and> \<not> array_full a'"
proof -
  from inv obtain live rest kvs where rep: "array_rep a live rest kvs" and oom: "oom (ah a) = []"
    by (auto simp: array_inv_def array_wf_def)
  from rep show ?thesis
  proof (cases rule: array_exist_cases [where k = k])
    case absent
    with k show ?thesis by (simp add: array_rep_map [OF rep])
  next
    case (found j)
    have d: "distinct (map fst kvs)" using rep by (simp add: array_rep_def)
    have lk: "length kvs = length live" by (rule array_rep_length [OF rep])
    have split: "live = take j live @ live ! j # drop (Suc j) live"
      "kvs = take j kvs @ (k, snd (kvs ! j)) # drop (Suc j) kvs"
      using found lk by (metis id_take_nth_drop, metis id_take_nth_drop prod.collapse)
    have j: "length (take j live) = j" "length (take j kvs) = j" using found lk by auto
    have "array_rep a (take j live @ live ! j # drop (Suc j) live) rest
            (take j kvs @ (k, snd (kvs ! j)) # drop (Suc j) kvs)"
      using rep split by simp
    from array_del_rep [OF this] obtain a' r where
      a': "array_del (Some a) (Some k) = Some (Some a', 0)" "oom (ah a') = oom (ah a)"
        "array_rep a' (take j live @ drop (Suc j) live) (r # rest) (take j kvs @ drop (Suc j) kvs)"
      using found j by auto
    have "map_of (take j kvs @ drop (Suc j) kvs) = (map_of kvs)(k := None)"
      using map_of_delete_mid [of "take j kvs" k _ "drop (Suc j) kvs"] d split(2) by metis
    moreover have "\<not> array_full a'"
      using a'(3) by (auto simp: array_rep_def array_full_def)
    ultimately show ?thesis
      using a' oom array_rep_map [OF a'(3)] array_rep_map [OF rep]
      by (auto simp: array_inv_def array_wf_def)
  qed
qed

section \<open>Creation, destruction and counting\<close>

lemma array_create_inv:
  assumes "heap_ok (ah a)" "oom (ah a) = []" "cells (ah a) = Map.empty"
  shows "\<exists>a'. array_create (Some a) = (Some a', 0) \<and> array_inv a' \<and> array_map a' = Map.empty"
proof -
  let ?tab = "replicate KVS_ARRAY_SIZE null_item"
  let ?a = "a\<lparr>ah := (ah a)\<lparr>cells := (cells (ah a))(brk (ah a) \<mapsto> CObj ?tab),
      brk := Suc (brk (ah a)), oom := []\<rparr>, arr := \<lparr>array_table = brk (ah a), array_index = 0\<rparr>\<rparr>"
  have "array_create (Some a) = (Some ?a, 0)"
    using assms heap_ok_brk_pos [OF assms(1)] by (simp add: array_create_def)
  moreover have rep: "array_rep ?a [] ?tab []"
    using assms heap_ok_malloc [OF assms(1), where c = "CObj ?tab" and fs = "[]"]
    by (simp add: array_rep_def KVS_ARRAY_SIZE_def)
  ultimately show ?thesis
    using array_rep_map [OF rep] by (auto simp: array_inv_def array_wf_def)
qed

lemma array_count_spec:
  assumes "array_inv a"
  shows "array_count (Some a) = Some (int (card (dom (array_map a))))"
proof -
  from assms obtain live rest kvs where rep: "array_rep a live rest kvs"
    by (auto simp: array_inv_def array_wf_def)
  then have "distinct (map fst kvs)" "array_index (arr a) = length kvs"
    by (auto simp: array_rep_def array_rep_length [OF rep])
  then show ?thesis
    by (simp add: array_count_def array_rep_map [OF rep] card_dom_map_of)
qed

lemma array_map_bound:
  assumes "array_inv a"
  shows "finite (dom (array_map a))" "card (dom (array_map a)) \<le> KVS_ARRAY_SIZE"
    "array_full a \<longleftrightarrow> card (dom (array_map a)) = KVS_ARRAY_SIZE"
proof -
  from assms obtain live rest kvs where rep: "array_rep a live rest kvs"
    by (auto simp: array_inv_def array_wf_def)
  then have "distinct (map fst kvs)" "array_index (arr a) = length kvs" "length kvs \<le> KVS_ARRAY_SIZE"
    by (auto simp: array_rep_def array_rep_length [OF rep])
  then show "finite (dom (array_map a))" "card (dom (array_map a)) \<le> KVS_ARRAY_SIZE"
    "array_full a \<longleftrightarrow> card (dom (array_map a)) = KVS_ARRAY_SIZE"
    by (auto simp: array_rep_map [OF rep] card_dom_map_of finite_dom_map_of array_full_def)
qed

section \<open>Failing allocations\<close>

lemma array_rep_oom [simp]:
  "array_rep (a\<lparr>ah := (ah a)\<lparr>oom := fs\<rparr>\<rparr>) live rest kvs = array_rep a live rest kvs"
proof -
  have "slot_ok ((ah a)\<lparr>oom := fs\<rparr>) = slot_ok (ah a)"
    by (simp add: slot_ok_def fun_eq_iff)
  then show ?thesis by (simp add: array_rep_def)
qed

lemma array_set_update_oom:
  assumes wf: "array_wf a" and nf: "\<not> array_full a" and k: "array_map a k \<noteq> None"
    and oom: "oom (ah a) = True # fs"
  shows "\<exists>a'. array_set (Some a) (Some k) (Some v) = Some (Some a', 0) \<and> array_wf a' \<and>
    array_map a' = array_map a"
proof -
  from wf obtain live rest kvs where rep: "array_rep a live rest kvs" by (auto simp: array_wf_def)
  let ?a = "a\<lparr>ah := (ah a)\<lparr>oom := fs\<rparr>\<rparr>"
  from rep have rep': "array_rep ?a live rest kvs" by simp
  from rep show ?thesis
  proof (cases rule: array_exist_cases [where k = k])
    case absent
    with k show ?thesis by (simp add: array_rep_map [OF rep])
  next
    case (found j)
    then have "array_mod (Some a) (Some k) v = Some (Some ?a, -1)"
      using array_rep_slot(1) [OF rep found(2)] oom by (simp add: array_mod_def)
    then have "array_set (Some a) (Some k) (Some v) = Some (Some ?a, 0)"
      using found nf by (simp add: array_set_def array_full_def)
    moreover have "array_map ?a = array_map a"
      using array_rep_map [OF rep] array_rep_map [OF rep'] by simp
    moreover have "array_wf ?a" using rep' unfolding array_wf_def by blast
    ultimately show ?thesis by blast
  qed
qed

text \<open>
  A failed insertion returns -1 and leaves the map as it was, whichever of the two allocations
  fails; \<open>array_wf\<close> also says that the key copy of the second case is not leaked.
\<close>

lemma array_set_insert_oom:
  assumes wf: "array_wf a" and nf: "\<not> array_full a" and k: "array_map a k = None"
    and oom: "oom (ah a) = True # fs \<or> oom (ah a) = False # True # fs"
  shows "\<exists>a'. array_set (Some a) (Some k) (Some v) = Some (Some a', -1) \<and> array_wf a' \<and>
    array_map a' = array_map a"
proof -
  from wf obtain live rest kvs where rep: "array_rep a live rest kvs" by (auto simp: array_wf_def)
  then have ok: "heap_ok (ah a)" by (simp add: array_rep_def)
  from rep show ?thesis
  proof (cases rule: array_exist_cases [where k = k])
    case absent
    let ?h = "(ah a)\<lparr>brk := Suc (brk (ah a)), oom := fs\<rparr>"
    have h: "(cells (ah a))(brk (ah a) := None) = cells (ah a)"
      using ok by (simp add: fun_upd_idem_iff)
    have "array_set (Some a) (Some k) (Some v) = Some (Some (a\<lparr>ah := (ah a)\<lparr>oom := fs\<rparr>\<rparr>), -1) \<or>
      array_set (Some a) (Some k) (Some v) = Some (Some (a\<lparr>ah := ?h\<rparr>), -1)"
      using oom
    proof
      assume "oom (ah a) = True # fs"
      then show ?thesis using absent nf by (simp add: array_set_def array_full_def)
    next
      assume "oom (ah a) = False # True # fs"
      then show ?thesis
        using absent nf h heap_ok_brk_pos [OF ok]
        by (simp add: array_set_def array_full_def kvstore_malloc_def kvstore_free_def Let_def)
    qed
    moreover have r1: "array_rep (a\<lparr>ah := ?h\<rparr>) live rest kvs"
    proof -
      have "slot_ok ?h = slot_ok (ah a)" by (simp add: slot_ok_def fun_eq_iff)
      moreover have "heap_ok ?h" using ok by (simp add: heap_ok_def)
      ultimately show ?thesis using rep by (simp add: array_rep_def)
    qed
    moreover have r2: "array_rep (a\<lparr>ah := (ah a)\<lparr>oom := fs\<rparr>\<rparr>) live rest kvs" using rep by simp
    moreover have "array_wf (a\<lparr>ah := ?h\<rparr>)" "array_wf (a\<lparr>ah := (ah a)\<lparr>oom := fs\<rparr>\<rparr>)"
      using r1 r2 unfolding array_wf_def by blast+
    moreover note array_rep_map [OF rep] array_rep_map [OF r1] array_rep_map [OF r2]
    ultimately show ?thesis by (elim disjE) (rule exI, intro conjI, assumption, assumption, simp only:)+
  next
    case (found j)
    with k show ?thesis by (simp add: array_rep_map [OF rep])
  qed
qed

lemma array_destroy_frees_nothing:
  "array_table (arr a) \<noteq> NULL \<Longrightarrow> array_destroy (Some a) = Some (Some a)"
  by (simp add: array_destroy_def)

section \<open>The wrappers of kvstore.c and the contract\<close>

text \<open>\<open>kvstore_array_*\<close> call the engine on the global \<open>Array\<close>.\<close>

definition kvstore_array_exist :: "array_st \<Rightarrow> string \<Rightarrow> int option" where
  "kvstore_array_exist a key = array_exist (Some a) (Some key)"

definition kvstore_array_set :: "array_st \<Rightarrow> string \<Rightarrow> string \<Rightarrow> (array_st \<times> int) option" where
  "kvstore_array_set a key value = do {
     (p, ret) \<leftarrow> array_set (Some a) (Some key) (Some value);
     a \<leftarrow> p;
     Some (a, ret) }"

definition kvstore_array_get :: "array_st \<Rightarrow> string \<Rightarrow> addr option" where
  "kvstore_array_get a key = array_get (Some a) (Some key)"

definition kvstore_array_del :: "array_st \<Rightarrow> string \<Rightarrow> (array_st \<times> int) option" where
  "kvstore_array_del a key = do {
     (p, ret) \<leftarrow> array_del (Some a) (Some key);
     a \<leftarrow> p;
     Some (a, ret) }"

definition kvstore_array_count :: "array_st \<Rightarrow> int option" where
  "kvstore_array_count a = array_count (Some a)"

definition array_engine :: "array_st engine" where
  "array_engine =
     \<lparr>eng_exist = kvstore_array_exist, eng_set = kvstore_array_set, eng_get = kvstore_array_get,
      eng_del = kvstore_array_del, eng_count = kvstore_array_count,
      eng_str = (\<lambda>a p. rd_str (ah a) p)\<rparr>"

lemma array_room: "array_inv a \<Longrightarrow> has_room (Some KVS_ARRAY_SIZE) (array_map a) \<longleftrightarrow> \<not> array_full a"
  using array_map_bound(3) by (simp add: has_room_def)

interpretation ae: kv_engine array_engine array_inv array_map "\<lambda>_. True" "Some KVS_ARRAY_SIZE"
proof (unfold_locales, goal_cases)
  case (1 s k)
  then show ?case using array_exist_spec by (simp add: array_engine_def kvstore_array_exist_def)
next
  case (2 s k v)
  then show ?case using array_get_spec [of s k] by (auto simp: array_engine_def kvstore_array_get_def)
next
  case (3 s k v)
  then have "\<not> array_full s" by (simp add: array_room)
  from array_set_ok [OF 3(1) this, of k v] show ?case
    by (auto simp: array_engine_def kvstore_array_set_def)
next
  case (4 s k v)
  then have "array_full s" by (simp add: array_room)
  from array_set_full [OF this, of k v] show ?case by (simp add: array_engine_def kvstore_array_set_def)
next
  case (5 s k)
  from array_del_ok [OF 5(1,3)] show ?case by (auto simp: array_engine_def kvstore_array_del_def)
next
  case (6 s)
  then show ?case by (simp add: array_engine_def kvstore_array_count_def array_count_spec)
qed

section \<open>Properties\<close>

text \<open>
  C8: starting from a fresh table, every session of requests to the array engine (SET, GET, DEL,
  COUNT, EXIST through the wrappers and handlers of kvstore.c) is defined, and its replies are
  those of a finite map with room for 1024 keys; the table invariant (distinct keys, distinct live
  blocks, nothing leaked) holds at the end.
\<close>

theorem array_session:
  assumes "heap_ok (ah a)" "oom (ah a) = []" "cells (ah a) = Map.empty"
  shows "\<exists>a0 a'. array_create (Some a) = (Some a0, 0) \<and>
    kvs_run array_engine a0 reqs = Some (a', snd (spec_run (Some KVS_ARRAY_SIZE) Map.empty reqs)) \<and>
    array_inv a'"
proof -
  from array_create_inv [OF assms] obtain a0 where
    a0: "array_create (Some a) = (Some a0, 0)" "array_inv a0" "array_map a0 = Map.empty" by auto
  from ae.run_refines [OF a0(2), of reqs] a0 show ?thesis by auto
qed

definition empty_array_st :: array_st where
  "empty_array_st = \<lparr>ah = empty_heap, arr = \<lparr>array_table = 0, array_index = 0\<rparr>\<rparr>"

lemma empty_array_st [simp]: "ah empty_array_st = empty_heap"
  by (simp add: empty_array_st_def)

theorem array_session_witness:
  "\<exists>a0 a'. array_create (Some empty_array_st) = (Some a0, 0) \<and>
    kvs_run array_engine a0 [SET ''k'' ''v'', GET ''k'', DEL ''k'', GET ''k''] =
      Some (a', [''SUCCESS'', ''v'', ''SUCCESS'', ''NO EXIST''])"
  using array_session [of empty_array_st "[SET ''k'' ''v'', GET ''k'', DEL ''k'', GET ''k'']"]
  by (auto simp: has_room_def KVS_ARRAY_SIZE_def snprintf_s_def BUFFER_LENGTH_def)

text \<open>
  \<open>array_set\<close> on an existing key answers 0 (success) although the allocation of the new
  value failed: the result of \<open>_array_mod\<close> is dropped, and the old value stays.
\<close>

theorem array_set_reports_success_on_oom:
  assumes "array_wf a" "\<not> array_full a" "array_map a k = Some w" "w \<noteq> v" "oom (ah a) = True # fs"
  shows "\<exists>a'. array_set (Some a) (Some k) (Some v) = Some (Some a', 0) \<and> array_wf a' \<and>
    array_map a' k = Some w"
  using array_set_update_oom [OF assms(1,2) _ assms(5), of k v] assms(3) by auto

definition oom_array_st :: array_st where
  "oom_array_st =
     \<lparr>ah = \<lparr>cells = [1 \<mapsto> CObj (\<lparr>item_key = 2, item_value = 3\<rparr> # replicate 1023 null_item),
        2 \<mapsto> CStr ''k'', 3 \<mapsto> CStr ''v''], brk = 4, oom = [True]\<rparr>,
      arr = \<lparr>array_table = 1, array_index = 1\<rparr>\<rparr>"

lemma oom_array_st_rep:
  "array_rep oom_array_st [\<lparr>item_key = 2, item_value = 3\<rparr>] (replicate 1023 null_item) [(''k'', ''v'')]"
  by (auto simp: array_rep_def oom_array_st_def heap_ok_def KVS_ARRAY_SIZE_def slot_ok_def)

theorem array_set_reports_success_on_oom_witness:
  "\<exists>a'. array_set (Some oom_array_st) (Some ''k'') (Some ''w'') = Some (Some a', 0) \<and>
    array_map a' ''k'' = Some ''v''"
proof -
  have "array_wf oom_array_st" using oom_array_st_rep by (auto simp: array_wf_def)
  moreover have "array_map oom_array_st ''k'' = Some ''v''" by (simp add: array_rep_map [OF oom_array_st_rep])
  moreover have "\<not> array_full oom_array_st"
    by (simp add: array_full_def oom_array_st_def KVS_ARRAY_SIZE_def)
  moreover have "oom (ah oom_array_st) = True # []" by (simp add: oom_array_st_def)
  ultimately show ?thesis
    using array_set_reports_success_on_oom [of oom_array_st "''k''" "''v''" "''w''" "[]"] by auto
qed

end
