(* ===== verification/KV_Hash.thy ===== *)
theory KV_Hash
  imports KV_Engine "HOL-Library.Signed_Division"
begin

text \<open>
  The hash engine (kvstore_hash.c): an array of 1024 bucket heads, each a NULL-terminated chain
  of nodes.  Nodes, the strings they point to and the bucket array are cells of one heap.

  \<open>hashtable_t *\<close> and \<open>char *\<close> parameters are options (\<open>None\<close> is NULL).  The loops over a
  chain are \<^theory_text>\<open>partial_function (option)\<close>: a chain that runs into an unallocated cell,
  or in a circle, gives \<open>None\<close>.
\<close>

section \<open>State\<close>

definition MAX_TABLE_SIZE :: nat where "MAX_TABLE_SIZE = 1024"

record hashnode_t =
  node_key :: addr
  node_value :: addr
  node_next :: addr

datatype hobj = HNode hashnode_t | HTab "addr list"

record hashtable_t =
  nodes :: addr
  max_slots :: int
  count :: int

record hash_st =
  hh :: "hobj heap"
  ht :: hashtable_t

definition rd_node :: "hobj heap \<Rightarrow> addr \<Rightarrow> hashnode_t option" where
  "rd_node h p = (case cells h p of Some (CObj (HNode n)) \<Rightarrow> Some n | _ \<Rightarrow> None)"

definition wr_node :: "addr \<Rightarrow> hashnode_t \<Rightarrow> hobj heap \<Rightarrow> hobj heap option" where
  "wr_node p n h =
     (case rd_node h p of
        None \<Rightarrow> None | Some _ \<Rightarrow> Some (h\<lparr>cells := (cells h)(p \<mapsto> CObj (HNode n))\<rparr>))"

text \<open>Access to \<open>hash->nodes[idx]\<close>; a negative or too large index is undefined.\<close>

definition rd_slot :: "hash_st \<Rightarrow> int \<Rightarrow> addr option" where
  "rd_slot s idx =
     (case cells (hh s) (nodes (ht s)) of
        Some (CObj (HTab tab)) \<Rightarrow>
          if 0 \<le> idx \<and> nat idx < length tab then Some (tab ! nat idx) else None
      | _ \<Rightarrow> None)"

definition wr_slot :: "int \<Rightarrow> addr \<Rightarrow> hash_st \<Rightarrow> hash_st option" where
  "wr_slot idx p s =
     (case cells (hh s) (nodes (ht s)) of
        Some (CObj (HTab tab)) \<Rightarrow>
          if 0 \<le> idx \<and> nat idx < length tab
          then Some (s\<lparr>hh := (hh s)\<lparr>cells := (cells (hh s))(nodes (ht s) \<mapsto> CObj (HTab (tab[nat idx := p])))\<rparr>\<rparr>)
          else None
      | _ \<Rightarrow> None)"

section \<open>Operations\<close>

text \<open>A \<open>char\<close> is signed on the platform of the Makefile (gcc, x86-64).\<close>

definition schar :: "char \<Rightarrow> int" where
  "schar c = (let n = of_char c in if n < 128 then n else n - 256)"

fun hash_sum :: "int \<Rightarrow> string \<Rightarrow> int" where
  "hash_sum acc [] = acc"
| "hash_sum acc (c # key) = hash_sum (acc + schar c) key"

definition hash_fn :: "string option \<Rightarrow> int \<Rightarrow> int" where
  "hash_fn key sz = (case key of None \<Rightarrow> -1 | Some k \<Rightarrow> hash_sum 0 k smod sz)"

definition create_node :: "string \<Rightarrow> string \<Rightarrow> hobj heap \<Rightarrow> (hobj heap \<times> addr) option" where
  "create_node key value h =
     (let (h, node) = kvstore_malloc (CObj (HNode \<lparr>node_key = NULL, node_value = NULL, node_next = NULL\<rparr>)) h
      in if node = NULL then Some (h, NULL)
         else (let (h, kp) = kvstore_malloc (CStr key) h
               in if kp = NULL
                  then do { h \<leftarrow> kvstore_free node h; Some (h, NULL) }
                  else (let (h, vp) = kvstore_malloc (CStr value) h
                        in if vp = NULL
                           then do { h \<leftarrow> kvstore_free kp h; h \<leftarrow> kvstore_free node h; Some (h, NULL) }
                           else do {
                             h \<leftarrow> wr_node node \<lparr>node_key = kp, node_value = vp, node_next = NULL\<rparr> h;
                             Some (h, node) })))"

text \<open>
  \<open>create_hashtable\<close> does not clear the bucket array: \<open>junk\<close> is what the fresh block
  happens to contain.
\<close>

definition create_hashtable :: "addr list \<Rightarrow> hash_st option \<Rightarrow> hash_st option \<times> int" where
  "create_hashtable junk p =
     (case p of
        None \<Rightarrow> (None, -1)
      | Some s \<Rightarrow>
          (let (h, t) = kvstore_malloc (CObj (HTab junk)) (hh s);
               s = s\<lparr>hh := h, ht := (ht s)\<lparr>nodes := t\<rparr>\<rparr>
           in if t = NULL then (Some s, -1)
              else (Some (s\<lparr>ht := (ht s)\<lparr>max_slots := int MAX_TABLE_SIZE, count := 0\<rparr>\<rparr>), 0)))"

text \<open>\<open>destroy_hashtable\<close> frees the nodes and the bucket array, not the strings.\<close>

partial_function (option) destroy_chain :: "int \<Rightarrow> addr \<Rightarrow> hash_st \<Rightarrow> hash_st option" where
  "destroy_chain i node s =
     (if node = NULL then Some s
      else do {
        n \<leftarrow> rd_node (hh s) node;
        s \<leftarrow> wr_slot i (node_next n) s;
        h \<leftarrow> kvstore_free node (hh s);
        destroy_chain i (node_next n) (s\<lparr>hh := h\<rparr>) })"

fun destroy_slots :: "nat \<Rightarrow> int \<Rightarrow> hash_st \<Rightarrow> hash_st option" where
  "destroy_slots 0 i s = Some s"
| "destroy_slots (Suc n) i s = do {
     node \<leftarrow> rd_slot s i;
     s \<leftarrow> destroy_chain i node s;
     destroy_slots n (i + 1) s }"

definition destroy_hashtable :: "hash_st option \<Rightarrow> hash_st option option" where
  "destroy_hashtable p =
     (case p of
        None \<Rightarrow> Some None
      | Some s \<Rightarrow> do {
          s \<leftarrow> destroy_slots (nat (max_slots (ht s))) 0 s;
          h \<leftarrow> kvstore_free (nodes (ht s)) (hh s);
          Some (Some (s\<lparr>hh := h\<rparr>)) })"

partial_function (option) get_loop :: "hobj heap \<Rightarrow> string \<Rightarrow> addr \<Rightarrow> addr option" where
  "get_loop h key node =
     (if node = NULL then Some NULL
      else do {
        n \<leftarrow> rd_node h node;
        k \<leftarrow> rd_str h (node_key n);
        if strcmp k key = 0 then Some (node_value n) else get_loop h key (node_next n) })"

definition get_kv_hashtable :: "hash_st option \<Rightarrow> string option \<Rightarrow> addr option" where
  "get_kv_hashtable p key =
     (case (p, key) of
        (Some s, Some k) \<Rightarrow> do {
          let idx = hash_fn key (int MAX_TABLE_SIZE);
          node \<leftarrow> rd_slot s idx;
          get_loop (hh s) k node }
      | _ \<Rightarrow> Some NULL)"

definition kv_exist :: "hash_st option \<Rightarrow> string option \<Rightarrow> int option" where
  "kv_exist p key = do {
     value \<leftarrow> get_kv_hashtable p key;
     Some (if value \<noteq> NULL then 0 else -1) }"

text \<open>The old value is freed before the new one is allocated; \<open>assert(0)\<close> when that fails.\<close>

partial_function (option) mod_loop ::
  "string \<Rightarrow> string \<Rightarrow> addr \<Rightarrow> hobj heap \<Rightarrow> (hobj heap \<times> int) option" where
  "mod_loop key value node h =
     (if node = NULL then Some (h, -1)
      else do {
        n \<leftarrow> rd_node h node;
        k \<leftarrow> rd_str h (node_key n);
        if strcmp k key = 0
        then do {
          h \<leftarrow> kvstore_free (node_value n) h;
          let (h, vp) = kvstore_malloc (CStr value) h;
          h \<leftarrow> wr_node node (n\<lparr>node_value := vp\<rparr>) h;
          if vp \<noteq> NULL then Some (h, 0) else None }
        else mod_loop key value (node_next n) h })"

definition mod_kv_hashtable ::
  "hash_st option \<Rightarrow> string option \<Rightarrow> string option \<Rightarrow> (hash_st option \<times> int) option" where
  "mod_kv_hashtable p key value =
     (case (p, key, value) of
        (Some s, Some k, Some v) \<Rightarrow> do {
          let idx = hash_fn key (int MAX_TABLE_SIZE);
          node \<leftarrow> rd_slot s idx;
          (h, r) \<leftarrow> mod_loop k v node (hh s);
          Some (Some (s\<lparr>hh := h\<rparr>), r) }
      | _ \<Rightarrow> Some (p, -1))"

text \<open>
  A failed \<open>create_node\<close> returns NULL, through which the code then writes: \<open>wr_node\<close> at
  NULL is undefined.
\<close>

definition put_kv_hashtable ::
  "hash_st option \<Rightarrow> string option \<Rightarrow> string option \<Rightarrow> (hash_st option \<times> int) option" where
  "put_kv_hashtable p key value =
     (case (p, key, value) of
        (Some s, Some k, Some v) \<Rightarrow> do {
          let idx = hash_fn key (int MAX_TABLE_SIZE);
          e \<leftarrow> kv_exist p key;
          if e \<noteq> -1
          then do {
            (p, ret) \<leftarrow> mod_kv_hashtable p key value;
            if ret = 0 then Some (p, 0) else Some (p, -1) }
          else do {
            (h, new_node) \<leftarrow> create_node k v (hh s);
            let s = s\<lparr>hh := h\<rparr>;
            head \<leftarrow> rd_slot s idx;
            n \<leftarrow> rd_node (hh s) new_node;
            h \<leftarrow> wr_node new_node (n\<lparr>node_next := head\<rparr>) (hh s);
            s \<leftarrow> wr_slot idx new_node (s\<lparr>hh := h\<rparr>);
            Some (Some (s\<lparr>ht := (ht s)\<lparr>count := count (ht s) + 1\<rparr>\<rparr>), 0) } }
      | _ \<Rightarrow> Some (p, -1))"

text \<open>The search for the predecessor of the node to delete.\<close>

partial_function (option) find_pred :: "hobj heap \<Rightarrow> string \<Rightarrow> addr \<Rightarrow> addr option" where
  "find_pred h key cur = do {
     n \<leftarrow> rd_node h cur;
     if node_next n = NULL then Some cur
     else do {
       m \<leftarrow> rd_node h (node_next n);
       k \<leftarrow> rd_str h (node_key m);
       if strcmp k key = 0 then Some cur else find_pred h key (node_next n) } }"

definition free_node :: "addr \<Rightarrow> hobj heap \<Rightarrow> hobj heap option" where
  "free_node p h = do {
     n \<leftarrow> rd_node h p;
     h \<leftarrow> (if node_key n \<noteq> NULL then kvstore_free (node_key n) h else Some h);
     h \<leftarrow> (if node_value n \<noteq> NULL then kvstore_free (node_value n) h else Some h);
     kvstore_free p h }"

definition delete_kv_hashtable :: "hash_st option \<Rightarrow> string option \<Rightarrow> (hash_st option \<times> int) option" where
  "delete_kv_hashtable p key =
     (case (p, key) of
        (Some s, Some k) \<Rightarrow> do {
          let idx = hash_fn key (int MAX_TABLE_SIZE);
          head \<leftarrow> rd_slot s idx;
          if head = NULL then Some (p, -1)
          else do {
            hn \<leftarrow> rd_node (hh s) head;
            hk \<leftarrow> rd_str (hh s) (node_key hn);
            if strcmp hk k = 0
            then do {
              s \<leftarrow> wr_slot idx (node_next hn) s;
              h \<leftarrow> free_node head (hh s);
              Some (Some (s\<lparr>hh := h, ht := (ht s)\<lparr>count := count (ht s) - 1\<rparr>\<rparr>), 0) }
            else do {
              cur \<leftarrow> find_pred (hh s) k head;
              cn \<leftarrow> rd_node (hh s) cur;
              if node_next cn = NULL then Some (p, -1)
              else do {
                let tmp = node_next cn;
                tn \<leftarrow> rd_node (hh s) tmp;
                h \<leftarrow> wr_node cur (cn\<lparr>node_next := node_next tn\<rparr>) (hh s);
                h \<leftarrow> free_node tmp h;
                Some (Some (s\<lparr>hh := h, ht := (ht s)\<lparr>count := count (ht s) - 1\<rparr>\<rparr>), 0) } } } }
      | _ \<Rightarrow> Some (p, -2))"

definition count_hashtable :: "hash_st option \<Rightarrow> int option" where
  "count_hashtable p = do { s \<leftarrow> p; Some (count (ht s)) }"

text \<open>\<open>count_kv_hashtable\<close> is a second copy of the same accessor.\<close>

definition count_kv_hashtable :: "hash_st option \<Rightarrow> int option" where
  "count_kv_hashtable p = do { s \<leftarrow> p; Some (count (ht s)) }"

declare get_loop.simps [code] mod_loop.simps [code] find_pred.simps [code] destroy_chain.simps [code]

section \<open>Representation and invariant\<close>

text \<open>
  A chain is described by the list of its entries: the address of the node, of its two strings,
  and the strings.  \<open>first es\<close> is the pointer to its head.
\<close>

record hentry =
  e_ptr :: addr
  e_kp :: addr
  e_vp :: addr
  e_k :: string
  e_v :: string

definition first :: "hentry list \<Rightarrow> addr" where
  "first es = (case es of [] \<Rightarrow> NULL | e # _ \<Rightarrow> e_ptr e)"

fun chain :: "hobj heap \<Rightarrow> hentry list \<Rightarrow> bool" where
  "chain h [] \<longleftrightarrow> True"
| "chain h (e # es) \<longleftrightarrow>
     cells h (e_ptr e) =
       Some (CObj (HNode \<lparr>node_key = e_kp e, node_value = e_vp e, node_next = first es\<rparr>)) \<and>
     cells h (e_kp e) = Some (CStr (e_k e)) \<and> cells h (e_vp e) = Some (CStr (e_v e)) \<and>
     chain h es"

fun hptrs :: "hentry list \<Rightarrow> addr list" where
  "hptrs [] = []"
| "hptrs (e # es) = e_ptr e # e_kp e # e_vp e # hptrs es"

definition ekv :: "hentry \<Rightarrow> string \<times> string" where
  "ekv e = (e_k e, e_v e)"

abbreviation hidx :: "string \<Rightarrow> int" where
  "hidx k \<equiv> hash_fn (Some k) (int MAX_TABLE_SIZE)"

text \<open>
  \<open>hash_rep s ess\<close>: bucket \<open>i\<close> holds the chain \<open>ess i\<close>; every key sits in the bucket it hashes to
  and occurs once; chains do not share a block; \<open>count\<close> is the number of nodes; nothing but the
  bucket array and the chains is allocated.
\<close>

definition hash_rep :: "hash_st \<Rightarrow> (nat \<Rightarrow> hentry list) \<Rightarrow> bool" where
  "hash_rep s ess \<longleftrightarrow>
     heap_ok (hh s) \<and>
     cells (hh s) (nodes (ht s)) = Some (CObj (HTab (map (\<lambda>i. first (ess i)) [0..<MAX_TABLE_SIZE]))) \<and>
     max_slots (ht s) = int MAX_TABLE_SIZE \<and>
     count (ht s) = (\<Sum>i<MAX_TABLE_SIZE. int (length (ess i))) \<and>
     (\<forall>i<MAX_TABLE_SIZE. chain (hh s) (ess i) \<and> distinct (hptrs (ess i)) \<and>
        distinct (map e_k (ess i)) \<and> (\<forall>e \<in> set (ess i). hidx (e_k e) = int i)) \<and>
     (\<forall>i<MAX_TABLE_SIZE. \<forall>j<MAX_TABLE_SIZE. i \<noteq> j \<longrightarrow> set (hptrs (ess i)) \<inter> set (hptrs (ess j)) = {}) \<and>
     dom (cells (hh s)) = insert (nodes (ht s)) (\<Union>i<MAX_TABLE_SIZE. set (hptrs (ess i)))"

text \<open>
  The map the table implements, read off the chain of the key's bucket.  A chain of allocated
  nodes has at most \<open>brk\<close> of them, so \<open>brk\<close> is fuel enough.
\<close>

fun read_chain :: "nat \<Rightarrow> hobj heap \<Rightarrow> addr \<Rightarrow> (string \<times> string) list" where
  "read_chain 0 h p = []"
| "read_chain (Suc f) h p =
     (case rd_node h p of
        None \<Rightarrow> []
      | Some n \<Rightarrow> (the (rd_str h (node_key n)), the (rd_str h (node_value n))) # read_chain f h (node_next n))"

definition hash_map :: "hash_st \<Rightarrow> string \<Rightarrow> string option" where
  "hash_map s k =
     (case rd_slot s (hidx k) of
        None \<Rightarrow> None
      | Some p \<Rightarrow> map_of (read_chain (brk (hh s)) (hh s) p) k)"

definition hash_wf :: "hash_st \<Rightarrow> bool" where
  "hash_wf s \<longleftrightarrow> (\<exists>ess. hash_rep s ess)"

definition hash_inv :: "hash_st \<Rightarrow> bool" where
  "hash_inv s \<longleftrightarrow> oom (hh s) = [] \<and> hash_wf s"

text \<open>The keys whose bucket index is in range.\<close>

definition hash_key_ok :: "string \<Rightarrow> bool" where
  "hash_key_ok k \<longleftrightarrow> 0 \<le> hidx k"

section \<open>The hash function\<close>

lemma of_char_bounds: "0 \<le> (of_char c :: int)" "of_char c < (256 :: int)"
  by (auto simp: of_char_def char_of_def)

lemma schar_bounds: "-128 \<le> schar c" "schar c \<le> 127"
proof -
  from of_char_bounds [of c] show "-128 \<le> schar c" "schar c \<le> 127"
    by (auto simp: schar_def Let_def)
qed

lemma hash_sum_acc: "hash_sum acc k = acc + (\<Sum>c\<leftarrow>k. schar c)"
  by (induction acc k rule: hash_sum.induct) auto

text \<open>
  The sum never exceeds 128 per byte, so the \<open>int\<close> of the code does not overflow for keys
  shorter than 16 megabytes.
\<close>

lemma hash_sum_bound: "\<bar>hash_sum 0 k\<bar> \<le> 128 * int (length k)"
proof (induction k)
  case (Cons c k)
  then show ?case using schar_bounds [of c] by (simp add: hash_sum_acc)
qed simp

lemma hidx_less: "hidx k < int MAX_TABLE_SIZE"
  using smod_int_range [where a = "hash_sum 0 k" and b = "int MAX_TABLE_SIZE"]
  by (simp add: hash_fn_def MAX_TABLE_SIZE_def)

lemma hidx_nat:
  assumes "hash_key_ok k"
  obtains i where "hidx k = int i" "i < MAX_TABLE_SIZE"
  using assms hidx_less [of k] by (metis hash_key_ok_def nonneg_int_cases of_nat_less_iff)

lemma ascii_hash_key_ok:
  assumes "\<forall>c \<in> set k. of_char c < (128 :: int)"
  shows "hash_key_ok k"
proof -
  have "0 \<le> (\<Sum>c\<leftarrow>k. schar c)"
    using assms by (intro sum_list_nonneg) (auto simp: schar_def Let_def of_char_bounds)
  then show ?thesis
    by (simp add: hash_key_ok_def hash_fn_def hash_sum_acc smod_int_compares MAX_TABLE_SIZE_def)
qed

section \<open>Chains\<close>

lemma hptrs_append [simp]: "hptrs (xs @ ys) = hptrs xs @ hptrs ys"
  by (induction xs) auto

lemma first_simps [simp]: "first [] = NULL" "first (e # es) = e_ptr e"
  by (simp_all add: first_def)

lemma first_append: "first (xs @ ys) = (if xs = [] then first ys else first xs)"
  by (cases xs) auto

lemma chain_append:
  "chain h (xs @ e # ys) \<Longrightarrow> chain h (e # ys)"
  by (induction xs) auto

lemma chain_frame:
  "chain h es \<Longrightarrow> (\<And>p. p \<in> set (hptrs es) \<Longrightarrow> cells h' p = cells h p) \<Longrightarrow> chain h' es"
  by (induction es) auto

lemma chain_alloc:
  "chain h es \<Longrightarrow> p \<in> set (hptrs es) \<Longrightarrow>
   (\<exists>n. cells h p = Some (CObj (HNode n))) \<or> (\<exists>s. cells h p = Some (CStr s))"
  by (induction es) auto

lemma chain_not_null: "heap_ok h \<Longrightarrow> chain h (e # es) \<Longrightarrow> e_ptr e \<noteq> NULL"
  by (auto dest: heap_ok_not_null)

lemma first_null_iff: "heap_ok h \<Longrightarrow> chain h es \<Longrightarrow> first es = NULL \<longleftrightarrow> es = []"
  by (cases es) (auto dest: heap_ok_not_null)

lemma get_loop_chain:
  "heap_ok h \<Longrightarrow> chain h es \<Longrightarrow>
   get_loop h k (first es) =
     Some (case find (\<lambda>e. e_k e = k) es of None \<Rightarrow> NULL | Some e \<Rightarrow> e_vp e)"
proof (induction es)
  case Nil
  then show ?case by (simp add: get_loop.simps)
next
  case (Cons e es)
  then have "e_ptr e \<noteq> NULL" by (intro chain_not_null)
  with Cons show ?case
    by (subst get_loop.simps) (simp add: rd_node_def rd_str_def)
qed

lemma read_chain_chain:
  "heap_ok h \<Longrightarrow> chain h es \<Longrightarrow> length es < f \<Longrightarrow> read_chain f h (first es) = map ekv es"
proof (induction es arbitrary: f)
  case Nil
  then obtain f' where "f = Suc f'" by (cases f) auto
  with Nil show ?case by (simp add: rd_node_def heap_ok_def)
next
  case (Cons e es)
  then obtain f' where "f = Suc f'" by (cases f) auto
  with Cons show ?case by (simp add: rd_node_def rd_str_def ekv_def)
qed

lemma length_hptrs: "length (hptrs es) = 3 * length es"
  by (induction es) auto

text \<open>A chain is shorter than the number of addresses in use.\<close>

lemma chain_length:
  assumes "heap_ok h" "chain h es" "distinct (hptrs es)"
  shows "length es < brk h"
proof -
  have "set (hptrs es) \<subseteq> {1..<brk h}"
  proof
    fix p assume "p \<in> set (hptrs es)"
    then obtain c where "cells h p = Some c" using chain_alloc [OF assms(2)] by blast
    then show "p \<in> {1..<brk h}"
      using heap_ok_not_null [OF assms(1)] heap_ok_below_brk [OF assms(1)] by (simp add: Suc_leI)
  qed
  then have "card (set (hptrs es)) \<le> brk h - 1"
    by (metis card_atLeastLessThan card_mono finite_atLeastLessThan)
  then have "3 * length es \<le> brk h - 1"
    using distinct_card [OF assms(3)] by (simp add: length_hptrs)
  then show ?thesis using heap_ok_brk_pos [OF assms(1)] by linarith
qed

lemma find_map_of: "map_of (map ekv es) k = map_option e_v (find (\<lambda>e. e_k e = k) es)"
  by (induction es) (auto simp: ekv_def)

lemma hash_rep_map:
  assumes rep: "hash_rep s ess"
  shows "hash_map s k =
    (if hash_key_ok k then map_of (map ekv (ess (nat (hidx k)))) k else None)"
proof (cases "hash_key_ok k")
  case True
  then obtain i where i: "hidx k = int i" "i < MAX_TABLE_SIZE" by (rule hidx_nat)
  with rep have "heap_ok (hh s)" "chain (hh s) (ess i)" "distinct (hptrs (ess i))"
    by (auto simp: hash_rep_def)
  moreover from rep i have "rd_slot s (hidx k) = Some (first (ess i))"
    by (simp add: hash_rep_def rd_slot_def)
  ultimately show ?thesis
    using True i by (simp add: hash_map_def read_chain_chain chain_length)
next
  case False
  then show ?thesis
    using rep by (auto simp: hash_map_def rd_slot_def hash_key_ok_def hash_rep_def)
qed

lemma hash_rep_slot:
  assumes "hash_rep s ess" "i < MAX_TABLE_SIZE"
  shows "rd_slot s (int i) = Some (first (ess i))" "chain (hh s) (ess i)"
    "distinct (hptrs (ess i))" "distinct (map e_k (ess i))" "\<forall>e \<in> set (ess i). hidx (e_k e) = int i"
  using assms by (auto simp: hash_rep_def rd_slot_def)

lemma chain_ptr_dom: "chain h es \<Longrightarrow> p \<in> set (hptrs es) \<Longrightarrow> p \<in> dom (cells h)"
  using chain_alloc by fastforce

lemma chain_fresh: "heap_ok h \<Longrightarrow> chain h es \<Longrightarrow> brk h \<le> p \<Longrightarrow> p \<notin> set (hptrs es)"
  using chain_ptr_dom [of h es p] by (auto simp: heap_ok_def)

lemma hash_rep_disjoint:
  assumes rep: "hash_rep s ess" and i: "i < MAX_TABLE_SIZE"
  shows "nodes (ht s) \<notin> set (hptrs (ess i))"
    and "j < MAX_TABLE_SIZE \<Longrightarrow> i \<noteq> j \<Longrightarrow> p \<in> set (hptrs (ess i)) \<Longrightarrow> p \<notin> set (hptrs (ess j))"
proof -
  show "nodes (ht s) \<notin> set (hptrs (ess i))"
    using chain_alloc [OF hash_rep_slot(2) [OF rep i]] rep by (fastforce simp: hash_rep_def)
  show "j < MAX_TABLE_SIZE \<Longrightarrow> i \<noteq> j \<Longrightarrow> p \<in> set (hptrs (ess i)) \<Longrightarrow> p \<notin> set (hptrs (ess j))"
    using rep i by (auto simp: hash_rep_def disjoint_iff)
qed

text \<open>Replacing one chain by another that only uses its own and fresh blocks.\<close>

lemma hash_update_old:
  assumes rep: "hash_rep s ess" and i: "i < MAX_TABLE_SIZE"
    and new: "\<forall>p \<in> set (hptrs es'). p \<in> set (hptrs (ess i)) \<or> cells (hh s) p = None"
    and j: "j < MAX_TABLE_SIZE" "j \<noteq> i" "p \<in> set (hptrs (ess j))"
  shows "p \<notin> set (hptrs es')" "p \<notin> set (hptrs (ess i))" "p \<noteq> nodes (ht s)"
proof -
  let ?t = "nodes (ht s)" and ?N = MAX_TABLE_SIZE
  have dm: "dom (cells (hh s)) = insert ?t (\<Union>j<?N. set (hptrs (ess j)))"
    using rep by (simp add: hash_rep_def)
  show n: "p \<notin> set (hptrs (ess i))" using hash_rep_disjoint(2) [OF rep j(1) i j(2,3)] .
  have "cells (hh s) p \<noteq> None" using dm j by blast
  with n new show "p \<notin> set (hptrs es')" by auto
  show "p \<noteq> ?t" using hash_rep_disjoint(1) [OF rep j(1)] j(3) by blast
qed

lemma hash_update_dom:
  assumes rep: "hash_rep s ess" and i: "i < MAX_TABLE_SIZE" and tab: "cells h' (nodes (ht s)) \<noteq> None" and ch: "chain h' es'"
    and frame: "\<forall>p. p \<noteq> nodes (ht s) \<longrightarrow> p \<notin> set (hptrs (ess i)) \<longrightarrow> p \<notin> set (hptrs es') \<longrightarrow> cells h' p = cells (hh s) p"
    and new: "\<forall>p \<in> set (hptrs es'). p \<in> set (hptrs (ess i)) \<or> cells (hh s) p = None"
    and gone: "\<forall>p \<in> set (hptrs (ess i)). p \<notin> set (hptrs es') \<longrightarrow> cells h' p = None"
  shows "dom (cells h') = insert (nodes (ht s)) (\<Union>j<MAX_TABLE_SIZE. set (hptrs ((ess(i := es')) j)))"
proof -
  let ?t = "nodes (ht s)" and ?N = MAX_TABLE_SIZE
  have dm: "dom (cells (hh s)) = insert ?t (\<Union>j<?N. set (hptrs (ess j)))"
    using rep by (simp add: hash_rep_def)
  note old = hash_update_old [OF rep i new]
  show ?thesis
  proof (intro equalityI subsetI)
    fix p assume p: "p \<in> dom (cells h')"
    show "p \<in> insert ?t (\<Union>j<?N. set (hptrs ((ess(i := es')) j)))"
    proof (cases "p = ?t \<or> p \<in> set (hptrs es')")
      case True
      then show ?thesis using i by fastforce
    next
      case False
      with p gone have n: "p \<notin> set (hptrs (ess i))" by auto
      with p False frame have "p \<in> dom (cells (hh s))" by (simp add: domIff)
      with dm False obtain j where "j < ?N" "p \<in> set (hptrs (ess j))" by auto
      with n show ?thesis by auto
    qed
  next
    fix p assume "p \<in> insert ?t (\<Union>j<?N. set (hptrs ((ess(i := es')) j)))"
    then consider "p = ?t" | "p \<in> set (hptrs es')" | j where "j < ?N" "j \<noteq> i" "p \<in> set (hptrs (ess j))"
      by (auto split: if_splits)
    then show "p \<in> dom (cells h')"
    proof cases
      case 1
      then show ?thesis using tab by blast
    next
      case 2
      then show ?thesis by (rule chain_ptr_dom [OF ch])
    next
      case (3 j)
      then show ?thesis using old [OF 3] frame dm by auto
    qed
  qed
qed

lemma hash_rep_update:
  assumes rep: "hash_rep s ess" and i: "i < MAX_TABLE_SIZE" and ok: "heap_ok h'"
    and tab: "cells h' (nodes (ht s)) =
      Some (CObj (HTab ((map (\<lambda>i. first (ess i)) [0..<MAX_TABLE_SIZE])[i := first es'])))"
    and ch: "chain h' es'" "distinct (hptrs es')" "distinct (map e_k es')"
      "\<forall>e \<in> set es'. hidx (e_k e) = int i"
    and frame: "\<And>p. p \<noteq> nodes (ht s) \<Longrightarrow> p \<notin> set (hptrs (ess i)) \<Longrightarrow> p \<notin> set (hptrs es') \<Longrightarrow>
      cells h' p = cells (hh s) p"
    and new: "\<And>p. p \<in> set (hptrs es') \<Longrightarrow> p \<in> set (hptrs (ess i)) \<or> cells (hh s) p = None"
    and gone: "\<And>p. p \<in> set (hptrs (ess i)) \<Longrightarrow> p \<notin> set (hptrs es') \<Longrightarrow> cells h' p = None"
    and cnt: "c = count (ht s) + int (length es') - int (length (ess i))"
  shows "hash_rep (s\<lparr>hh := h', ht := (ht s)\<lparr>count := c\<rparr>\<rparr>) (ess(i := es'))"
proof -
  let ?t = "nodes (ht s)" and ?N = MAX_TABLE_SIZE
  have new': "\<forall>p \<in> set (hptrs es'). p \<in> set (hptrs (ess i)) \<or> cells (hh s) p = None"
    by (intro ballI) (rule new)
  note old = hash_update_old [OF rep i new']
  have "map (\<lambda>j. first ((ess(i := es')) j)) [0..<?N] = (map (\<lambda>j. first (ess j)) [0..<?N])[i := first es']"
    using i by (auto intro!: nth_equalityI simp: nth_list_update)
  moreover have "chain h' (ess j)" if "j < ?N" "j \<noteq> i" for j
  proof (rule chain_frame [OF hash_rep_slot(2) [OF rep that(1)]])
    fix p assume "p \<in> set (hptrs (ess j))"
    from old [OF that this] show "cells h' p = cells (hh s) p" by (intro frame)
  qed
  moreover have "(\<Sum>j<?N. int (length ((ess(i := es')) j)))
      = (\<Sum>j<?N. int (length (ess j))) + int (length es') - int (length (ess i))"
  proof -
    have "(\<Sum>j<?N. f j) = f i + (\<Sum>j \<in> {..<?N} - {i}. f j)" for f :: "nat \<Rightarrow> int"
      using i by (simp add: sum.remove)
    from this [of "\<lambda>j. int (length ((ess(i := es')) j))"] this [of "\<lambda>j. int (length (ess j))"]
    show ?thesis by simp
  qed
  moreover have "dom (cells h') = insert ?t (\<Union>j<?N. set (hptrs ((ess(i := es')) j)))"
  proof (rule hash_update_dom [OF rep i _ ch(1) _ new'])
    show "cells h' ?t \<noteq> None" by (simp only: tab option.distinct not_False_eq_True simp_thms)
  qed (intro allI impI ballI, (rule frame | rule gone), assumption+)+
  moreover have "set (hptrs ((ess(i := es')) j)) \<inter> set (hptrs ((ess(i := es')) j')) = {}"
    if "j < ?N" "j' < ?N" "j \<noteq> j'" for j j'
  proof (cases "j = i \<or> j' = i")
    case True
    then show ?thesis using that old by fastforce
  next
    case False
    then show ?thesis using that hash_rep_disjoint(2) [OF rep that(1,2,3)] by auto
  qed
  ultimately show ?thesis
    using rep ok tab ch cnt by (simp add: hash_rep_def)
qed

section \<open>Lookup\<close>

lemma get_kv_rep:
  assumes rep: "hash_rep s ess" and i: "hidx k = int i" "i < MAX_TABLE_SIZE"
  shows "get_kv_hashtable (Some s) (Some k) =
    Some (case find (\<lambda>e. e_k e = k) (ess i) of None \<Rightarrow> NULL | Some e \<Rightarrow> e_vp e)"
  using get_loop_chain [of "hh s" "ess i" k] rep hash_rep_slot [OF rep i(2)] i
  by (simp add: get_kv_hashtable_def hash_rep_def)

lemma hash_get_spec:
  assumes wf: "hash_wf s" and k: "hash_key_ok k"
  shows "\<exists>p. get_kv_hashtable (Some s) (Some k) = Some p \<and>
    (case hash_map s k of None \<Rightarrow> p = NULL | Some v \<Rightarrow> p \<noteq> NULL \<and> rd_str (hh s) p = Some v)"
proof -
  from wf obtain ess where rep: "hash_rep s ess" by (auto simp: hash_wf_def)
  then have ok: "heap_ok (hh s)" by (simp add: hash_rep_def)
  from k obtain i where i: "hidx k = int i" "i < MAX_TABLE_SIZE" by (rule hidx_nat)
  have m: "hash_map s k = map_option e_v (find (\<lambda>e. e_k e = k) (ess i))"
    using k i by (simp add: hash_rep_map [OF rep] find_map_of)
  show ?thesis
  proof (cases "find (\<lambda>e. e_k e = k) (ess i)")
    case None
    then show ?thesis by (simp add: get_kv_rep [OF rep i] m)
  next
    case (Some e)
    then have "e \<in> set (ess i)" by (metis find_Some_iff nth_mem)
    then obtain xs ys where "ess i = xs @ e # ys" by (metis split_list)
    with hash_rep_slot(2) [OF rep i(2)] have "chain (hh s) (e # ys)" by (metis chain_append)
    then have "cells (hh s) (e_vp e) = Some (CStr (e_v e))" by simp
    with Some show ?thesis
      using heap_ok_not_null [OF ok] by (simp add: get_kv_rep [OF rep i] m rd_str_def)
  qed
qed

lemma hash_exist_spec:
  assumes "hash_wf s" "hash_key_ok k"
  shows "kv_exist (Some s) (Some k) = Some (if k \<in> dom (hash_map s) then 0 else -1)"
  using hash_get_spec [OF assms] by (auto simp: kv_exist_def split: option.splits)

section \<open>Update\<close>

lemma mod_loop_chain:
  "heap_ok h \<Longrightarrow> chain h (xs @ e # ys) \<Longrightarrow> \<forall>x \<in> set xs. e_k x \<noteq> k \<Longrightarrow> e_k e = k \<Longrightarrow>
   mod_loop k v (first (xs @ e # ys)) h = mod_loop k v (e_ptr e) h"
proof (induction xs)
  case Nil
  then show ?case by simp
next
  case (Cons x xs)
  then have "e_ptr x \<noteq> NULL" by (auto dest: heap_ok_not_null)
  then have "mod_loop k v (e_ptr x) h = mod_loop k v (first (xs @ e # ys)) h"
    using Cons.prems by (subst mod_loop.simps) (simp add: rd_node_def rd_str_def)
  then show ?case using Cons by simp
qed

text \<open>
  The chain predicate splits at an entry: the front part only sees the address of the entry.
\<close>

fun front :: "hobj heap \<Rightarrow> hentry list \<Rightarrow> addr \<Rightarrow> bool" where
  "front h [] q \<longleftrightarrow> True"
| "front h (e # es) q \<longleftrightarrow>
     cells h (e_ptr e) = Some (CObj (HNode \<lparr>node_key = e_kp e, node_value = e_vp e,
       node_next = (if es = [] then q else first es)\<rparr>)) \<and>
     cells h (e_kp e) = Some (CStr (e_k e)) \<and> cells h (e_vp e) = Some (CStr (e_v e)) \<and>
     front h es q"

lemma chain_append_iff: "chain h (xs @ ys) \<longleftrightarrow> front h xs (first ys) \<and> chain h ys"
  by (induction xs) (auto simp: first_append)

lemma front_frame:
  "front h es q \<Longrightarrow> (\<And>p. p \<in> set (hptrs es) \<Longrightarrow> cells h' p = cells h p) \<Longrightarrow> front h' es q"
  by (induction es) auto

lemma front_snoc:
  "front h (xs @ [c]) q \<longleftrightarrow> front h xs (e_ptr c) \<and>
     cells h (e_ptr c) = Some (CObj (HNode \<lparr>node_key = e_kp c, node_value = e_vp c, node_next = q\<rparr>)) \<and>
     cells h (e_kp c) = Some (CStr (e_k c)) \<and> cells h (e_vp c) = Some (CStr (e_v c))"
  by (induction xs) (auto simp: first_append)

lemma hash_mod_rep:
  assumes rep: "hash_rep s ess" and i: "hidx k = int i" "i < MAX_TABLE_SIZE"
    and oom: "oom (hh s) = []"
    and es: "ess i = xs @ e # ys" "\<forall>x \<in> set xs. e_k x \<noteq> k" "e_k e = k"
  shows "\<exists>s'. mod_kv_hashtable (Some s) (Some k) (Some v) = Some (Some s', 0) \<and> oom (hh s') = [] \<and>
    hash_rep s' (ess(i := xs @ e\<lparr>e_vp := brk (hh s), e_v := v\<rparr> # ys))"
proof -
  let ?C = "cells (hh s)" and ?b = "brk (hh s)" and ?t = "nodes (ht s)"
  let ?e = "e\<lparr>e_vp := ?b, e_v := v\<rparr>"
  note slot = hash_rep_slot [OF rep i(2)]
  from rep have ok: "heap_ok (hh s)"
    and tab: "?C ?t = Some (CObj (HTab (map (\<lambda>i. first (ess i)) [0..<MAX_TABLE_SIZE])))"
    by (auto simp: hash_rep_def)
  have ch: "chain (hh s) (xs @ e # ys)" and d: "distinct (hptrs (xs @ e # ys))"
    using slot es by auto
  from ch have e: "?C (e_ptr e) = Some (CObj (HNode \<lparr>node_key = e_kp e, node_value = e_vp e, node_next = first ys\<rparr>))"
      "?C (e_kp e) = Some (CStr k)" "?C (e_vp e) = Some (CStr (e_v e))"
    and fr: "front (hh s) xs (e_ptr e)" and chy: "chain (hh s) ys"
    using es(3) by (auto simp: chain_append_iff)
  have nt: "?t \<notin> set (hptrs (xs @ e # ys))" using hash_rep_disjoint(1) [OF rep i(2)] es by simp
  have fresh: "?C ?b = None" using ok by simp
  have b: "?b \<notin> set (hptrs (xs @ e # ys))" "?b \<noteq> ?t" "?b \<noteq> NULL"
    using chain_fresh [OF ok ch, of ?b] heap_ok_below_brk [OF ok tab] by simp_all
  have nn: "e_ptr e \<noteq> NULL" "e_vp e \<noteq> NULL" using e heap_ok_not_null [OF ok] by auto
  let ?h = "(hh s)\<lparr>cells := ?C(e_vp e := None, ?b \<mapsto> CStr v,
      e_ptr e \<mapsto> CObj (HNode \<lparr>node_key = e_kp e, node_value = ?b, node_next = first ys\<rparr>)),
      brk := Suc ?b, oom := []\<rparr>"
  have "mod_loop k v (e_ptr e) (hh s) = Some (?h, 0)"
    using nn e es(3) d b oom
    by (subst mod_loop.simps) (simp add: rd_node_def rd_str_def kvstore_free_def wr_node_def)
  then have run: "mod_kv_hashtable (Some s) (Some k) (Some v) = Some (Some (s\<lparr>hh := ?h\<rparr>), 0)"
    using mod_loop_chain [OF ok ch es(2,3)] slot(1) i es(1) by (simp add: mod_kv_hashtable_def)
  have upd: "hash_rep (s\<lparr>hh := ?h, ht := (ht s)\<lparr>count := count (ht s)\<rparr>\<rparr>) (ess(i := xs @ ?e # ys))"
  proof (rule hash_rep_update [OF rep i(2)])
    show "heap_ok ?h" using ok nn b heap_ok_below_brk [OF ok e(1)] by (auto simp: heap_ok_def)
    have "first (xs @ ?e # ys) = first (ess i)" using es by (simp add: first_append)
    then show "cells ?h ?t = Some (CObj (HTab ((map (\<lambda>i. first (ess i)) [0..<MAX_TABLE_SIZE])
        [i := first (xs @ ?e # ys)])))"
      using tab nt b i(2) list_update_id [of "map (\<lambda>i. first (ess i)) [0..<MAX_TABLE_SIZE]" i]
      by simp
    have "front ?h xs (e_ptr e)" by (rule front_frame [OF fr]) (use d b in auto)
    moreover have "chain ?h ys" by (rule chain_frame [OF chy]) (use d b in auto)
    ultimately show "chain ?h (xs @ ?e # ys)" using e es(3) d b by (auto simp: chain_append_iff)
  qed (use d b fresh slot es in \<open>auto split: if_splits\<close>)
  with run show ?thesis by auto
qed

section \<open>Insertion\<close>

lemma hash_insert_rep:
  assumes rep: "hash_rep s ess" and i: "hidx k = int i" "i < MAX_TABLE_SIZE"
    and oom: "oom (hh s) = []" and new: "find (\<lambda>e. e_k e = k) (ess i) = None"
  shows "\<exists>s' e. put_kv_hashtable (Some s) (Some k) (Some v) = Some (Some s', 0) \<and> oom (hh s') = [] \<and>
    e_k e = k \<and> e_v e = v \<and> hash_rep s' (ess(i := e # ess i))"
proof -
  let ?C = "cells (hh s)" and ?b = "brk (hh s)" and ?t = "nodes (ht s)"
  let ?e = "\<lparr>e_ptr = ?b, e_kp = Suc ?b, e_vp = Suc (Suc ?b), e_k = k, e_v = v\<rparr>"
  let ?tab = "map (\<lambda>i. first (ess i)) [0..<MAX_TABLE_SIZE]"
  note slot = hash_rep_slot [OF rep i(2)]
  from rep have ok: "heap_ok (hh s)" and tab: "?C ?t = Some (CObj (HTab ?tab))"
    by (auto simp: hash_rep_def)
  have tb: "?t < ?b" "?b \<noteq> NULL" using ok heap_ok_below_brk [OF ok tab] by simp_all
  have fresh: "?C ?b = None" "?C (Suc ?b) = None" "?C (Suc (Suc ?b)) = None"
    using ok by (simp_all add: heap_ok_def)
  have ni: "?b \<notin> set (hptrs (ess i))" "Suc ?b \<notin> set (hptrs (ess i))" "Suc (Suc ?b) \<notin> set (hptrs (ess i))"
      "?t \<notin> set (hptrs (ess i))"
    using chain_fresh [OF ok slot(2)] hash_rep_disjoint(1) [OF rep i(2)] by simp_all
  let ?n = "CObj (HNode \<lparr>node_key = Suc ?b, node_value = Suc (Suc ?b), node_next = first (ess i)\<rparr>)"
  let ?h = "(hh s)\<lparr>cells := ?C(Suc ?b \<mapsto> CStr k, Suc (Suc ?b) \<mapsto> CStr v, ?b \<mapsto> ?n,
      ?t \<mapsto> CObj (HTab (?tab[i := ?b]))), brk := Suc (Suc (Suc ?b)), oom := []\<rparr>"
  let ?hc = "(hh s)\<lparr>cells := ?C(Suc ?b \<mapsto> CStr k, Suc (Suc ?b) \<mapsto> CStr v,
      ?b \<mapsto> CObj (HNode \<lparr>node_key = Suc ?b, node_value = Suc (Suc ?b), node_next = NULL\<rparr>)),
      brk := Suc (Suc (Suc ?b)), oom := []\<rparr>"
  let ?s = "s\<lparr>hh := ?h, ht := (ht s)\<lparr>count := count (ht s) + 1\<rparr>\<rparr>"
  have cn: "create_node k v (hh s) = Some (?hc, ?b)"
    using oom tb fresh
    by (simp add: create_node_def wr_node_def rd_node_def Let_def)
  have run: "put_kv_hashtable (Some s) (Some k) (Some v) = Some (Some ?s, 0)"
    using tab tb i new
    by (simp add: put_kv_hashtable_def kv_exist_def get_kv_rep [OF rep i] cn rd_slot_def wr_slot_def
        rd_node_def wr_node_def)
  have "hash_rep ?s (ess(i := ?e # ess i))"
  proof (rule hash_rep_update [OF rep i(2)])
    show "heap_ok ?h" using ok tb heap_ok_not_null [OF ok tab] by (auto simp: heap_ok_def)
    show "chain ?h (?e # ess i)"
      using ni tb by (auto intro!: chain_frame [OF slot(2)])
    show "distinct (map e_k (?e # ess i))"
      using slot(4) new by (auto simp: find_None_iff)
  qed (use ni tb fresh slot i in \<open>auto split: if_splits\<close>)
  with run show ?thesis by (intro exI [of _ ?s] exI [of _ ?e]) simp
qed

lemma hash_put_ok:
  assumes inv: "hash_inv s" and k: "hash_key_ok k"
  shows "\<exists>s'. put_kv_hashtable (Some s) (Some k) (Some v) = Some (Some s', 0) \<and> hash_inv s' \<and>
    hash_map s' = (hash_map s)(k \<mapsto> v)"
proof -
  from inv obtain ess where rep: "hash_rep s ess" and oom: "oom (hh s) = []"
    by (auto simp: hash_inv_def hash_wf_def)
  from k obtain i where i: "hidx k = int i" "i < MAX_TABLE_SIZE" by (rule hidx_nat)
  have lift: "hash_map s' = (hash_map s)(k \<mapsto> v)"
    if r: "hash_rep s' (ess(i := es'))" and m: "map_of (map ekv es') = (map_of (map ekv (ess i)))(k \<mapsto> v)"
    for s' es'
    using k i m by (auto simp: fun_eq_iff hash_rep_map [OF rep] hash_rep_map [OF r])
  show ?thesis
  proof (cases "find (\<lambda>e. e_k e = k) (ess i)")
    case None
    from hash_insert_rep [OF rep i oom None, of v] obtain s' e where
      s': "put_kv_hashtable (Some s) (Some k) (Some v) = Some (Some s', 0)" "oom (hh s') = []"
        "e_k e = k" "e_v e = v" "hash_rep s' (ess(i := e # ess i))" by blast
    have "hash_map s' = (hash_map s)(k \<mapsto> v)"
      by (rule lift [OF s'(5)]) (use s' in \<open>simp add: ekv_def\<close>)
    with s' show ?thesis by (auto simp: hash_inv_def hash_wf_def)
  next
    case (Some e)
    then obtain xs ys where es: "ess i = xs @ e # ys" "e_k e = k" "\<forall>x \<in> set xs. e_k x \<noteq> k"
      by (rule find_split)
    from hash_mod_rep [OF rep i oom es(1,3,2), of v] obtain s' where
      s': "mod_kv_hashtable (Some s) (Some k) (Some v) = Some (Some s', 0)" "oom (hh s') = []"
        "hash_rep s' (ess(i := xs @ e\<lparr>e_vp := brk (hh s), e_v := v\<rparr> # ys))" by blast
    have d: "distinct (map fst (map ekv xs @ (k, e_v e) # map ekv ys))"
      using hash_rep_slot(4) [OF rep i(2)] es by (auto simp: ekv_def comp_def)
    have "map_of (map ekv (xs @ e\<lparr>e_vp := brk (hh s), e_v := v\<rparr> # ys))
        = (map_of (map ekv (ess i)))(k \<mapsto> v)"
      using map_of_replace_mid [OF d, of v] es by (simp add: ekv_def)
    then have "hash_map s' = (hash_map s)(k \<mapsto> v)" by (rule lift [OF s'(3)])
    moreover have "k \<in> dom (hash_map s)"
      using k i Some by (simp add: domIff hash_rep_map [OF rep] find_map_of)
    ultimately show ?thesis
      using s' inv k hash_exist_spec [of s k]
      by (auto simp: hash_inv_def hash_wf_def put_kv_hashtable_def)
  qed
qed

section \<open>Deletion\<close>

lemma find_pred_chain:
  "heap_ok h \<Longrightarrow> chain h (c # xs @ ys) \<Longrightarrow> \<forall>x \<in> set xs. e_k x \<noteq> k \<Longrightarrow>
   ys = [] \<or> e_k (hd ys) = k \<Longrightarrow> find_pred h k (e_ptr c) = Some (e_ptr (last (c # xs)))"
proof (induction xs arbitrary: c)
  case Nil
  show ?case
  proof (cases ys)
    case Nil
    with Nil.prems show ?thesis by (subst find_pred.simps) (simp add: rd_node_def)
  next
    case (Cons y ys')
    with Nil.prems have "e_ptr y \<noteq> NULL" by (auto dest: heap_ok_not_null)
    with Cons Nil.prems show ?thesis by (subst find_pred.simps) (simp add: rd_node_def rd_str_def)
  qed
next
  case (Cons x xs)
  then have "e_ptr x \<noteq> NULL" by (auto dest: heap_ok_not_null)
  then have "find_pred h k (e_ptr c) = find_pred h k (e_ptr x)"
    using Cons.prems by (subst find_pred.simps) (simp add: rd_node_def rd_str_def)
  then show ?case using Cons by simp
qed

lemma free_node_ok:
  assumes "cells h p = Some (CObj (HNode n))" "cells h (node_key n) = Some (CStr k)"
    "cells h (node_value n) = Some (CStr v)" "heap_ok h" "node_key n \<noteq> node_value n"
  shows "free_node p h =
    Some (h\<lparr>cells := (cells h)(node_key n := None, node_value n := None, p := None)\<rparr>)"
proof -
  have "p \<noteq> NULL" "node_key n \<noteq> NULL" "node_value n \<noteq> NULL" "p \<noteq> node_key n" "p \<noteq> node_value n"
    using assms heap_ok_not_null [OF assms(4)] by auto
  then show ?thesis
    using assms by (simp add: free_node_def rd_node_def kvstore_free_def)
qed

text \<open>What the representation says of an entry in the middle of its bucket.\<close>

lemma hash_entry:
  assumes rep: "hash_rep s ess" and i: "i < MAX_TABLE_SIZE" and es: "ess i = xs @ e # ys"
  shows "heap_ok (hh s)" "cells (hh s) (nodes (ht s)) = Some (CObj (HTab (map (\<lambda>i. first (ess i)) [0..<MAX_TABLE_SIZE])))"
    "chain (hh s) (xs @ e # ys)" "distinct (hptrs (xs @ e # ys))" "distinct (map e_k (xs @ e # ys))"
    "cells (hh s) (e_ptr e) = Some (CObj (HNode \<lparr>node_key = e_kp e, node_value = e_vp e, node_next = first ys\<rparr>))"
    "cells (hh s) (e_kp e) = Some (CStr (e_k e))" "cells (hh s) (e_vp e) = Some (CStr (e_v e))"
    "front (hh s) xs (e_ptr e)" "chain (hh s) ys" "nodes (ht s) \<notin> set (hptrs (xs @ e # ys))" "e_ptr e \<noteq> NULL"
    "0 < nodes (ht s)" "nodes (ht s) < brk (hh s)"
proof -
  note slot = hash_rep_slot [OF rep i]
  show ok: "heap_ok (hh s)" and tab: "cells (hh s) (nodes (ht s)) = Some (CObj (HTab (map (\<lambda>i. first (ess i)) [0..<MAX_TABLE_SIZE])))"
    using rep by (auto simp: hash_rep_def)
  show ch: "chain (hh s) (xs @ e # ys)" and "distinct (hptrs (xs @ e # ys))" "distinct (map e_k (xs @ e # ys))"
    using slot es by auto
  from ch show e: "cells (hh s) (e_ptr e) = Some (CObj (HNode \<lparr>node_key = e_kp e, node_value = e_vp e, node_next = first ys\<rparr>))"
      "cells (hh s) (e_kp e) = Some (CStr (e_k e))" "cells (hh s) (e_vp e) = Some (CStr (e_v e))"
      "front (hh s) xs (e_ptr e)" "chain (hh s) ys"
    by (auto simp: chain_append_iff)
  show "nodes (ht s) \<notin> set (hptrs (xs @ e # ys))" using hash_rep_disjoint(1) [OF rep i] es by simp
  show "e_ptr e \<noteq> NULL" using e heap_ok_not_null [OF ok] by auto
  show "0 < nodes (ht s)" "nodes (ht s) < brk (hh s)" using heap_ok_not_null [OF ok tab] heap_ok_below_brk [OF ok tab] by auto
qed

lemma hptrs_behind:
  assumes "distinct (hptrs (xs @ e # ys))" "p \<in> set (hptrs ys)"
  shows "p \<noteq> e_ptr e" "p \<noteq> e_kp e" "p \<noteq> e_vp e" "p \<notin> set (hptrs xs)"
  using assms by auto

lemma hptrs_here:
  assumes "distinct (hptrs (xs @ e # ys))"
  shows "e_ptr e \<noteq> e_kp e" "e_ptr e \<noteq> e_vp e" "e_kp e \<noteq> e_vp e" "e_ptr e \<notin> set (hptrs xs)" "e_kp e \<notin> set (hptrs xs)" "e_vp e \<notin> set (hptrs xs)"
    "e_ptr e \<notin> set (hptrs ys)" "e_kp e \<notin> set (hptrs ys)" "e_vp e \<notin> set (hptrs ys)"
    "distinct (hptrs (xs @ ys))"
  using assms by auto

lemma hash_delete_head:
  assumes rep: "hash_rep s ess" and i: "hidx k = int i" "i < MAX_TABLE_SIZE"
    and es: "ess i = [] @ e # ys" "e_k e = k"
  shows "\<exists>s'. delete_kv_hashtable (Some s) (Some k) = Some (Some s', 0) \<and> oom (hh s') = oom (hh s) \<and>
    hash_rep s' (ess(i := ys))"
proof -
  let ?C = "cells (hh s)" and ?t = "nodes (ht s)"
  define T where "T = map (\<lambda>i. first (ess i)) [0..<MAX_TABLE_SIZE]"
  note slot = hash_rep_slot [OF rep i(2)]
  note E = hash_entry [OF rep i(2) es(1), folded T_def]
  note ok = E(1) and tab = E(2) and ch = E(3) and d = E(4) and dk = E(5) and fr = E(9) and chy = E(10) and nt = E(11) and nn = E(12)
  note tb = E(13,14)
  note here = hptrs_here [OF d]
  have e: "?C (e_ptr e) = Some (CObj (HNode \<lparr>node_key = e_kp e, node_value = e_vp e, node_next = first ys\<rparr>))"
      "?C (e_kp e) = Some (CStr k)" "?C (e_vp e) = Some (CStr (e_v e))"
    using E(6-8) es by simp_all
  have te: "?t \<noteq> e_ptr e" "?t \<noteq> e_kp e" "?t \<noteq> e_vp e" using nt by auto
  let ?en = "\<lparr>node_key = e_kp e, node_value = e_vp e, node_next = first ys\<rparr>"
  let ?h1 = "(hh s)\<lparr>cells := ?C(?t \<mapsto> CObj (HTab (T[i := first ys])))\<rparr>"
  let ?h = "(hh s)\<lparr>cells := ?C(?t \<mapsto> CObj (HTab (T[i := first ys])), e_kp e := None, e_vp e := None, e_ptr e := None)\<rparr>"
  let ?s = "s\<lparr>hh := ?h, ht := (ht s)\<lparr>count := count (ht s) - 1\<rparr>\<rparr>"
  have "cells ?h1 (e_ptr e) = Some (CObj (HNode ?en))" "cells ?h1 (e_kp e) = Some (CStr k)" "cells ?h1 (e_vp e) = Some (CStr (e_v e))"
    using e te by simp_all
  then have fn: "free_node (e_ptr e) ?h1 = Some ?h"
    using free_node_ok [where h = ?h1 and p = "e_ptr e" and n = ?en and k = k and v = "e_v e"] here(1-3) heap_ok_write [OF ok tab]
    by simp
  have "length T = MAX_TABLE_SIZE" by (simp add: T_def)
  then have run: "delete_kv_hashtable (Some s) (Some k) = Some (Some ?s, 0)"
    using slot(1) i nn e es te tab fn
    by (simp add: delete_kv_hashtable_def rd_node_def rd_str_def wr_slot_def)
  have "hash_rep ?s (ess(i := ys))"
  proof (rule hash_rep_update [OF rep i(2), folded T_def])
    show "heap_ok ?h" using ok tb by (auto simp: heap_ok_def)
    show "chain ?h ys"
    proof (rule chain_frame [OF chy])
      fix p assume "p \<in> set (hptrs ys)"
      moreover from this nt have "p \<noteq> ?t" by auto
      ultimately show "cells ?h p = cells (hh s) p" using hptrs_behind [OF d] by simp
    qed
    show "cells ?h ?t = Some (CObj (HTab (T[i := first ys])))" using te by simp
    show "distinct (hptrs ys)" using here(10) by simp
    show "distinct (map e_k ys)" using dk by simp
    show "\<forall>e \<in> set ys. hidx (e_k e) = int i" using slot(5) es by simp
    show "count (ht s) - 1 = count (ht s) + int (length ys) - int (length (ess i))" using es by simp
    fix p
    show "cells ?h p = cells (hh s) p" if "p \<noteq> ?t" "p \<notin> set (hptrs (ess i))" using that es by simp
    show "p \<in> set (hptrs (ess i)) \<or> cells (hh s) p = None" if "p \<in> set (hptrs ys)" using that es by simp
    show "cells ?h p = None" if "p \<in> set (hptrs (ess i))" "p \<notin> set (hptrs ys)" using that es by auto
  qed
  with run show ?thesis by auto
qed

lemma pred_of_entry:
  assumes "heap_ok h" "chain h (x # xs @ ys)" "x # xs = xs' @ [c]" "\<forall>z \<in> set xs. e_k z \<noteq> k" "ys = [] \<or> e_k (hd ys) = k"
  shows "cells h (e_ptr x) = Some (CObj (HNode \<lparr>node_key = e_kp x, node_value = e_vp x, node_next = first (xs @ ys)\<rparr>))"
    "cells h (e_kp x) = Some (CStr (e_k x))" "e_ptr x \<noteq> NULL" "find_pred h k (e_ptr x) = Some (e_ptr c)"
proof -
  show *: "cells h (e_ptr x) = Some (CObj (HNode \<lparr>node_key = e_kp x, node_value = e_vp x, node_next = first (xs @ ys)\<rparr>))"
    "cells h (e_kp x) = Some (CStr (e_k x))" using assms(2) by simp_all
  show "e_ptr x \<noteq> NULL" using heap_ok_not_null [OF assms(1) *(1)] .
  have "last (x # xs) = c" using assms(3) by (metis last_snoc)
  then show "find_pred h k (e_ptr x) = Some (e_ptr c)" using find_pred_chain [OF assms(1,2,4,5)] by simp
qed

lemma hash_delete_behind:
  assumes rep: "hash_rep s ess" and i: "hidx k = int i" "i < MAX_TABLE_SIZE"
    and es: "ess i = xs @ e # ys" "\<forall>x \<in> set xs. e_k x \<noteq> k" "e_k e = k" and snoc: "xs = xs' @ [c]"
  shows "\<exists>s'. delete_kv_hashtable (Some s) (Some k) = Some (Some s', 0) \<and> oom (hh s') = oom (hh s) \<and>
    hash_rep s' (ess(i := xs @ ys))"
proof -
  let ?C = "cells (hh s)" and ?t = "nodes (ht s)"
  define T where "T = map (\<lambda>i. first (ess i)) [0..<MAX_TABLE_SIZE]"
  note slot = hash_rep_slot [OF rep i(2)]
  note E = hash_entry [OF rep i(2) es(1), folded T_def]
  note ok = E(1) and tab = E(2) and ch = E(3) and d = E(4) and dk = E(5) and fr = E(9) and chy = E(10) and nt = E(11) and nn = E(12)
  have e: "?C (e_ptr e) = Some (CObj (HNode \<lparr>node_key = e_kp e, node_value = e_vp e, node_next = first ys\<rparr>))"
      "?C (e_kp e) = Some (CStr k)" "?C (e_vp e) = Some (CStr (e_v e))"
    using E(6-8) es by simp_all
  let ?en = "\<lparr>node_key = e_kp e, node_value = e_vp e, node_next = first ys\<rparr>"
  let ?n = "CObj (HNode \<lparr>node_key = e_kp c, node_value = e_vp c, node_next = first ys\<rparr>)"
  let ?h = "(hh s)\<lparr>cells := ?C(e_ptr c \<mapsto> ?n, e_kp e := None, e_vp e := None, e_ptr e := None)\<rparr>"
  let ?h1 = "(hh s)\<lparr>cells := ?C(e_ptr c \<mapsto> ?n)\<rparr>"
  let ?s = "s\<lparr>hh := ?h, ht := (ht s)\<lparr>count := count (ht s) - 1\<rparr>\<rparr>"
  from fr snoc have c: "?C (e_ptr c) = Some (CObj (HNode \<lparr>node_key = e_kp c, node_value = e_vp c, node_next = e_ptr e\<rparr>))"
    "?C (e_kp c) = Some (CStr (e_k c))" "?C (e_vp c) = Some (CStr (e_v c))"
    and fr': "front (hh s) xs' (e_ptr c)"
    by (auto simp: front_snoc)
  have d': "distinct (hptrs (xs' @ c # (e # ys)))" using d snoc by simp
  note here = hptrs_here [OF d] and cere = hptrs_here [OF d']
  have dc: "e_ptr c \<noteq> e_ptr e" "e_ptr c \<noteq> e_kp e" "e_ptr c \<noteq> e_vp e" "e_ptr c \<notin> set (hptrs ys)"
    "e_kp c \<noteq> e_ptr e" "e_kp c \<noteq> e_kp e" "e_kp c \<noteq> e_vp e" "e_vp c \<noteq> e_ptr e" "e_vp c \<noteq> e_kp e" "e_vp c \<noteq> e_vp e"
    using cere(7-9) by simp_all
  have te: "?t \<noteq> e_ptr c" "?t \<noteq> e_ptr e" "?t \<noteq> e_kp e" "?t \<noteq> e_vp e" using nt snoc by auto
  have "cells ?h1 (e_ptr e) = Some (CObj (HNode ?en))" "cells ?h1 (e_kp e) = Some (CStr k)" "cells ?h1 (e_vp e) = Some (CStr (e_v e))"
    using e dc(1-3) by simp_all
  then have fn: "free_node (e_ptr e) ?h1 = Some ?h"
    using free_node_ok [where h = ?h1 and p = "e_ptr e" and n = ?en and k = k and v = "e_v e"] here(1-3)
      heap_ok_write [OF ok c(1)] by simp
  obtain x xs1 where xs: "xs = x # xs1" using snoc by (meson append_is_Nil_conv neq_Nil_conv not_Cons_self2)
  have "cells (hh s) (e_ptr x) = Some (CObj (HNode \<lparr>node_key = e_kp x, node_value = e_vp x, node_next = first (xs1 @ e # ys)\<rparr>))"
      "cells (hh s) (e_kp x) = Some (CStr (e_k x))" "e_ptr x \<noteq> NULL"
    and "find_pred (hh s) k (e_ptr x) = Some (e_ptr c)"
    by (rule pred_of_entry [OF ok, of x xs1 "e # ys" xs' c]; use ch es xs snoc in simp)+
  then have run: "delete_kv_hashtable (Some s) (Some k) = Some (Some ?s, 0)"
    using slot(1) i nn e es(1,2) xs c(1) dc(1) fn
    by (simp add: delete_kv_hashtable_def rd_node_def rd_str_def wr_node_def)
  have behind: "p \<noteq> e_ptr c" "p \<noteq> e_ptr e" "p \<noteq> e_kp e" "p \<noteq> e_vp e" if "p \<in> set (hptrs ys)" for p
    using that hptrs_behind [OF d that] dc(4) by auto
  have before: "p \<noteq> e_ptr c" "p \<noteq> e_ptr e" "p \<noteq> e_kp e" "p \<noteq> e_vp e" if "p \<in> set (hptrs xs')" for p
    using that here(4-6) cere(4) snoc by auto
  have "hash_rep ?s (ess(i := xs @ ys))"
  proof (rule hash_rep_update [OF rep i(2), folded T_def])
    show "heap_ok ?h" using ok heap_ok_below_brk [OF ok c(1)] heap_ok_not_null [OF ok c(1)]
      by (auto simp: heap_ok_def)
    have fx: "first (xs @ ys) = T ! i" using es(1) xs i(2) by (simp add: T_def)
    show "cells ?h ?t = Some (CObj (HTab (T[i := first (xs @ ys)])))" unfolding fx using tab te by simp
    have "front ?h xs' (e_ptr c)" by (rule front_frame [OF fr']) (use before in auto)
    moreover have "chain ?h ys" by (rule chain_frame [OF chy]) (simp add: behind)
    then have "chain ?h (c # ys)" using c(2,3) cere(1,2) dc by simp
    moreover have "first (c # ys) = e_ptr c" by simp
    ultimately have "chain ?h (xs' @ c # ys)" unfolding chain_append_iff by (simp only: simp_thms)
    then show "chain ?h (xs @ ys)" unfolding snoc append.assoc append.simps .
    show "distinct (hptrs (xs @ ys))" by (rule here(10))
    show "distinct (map e_k (xs @ ys))" using dk by auto
    show "\<forall>e \<in> set (xs @ ys). hidx (e_k e) = int i" using slot(5) es(1) by simp
    show "count (ht s) - 1 = count (ht s) + int (length (xs @ ys)) - int (length (ess i))" using es(1) by simp
    fix p
    show "cells ?h p = cells (hh s) p" if "p \<noteq> ?t" "p \<notin> set (hptrs (ess i))" using that es(1) snoc by simp
    show "p \<in> set (hptrs (ess i)) \<or> cells (hh s) p = None" if "p \<in> set (hptrs (xs @ ys))" using that es(1) by auto
    show "cells ?h p = None" if "p \<in> set (hptrs (ess i))" "p \<notin> set (hptrs (xs @ ys))" using that es(1) by auto
  qed
  with run show ?thesis by auto
qed

text \<open>
  Deletion unlinks the entry, at the head of the bucket or behind its predecessor, and frees the
  node and both strings.
\<close>

lemma hash_delete_rep:
  assumes "hash_rep s ess" "hidx k = int i" "i < MAX_TABLE_SIZE" "ess i = xs @ e # ys" "\<forall>x \<in> set xs. e_k x \<noteq> k" "e_k e = k"
  shows "\<exists>s'. delete_kv_hashtable (Some s) (Some k) = Some (Some s', 0) \<and> oom (hh s') = oom (hh s) \<and>
    hash_rep s' (ess(i := xs @ ys))"
proof (cases xs rule: rev_cases)
  case Nil
  then show ?thesis using hash_delete_head [OF assms(1-3), of e ys] assms(4,6) by simp
next
  case (snoc xs' c)
  then show ?thesis using hash_delete_behind [OF assms] by blast
qed

lemma hash_delete_ok:
  assumes inv: "hash_inv s" and k: "hash_key_ok k" and m: "hash_map s k \<noteq> None"
  shows "\<exists>s'. delete_kv_hashtable (Some s) (Some k) = Some (Some s', 0) \<and> hash_inv s' \<and>
    hash_map s' = (hash_map s)(k := None)"
proof -
  from inv obtain ess where rep: "hash_rep s ess" and oom: "oom (hh s) = []"
    by (auto simp: hash_inv_def hash_wf_def)
  from k obtain i where i: "hidx k = int i" "i < MAX_TABLE_SIZE" by (rule hidx_nat)
  from m k i obtain e where "find (\<lambda>e. e_k e = k) (ess i) = Some e"
    by (auto simp: hash_rep_map [OF rep] find_map_of)
  then obtain xs ys where es: "ess i = xs @ e # ys" "e_k e = k" "\<forall>x \<in> set xs. e_k x \<noteq> k"
    by (rule find_split)
  from hash_delete_rep [OF rep i es(1,3,2)] obtain s' where
    s': "delete_kv_hashtable (Some s) (Some k) = Some (Some s', 0)" "oom (hh s') = oom (hh s)"
      "hash_rep s' (ess(i := xs @ ys))" by blast
  have d: "distinct (map fst (map ekv xs @ (k, e_v e) # map ekv ys))"
    using hash_rep_slot(4) [OF rep i(2)] es by (auto simp: ekv_def comp_def)
  have "map_of (map ekv (xs @ ys)) = (map_of (map ekv (ess i)))(k := None)"
    using map_of_delete_mid [OF d] es by (simp add: ekv_def)
  then have "hash_map s' = (hash_map s)(k := None)"
    using k i by (auto simp: fun_eq_iff hash_rep_map [OF rep] hash_rep_map [OF s'(3)])
  with s' oom show ?thesis by (auto simp: hash_inv_def hash_wf_def)
qed

lemma hash_delete_absent:
  assumes wf: "hash_wf s" and k: "hash_key_ok k" and m: "hash_map s k = None"
  shows "delete_kv_hashtable (Some s) (Some k) = Some (Some s, -1)"
proof -
  from wf obtain ess where rep: "hash_rep s ess" by (auto simp: hash_wf_def)
  then have ok: "heap_ok (hh s)" by (simp add: hash_rep_def)
  from k obtain i where i: "hidx k = int i" "i < MAX_TABLE_SIZE" by (rule hidx_nat)
  note slot = hash_rep_slot [OF rep i(2)]
  from m k i have "find (\<lambda>e. e_k e = k) (ess i) = None"
    by (simp add: hash_rep_map [OF rep] find_map_of)
  then have new: "\<forall>e \<in> set (ess i). e_k e \<noteq> k" by (simp add: find_None_iff)
  show ?thesis
  proof (cases "ess i")
    case Nil
    then show ?thesis using slot(1) i by (simp add: delete_kv_hashtable_def)
  next
    case (Cons c xs)
    have ch: "chain (hh s) (c # xs @ [])" using slot(2) Cons by simp
    then have p: "find_pred (hh s) k (e_ptr c) = Some (e_ptr (last (c # xs)))"
      using find_pred_chain [OF ok ch, of k] new Cons by simp
    have "front (hh s) (butlast (c # xs) @ [last (c # xs)]) NULL"
      using ch chain_append_iff [of "hh s" "c # xs" "[]"] by simp
    then have "cells (hh s) (e_ptr (last (c # xs))) = Some (CObj (HNode
        \<lparr>node_key = e_kp (last (c # xs)), node_value = e_vp (last (c # xs)), node_next = NULL\<rparr>))"
      unfolding front_snoc by blast
    with p show ?thesis
      using slot(1) i Cons new ch heap_ok_not_null [OF ok]
      by (simp add: delete_kv_hashtable_def rd_node_def rd_str_def del: last.simps)
  qed
qed

section \<open>Counting\<close>

lemma hash_rep_dom:
  assumes rep: "hash_rep s ess"
  shows "dom (hash_map s) = (\<Union>i<MAX_TABLE_SIZE. e_k ` set (ess i))"
proof (intro equalityI subsetI)
  fix k assume "k \<in> dom (hash_map s)"
  then have k: "hash_key_ok k" and m: "map_of (map ekv (ess (nat (hidx k)))) k \<noteq> None"
    by (auto simp: hash_rep_map [OF rep] split: if_splits)
  from k obtain i where i: "hidx k = int i" "i < MAX_TABLE_SIZE" by (rule hidx_nat)
  with m have "k \<in> e_k ` set (ess i)"
    by (auto simp: map_of_eq_None_iff ekv_def image_iff)
  with i show "k \<in> (\<Union>i<MAX_TABLE_SIZE. e_k ` set (ess i))" by auto
next
  fix k assume "k \<in> (\<Union>i<MAX_TABLE_SIZE. e_k ` set (ess i))"
  then obtain i e where i: "i < MAX_TABLE_SIZE" "e \<in> set (ess i)" "k = e_k e" by auto
  with hash_rep_slot(5) [OF rep i(1)] have h: "hidx k = int i" by auto
  moreover have "map_of (map ekv (ess i)) k \<noteq> None"
    using i by (auto simp: map_of_eq_None_iff ekv_def image_iff)
  ultimately show "k \<in> dom (hash_map s)"
    by (simp add: domIff hash_rep_map [OF rep] hash_key_ok_def)
qed

lemma hash_count_spec:
  assumes "hash_wf s"
  shows "count_hashtable (Some s) = Some (int (card (dom (hash_map s))))" "finite (dom (hash_map s))"
proof -
  from assms obtain ess where rep: "hash_rep s ess" by (auto simp: hash_wf_def)
  have "card (\<Union>i<MAX_TABLE_SIZE. e_k ` set (ess i)) = (\<Sum>i<MAX_TABLE_SIZE. card (e_k ` set (ess i)))"
  proof (rule card_UN_disjoint)
    show "\<forall>i \<in> {..<MAX_TABLE_SIZE}. \<forall>j \<in> {..<MAX_TABLE_SIZE}. i \<noteq> j \<longrightarrow>
        e_k ` set (ess i) \<inter> e_k ` set (ess j) = {}"
    proof (intro ballI impI)
      fix i j assume ij: "i \<in> {..<MAX_TABLE_SIZE}" "j \<in> {..<MAX_TABLE_SIZE}" "i \<noteq> j"
      show "e_k ` set (ess i) \<inter> e_k ` set (ess j) = {}"
      proof (rule ccontr)
        assume "e_k ` set (ess i) \<inter> e_k ` set (ess j) \<noteq> {}"
        then obtain e e' where "e \<in> set (ess i)" "e' \<in> set (ess j)" "e_k e = e_k e'" by auto
        with ij hash_rep_slot(5) [OF rep] have "int i = int j" by (metis lessThan_iff)
        with ij show False by simp
      qed
    qed
  qed simp_all
  also have "\<dots> = (\<Sum>i<MAX_TABLE_SIZE. length (ess i))"
  proof (rule sum.cong)
    fix i assume "i \<in> {..<MAX_TABLE_SIZE}"
    then have "distinct (map e_k (ess i))" using hash_rep_slot(4) [OF rep] by simp
    then show "card (e_k ` set (ess i)) = length (ess i)"
      by (metis distinct_card length_map list.set_map)
  qed simp
  finally show "count_hashtable (Some s) = Some (int (card (dom (hash_map s))))"
    using rep by (simp add: hash_rep_dom [OF rep] count_hashtable_def hash_rep_def)
  show "finite (dom (hash_map s))" by (simp add: hash_rep_dom [OF rep])
qed

section \<open>Creation\<close>

text \<open>
  The table is usable only if the block \<open>malloc\<close> returned happens to be all zero.
\<close>

lemma create_hashtable_rep:
  assumes "heap_ok (hh s)" "oom (hh s) = []" "cells (hh s) = Map.empty"
  shows "\<exists>s'. create_hashtable (replicate MAX_TABLE_SIZE NULL) (Some s) = (Some s', 0) \<and>
    oom (hh s') = [] \<and> hash_rep s' (\<lambda>i. [])"
proof -
  let ?b = "brk (hh s)"
  have "replicate MAX_TABLE_SIZE NULL = map (\<lambda>i. first []) [0..<MAX_TABLE_SIZE]"
    by (auto intro!: nth_equalityI)
  then show ?thesis
    using assms heap_ok_brk_pos [OF assms(1)]
    by (auto simp: create_hashtable_def hash_rep_def heap_ok_def)
qed

lemma create_hashtable_inv:
  assumes "heap_ok (hh s)" "oom (hh s) = []" "cells (hh s) = Map.empty"
  shows "\<exists>s'. create_hashtable (replicate MAX_TABLE_SIZE NULL) (Some s) = (Some s', 0) \<and>
    hash_inv s' \<and> hash_map s' = Map.empty"
proof -
  from create_hashtable_rep [OF assms] obtain s' where
    s': "create_hashtable (replicate MAX_TABLE_SIZE NULL) (Some s) = (Some s', 0)" "oom (hh s') = []"
      "hash_rep s' (\<lambda>i. [])" by blast
  then show ?thesis
    by (auto simp: hash_inv_def hash_wf_def fun_eq_iff hash_rep_map [OF s'(3)])
qed

text \<open>
  A stray non-NULL word in the fresh block is followed as if it were a chain: the first request
  for a key of that bucket is undefined.
\<close>

lemma create_hashtable_junk:
  assumes "heap_ok (hh s)" "oom (hh s) = []" "cells (hh s) = Map.empty" "length junk = MAX_TABLE_SIZE"
    and k: "hidx k = int i" "junk ! i \<noteq> NULL" "junk ! i \<noteq> brk (hh s)"
  shows "\<exists>s'. create_hashtable junk (Some s) = (Some s', 0) \<and> get_kv_hashtable (Some s') (Some k) = None \<and>
    nodes (ht s') = brk (hh s)"
proof -
  let ?s = "s\<lparr>hh := (hh s)\<lparr>cells := [brk (hh s) \<mapsto> CObj (HTab junk)], brk := Suc (brk (hh s)), oom := []\<rparr>,
      ht := \<lparr>nodes = brk (hh s), max_slots = int MAX_TABLE_SIZE, count = 0\<rparr>\<rparr>"
  have i: "i < MAX_TABLE_SIZE" using hidx_less [of k] k by simp
  have "create_hashtable junk (Some s) = (Some ?s, 0)"
    using assms heap_ok_brk_pos [OF assms(1)] by (simp add: create_hashtable_def Let_def)
  moreover have "get_kv_hashtable (Some ?s) (Some k) = None"
    using assms i by (simp add: get_kv_hashtable_def rd_slot_def get_loop.simps rd_node_def)
  ultimately show ?thesis by (intro exI [of _ ?s]) simp
qed

section \<open>Undefined requests\<close>

text \<open>A key whose bytes sum to a negative number indexes the array below its start.\<close>

lemma hash_bad_key:
  assumes "\<not> hash_key_ok k"
  shows "get_kv_hashtable (Some s) (Some k) = None" "put_kv_hashtable (Some s) (Some k) (Some v) = None"
    "delete_kv_hashtable (Some s) (Some k) = None"
proof -
  have "rd_slot s (hidx k) = None"
    using assms by (auto simp: rd_slot_def hash_key_ok_def split: option.splits cell.splits hobj.splits)
  then show "get_kv_hashtable (Some s) (Some k) = None"
    "put_kv_hashtable (Some s) (Some k) (Some v) = None"
    "delete_kv_hashtable (Some s) (Some k) = None"
    by (simp_all add: get_kv_hashtable_def put_kv_hashtable_def delete_kv_hashtable_def kv_exist_def Let_def)
qed

text \<open>Running out of memory is never handled: inserting writes through NULL, updating asserts.\<close>

lemma hash_put_oom:
  assumes wf: "hash_wf s" and k: "hash_key_ok k" and oom: "oom (hh s) = True # fs"
  shows "put_kv_hashtable (Some s) (Some k) (Some v) = None"
proof -
  from wf obtain ess where rep: "hash_rep s ess" by (auto simp: hash_wf_def)
  then have ok: "heap_ok (hh s)" by (simp add: hash_rep_def)
  from k obtain i where i: "hidx k = int i" "i < MAX_TABLE_SIZE" by (rule hidx_nat)
  note slot = hash_rep_slot [OF rep i(2)]
  show ?thesis
  proof (cases "find (\<lambda>e. e_k e = k) (ess i)")
    case None
    have "cells (hh s) NULL = None" using ok by (simp add: heap_ok_def)
    then show ?thesis
      using None oom slot(1) i
      by (simp add: put_kv_hashtable_def kv_exist_def get_kv_rep [OF rep i] create_node_def rd_node_def
          rd_slot_def split: option.splits cell.splits hobj.splits)
  next
    case (Some e)
    then obtain xs ys where es: "ess i = xs @ e # ys" "e_k e = k" "\<forall>x \<in> set xs. e_k x \<noteq> k"
      by (rule find_split)
    have ch: "chain (hh s) (xs @ e # ys)" using slot es by simp
    then have e: "cells (hh s) (e_ptr e) = Some (CObj (HNode \<lparr>node_key = e_kp e, node_value = e_vp e, node_next = first ys\<rparr>))"
        "cells (hh s) (e_kp e) = Some (CStr k)" "cells (hh s) (e_vp e) = Some (CStr (e_v e))"
      using es by (auto simp: chain_append_iff)
    then have "mod_loop k v (e_ptr e) (hh s) = None"
      using heap_ok_not_null [OF ok] es oom
      by (subst mod_loop.simps) (auto simp: rd_node_def rd_str_def kvstore_free_def wr_node_def)
    then have "mod_kv_hashtable (Some s) (Some k) (Some v) = None"
      using mod_loop_chain [OF ok ch es(3,2)] slot(1) i es(1) by (simp add: mod_kv_hashtable_def)
    then show ?thesis
      using Some e heap_ok_not_null [OF ok]
      by (simp add: put_kv_hashtable_def kv_exist_def get_kv_rep [OF rep i])
  qed
qed

section \<open>Destruction\<close>

text \<open>
  \<open>destroy_hashtable\<close> frees every node and the bucket array exactly once, and never the key and
  value strings of the entries: they are all that is left allocated.
\<close>

definition wiped :: "hash_st \<Rightarrow> addr set \<Rightarrow> addr list \<Rightarrow> hash_st" where
  "wiped s A tab = s\<lparr>hh := (hh s)\<lparr>cells := (\<lambda>p. if p \<in> A then None
      else if p = nodes (ht s) then Some (CObj (HTab tab)) else cells (hh s) p)\<rparr>\<rparr>"

lemma destroy_chain_wiped:
  assumes "heap_ok (hh s)" "chain (hh s) es" "distinct (hptrs es)"
    "set (hptrs es) \<inter> A = {}" "nodes (ht s) \<notin> A" "nodes (ht s) \<notin> set (hptrs es)" "i < length tab"
  shows "\<exists>tab'. destroy_chain (int i) (first es) (wiped s A tab) = Some (wiped s (A \<union> e_ptr ` set es) tab') \<and>
    length tab' = length tab \<and> (\<forall>j. j \<noteq> i \<longrightarrow> tab' ! j = tab ! j)"
  using assms
proof (induction es arbitrary: A tab)
  case Nil
  then show ?case by (auto simp: destroy_chain.simps)
next
  case (Cons e es)
  let ?t = "nodes (ht s)"
  from Cons.prems have nn: "e_ptr e \<noteq> NULL" and t: "?t \<noteq> e_ptr e" and a: "e_ptr e \<notin> A"
    by (auto dest: heap_ok_not_null)
  let ?tab = "tab[i := first es]" and ?A = "insert (e_ptr e) A"
  have "wr_slot (int i) (first es) (wiped s A tab) = Some (wiped s A ?tab)"
    using Cons.prems by (simp add: wr_slot_def wiped_def) (rule arg_cong, auto simp: fun_eq_iff)
  moreover have "kvstore_free (e_ptr e) (hh (wiped s A ?tab)) = Some (hh (wiped s ?A ?tab))"
    using Cons.prems nn t a
    by (simp add: kvstore_free_def wiped_def) (rule arg_cong, auto simp: fun_eq_iff)
  moreover have "(wiped s A ?tab)\<lparr>hh := hh (wiped s ?A ?tab)\<rparr> = wiped s ?A ?tab"
    by (simp add: wiped_def)
  ultimately have "destroy_chain (int i) (first (e # es)) (wiped s A tab) = destroy_chain (int i) (first es) (wiped s ?A ?tab)"
    using Cons.prems nn t a by (subst destroy_chain.simps) (simp add: rd_node_def wiped_def)
  moreover obtain tab' where
    "destroy_chain (int i) (first es) (wiped s ?A ?tab) = Some (wiped s (?A \<union> e_ptr ` set es) tab')"
    "length tab' = length ?tab" "\<forall>j. j \<noteq> i \<longrightarrow> tab' ! j = ?tab ! j"
    using Cons.IH [of ?A ?tab] Cons.prems by auto
  ultimately show ?case by auto
qed

lemma destroy_slots_wiped:
  assumes rep: "hash_rep s ess" and "i + n \<le> MAX_TABLE_SIZE"
    and "length tab = MAX_TABLE_SIZE" "\<forall>j. i \<le> j \<and> j < MAX_TABLE_SIZE \<longrightarrow> tab ! j = first (ess j)"
  shows "\<exists>tab'. destroy_slots n (int i) (wiped s (\<Union>j<i. e_ptr ` set (ess j)) tab) =
      Some (wiped s (\<Union>j<i + n. e_ptr ` set (ess j)) tab') \<and> length tab' = MAX_TABLE_SIZE"
  using assms(2-)
proof (induction n arbitrary: i tab)
  case 0
  then show ?case by auto
next
  case (Suc n)
  let ?A = "\<Union>j<i. e_ptr ` set (ess j)"
  have i: "i < MAX_TABLE_SIZE" using Suc.prems by simp
  have sub: "e_ptr ` set es \<subseteq> set (hptrs es)" for es by (induction es) auto
  have tA: "nodes (ht s) \<notin> ?A"
  proof
    assume "nodes (ht s) \<in> ?A"
    then obtain j where "j < i" "nodes (ht s) \<in> set (hptrs (ess j))" using sub by blast
    with hash_rep_disjoint(1) [OF rep, of j] i show False by simp
  qed
  have "p \<notin> ?A" if p: "p \<in> set (hptrs (ess i))" for p
  proof
    assume "p \<in> ?A"
    then obtain j where "j < i" "p \<in> set (hptrs (ess j))" using sub by blast
    with hash_rep_disjoint(2) [OF rep i _ _ p, of j] i show False by simp
  qed
  then have "set (hptrs (ess i)) \<inter> ?A = {}" by blast
  moreover have "heap_ok (hh s)" using rep by (simp add: hash_rep_def)
  ultimately obtain tab' where
    c: "destroy_chain (int i) (first (ess i)) (wiped s ?A tab) = Some (wiped s (?A \<union> e_ptr ` set (ess i)) tab')"
      "length tab' = length tab" "\<forall>j. j \<noteq> i \<longrightarrow> tab' ! j = tab ! j"
    using destroy_chain_wiped [OF _ hash_rep_slot(2,3) [OF rep i], of ?A i tab] tA
      hash_rep_disjoint(1) [OF rep i] i Suc.prems by auto
  have A: "?A \<union> e_ptr ` set (ess i) = (\<Union>j<Suc i. e_ptr ` set (ess j))"
    by (auto simp: lessThan_Suc)
  have r: "rd_slot (wiped s ?A tab) (int i) = Some (first (ess i))"
    using tA i Suc.prems by (simp add: rd_slot_def wiped_def)
  have "\<exists>tab''. destroy_slots n (int (Suc i)) (wiped s (\<Union>j<Suc i. e_ptr ` set (ess j)) tab') =
      Some (wiped s (\<Union>j<Suc i + n. e_ptr ` set (ess j)) tab'') \<and> length tab'' = MAX_TABLE_SIZE"
    using Suc.IH [of "Suc i" tab'] Suc.prems c by simp
  then show ?case using r c(1) by (simp add: A add.commute)
qed

lemma hptrs_nodes:
  "distinct (hptrs es) \<Longrightarrow> set (hptrs es) - e_ptr ` set es = (\<Union>e \<in> set es. {e_kp e, e_vp e})"
proof (induction es)
  case (Cons e es)
  have sub: "e_ptr ` set es \<subseteq> set (hptrs es)" by (induction es) auto
  have "set (hptrs (e # es)) - e_ptr ` set (e # es)
      = {e_kp e, e_vp e} \<union> (set (hptrs es) - e_ptr ` set es)"
    using Cons.prems sub by auto
  with Cons show ?case by simp
qed simp

lemma hash_destroy_leaks:
  assumes rep: "hash_rep s ess"
  shows "\<exists>s'. destroy_hashtable (Some s) = Some (Some s') \<and>
    dom (cells (hh s')) = (\<Union>i<MAX_TABLE_SIZE. \<Union>e \<in> set (ess i). {e_kp e, e_vp e})"
proof -
  let ?N = MAX_TABLE_SIZE
  let ?t = "nodes (ht s)" and ?A = "\<Union>i<?N. e_ptr ` set (ess i)"
  let ?tab = "map (\<lambda>i. first (ess i)) [0..<?N]"
  from rep have ok: "heap_ok (hh s)" and tab: "cells (hh s) ?t = Some (CObj (HTab ?tab))"
    and dm: "dom (cells (hh s)) = insert ?t (\<Union>i<?N. set (hptrs (ess i)))"
    by (auto simp: hash_rep_def)
  have "(\<lambda>p. if p = ?t then Some (CObj (HTab ?tab)) else cells (hh s) p) = cells (hh s)"
    using tab by auto
  then have w: "wiped s (\<Union>j<0. e_ptr ` set (ess j)) ?tab = s" by (simp add: wiped_def)
  obtain tab' where d: "destroy_slots ?N 0 s = Some (wiped s ?A tab')"
    using destroy_slots_wiped [OF rep, of 0 ?N ?tab] w by auto
  have sub: "e_ptr ` set es \<subseteq> set (hptrs es)" for es by (induction es) auto
  have nt: "?t \<notin> set (hptrs (ess i))" if "i < ?N" for i
    using hash_rep_disjoint(1) [OF rep that] .
  then have tA: "?t \<notin> ?A" using sub by blast
  have ms: "nat (max_slots (ht s)) = ?N" using rep by (simp add: hash_rep_def)
  let ?s = "(wiped s ?A tab')\<lparr>hh := (hh (wiped s ?A tab'))\<lparr>cells := (cells (hh (wiped s ?A tab')))(?t := None)\<rparr>\<rparr>"
  have "nodes (ht (wiped s ?A tab')) = ?t" by (simp add: wiped_def)
  moreover have "cells (hh (wiped s ?A tab')) ?t = Some (CObj (HTab tab'))"
    using tA by (simp add: wiped_def)
  ultimately have run: "destroy_hashtable (Some s) = Some (Some ?s)"
    using d ms heap_ok_not_null [OF ok tab] by (simp add: destroy_hashtable_def kvstore_free_Some)
  have "dom (cells (hh (s'\<lparr>hh := (hh s')\<lparr>cells := (cells (hh s'))(?t := None)\<rparr>\<rparr>)))
      = dom (cells (hh s)) - insert ?t B" if "s' = wiped s B tab'" for s' B
    unfolding that by (auto simp: wiped_def split: if_splits)
  from this [OF refl] have "dom (cells (hh ?s)) = dom (cells (hh s)) - insert ?t ?A" .
  also have "\<dots> = (\<Union>i<?N. set (hptrs (ess i))) - ?A"
  proof -
    have "insert t U - insert t A = U - A" if "t \<notin> U" for t :: addr and U A using that by blast
    moreover have "?t \<notin> (\<Union>i<?N. set (hptrs (ess i)))" using nt by simp
    ultimately show ?thesis unfolding dm by blast
  qed
  also have "\<dots> = (\<Union>i<?N. set (hptrs (ess i)) - e_ptr ` set (ess i))"
  proof (intro equalityI subsetI)
    fix p assume "p \<in> (\<Union>i<?N. set (hptrs (ess i)) - e_ptr ` set (ess i))"
    then obtain i where i: "i < ?N" "p \<in> set (hptrs (ess i))" "p \<notin> e_ptr ` set (ess i)" by blast
    have "p \<notin> e_ptr ` set (ess j)" if "j < ?N" for j
      using hash_rep_disjoint(2) [OF rep i(1) that _ i(2)] i(3) sub [of "ess j"] by (cases "i = j") auto
    with i show "p \<in> (\<Union>i<?N. set (hptrs (ess i))) - ?A" by blast
  qed blast
  also have "\<dots> = (\<Union>i<?N. \<Union>e \<in> set (ess i). {e_kp e, e_vp e})"
    using hptrs_nodes hash_rep_slot(3) [OF rep] by simp
  finally show ?thesis using run by blast
qed

section \<open>The wrappers of kvstore.c and the contract\<close>

text \<open>\<open>kvstore_hash_*\<close> call the engine on the global \<open>Hash\<close>.\<close>

definition kvstore_hash_exist :: "hash_st \<Rightarrow> string \<Rightarrow> int option" where
  "kvstore_hash_exist s key = kv_exist (Some s) (Some key)"

definition kvstore_hash_set :: "hash_st \<Rightarrow> string \<Rightarrow> string \<Rightarrow> (hash_st \<times> int) option" where
  "kvstore_hash_set s key value = do {
     (p, ret) \<leftarrow> put_kv_hashtable (Some s) (Some key) (Some value);
     s \<leftarrow> p;
     Some (s, ret) }"

definition kvstore_hash_get :: "hash_st \<Rightarrow> string \<Rightarrow> addr option" where
  "kvstore_hash_get s key = get_kv_hashtable (Some s) (Some key)"

definition kvstore_hash_del :: "hash_st \<Rightarrow> string \<Rightarrow> (hash_st \<times> int) option" where
  "kvstore_hash_del s key = do {
     (p, ret) \<leftarrow> delete_kv_hashtable (Some s) (Some key);
     s \<leftarrow> p;
     Some (s, ret) }"

definition kvstore_hash_count :: "hash_st \<Rightarrow> int option" where
  "kvstore_hash_count s = count_hashtable (Some s)"

definition hash_engine :: "hash_st engine" where
  "hash_engine =
     \<lparr>eng_exist = kvstore_hash_exist, eng_set = kvstore_hash_set, eng_get = kvstore_hash_get,
      eng_del = kvstore_hash_del, eng_count = kvstore_hash_count,
      eng_str = (\<lambda>s p. rd_str (hh s) p)\<rparr>"

lemma hash_inv_wf: "hash_inv s \<Longrightarrow> hash_wf s"
  by (simp add: hash_inv_def)

interpretation he: kv_engine hash_engine hash_inv hash_map hash_key_ok None
proof (unfold_locales, goal_cases)
  case (1 s k)
  then show ?case using hash_exist_spec [OF hash_inv_wf] by (simp add: hash_engine_def kvstore_hash_exist_def)
next
  case (2 s k v)
  then show ?case using hash_get_spec [OF hash_inv_wf, of s k]
    by (auto simp: hash_engine_def kvstore_hash_get_def)
next
  case (3 s k v)
  from hash_put_ok [OF 3(1,2), of v] show ?case
    by (auto simp: hash_engine_def kvstore_hash_set_def)
next
  case (4 s k v)
  then show ?case by (simp add: has_room_def)
next
  case (5 s k)
  from hash_delete_ok [OF 5] show ?case by (auto simp: hash_engine_def kvstore_hash_del_def)
next
  case (6 s)
  then show ?case by (simp add: hash_engine_def kvstore_hash_count_def hash_count_spec(1) hash_inv_wf)
qed

text \<open>What \<open>create_hashtable\<close> makes of a fresh block, by its contents.\<close>

lemma create_hashtable_runs:
  assumes "hh fresh = empty_heap" "length junk = MAX_TABLE_SIZE"
  shows "\<exists>s0. create_hashtable junk (Some fresh) = (Some s0, 0) \<and>
    (set junk \<subseteq> {NULL} \<longrightarrow> hash_inv s0 \<and> hash_map s0 = Map.empty) \<and>
    (\<forall>k i. hidx k = int i \<and> junk ! i \<noteq> NULL \<and> junk ! i \<noteq> nodes (ht s0) \<longrightarrow> kvs_run hash_engine s0 [GET k] = None)"
proof -
  have h: "heap_ok (hh fresh)" "oom (hh fresh) = []" "cells (hh fresh) = Map.empty" using assms(1) by simp_all
  obtain s0 where s0: "create_hashtable junk (Some fresh) = (Some s0, 0)" "nodes (ht s0) = 1"
    using assms(1) by (auto simp: create_hashtable_def Let_def)
  have "hash_inv s0 \<and> hash_map s0 = Map.empty" if "set junk \<subseteq> {NULL}"
  proof -
    have "junk = replicate MAX_TABLE_SIZE NULL" using that assms(2) by (intro replicate_eqI) auto
    then show ?thesis using create_hashtable_inv [OF h] s0(1) by auto
  qed
  moreover have "kvs_run hash_engine s0 [GET k] = None" if "hidx k = int i" "junk ! i \<noteq> NULL" "junk ! i \<noteq> nodes (ht s0)" for k i
    using create_hashtable_junk [OF h assms(2) that(1,2)] that(3) s0 assms(1)
    by (auto simp: hash_engine_def kvs_cmd_get_def kvstore_hash_exist_def kv_exist_def)
  ultimately show ?thesis using s0(1) by blast
qed

section \<open>Properties\<close>

text \<open>
  C7: on every well-formed hash table, every session of requests to the hash engine over keys with a bucket in
  range is defined, its replies are those of an unbounded finite map, the map it leaves is that of the session,
  and the chain invariant (every key in its bucket, once, no shared or leaked block, count exact)
  holds at the end.  Whether \<open>create_hashtable\<close> makes a well-formed table depends on what \<open>malloc\<close> hands out, because
  the code does not clear the bucket array: it does when every word of the fresh block is NULL, and when a
  word is not and points to nothing allocated, the first request for a key of that bucket is undefined.
\<close>

theorem hash_session:
  assumes "hash_inv s" "\<forall>r \<in> set reqs. req_ok hash_key_ok r"
  shows "(\<exists>s'. kvs_run hash_engine s reqs = Some (s', snd (spec_run None (hash_map s) reqs)) \<and> hash_inv s' \<and>
      hash_map s' = fst (spec_run None (hash_map s) reqs)) \<and>
    (\<forall>fresh junk. hh fresh = empty_heap \<and> length junk = MAX_TABLE_SIZE \<longrightarrow>
      (\<exists>s0. create_hashtable junk (Some fresh) = (Some s0, 0) \<and>
        (set junk \<subseteq> {NULL} \<longrightarrow> hash_inv s0 \<and> hash_map s0 = Map.empty) \<and>
        (\<forall>k i. hidx k = int i \<and> junk ! i \<noteq> NULL \<and> junk ! i \<noteq> nodes (ht s0) \<longrightarrow> kvs_run hash_engine s0 [GET k] = None)))"
proof (intro conjI allI impI)
  show "\<exists>s'. kvs_run hash_engine s reqs = Some (s', snd (spec_run None (hash_map s) reqs)) \<and> hash_inv s' \<and>
      hash_map s' = fst (spec_run None (hash_map s) reqs)"
    by (rule he.run_refines [OF assms])
  fix fresh :: hash_st and junk :: "addr list"
  assume f: "hh fresh = empty_heap \<and> length junk = MAX_TABLE_SIZE"
  show "\<exists>s0. create_hashtable junk (Some fresh) = (Some s0, 0) \<and>
      (set junk \<subseteq> {NULL} \<longrightarrow> hash_inv s0 \<and> hash_map s0 = Map.empty) \<and>
      (\<forall>k i. hidx k = int i \<and> junk ! i \<noteq> NULL \<and> junk ! i \<noteq> nodes (ht s0) \<longrightarrow> kvs_run hash_engine s0 [GET k] = None)"
    using create_hashtable_runs [of fresh junk] f by simp
qed

definition empty_hash_st :: hash_st where
  "empty_hash_st = \<lparr>hh = empty_heap, ht = \<lparr>nodes = 0, max_slots = 0, count = 0\<rparr>\<rparr>"

lemma empty_hash_st [simp]: "hh empty_hash_st = empty_heap"
  by (simp add: empty_hash_st_def)

lemma hash_key_ok_k [simp]: "hash_key_ok ''k''"
  by (rule ascii_hash_key_ok) simp

theorem hash_session_witness:
  "\<exists>s0 s'. create_hashtable (replicate MAX_TABLE_SIZE NULL) (Some empty_hash_st) = (Some s0, 0) \<and>
    kvs_run hash_engine s0 [SET ''k'' ''v'', GET ''k'', SET ''k'' ''w'', GET ''k'', COUNT] =
      Some (s', [''SUCCESS'', ''v'', ''SUCCESS'', ''w'', ''1''])"
proof -
  obtain s0 where s0: "create_hashtable (replicate MAX_TABLE_SIZE NULL) (Some empty_hash_st) = (Some s0, 0)" "hash_inv s0"
      "hash_map s0 = Map.empty"
    using create_hashtable_inv [of empty_hash_st] by auto
  from hash_session [OF s0(2), of "[SET ''k'' ''v'', GET ''k'', SET ''k'' ''w'', GET ''k'', COUNT]"] s0 show ?thesis
    by (auto simp: has_room_def snprintf_s_def BUFFER_LENGTH_def snprintf_d_1)
qed

text \<open>
  a key whose bytes, read as signed characters, have a negative sum modulo 1024 (for
  example the one-byte key 0x80) makes every operation of the hash engine read or write outside the
  bucket array, whatever the table holds.
\<close>

theorem hash_negative_bucket:
  assumes "hash_fn (Some k) (int MAX_TABLE_SIZE) < 0"
  shows "get_kv_hashtable (Some s) (Some k) = None \<and>
    put_kv_hashtable (Some s) (Some k) (Some v) = None \<and>
    delete_kv_hashtable (Some s) (Some k) = None"
proof -
  have "\<not> hash_key_ok k" using assms by (simp add: hash_key_ok_def)
  from hash_bad_key [OF this] show ?thesis by blast
qed

theorem hash_negative_bucket_witness:
  "put_kv_hashtable (Some empty_hash_st) (Some [CHR 0x80]) (Some ''v'') = None"
proof -
  have "hash_fn (Some [CHR 0x80]) (int MAX_TABLE_SIZE) < 0" by code_simp
  from hash_negative_bucket [OF this] show ?thesis by blast
qed

text \<open>
  \<open>destroy_hashtable\<close> on a well-formed table returns and frees the bucket array and every node, but
  none of the key and value strings: exactly those stay allocated.
\<close>

theorem hash_destroy_leaks_strings:
  assumes "hash_rep s ess"
  shows "\<exists>s'. destroy_hashtable (Some s) = Some (Some s') \<and>
    dom (cells (hh s')) = {p. \<exists>i<MAX_TABLE_SIZE. \<exists>e \<in> set (ess i). p = e_kp e \<or> p = e_vp e}"
proof -
  have "{p. \<exists>i<MAX_TABLE_SIZE. \<exists>e \<in> set (ess i). p = e_kp e \<or> p = e_vp e} =
      (\<Union>i<MAX_TABLE_SIZE. \<Union>e \<in> set (ess i). {e_kp e, e_vp e})" by auto
  with hash_destroy_leaks [OF assms] show ?thesis by simp
qed

theorem hash_destroy_leaks_strings_witness:
  "\<exists>s s'. destroy_hashtable (Some s) = Some (Some s') \<and> 2 \<in> dom (cells (hh s')) \<and>
    1 \<notin> dom (cells (hh s'))"
proof -
  define e where "e = \<lparr>e_ptr = 1, e_kp = 2, e_vp = 3, e_k = ''k'', e_v = ''v''\<rparr>"
  define ess where "ess = (\<lambda>i::nat. if i = 107 then [e] else [])"
  define s where "s = \<lparr>hh = \<lparr>cells = [4 \<mapsto> CObj (HTab (map (\<lambda>i. first (ess i)) [0..<MAX_TABLE_SIZE])),
      1 \<mapsto> CObj (HNode \<lparr>node_key = 2, node_value = 3, node_next = 0\<rparr>), 2 \<mapsto> CStr ''k'', 3 \<mapsto> CStr ''v''],
      brk = 5, oom = []\<rparr>, ht = \<lparr>nodes = 4, max_slots = int MAX_TABLE_SIZE, count = 1\<rparr>\<rparr>"
  have k: "hash_fn (Some ''k'') (int MAX_TABLE_SIZE) = 107" by code_simp
  have "(\<Sum>i<MAX_TABLE_SIZE. int (length (ess i))) = (\<Sum>i<MAX_TABLE_SIZE. if i = 107 then 1 else 0)"
    by (rule sum.cong) (auto simp: ess_def)
  also have "\<dots> = 1" by (simp add: MAX_TABLE_SIZE_def)
  finally have cnt: "(\<Sum>i<MAX_TABLE_SIZE. int (length (ess i))) = 1" .
  have un: "(\<Union>i<MAX_TABLE_SIZE. set (hptrs (ess i))) = {1, 2, 3}"
    by (auto simp: ess_def e_def MAX_TABLE_SIZE_def split: if_splits)
  have "hash_rep s ess"
    unfolding hash_rep_def un cnt
    by (auto simp: s_def ess_def e_def heap_ok_def k split: if_splits)
  from hash_destroy_leaks_strings [OF this] obtain s' where
    s': "destroy_hashtable (Some s) = Some (Some s')"
      "dom (cells (hh s')) = {p. \<exists>i<MAX_TABLE_SIZE. \<exists>e \<in> set (ess i). p = e_kp e \<or> p = e_vp e}" by blast
  have "dom (cells (hh s')) = {2, 3}"
    unfolding s'(2) by (auto simp: ess_def e_def MAX_TABLE_SIZE_def split: if_splits)
  with s'(1) show ?thesis by (intro exI [of _ s] exI [of _ s']) auto
qed

end
