(* ===== verification/KV_Protocol.thy ===== *)
theory KV_Protocol
  imports KV_Array KV_Hash KV_RBTree_Store
begin

text \<open>
  The protocol of kvstore.c: tokenising a request in place, the command table, the switch over the
  fifteen commands, and the start and stop of the three engines.

  A receive buffer is the list of its 1024 bytes.  \<open>strtok\<close> overwrites delimiters with NUL, so
  a token is an offset into the buffer, and reading a token is reading a C string at that offset;
  running over the end of the buffer, or of the array of 128 token pointers, is undefined
  (\<open>None\<close>), and so is using a token pointer that was never written.

  The three engines keep their heaps apart here; in the program they share one, from which none
  of them takes anything but its own blocks.
\<close>

section \<open>C strings in a buffer and strtok\<close>

abbreviation NUL :: char where "NUL \<equiv> CHR 0x00"
abbreviation SP :: char where "SP \<equiv> CHR 0x20"

definition c_str :: "char list \<Rightarrow> nat \<Rightarrow> string option" where
  "c_str buf i =
     (let rest = drop i buf
      in if NUL \<in> set rest then Some (takeWhile (\<lambda>c. c \<noteq> NUL) rest) else None)"

text \<open>
  One call of \<open>strtok\<close> with the delimiter string \<open>" "\<close>, from the saved position \<open>i\<close>: the
  buffer, the new saved position, and the offset of the token (\<open>None\<close>: NULL).
\<close>

definition strtok :: "char list \<Rightarrow> nat \<Rightarrow> (char list \<times> nat \<times> nat option) option" where
  "strtok buf i =
     (let j = i + length (takeWhile (\<lambda>c. c = SP) (drop i buf))
      in if length buf \<le> j then None
         else if buf ! j = NUL then Some (buf, j, None)
         else let e = j + length (takeWhile (\<lambda>c. c \<noteq> SP \<and> c \<noteq> NUL) (drop j buf))
              in if length buf \<le> e then None
                 else if buf ! e = NUL then Some (buf, e, Some j)
                 else Some (buf[e := NUL], Suc e, Some j))"

lemma strtok_progress:
  assumes "strtok buf i = Some (buf', i', Some t)"
  shows "length buf' = length buf" "i < i'" "i' \<le> length buf"
proof -
  define j where "j = i + length (takeWhile (\<lambda>c. c = SP) (drop i buf))"
  define e where "e = j + length (takeWhile (\<lambda>c. c \<noteq> SP \<and> c \<noteq> NUL) (drop j buf))"
  have j: "j < length buf" "buf ! j \<noteq> NUL" and e: "e < length buf"
    and r: "buf' = buf \<and> i' = e \<and> buf ! e = NUL \<or> buf' = buf[e := NUL] \<and> i' = Suc e"
    using assms unfolding strtok_def Let_def j_def [symmetric] e_def [symmetric]
    by (auto split: if_splits simp: not_le)
  show "length buf' = length buf" using r by auto
  show "i' \<le> length buf" using r e by auto
  have "i \<le> j" "j \<le> e" by (simp_all add: j_def e_def)
  moreover have "i' = e \<Longrightarrow> buf ! e = NUL \<Longrightarrow> j \<noteq> e" using j by auto
  ultimately show "i < i'" using r by (cases "i' = e") auto
qed

definition KVSTORE_MAX_TOKENS :: nat where "KVSTORE_MAX_TOKENS = 128"

text \<open>The loop of \<open>kvstore_split_token\<close>: the current token, and the token pointers stored so far.\<close>

function split_loop :: "char list \<Rightarrow> nat \<Rightarrow> nat option \<Rightarrow> nat list \<Rightarrow> (char list \<times> nat list) option" where
  "split_loop buf i None tokens = Some (buf, tokens)"
| "split_loop buf i (Some t) tokens =
     (if length tokens < KVSTORE_MAX_TOKENS
      then (case strtok buf i of
              None \<Rightarrow> None
            | Some (buf', i', t') \<Rightarrow> split_loop buf' i' t' (tokens @ [t]))
      else None)"
  by pat_completeness auto
termination
proof (relation "measure (\<lambda>(buf, i, t, tokens). if t = None then 0 else Suc (length buf - i))", goal_cases)
  case 1
  show ?case by simp
next
  case (2 buf i t tokens a buf' b i' t')
  then show ?case
    using strtok_progress [of buf i buf' i'] by (cases t') (auto simp: diff_less_mono2)
qed

text \<open>\<open>kvstore_split_token\<close>: the buffer afterwards, the token pointers, and the returned count.\<close>

definition kvstore_split_token ::
  "char list option \<Rightarrow> nat list option \<Rightarrow> (char list option \<times> nat list option \<times> int) option" where
  "kvstore_split_token msg tokens =
     (case (msg, tokens) of
        (Some buf, Some _) \<Rightarrow> do {
          (buf, i, t) \<leftarrow> strtok buf 0;
          (buf, toks) \<leftarrow> split_loop buf i t [];
          Some (Some buf, Some toks, int (length toks)) }
      | _ \<Rightarrow> Some (msg, tokens, -1))"

section \<open>The commands\<close>

definition commands :: "string list" where
  "commands =
     [''SET'', ''GET'', ''DEL'', ''COUNT'', ''EXIST'',
      ''RSET'', ''RGET'', ''RDEL'', ''RCOUNT'', ''REXIST'',
      ''HSET'', ''HGET'', ''HDEL'', ''HCOUNT'', ''HEXIST'']"

definition KVS_CMD_END :: nat where "KVS_CMD_END = 15"

text \<open>The search of the command table: the index of the first match, or \<open>KVS_CMD_END\<close>.\<close>

fun find_cmd :: "string list \<Rightarrow> string \<Rightarrow> nat" where
  "find_cmd [] t = 0"
| "find_cmd (c # cs) t = (if strcmp c t = 0 then 0 else Suc (find_cmd cs t))"

text \<open>\<open>tokens[i]\<close> as text; a pointer that was not written is undefined.\<close>

definition token :: "char list \<Rightarrow> nat list \<Rightarrow> nat \<Rightarrow> string option" where
  "token buf toks i = (if i < length toks then c_str buf (toks ! i) else None)"

text \<open>The five cases of one engine; \<open>op\<close> counts from the engine's SET.\<close>

definition kvs_dispatch :: "'s engine \<Rightarrow> 's \<Rightarrow> nat \<Rightarrow> (nat \<Rightarrow> string option) \<Rightarrow> ('s \<times> string) option" where
  "kvs_dispatch e s op tok =
     (if op = 0 then do { k \<leftarrow> tok 1; v \<leftarrow> tok 2; kvs_cmd_set e s k v }
      else if op = 1 then do { k \<leftarrow> tok 1; kvs_cmd_get e s k }
      else if op = 2 then do { k \<leftarrow> tok 1; kvs_cmd_del e s k }
      else if op = 3 then kvs_cmd_count e s
      else do { k \<leftarrow> tok 1; kvs_cmd_exist e s k })"

record kvstore =
  k_array :: array_st
  k_tree :: rb_st
  k_hash :: hash_st

record connection_t =
  c_fd :: nat
  c_rbuffer :: "char list"
  c_rlength :: int
  c_wbuffer :: "char list"
  c_wlength :: nat

definition parse_array :: "kvstore \<Rightarrow> nat \<Rightarrow> (nat \<Rightarrow> string option) \<Rightarrow> (kvstore \<times> string) option" where
  "parse_array ks cmd tok = do {
     (s, msg) \<leftarrow> kvs_dispatch array_engine (k_array ks) cmd tok;
     Some (ks\<lparr>k_array := s\<rparr>, msg) }"

definition parse_rbtree :: "kvstore \<Rightarrow> nat \<Rightarrow> (nat \<Rightarrow> string option) \<Rightarrow> (kvstore \<times> string) option" where
  "parse_rbtree ks cmd tok = do {
     (s, msg) \<leftarrow> kvs_dispatch rbtree_engine (k_tree ks) (cmd - 5) tok;
     Some (ks\<lparr>k_tree := s\<rparr>, msg) }"

definition parse_hash :: "kvstore \<Rightarrow> nat \<Rightarrow> (nat \<Rightarrow> string option) \<Rightarrow> (kvstore \<times> string) option" where
  "parse_hash ks cmd tok = do {
     (s, msg) \<leftarrow> kvs_dispatch hash_engine (k_hash ks) (cmd - 10) tok;
     Some (ks\<lparr>k_hash := s\<rparr>, msg) }"

text \<open>The bytes of a buffer that was cleared and then printed to.\<close>

definition cleared :: "string \<Rightarrow> char list" where
  "cleared msg = msg @ replicate (BUFFER_LENGTH - length msg) NUL"

text \<open>
  \<open>kvstore_parser_protocol\<close>.  The default case of the switch logs \<open>commands[cmd]\<close>, an entry of
  the table that does not exist.
\<close>

definition log_command :: "nat \<Rightarrow> string option" where
  "log_command cmd = (if cmd < length commands then Some (commands ! cmd) else None)"

definition kvstore_parser_protocol ::
  "kvstore \<Rightarrow> connection_t option \<Rightarrow> nat list option \<Rightarrow> int \<Rightarrow> (kvstore \<times> connection_t option \<times> int) option" where
  "kvstore_parser_protocol ks item tokens ntokens =
     (case (item, tokens) of
        (Some conn, Some toks) \<Rightarrow>
          if ntokens = 0 then Some (ks, item, -1)
          else do {
            let tok = token (c_rbuffer conn) toks;
            t0 \<leftarrow> tok 0;
            let cmd = find_cmd commands t0;
            (ks, msg) \<leftarrow>
              (if cmd < 5 then parse_array ks cmd tok
               else if cmd < 10 then parse_rbtree ks cmd tok
               else if cmd < KVS_CMD_END then parse_hash ks cmd tok
               else do { _ \<leftarrow> log_command cmd; Some (ks, ''NO MATCH'') });
            Some (ks, Some (conn\<lparr>c_wbuffer := cleared msg\<rparr>), 0) }
      | _ \<Rightarrow> Some (ks, item, -1))"

definition kvstore_request :: "kvstore \<Rightarrow> connection_t \<Rightarrow> (kvstore \<times> connection_t \<times> int) option" where
  "kvstore_request ks conn = do {
     (buf, tokens, n) \<leftarrow> kvstore_split_token (Some (c_rbuffer conn)) (Some []);
     b \<leftarrow> buf;
     (ks, item, _) \<leftarrow> kvstore_parser_protocol ks (Some (conn\<lparr>c_rbuffer := b\<rparr>)) tokens n;
     conn \<leftarrow> item;
     Some (ks, conn, 0) }"

section \<open>Start and stop\<close>

text \<open>
  \<open>g\<close> and \<open>junk\<close>: what the fresh blocks of the sentinel and of the bucket array contain; \<open>sz\<close>: the size of the
  block of the sentinel.
\<close>

definition init_kvengine_sized :: "nat \<Rightarrow> rbtree_node \<Rightarrow> addr list \<Rightarrow> kvstore \<Rightarrow> (kvstore \<times> int) option" where
  "init_kvengine_sized sz g junk ks = do {
     let (a, r) = array_create (Some (k_array ks));
     arr \<leftarrow> a;
     let ks = ks\<lparr>k_array := arr\<rparr>;
     if r \<noteq> 0 then Some (ks, -1)
     else do {
       (t, r) \<leftarrow> rbtree_create_sized sz g (Some (k_tree ks));
       tree \<leftarrow> t;
       let ks = ks\<lparr>k_tree := tree\<rparr>;
       if r \<noteq> 0 then Some (ks, -1)
       else do {
         let (h, r) = create_hashtable junk (Some (k_hash ks));
         hash \<leftarrow> h;
         let ks = ks\<lparr>k_hash := hash\<rparr>;
         if r \<noteq> 0 then Some (ks, -1) else Some (ks, 0) } } }"

text \<open>The code as it is, with its sentinel of one byte.\<close>

definition init_kvengine :: "rbtree_node \<Rightarrow> addr list \<Rightarrow> kvstore \<Rightarrow> (kvstore \<times> int) option" where
  "init_kvengine = init_kvengine_sized NIL_SIZE"

definition exit_kvengine :: "kvstore \<Rightarrow> (kvstore \<times> int) option" where
  "exit_kvengine ks = do {
     a \<leftarrow> array_destroy (Some (k_array ks));
     arr \<leftarrow> a;
     t \<leftarrow> rbtree_destroy (Some (k_tree ks));
     tree \<leftarrow> t;
     h \<leftarrow> destroy_hashtable (Some (k_hash ks));
     hash \<leftarrow> h;
     Some (\<lparr>k_array = arr, k_tree = tree, k_hash = hash\<rparr>, 0) }"

end
