(* ===== verification/KV_Request.thy ===== *)
theory KV_Request
  imports KV_Protocol
begin

text \<open>
  What a request to the key-value server does: the tokeniser against the list of words of the
  text, and \<open>kvstore_request\<close> against three abstract stores, one per engine.
\<close>

section \<open>Words\<close>

text \<open>\<open>wsplit acc s\<close>: the words of \<open>s\<close>, of which \<open>acc\<close> was already read.\<close>

fun wsplit :: "string \<Rightarrow> string \<Rightarrow> string list" where
  "wsplit acc [] = (if acc = [] then [] else [acc])"
| "wsplit acc (c # s) =
     (if c = SP then (if acc = [] then wsplit [] s else acc # wsplit [] s)
      else wsplit (acc @ [c]) s)"

definition words :: "string \<Rightarrow> string list" where
  "words s = wsplit [] s"

lemma wsplit_word: "SP \<notin> set w \<Longrightarrow> wsplit acc (w @ s) = wsplit (acc @ w) s"
  by (induction w arbitrary: acc) auto

lemma words_simps [simp]: "words [] = []" "words (SP # s) = words s"
  by (simp_all add: words_def)

lemma words_spaces [simp]: "words (replicate n SP @ s) = words s"
  by (induction n) auto

lemma words_word: "w \<noteq> [] \<Longrightarrow> SP \<notin> set w \<Longrightarrow> words w = [w]"
  using wsplit_word [of w "[]" "[]"] by (simp add: words_def)

lemma words_append: "w \<noteq> [] \<Longrightarrow> SP \<notin> set w \<Longrightarrow> words (w @ SP # t) = w # words t"
  using wsplit_word [of w "[]" "SP # t"] by (simp add: words_def)

lemma leading_blanks: "\<exists>n t. s = replicate n SP @ t \<and> (t = [] \<or> hd t \<noteq> SP)"
proof (induction s)
  case (Cons c s)
  then obtain n t where s: "s = replicate n SP @ t" "t = [] \<or> hd t \<noteq> SP" by blast
  show ?case
  proof (cases "c = SP")
    case True
    then show ?thesis using s by (intro exI [of _ "Suc n"] exI [of _ t]) simp
  next
    case False
    then show ?thesis by (intro exI [of _ 0] exI [of _ "c # s"]) simp
  qed
qed simp

text \<open>A text is blanks, or blanks and a last word, or blanks, a word, a blank and a text.\<close>

lemma words_cases:
  obtains (blank) n where "s = replicate n SP" "words s = []"
  | (final) n w where "s = replicate n SP @ w" "w \<noteq> []" "SP \<notin> set w" "words s = [w]"
  | (inner) n w t where "s = replicate n SP @ w @ SP # t" "w \<noteq> []" "SP \<notin> set w" "words s = w # words t"
proof -
  obtain n t where s: "s = replicate n SP @ t" "t = [] \<or> hd t \<noteq> SP" using leading_blanks by blast
  consider "t = []" | "t \<noteq> []" "SP \<notin> set t" | "SP \<in> set t" by blast
  then show thesis
  proof cases
    case 1
    then show thesis using blank [of n] s words_spaces [of n "[]"] by simp
  next
    case 2
    then show thesis using final [of n t] s by (simp add: words_word)
  next
    case 3
    then obtain w u where t: "t = w @ SP # u" "SP \<notin> set w" using split_list_first by metis
    then have "w \<noteq> []" using s(2) by (cases w) auto
    then show thesis using inner [of n w u] s t by (simp add: words_append)
  qed
qed

text \<open>Joining words with single blanks is undone.\<close>

fun unwords :: "string list \<Rightarrow> string" where
  "unwords [] = []"
| "unwords [w] = w"
| "unwords (w # ws) = w @ SP # unwords ws"

definition word_ok :: "string \<Rightarrow> bool" where
  "word_ok w \<longleftrightarrow> w \<noteq> [] \<and> SP \<notin> set w \<and> NUL \<notin> set w"

lemma words_unwords: "\<forall>w \<in> set ws. word_ok w \<Longrightarrow> words (unwords ws) = ws"
  by (induction ws rule: unwords.induct) (auto simp: word_ok_def words_word words_append)

section \<open>The tokeniser\<close>

lemma c_str_Some: "c_str buf i = Some w \<longleftrightarrow> (\<exists>pst. drop i buf = w @ NUL # pst \<and> NUL \<notin> set w)"
proof
  assume "c_str buf i = Some w"
  then have n: "NUL \<in> set (drop i buf)" and w: "w = takeWhile (\<lambda>c. c \<noteq> NUL) (drop i buf)"
    by (auto simp: c_str_def Let_def split: if_splits)
  obtain ys zs where "drop i buf = ys @ NUL # zs" "NUL \<notin> set ys" using split_list_first [OF n] by auto
  moreover from this have "w = ys" unfolding w by (subst \<open>drop i buf = _\<close>) (subst takeWhile_append2; auto)
  ultimately show "\<exists>pst. drop i buf = w @ NUL # pst \<and> NUL \<notin> set w" by blast
next
  assume "\<exists>pst. drop i buf = w @ NUL # pst \<and> NUL \<notin> set w"
  then obtain pst where d: "drop i buf = w @ NUL # pst" and n: "NUL \<notin> set w" by blast
  have "takeWhile (\<lambda>c. c \<noteq> NUL) (w @ NUL # pst) = w" using n by (subst takeWhile_append2) auto
  then show "c_str buf i = Some w" by (simp add: c_str_def d)
qed

lemma c_str_prefix: "c_str pre t = Some w \<Longrightarrow> c_str (pre @ xs) t = Some w"
  unfolding c_str_Some by (cases "t \<le> length pre") auto

lemma c_str_mid: "NUL \<notin> set w \<Longrightarrow> c_str (pre @ w @ NUL # xs) (length pre) = Some w"
  unfolding c_str_Some by auto

lemma take_blanks:
  "t = [] \<or> hd t \<noteq> SP \<Longrightarrow> takeWhile (\<lambda>c. c = SP) (replicate n SP @ t) = replicate n SP"
  by (induction n) (cases t; auto)+

lemma take_word:
  "SP \<notin> set w \<Longrightarrow> NUL \<notin> set w \<Longrightarrow> d = SP \<or> d = NUL \<Longrightarrow>
   takeWhile (\<lambda>c. c \<noteq> SP \<and> c \<noteq> NUL) (w @ d # u) = w"
  by (induction w) auto

lemma strtok_blank:
  "strtok (pre @ replicate n SP @ NUL # rest) (length pre) =
     Some (pre @ replicate n SP @ NUL # rest, length pre + n, None)"
  using take_blanks [of "NUL # rest" n] by (simp add: strtok_def Let_def nth_append)

lemma strtok_final:
  assumes "w \<noteq> []" "SP \<notin> set w" "NUL \<notin> set w"
  shows "strtok (pre @ replicate n SP @ w @ NUL # rest) (length pre) =
     Some (pre @ replicate n SP @ w @ NUL # rest, length pre + n + length w, Some (length pre + n))"
proof -
  have h: "hd (w @ NUL # rest) \<noteq> SP" "w ! 0 \<noteq> NUL" using assms by (cases w; auto)+
  show ?thesis
    using take_blanks [of "w @ NUL # rest" n] take_word [of w NUL rest] assms h
    by (simp add: strtok_def Let_def nth_append)
qed

lemma strtok_inner:
  assumes "w \<noteq> []" "SP \<notin> set w" "NUL \<notin> set w"
  shows "strtok (pre @ replicate n SP @ w @ SP # u) (length pre) =
     Some ((pre @ replicate n SP @ w @ [NUL]) @ u, length (pre @ replicate n SP @ w @ [NUL]), Some (length pre + n))"
proof -
  have h: "hd (w @ SP # u) \<noteq> SP" "w ! 0 \<noteq> NUL" using assms by (cases w; auto)+
  have "(pre @ replicate n SP @ w @ SP # u)[length pre + n + length w := NUL] =
      (pre @ replicate n SP @ w @ [NUL]) @ u"
    by (simp add: list_update_append)
  then show ?thesis
    using take_blanks [of "w @ SP # u" n] take_word [of w SP u] assms h
    by (simp add: strtok_def Let_def nth_append)
qed

text \<open>The next call of \<open>strtok\<close> and the rest of the loop.\<close>

definition split_from :: "char list \<Rightarrow> nat \<Rightarrow> nat list \<Rightarrow> (char list \<times> nat list) option" where
  "split_from buf i toks = do { (b, j, t) \<leftarrow> strtok buf i; split_loop b j t toks }"

lemma split_loop_from:
  "split_loop buf i (Some t) toks =
     (if length toks < KVSTORE_MAX_TOKENS then split_from buf i (toks @ [t]) else None)"
  by (simp add: split_from_def split: option.split)

declare split_loop.simps(2) [simp del]

definition spell :: "char list \<Rightarrow> nat list \<Rightarrow> string list \<Rightarrow> bool" where
  "spell buf toks ws \<longleftrightarrow> list_all2 (\<lambda>t w. c_str buf t = Some w) toks ws"

lemma spell_prefix: "spell pre toks ws \<Longrightarrow> spell (pre @ xs) toks ws"
  unfolding spell_def by (erule list_all2_mono) (rule c_str_prefix)

lemma spell_snoc: "spell buf toks ws \<Longrightarrow> c_str buf t = Some w \<Longrightarrow> spell buf (toks @ [t]) (ws @ [w])"
  by (simp add: spell_def list_all2_appendI)

lemma split_from_words:
  assumes "NUL \<notin> set msg" "spell pre toks ws" 
  shows "(if length toks + length (words msg) \<le> KVSTORE_MAX_TOKENS \<or> words msg = []
    then \<exists>buf' toks'. split_from (pre @ msg @ NUL # rest) (length pre) toks = Some (buf', toks') \<and>
      length buf' = length (pre @ msg @ NUL # rest) \<and> spell buf' toks' (ws @ words msg)
    else split_from (pre @ msg @ NUL # rest) (length pre) toks = None)"
  using assms
proof (induction "length msg" arbitrary: msg pre toks ws rule: less_induct)
  case less
  show ?case
  proof (cases rule: words_cases [of msg])
    case (blank n)
    then show ?thesis using spell_prefix [OF less(3)] by (simp add: split_from_def strtok_blank)
  next
    case (final n w)
    then have w: "w \<noteq> []" "SP \<notin> set w" "NUL \<notin> set w" using less(2) by auto
    let ?p = "pre @ replicate n SP"
    let ?b = "pre @ replicate n SP @ w @ NUL # rest"
    have t: "c_str ?b (length pre + n) = Some w" using c_str_mid [OF w(3), of ?p rest] by simp
    have end_: "strtok ?b (length pre + n + length w) = Some (?b, length pre + n + length w, None)"
      using strtok_blank [of "?p @ w" 0 rest] by (simp add: add.assoc)
    have "split_from ?b (length pre) toks =
        (if length toks < KVSTORE_MAX_TOKENS then Some (?b, toks @ [length pre + n]) else None)"
      using strtok_final [OF w, of pre n rest] end_ by (simp add: split_from_def split_loop_from)
    then show ?thesis
      using final spell_snoc [OF spell_prefix [OF less(3)] t] by simp
  next
    case (inner n w u)
    then have w: "w \<noteq> []" "SP \<notin> set w" "NUL \<notin> set w" "NUL \<notin> set u" using less(2) by auto
    let ?p = "pre @ replicate n SP @ w @ [NUL]"
    have t: "c_str ?p (length pre + n) = Some w" using c_str_mid [OF w(3), of "pre @ replicate n SP" "[]"] by simp
    have sp: "spell ?p (toks @ [length pre + n]) (ws @ [w])"
      by (rule spell_snoc [OF spell_prefix [OF less(3)] t])
    have run: "split_from (pre @ msg @ NUL # rest) (length pre) toks =
        (if length toks < KVSTORE_MAX_TOKENS
         then split_from (?p @ u @ NUL # rest) (length ?p) (toks @ [length pre + n]) else None)"
      using strtok_inner [OF w(1-3), of pre n "u @ NUL # rest"] inner(1)
      by (simp add: split_from_def split_loop_from)
    have "length u < length msg" using inner(1) by simp
    from less(1) [OF this w(4) sp] inner show ?thesis unfolding run
      by (auto split: if_splits)
  qed
qed

lemma split_token_words:
  assumes "NUL \<notin> set msg" "length (words msg) \<le> KVSTORE_MAX_TOKENS"
  shows "\<exists>buf' toks. kvstore_split_token (Some (msg @ NUL # rest)) (Some xs) =
      Some (Some buf', Some toks, int (length toks)) \<and>
    length buf' = length (msg @ NUL # rest) \<and> spell buf' toks (words msg)"
proof -
  have "spell [] [] []" by (simp add: spell_def)
  from split_from_words [OF assms(1) this, of rest] assms(2) show ?thesis
    by (auto simp: kvstore_split_token_def split_from_def split: Option.bind_splits)
qed

lemma split_token_overflow:
  assumes "NUL \<notin> set msg" "KVSTORE_MAX_TOKENS < length (words msg)"
  shows "kvstore_split_token (Some (msg @ NUL # rest)) (Some xs) = None"
proof -
  have "spell [] [] []" by (simp add: spell_def)
  moreover have "words msg \<noteq> []" using assms(2) by auto
  ultimately have "split_from (msg @ NUL # rest) 0 [] = None"
    using split_from_words [OF assms(1), of "[]" "[]" "[]" rest] assms(2) by simp
  then show ?thesis
    by (auto simp: kvstore_split_token_def split_from_def split: Option.bind_splits)
qed

section \<open>Requests and the three abstract stores\<close>

datatype target = TArray | TTree | THash

text \<open>What the words of a request mean; words beyond the arguments are ignored.\<close>

definition decode_op :: "nat \<Rightarrow> string list \<Rightarrow> kv_req option" where
  "decode_op op args =
     (if op = 0 then (case args of k # v # _ \<Rightarrow> Some (SET k v) | _ \<Rightarrow> None)
      else if op = 1 then (case args of k # _ \<Rightarrow> Some (GET k) | _ \<Rightarrow> None)
      else if op = 2 then (case args of k # _ \<Rightarrow> Some (DEL k) | _ \<Rightarrow> None)
      else if op = 3 then Some COUNT
      else (case args of k # _ \<Rightarrow> Some (EXIST k) | _ \<Rightarrow> None))"

fun decode :: "string list \<Rightarrow> (target \<times> kv_req) option" where
  "decode [] = None"
| "decode (c # args) =
     (let cmd = find_cmd commands c
      in if cmd < 5 then map_option (Pair TArray) (decode_op cmd args)
         else if cmd < 10 then map_option (Pair TTree) (decode_op (cmd - 5) args)
         else if cmd < KVS_CMD_END then map_option (Pair THash) (decode_op (cmd - 10) args)
         else None)"

lemma token_spell: "spell buf toks ws \<Longrightarrow> token buf toks i = (if i < length ws then Some (ws ! i) else None)"
  by (auto simp: spell_def token_def list_all2_conv_all_nth)

lemma dispatch_decode:
  assumes "spell buf toks (c # args)"
  shows "kvs_dispatch e s op (token buf toks) =
    (case decode_op op args of None \<Rightarrow> None | Some r \<Rightarrow> kvs_handle e s r)"
proof -
  have t1: "token buf toks 1 = (case args of [] \<Rightarrow> None | k # _ \<Rightarrow> Some k)"
    and t2: "token buf toks 2 = (case args of k # v # _ \<Rightarrow> Some v | _ \<Rightarrow> None)"
    unfolding token_spell [OF assms] by (auto split: list.split)
  show ?thesis unfolding kvs_dispatch_def decode_op_def t1 t2 by (auto split: list.split)
qed

fun ks_handle :: "target \<Rightarrow> kvstore \<Rightarrow> kv_req \<Rightarrow> (kvstore \<times> string) option" where
  "ks_handle TArray ks r = do { (s, msg) \<leftarrow> kvs_handle array_engine (k_array ks) r; Some (ks\<lparr>k_array := s\<rparr>, msg) }"
| "ks_handle TTree ks r = do { (s, msg) \<leftarrow> kvs_handle rbtree_engine (k_tree ks) r; Some (ks\<lparr>k_tree := s\<rparr>, msg) }"
| "ks_handle THash ks r = do { (s, msg) \<leftarrow> kvs_handle hash_engine (k_hash ks) r; Some (ks\<lparr>k_hash := s\<rparr>, msg) }"

lemma parse_decode:
  assumes "spell buf toks (c # args)"
  shows "parse_array ks n (token buf toks) = Option.bind (decode_op n args) (ks_handle TArray ks)"
    "parse_rbtree ks n (token buf toks) = Option.bind (decode_op (n - 5) args) (ks_handle TTree ks)"
    "parse_hash ks n (token buf toks) = Option.bind (decode_op (n - 10) args) (ks_handle THash ks)"
  by (simp_all add: parse_array_def parse_rbtree_def parse_hash_def dispatch_decode [OF assms] split: option.split)

text \<open>The parser, on the words of the request.\<close>

lemma parser_words:
  assumes sp: "spell (c_rbuffer conn) toks ws"
  shows "kvstore_parser_protocol ks (Some conn) (Some toks) (int (length toks)) =
    (if ws = [] then Some (ks, Some conn, -1)
     else case decode ws of
       None \<Rightarrow> None
     | Some (tg, r) \<Rightarrow> (case ks_handle tg ks r of
          None \<Rightarrow> None | Some (ks', msg) \<Rightarrow> Some (ks', Some (conn\<lparr>c_wbuffer := cleared msg\<rparr>), 0)))"
proof (cases ws)
  case Nil
  then show ?thesis using sp by (simp add: kvstore_parser_protocol_def spell_def)
next
  case (Cons c args)
  then have len: "int (length toks) \<noteq> 0" using sp by (auto simp: spell_def)
  note sp' = sp [unfolded Cons]
  have t0: "token (c_rbuffer conn) toks 0 = Some c" using token_spell [OF sp'] by simp
  note parse = parse_decode [OF sp']
  have log: "log_command (find_cmd commands c) = None" if "\<not> find_cmd commands c < KVS_CMD_END"
    using that by (simp add: log_command_def KVS_CMD_END_def commands_def)
  let ?tok = "token (c_rbuffer conn) toks" and ?cmd = "find_cmd commands c"
  have "kvstore_parser_protocol ks (Some conn) (Some toks) (int (length toks)) = do {
      (ks, msg) \<leftarrow> (case decode ws of None \<Rightarrow> None | Some (tg, r) \<Rightarrow> ks_handle tg ks r);
      Some (ks, Some (conn\<lparr>c_wbuffer := cleared msg\<rparr>), 0) }"
  proof -
    consider "?cmd < 5" | "\<not> ?cmd < 5" "?cmd < 10" | "\<not> ?cmd < 10" "?cmd < KVS_CMD_END" | "\<not> ?cmd < KVS_CMD_END"
      by linarith
    then show ?thesis
    proof cases
      case 1
      then show ?thesis using Cons len t0
        by (cases "decode_op ?cmd args") (simp_all add: kvstore_parser_protocol_def Let_def parse del: ks_handle.simps)
    next
      case 2
      then show ?thesis using Cons len t0
        by (cases "decode_op (?cmd - 5) args") (simp_all add: kvstore_parser_protocol_def Let_def parse del: ks_handle.simps)
    next
      case 3
      then show ?thesis using Cons len t0
        by (cases "decode_op (?cmd - 10) args") (simp_all add: kvstore_parser_protocol_def Let_def parse del: ks_handle.simps)
    next
      case 4
      then show ?thesis using Cons len t0 log by (simp add: kvstore_parser_protocol_def Let_def KVS_CMD_END_def)
    qed
  qed
  then show ?thesis using Cons by (auto split: option.splits prod.splits simp del: ks_handle.simps decode.simps)
qed

definition ks_inv :: "kvstore \<Rightarrow> bool" where
  "ks_inv ks \<longleftrightarrow> array_inv (k_array ks) \<and> rb_inv (k_tree ks) \<and> hash_inv (k_hash ks)"

text \<open>The abstract state: one store per engine; only the array has a capacity.\<close>

fun ks_map :: "kvstore \<Rightarrow> target \<Rightarrow> store" where
  "ks_map ks TArray = array_map (k_array ks)"
| "ks_map ks TTree = rb_map (k_tree ks)"
| "ks_map ks THash = hash_map (k_hash ks)"

fun cap_of :: "target \<Rightarrow> nat option" where
  "cap_of TArray = Some KVS_ARRAY_SIZE"
| "cap_of _ = None"

fun key_ok_of :: "target \<Rightarrow> string \<Rightarrow> bool" where
  "key_ok_of THash k = hash_key_ok k"
| "key_ok_of _ k = True"

definition spec_request :: "(target \<Rightarrow> store) \<Rightarrow> target \<Rightarrow> kv_req \<Rightarrow> (target \<Rightarrow> store) \<times> string" where
  "spec_request m tg r = (let (st, msg) = spec_step (cap_of tg) (m tg) r in (m(tg := st), msg))"

lemma key_ok_abs: "key_ok_of TArray = (\<lambda>_. True)" "key_ok_of TTree = (\<lambda>_. True)" "key_ok_of THash = hash_key_ok"
  by (simp_all add: fun_eq_iff)

lemma ks_handle_refines:
  assumes inv: "ks_inv ks" and ok: "req_ok (key_ok_of tg) r"
  shows "\<exists>ks'. ks_handle tg ks r = Some (ks', snd (spec_request (ks_map ks) tg r)) \<and> ks_inv ks' \<and>
    ks_map ks' = fst (spec_request (ks_map ks) tg r)"
proof (cases tg)
  case TArray
  from ae.handle_refines [of "k_array ks" r] inv obtain s where
    "kvs_handle array_engine (k_array ks) r = Some (s, snd (spec_step (Some KVS_ARRAY_SIZE) (array_map (k_array ks)) r))"
    "array_inv s" "array_map s = fst (spec_step (Some KVS_ARRAY_SIZE) (array_map (k_array ks)) r)"
    by (auto simp: ks_inv_def)
  moreover have "ks_map (ks\<lparr>k_array := s\<rparr>) = (ks_map ks)(TArray := array_map s)" for s
    by (rule ext) (case_tac x; simp)
  ultimately show ?thesis using inv TArray
    by (auto simp: spec_request_def ks_inv_def case_prod_beta)
next
  case TTree
  from re.handle_refines [of "k_tree ks" r] inv obtain s where
    "kvs_handle rbtree_engine (k_tree ks) r = Some (s, snd (spec_step None (rb_map (k_tree ks)) r))"
    "rb_inv s" "rb_map s = fst (spec_step None (rb_map (k_tree ks)) r)"
    by (auto simp: ks_inv_def)
  moreover have "ks_map (ks\<lparr>k_tree := s\<rparr>) = (ks_map ks)(TTree := rb_map s)" for s
    by (rule ext) (case_tac x; simp)
  ultimately show ?thesis using inv TTree
    by (auto simp: spec_request_def ks_inv_def case_prod_beta)
next
  case THash
  then have "req_ok hash_key_ok r" using ok by (simp add: key_ok_abs)
  from he.handle_refines [of "k_hash ks" r, OF _ this] inv obtain s where
    "kvs_handle hash_engine (k_hash ks) r = Some (s, snd (spec_step None (hash_map (k_hash ks)) r))"
    "hash_inv s" "hash_map s = fst (spec_step None (hash_map (k_hash ks)) r)"
    by (auto simp: ks_inv_def)
  moreover have "ks_map (ks\<lparr>k_hash := s\<rparr>) = (ks_map ks)(THash := hash_map s)" for s
    by (rule ext) (case_tac x; simp)
  ultimately show ?thesis using inv THash
    by (auto simp: spec_request_def ks_inv_def case_prod_beta)
qed

text \<open>One request, from the bytes in the receive buffer to the bytes in the send buffer.\<close>

lemma request_words:
  assumes "c_rbuffer conn = msg @ NUL # rest" "NUL \<notin> set msg"
  shows "\<exists>b. length b = length (c_rbuffer conn) \<and> kvstore_request ks conn =
    (if KVSTORE_MAX_TOKENS < length (words msg) then None
     else if words msg = [] then Some (ks, conn\<lparr>c_rbuffer := b\<rparr>, 0)
     else case decode (words msg) of
       None \<Rightarrow> None
     | Some (tg, r) \<Rightarrow> (case ks_handle tg ks r of
          None \<Rightarrow> None
        | Some (ks', m) \<Rightarrow> Some (ks', conn\<lparr>c_rbuffer := b, c_wbuffer := cleared m\<rparr>, 0)))"
proof (cases "KVSTORE_MAX_TOKENS < length (words msg)")
  case True
  then show ?thesis using split_token_overflow [OF assms(2)] assms(1)
    by (intro exI [of _ "c_rbuffer conn"]) (simp add: kvstore_request_def)
next
  case False
  then obtain b toks where b: "kvstore_split_token (Some (c_rbuffer conn)) (Some []) =
      Some (Some b, Some toks, int (length toks))" "length b = length (c_rbuffer conn)" "spell b toks (words msg)"
    using split_token_words [OF assms(2), of rest "[]"] assms(1) by auto
  have "spell (c_rbuffer (conn\<lparr>c_rbuffer := b\<rparr>)) toks (words msg)" using b(3) by simp
  from parser_words [OF this, of ks] b(1,2) False show ?thesis
    by (intro exI [of _ b]) (auto simp: kvstore_request_def split: option.splits prod.splits)
qed

section \<open>Start\<close>

lemma init_kvengine_inv:
  assumes ok: "heap_ok (ah (k_array ks))" "heap_ok (rh (k_tree ks))" "heap_ok (hh (k_hash ks))"
    and fresh: "oom (ah (k_array ks)) = []" "cells (ah (k_array ks)) = Map.empty"
    "oom (rh (k_tree ks)) = []" "cells (rh (k_tree ks)) = Map.empty"
    "oom (hh (k_hash ks)) = []" "cells (hh (k_hash ks)) = Map.empty"
  shows "\<exists>ks'. init_kvengine_sized NODE_SIZE g (replicate MAX_TABLE_SIZE NULL) ks = Some (ks', 0) \<and> ks_inv ks' \<and>
    ks_map ks' = (\<lambda>_. Map.empty)"
proof -
  obtain a where a: "array_create (Some (k_array ks)) = (Some a, 0)" "array_inv a" "array_map a = Map.empty"
    using array_create_inv [OF ok(1) fresh(1,2)] by blast
  obtain t where t: "rbtree_create_sized NODE_SIZE g (Some (k_tree ks)) = Some (Some t, 0)" "rb_inv t" "rb_map t = Map.empty"
    using rbtree_create_inv [OF ok(2) fresh(3,4)] by blast
  obtain h where h: "create_hashtable (replicate MAX_TABLE_SIZE NULL) (Some (k_hash ks)) = (Some h, 0)"
      "hash_inv h" "hash_map h = Map.empty"
    using create_hashtable_inv [OF ok(3) fresh(5,6)] by blast
  let ?ks = "ks\<lparr>k_array := a, k_tree := t, k_hash := h\<rparr>"
  have "init_kvengine_sized NODE_SIZE g (replicate MAX_TABLE_SIZE NULL) ks = Some (?ks, 0)"
    using a(1) t(1) h(1) by (simp add: init_kvengine_sized_def)
  moreover have "ks_map ?ks = (\<lambda>_. Map.empty)"
  proof (rule ext)
    show "ks_map ?ks tg = Map.empty" for tg by (cases tg) (simp_all add: a t h)
  qed
  moreover have "ks_inv ?ks" by (simp add: ks_inv_def a t h)
  ultimately show ?thesis by blast
qed

definition start_ks :: kvstore where
  "start_ks =
     \<lparr>k_array = \<lparr>ah = empty_heap, arr = \<lparr>array_table = 0, array_index = 0\<rparr>\<rparr>,
      k_tree = \<lparr>rh = empty_heap, rt = \<lparr>t_root = 0, t_nil = 0, t_count = 0\<rparr>\<rparr>,
      k_hash = \<lparr>hh = empty_heap, ht = \<lparr>nodes = 0, max_slots = 0, hashtable_t.count = 0\<rparr>\<rparr>\<rparr>"

lemma start_ks_init:
  "\<exists>ks. init_kvengine_sized NODE_SIZE g (replicate MAX_TABLE_SIZE NULL) start_ks = Some (ks, 0) \<and> ks_inv ks \<and>
    ks_map ks = (\<lambda>_. Map.empty)"
  by (rule init_kvengine_inv) (auto simp: start_ks_def)

text \<open>
  With the sentinel of one byte that the code asks for, the start of the engines is undefined as soon as the array
  engine has its memory.
\<close>

lemma init_kvengine_undefined:
  assumes "array_create (Some (k_array ks)) = (Some a, 0)"
  shows "init_kvengine g junk ks = None"
  using assms by (simp add: init_kvengine_def init_kvengine_sized_def rbtree_create_sized_def NIL_SIZE_def fits_def Let_def
      split: prod.split)

definition conn_of :: "string \<Rightarrow> connection_t" where
  "conn_of msg =
     \<lparr>c_fd = 5, c_rbuffer = msg @ replicate (BUFFER_LENGTH - length msg) NUL, c_rlength = int (length msg),
      c_wbuffer = replicate BUFFER_LENGTH NUL, c_wlength = 0\<rparr>"

lemma conn_of_buffer:
  "length msg < BUFFER_LENGTH \<Longrightarrow>
   c_rbuffer (conn_of msg) = msg @ NUL # replicate (BUFFER_LENGTH - Suc (length msg)) NUL"
  by (simp add: conn_of_def Suc_diff_Suc flip: replicate_Suc)

section \<open>Properties\<close>

text \<open>
  C16: the tokeniser undoes joining: on a buffer that holds up to 128 words (non-empty, no blank,
  no NUL) separated by single blanks and ended by NUL, it returns their number and token pointers that spell
  exactly these words in the modified buffer.
\<close>

theorem split_token_roundtrip:
  assumes "\<forall>w \<in> set ws. word_ok w" "length ws \<le> KVSTORE_MAX_TOKENS"
  shows "\<exists>buf' toks. kvstore_split_token (Some (unwords ws @ NUL # rest)) (Some []) =
      Some (Some buf', Some toks, int (length ws)) \<and>
    length buf' = length (unwords ws @ NUL # rest) \<and>
    length toks = length ws \<and> (\<forall>i<length ws. token buf' toks i = Some (ws ! i))"
proof -
  have n: "NUL \<notin> set (unwords ws)"
    using assms(1) by (induction ws rule: unwords.induct) (auto simp: word_ok_def)
  note w = words_unwords [OF assms(1)]
  from split_token_words [OF n, of rest "[]"] assms(2) obtain b toks where
    "kvstore_split_token (Some (unwords ws @ NUL # rest)) (Some []) = Some (Some b, Some toks, int (length toks))"
    "length b = length (unwords ws @ NUL # rest)" and sp: "spell b toks ws" unfolding w by blast
  moreover have "length toks = length ws" using sp by (auto simp: spell_def dest: list_all2_lengthD)
  ultimately show ?thesis using token_spell [OF sp] by auto
qed

theorem split_token_roundtrip_witness:
  "\<exists>buf' toks. kvstore_split_token (Some (''SET k v'' @ NUL # [])) (Some []) = Some (Some buf', Some toks, 3) \<and>
    token buf' toks 2 = Some ''v''"
proof -
  have "\<forall>w \<in> set [''SET'', ''k'', ''v'']. word_ok w" by (auto simp: word_ok_def)
  from split_token_roundtrip [OF this, of "[]"] show ?thesis
    by (auto simp: KVSTORE_MAX_TOKENS_def numeral_eq_Suc All_less_Suc)
qed

text \<open>
  C1: one request end to end refines the three abstract stores: for a receive buffer with a
  NUL-terminated text of at most 128 words that decode to a request of one engine, \<open>kvstore_request\<close> returns 0, keeps the
  invariants of all three engines, changes only the addressed store as the abstract step
  does, and leaves the abstract reply, NUL-padded, in the send buffer.
\<close>

theorem request_refines:
  assumes "ks_inv ks" "c_rbuffer conn = msg @ NUL # rest" "NUL \<notin> set msg"
    "length (words msg) \<le> KVSTORE_MAX_TOKENS" "decode (words msg) = Some (tg, r)" "req_ok (key_ok_of tg) r"
  shows "\<exists>ks' conn'. kvstore_request ks conn = Some (ks', conn', 0) \<and> ks_inv ks' \<and>
    ks_map ks' = fst (spec_request (ks_map ks) tg r) \<and>
    c_wbuffer conn' = cleared (snd (spec_request (ks_map ks) tg r))"
proof -
  have "words msg \<noteq> []" using assms(5) by auto
  moreover obtain ks' where "ks_handle tg ks r = Some (ks', snd (spec_request (ks_map ks) tg r))" "ks_inv ks'"
      "ks_map ks' = fst (spec_request (ks_map ks) tg r)"
    using ks_handle_refines [OF assms(1,6)] by blast
  ultimately show ?thesis
    using request_words [OF assms(2,3), of ks] assms(4,5) by auto
qed

lemma decode_hset: "decode [''HSET'', ''k'', ''v''] = Some (THash, SET ''k'' ''v'')"
  by code_simp

lemma words_hset: "words ''HSET k v'' = [''HSET'', ''k'', ''v'']"
  by code_simp

theorem request_refines_witness:
  "\<exists>ks ks' conn'. init_kvengine_sized NODE_SIZE fresh_node (replicate MAX_TABLE_SIZE NULL) start_ks = Some (ks, 0) \<and>
    kvstore_request ks (conn_of ''HSET k v'') = Some (ks', conn', 0) \<and>
    ks_map ks' THash ''k'' = Some ''v'' \<and> ks_map ks' TTree ''k'' = None \<and> c_wbuffer conn' = cleared ''SUCCESS''"
proof -
  obtain ks where ks: "init_kvengine_sized NODE_SIZE fresh_node (replicate MAX_TABLE_SIZE NULL) start_ks = Some (ks, 0)"
      "ks_inv ks" "ks_map ks = (\<lambda>_. Map.empty)" using start_ks_init by blast
  have b: "c_rbuffer (conn_of ''HSET k v'') = ''HSET k v'' @ NUL # replicate (BUFFER_LENGTH - 9) NUL"
    using conn_of_buffer [of "''HSET k v''"] by (simp add: BUFFER_LENGTH_def)
  from request_refines [OF ks(2) b, of THash "SET ''k'' ''v''"] show ?thesis
    unfolding words_hset decode_hset using ks
    by (auto simp: KVSTORE_MAX_TOKENS_def spec_request_def has_room_def simp del: ks_map.simps)
qed

text \<open>
  a text with at least one word that does not decode (an unknown command, or a key or value missing after a
  known one) makes the request undefined: the log statement of the default case reads past
  the end of the command table, and a missing argument is read through an uninitialised
  token pointer.  \<open>NO MATCH\<close> is never answered by defined behaviour.
\<close>

theorem request_undefined:
  assumes "c_rbuffer conn = msg @ NUL # rest" "NUL \<notin> set msg" "words msg \<noteq> []" "decode (words msg) = None"
  shows "kvstore_request ks conn = None"
  using request_words [OF assms(1,2), of ks] assms(3,4) by auto

theorem request_undefined_witness:
  "kvstore_request start_ks (conn_of ''PING'') = None \<and> kvstore_request start_ks (conn_of ''GET'') = None"
proof -
  have b: "c_rbuffer (conn_of ''PING'') = ''PING'' @ NUL # replicate (BUFFER_LENGTH - 5) NUL"
    "c_rbuffer (conn_of ''GET'') = ''GET'' @ NUL # replicate (BUFFER_LENGTH - 4) NUL"
    using conn_of_buffer [of "''PING''"] conn_of_buffer [of "''GET''"] by (simp_all add: BUFFER_LENGTH_def)
  have w: "words ''PING'' = [''PING'']" "words ''GET'' = [''GET'']"
    "decode [''PING''] = None" "decode [''GET''] = None" by code_simp+
  from request_undefined [OF b(1)] request_undefined [OF b(2)] w show ?thesis by simp
qed

text \<open>
  a request of more than 128 words overruns the array of token pointers on the stack of
  \<open>kvstore_request\<close>; the receive buffer has room for up to 512 one-letter words.
\<close>

theorem split_token_unbounded:
  assumes "NUL \<notin> set msg" "KVSTORE_MAX_TOKENS < length (words msg)"
  shows "kvstore_split_token (Some (msg @ NUL # rest)) (Some []) = None"
  by (rule split_token_overflow [OF assms])

lemma unwords_length: "\<forall>w \<in> set ws. length w = 1 \<Longrightarrow> length (unwords ws) = 2 * length ws - 1"
  by (induction ws rule: unwords.induct) auto

theorem split_token_unbounded_witness:
  "kvstore_split_token (Some (unwords (replicate 129 ''a'') @ NUL # [])) (Some []) = None \<and>
    length (unwords (replicate 129 ''a'')) < BUFFER_LENGTH"
proof -
  have ok: "\<forall>w \<in> set (replicate 129 ''a''). word_ok w" by (auto simp: word_ok_def)
  have "NUL \<notin> set (unwords ws)" if "\<forall>w \<in> set ws. word_ok w" for ws
    using that by (induction ws rule: unwords.induct) (auto simp: word_ok_def)
  from split_token_unbounded [OF this [OF ok]] show ?thesis
    using unwords_length [of "replicate 129 ''a''"]
    unfolding words_unwords [OF ok] by (simp add: KVSTORE_MAX_TOKENS_def BUFFER_LENGTH_def)
qed

text \<open>
  a request of blanks only is answered with the previous reply: \<open>kvstore_request\<close> returns 0
  and leaves the engines and the send buffer as they were.
\<close>

theorem request_blank_keeps_reply:
  assumes "c_rbuffer conn = replicate n SP @ NUL # rest"
  shows "\<exists>conn'. kvstore_request ks conn = Some (ks, conn', 0) \<and> c_wbuffer conn' = c_wbuffer conn"
proof -
  have "words (replicate n SP) = []" using words_spaces [of n "[]"] by simp
  moreover have "NUL \<notin> set (replicate n SP)" by simp
  ultimately show ?thesis using request_words [OF assms, of ks] by auto
qed

theorem request_blank_keeps_reply_witness:
  "\<exists>conn'. kvstore_request start_ks (conn_of '' ''\<lparr>c_wbuffer := cleared ''v''\<rparr>) = Some (start_ks, conn', 0) \<and>
    c_wbuffer conn' = cleared ''v''"
  using request_blank_keeps_reply [of "conn_of '' ''\<lparr>c_wbuffer := cleared ''v''\<rparr>" 1]
    conn_of_buffer [of "'' ''"] by (simp add: BUFFER_LENGTH_def)

end
