(* ===== verification/KV_Epoll.thy ===== *)
theory KV_Epoll
  imports KV_Request
begin

text \<open>
  The reactor of epoll_entry.c: the table of connections, the callbacks for a ready descriptor and
  the dispatch of one batch of events.  What the kernel does is given from outside: the list of
  ready descriptors, the descriptor that accept returns, the bytes that recv stores, the count that
  send returns.  The epoll instance itself is the set of registered descriptors with their events.
\<close>

section \<open>State\<close>

datatype callback = NoCB | AcceptCB | RecvCB | SendCB

datatype epoll_ev = EPOLLIN | EPOLLOUT

record slot =
  s_conn :: connection_t
  s_recv :: callback \<comment> \<open>the union \<open>recv_t\<close>: accept or receive callback\<close>
  s_send :: callback

record server =
  sv_ks :: kvstore
  sv_list :: "slot list" \<comment> \<open>\<open>connection_list\<close>\<close>
  sv_epoll :: "nat \<Rightarrow> epoll_ev option" \<comment> \<open>the interest list of \<open>epfd\<close>\<close>
  sv_closed :: "nat list"
  sv_sent :: "(nat \<times> char list) list" \<comment> \<open>what was handed to the kernel, by descriptor\<close>

text \<open>What the system call of the callback does for one ready descriptor.\<close>

datatype sysres =
    Accepted int
  | Received "char list" \<comment> \<open>the bytes stored; none: the peer has closed\<close>
  | RecvFailed
  | Sent int

definition MAX_CONNS :: nat where "MAX_CONNS = 1024"

section \<open>Registration\<close>

text \<open>
  \<open>set_event\<close>: EPOLL_CTL_ADD fails for a registered descriptor, EPOLL_CTL_MOD for one that is not;
  the code ignores both failures.
\<close>

definition set_event :: "nat \<Rightarrow> epoll_ev \<Rightarrow> bool \<Rightarrow> server \<Rightarrow> server" where
  "set_event fd ev flag s =
     (if flag
      then (if sv_epoll s fd = None then s\<lparr>sv_epoll := (sv_epoll s)(fd \<mapsto> ev)\<rparr> else s)
      else (if sv_epoll s fd = None then s else s\<lparr>sv_epoll := (sv_epoll s)(fd \<mapsto> ev)\<rparr>))"

definition get_slot :: "server \<Rightarrow> nat \<Rightarrow> slot option" where
  "get_slot s fd = (if fd < length (sv_list s) then Some (sv_list s ! fd) else None)"

definition put_slot :: "nat \<Rightarrow> slot \<Rightarrow> server \<Rightarrow> server option" where
  "put_slot fd x s = (if fd < length (sv_list s) then Some (s\<lparr>sv_list := (sv_list s)[fd := x]\<rparr>) else None)"

section \<open>Callbacks\<close>

definition accept_cb :: "int \<Rightarrow> server \<Rightarrow> (server \<times> int) option" where
  "accept_cb clientfd s =
     (if clientfd < 0 then Some (s, -1)
      else do {
        let fd = nat clientfd;
        let s = set_event fd EPOLLIN True s;
        s \<leftarrow> put_slot fd
          \<lparr>s_conn = \<lparr>c_fd = fd, c_rbuffer = replicate BUFFER_LENGTH NUL, c_rlength = 0,
             c_wbuffer = replicate BUFFER_LENGTH NUL, c_wlength = 0\<rparr>,
           s_recv = RecvCB, s_send = SendCB\<rparr> s;
        Some (s, clientfd) })"

text \<open>
  \<open>recv_cb\<close>.  The bytes land at the start of the buffer, which is not cleared, whatever
  \<open>rlength\<close> says; a failed recv (-1) is not told apart from a request.
\<close>

definition recv_cb :: "sysres \<Rightarrow> nat \<Rightarrow> server \<Rightarrow> (server \<times> int) option" where
  "recv_cb r fd s = do {
     x \<leftarrow> get_slot s fd;
     let data = (case r of Received bs \<Rightarrow> bs | _ \<Rightarrow> []);
     let cnt = (case r of Received bs \<Rightarrow> int (length bs) | _ \<Rightarrow> -1);
     if cnt = 0
     then Some (s\<lparr>sv_epoll := (sv_epoll s)(fd := None), sv_closed := sv_closed s @ [fd]\<rparr>, -1)
     else if length (c_rbuffer (s_conn x)) < length data then None
     else do {
       let conn = (s_conn x)\<lparr>c_rbuffer := data @ drop (length data) (c_rbuffer (s_conn x)),
                             c_rlength := c_rlength (s_conn x) + cnt\<rparr>;
       let s = set_event fd EPOLLOUT False s;
       (ks, conn, _) \<leftarrow> kvstore_request (sv_ks s) conn;
       msg \<leftarrow> c_str (c_wbuffer conn) 0;
       s \<leftarrow> put_slot fd (x\<lparr>s_conn := conn\<lparr>c_wlength := length msg\<rparr>\<rparr>) (s\<lparr>sv_ks := ks\<rparr>);
       Some (s, cnt) } }"

text \<open>\<open>send_cb\<close>: what a short send leaves over is dropped.\<close>

definition send_cb :: "int \<Rightarrow> nat \<Rightarrow> server \<Rightarrow> (server \<times> int) option" where
  "send_cb cnt fd s = do {
     x \<leftarrow> get_slot s fd;
     let buffer = c_wbuffer (s_conn x);
     let n = c_wlength (s_conn x);
     let s = s\<lparr>sv_sent := sv_sent s @ [(fd, take (min (nat cnt) n) buffer)]\<rparr>;
     let s = set_event fd EPOLLIN False s;
     Some (s, cnt) }"

section \<open>The event loop\<close>

text \<open>
  One ready descriptor: \<open>inb\<close> and \<open>outb\<close> say which of EPOLLIN and EPOLLOUT are set.  Calling a
  callback that was never stored is undefined.
\<close>

definition handle_event :: "nat \<times> bool \<times> bool \<times> sysres \<Rightarrow> server \<Rightarrow> server option" where
  "handle_event e s =
     (case e of (fd, inb, outb, r) \<Rightarrow> do {
        x \<leftarrow> get_slot s fd;
        if inb
        then (case s_recv x of
                AcceptCB \<Rightarrow> map_option fst (accept_cb (case r of Accepted c \<Rightarrow> c | _ \<Rightarrow> -1) s)
              | RecvCB \<Rightarrow> map_option fst (recv_cb r fd s)
              | _ \<Rightarrow> None)
        else if outb
        then (case s_send x of
                SendCB \<Rightarrow> map_option fst (send_cb (case r of Sent c \<Rightarrow> c | _ \<Rightarrow> -1) fd s)
              | _ \<Rightarrow> None)
        else Some s })"

text \<open>The body of the outer loop for the batch that \<open>epoll_wait\<close> returned.\<close>

fun handle_events :: "(nat \<times> bool \<times> bool \<times> sysres) list \<Rightarrow> server \<Rightarrow> server option" where
  "handle_events [] s = Some s"
| "handle_events (e # es) s = do { s \<leftarrow> handle_event e s; handle_events es s }"

text \<open>\<open>epoll_entry\<close> up to its loop, after a successful \<open>bind\<close>.\<close>

definition zero_slot :: slot where
  "zero_slot = \<lparr>s_conn = \<lparr>c_fd = 0, c_rbuffer = replicate BUFFER_LENGTH NUL, c_rlength = 0,
      c_wbuffer = replicate BUFFER_LENGTH NUL, c_wlength = 0\<rparr>, s_recv = NoCB, s_send = NoCB\<rparr>"

definition epoll_entry_start :: "nat \<Rightarrow> kvstore \<Rightarrow> server option" where
  "epoll_entry_start listenfd ks = do {
     let s = \<lparr>sv_ks = ks, sv_list = replicate MAX_CONNS zero_slot, sv_epoll = Map.empty,
              sv_closed = [], sv_sent = []\<rparr>;
     x \<leftarrow> get_slot s listenfd;
     s \<leftarrow> put_slot listenfd (x\<lparr>s_conn := (s_conn x)\<lparr>c_fd := listenfd\<rparr>, s_recv := AcceptCB\<rparr>) s;
     Some (set_event listenfd EPOLLIN True s) }"

section \<open>Lemmas\<close>

lemma get_slot_simps [simp]:
  "get_slot (set_event fd ev flag s) k = get_slot s k"
  "get_slot (s\<lparr>sv_ks := ks\<rparr>) k = get_slot s k"
  "get_slot (s\<lparr>sv_sent := l\<rparr>) k = get_slot s k"
  "get_slot (s\<lparr>sv_epoll := m, sv_closed := cl\<rparr>) k = get_slot s k"
  by (simp_all add: get_slot_def set_event_def)

lemma set_event_simps [simp]:
  "sv_ks (set_event fd ev flag s) = sv_ks s" "sv_list (set_event fd ev flag s) = sv_list s"
  "sv_sent (set_event fd ev flag s) = sv_sent s" "sv_closed (set_event fd ev flag s) = sv_closed s"
  by (simp_all add: set_event_def)

lemma set_event_mod: "sv_epoll s fd \<noteq> None \<Longrightarrow> sv_epoll (set_event fd ev False s) = (sv_epoll s)(fd \<mapsto> ev)"
  by (auto simp: set_event_def)

lemma put_slot_Some:
  "get_slot s fd \<noteq> None \<Longrightarrow> put_slot fd x s = Some (s\<lparr>sv_list := (sv_list s)[fd := x]\<rparr>)"
  by (simp add: put_slot_def get_slot_def split: if_splits)

lemma get_slot_upd [simp]:
  "get_slot (s\<lparr>sv_list := (sv_list s)[fd := x]\<rparr>) k = (if k = fd \<and> get_slot s fd \<noteq> None then Some x else get_slot s k)"
  by (auto simp: get_slot_def)

lemma c_str_cleared:
  "NUL \<notin> set m \<Longrightarrow> length m < BUFFER_LENGTH \<Longrightarrow> c_str (cleared m) 0 = Some m"
  using c_str_mid [of m "[]" "replicate (BUFFER_LENGTH - Suc (length m)) NUL"]
  by (simp add: cleared_def Suc_diff_Suc flip: replicate_Suc)

text \<open>The text that a receive buffer holds: everything up to the first NUL.\<close>

definition held :: "char list \<Rightarrow> string" where
  "held buf = takeWhile (\<lambda>c. c \<noteq> NUL) buf"

lemma held_split:
  assumes "NUL \<in> set buf"
  obtains rest where "buf = held buf @ NUL # rest" "NUL \<notin> set (held buf)"
proof -
  have "buf = held buf @ dropWhile (\<lambda>c. c \<noteq> NUL) buf" by (simp add: held_def)
  moreover have "dropWhile (\<lambda>c. c \<noteq> NUL) buf \<noteq> []" using assms by (auto simp: dropWhile_eq_Nil_conv)
  then have "dropWhile (\<lambda>c. c \<noteq> NUL) buf = NUL # tl (dropWhile (\<lambda>c. c \<noteq> NUL) buf)"
    using hd_dropWhile [of "\<lambda>c. c \<noteq> NUL" buf] by (cases "dropWhile (\<lambda>c. c \<noteq> NUL) buf") auto
  moreover have "NUL \<notin> set (held buf)" using set_takeWhileD by (fastforce simp: held_def)
  ultimately show ?thesis using that by metis
qed

lemma held_text: "NUL \<notin> set msg \<Longrightarrow> held (msg @ NUL # rest) = msg"
  by (induction msg) (auto simp: held_def)

text \<open>The bytes in the buffer after recv.\<close>

definition overlay :: "char list \<Rightarrow> char list \<Rightarrow> char list" where
  "overlay data buf = data @ drop (length data) buf"

text \<open>The core of \<open>recv_cb\<close>: the request that the buffer holds now is executed and answered.\<close>

lemma recv_cb_executes:
  assumes inv: "ks_inv (sv_ks s)" and x: "get_slot s fd = Some x"
    and reg: "sv_epoll s fd \<noteq> None"
    and data: "(r = Received data \<and> data \<noteq> []) \<or> (r = RecvFailed \<and> data = [])"
    and fits: "length data \<le> length (c_rbuffer (s_conn x))"
    and nul: "NUL \<in> set (overlay data (c_rbuffer (s_conn x)))"
    and msg: "msg = held (overlay data (c_rbuffer (s_conn x)))"
    and ws: "length (words msg) \<le> KVSTORE_MAX_TOKENS" "decode (words msg) = Some (tg, q)" "req_ok (key_ok_of tg) q"
    and reply: "reply = snd (spec_request (ks_map (sv_ks s)) tg q)" "length reply < BUFFER_LENGTH" "NUL \<notin> set reply"
  shows "\<exists>s' x'. recv_cb r fd s = Some (s', if r = RecvFailed then -1 else int (length data)) \<and> ks_inv (sv_ks s') \<and>
    ks_map (sv_ks s') = fst (spec_request (ks_map (sv_ks s)) tg q) \<and>
    get_slot s' fd = Some x' \<and> take (c_wlength (s_conn x')) (c_wbuffer (s_conn x')) = reply \<and>
    c_wlength (s_conn x') = length reply \<and> s_recv x' = s_recv x \<and> s_send x' = s_send x \<and>
    length (c_rbuffer (s_conn x')) = length (c_rbuffer (s_conn x)) \<and>
    sv_epoll s' = (sv_epoll s)(fd \<mapsto> EPOLLOUT) \<and> sv_sent s' = sv_sent s \<and>
    (\<forall>k. k \<noteq> fd \<longrightarrow> get_slot s' k = get_slot s k)"
proof -
  define cnt where "cnt = (if r = RecvFailed then -1 else int (length data))"
  define conn where "conn = (s_conn x)\<lparr>c_rbuffer := overlay data (c_rbuffer (s_conn x)), c_rlength := c_rlength (s_conn x) + cnt\<rparr>"
  obtain rest where "overlay data (c_rbuffer (s_conn x)) = msg @ NUL # rest" "NUL \<notin> set msg"
    using held_split [OF nul] msg by metis
  then have c: "c_rbuffer conn = msg @ NUL # rest" "NUL \<notin> set msg" by (simp_all add: conn_def)
  have len: "length (c_rbuffer conn) = length (c_rbuffer (s_conn x))" using fits by (simp add: conn_def overlay_def)
  have "words msg \<noteq> []" using ws(2) by auto
  then obtain ks' b where ks': "kvstore_request (sv_ks s) conn = Some (ks', conn\<lparr>c_rbuffer := b, c_wbuffer := cleared reply\<rparr>, 0)" "length b = length (c_rbuffer conn)"
      "ks_inv ks'" "ks_map ks' = fst (spec_request (ks_map (sv_ks s)) tg q)"
    using request_words [OF c, of "sv_ks s"] ks_handle_refines [OF inv ws(3)] ws(1,2) reply(1) by auto
  let ?x = "x\<lparr>s_conn := conn\<lparr>c_rbuffer := b, c_wbuffer := cleared reply, c_wlength := length reply\<rparr>\<rparr>"
  let ?s = "(set_event fd EPOLLOUT False s)\<lparr>sv_ks := ks', sv_list := (sv_list s)[fd := ?x]\<rparr>"
  have cs: "c_str (c_wbuffer (conn\<lparr>c_rbuffer := b, c_wbuffer := cleared reply\<rparr>)) 0 = Some reply"
    using c_str_cleared [OF reply(3,2)] by simp
  have put: "put_slot fd ?x ((set_event fd EPOLLOUT False s)\<lparr>sv_ks := ks'\<rparr>) = Some ?s"
    using x by (subst put_slot_Some) simp_all
  have cnt0: "cnt \<noteq> 0" using data by (auto simp: cnt_def)
  have vals: "(case r of Received bs \<Rightarrow> bs | _ \<Rightarrow> []) = data" "(case r of Received bs \<Rightarrow> int (length bs) | _ \<Rightarrow> -1) = cnt"
    using data by (auto simp: cnt_def)
  have eq: "(s_conn x)\<lparr>c_rbuffer := data @ drop (length data) (c_rbuffer (s_conn x)),
      c_rlength := c_rlength (s_conn x) + cnt\<rparr> = conn" by (simp add: conn_def overlay_def)
  have run: "recv_cb r fd s = Some (?s, cnt)"
    using cnt0 fits cs put unfolding recv_cb_def x vals Let_def
    by (simp add: eq ks'(1) del: of_nat_eq_0_iff)
  have "get_slot ?s fd = Some ?x" "\<And>k. k \<noteq> fd \<Longrightarrow> get_slot ?s k = get_slot s k"
    using x by (auto simp: get_slot_def split: if_splits)
  then show ?thesis using run ks'(2-4) set_event_mod [OF reg] len
    by (intro exI [of _ ?s] exI [of _ ?x]) (simp add: cnt_def cleared_def)
qed

section \<open>Which callbacks are stored\<close>

fun slot_ok :: "epoll_ev \<Rightarrow> slot \<Rightarrow> bool" where
  "slot_ok EPOLLIN x = (s_recv x = AcceptCB \<or> s_recv x = RecvCB \<and> s_send x = SendCB)"
| "slot_ok EPOLLOUT x = (s_recv x = RecvCB \<and> s_send x = SendCB)"

definition epoll_ok :: "server \<Rightarrow> bool" where
  "epoll_ok s \<longleftrightarrow>
     length (sv_list s) = MAX_CONNS \<and>
     (\<forall>fd ev. sv_epoll s fd = Some ev \<longrightarrow> (\<exists>x. get_slot s fd = Some x \<and> slot_ok ev x))"

text \<open>The kernel reports EPOLLIN and EPOLLOUT only where they were asked for.\<close>

definition event_ok :: "server \<Rightarrow> nat \<times> bool \<times> bool \<times> sysres \<Rightarrow> bool" where
  "event_ok s e = (case e of (fd, inb, outb, r) \<Rightarrow>
     (inb \<longrightarrow> sv_epoll s fd = Some EPOLLIN) \<and> (outb \<longrightarrow> sv_epoll s fd = Some EPOLLOUT))"

inductive served :: "server \<Rightarrow> bool" where
  entry: "epoll_entry_start l ks = Some s \<Longrightarrow> served s"
| event: "served s \<Longrightarrow> event_ok s e \<Longrightarrow> handle_event e s = Some s' \<Longrightarrow> served s'"

lemma epoll_okI:
  assumes ok: "epoll_ok s" and len: "length (sv_list s') = length (sv_list s)"
    and other: "\<And>k. k \<noteq> fd \<Longrightarrow> sv_epoll s' k = sv_epoll s k \<and> get_slot s' k = get_slot s k"
    and here: "\<And>ev. sv_epoll s' fd = Some ev \<Longrightarrow> \<exists>x. get_slot s' fd = Some x \<and> slot_ok ev x"
  shows "epoll_ok s'"
  unfolding epoll_ok_def
proof (intro conjI allI impI)
  show "length (sv_list s') = MAX_CONNS" using ok len by (simp add: epoll_ok_def)
next
  fix k ev
  assume "sv_epoll s' k = Some ev"
  then show "\<exists>x. get_slot s' k = Some x \<and> slot_ok ev x"
    using here other [of k] ok by (cases "k = fd") (auto simp: epoll_ok_def)
qed

lemma epoll_ok_accept:
  assumes ok: "epoll_ok s" and run: "accept_cb c s = Some (s', r)"
  shows "epoll_ok s'"
proof (cases "c < 0")
  case True
  then show ?thesis using assms by (simp add: accept_cb_def)
next
  case False
  with run obtain x where x: "put_slot (nat c) x (set_event (nat c) EPOLLIN True s) = Some s'"
      "s_recv x = RecvCB" "s_send x = SendCB"
    by (auto simp: accept_cb_def Let_def split: Option.bind_splits)
  show ?thesis
  proof (rule epoll_okI [OF ok, of _ "nat c"])
    show "length (sv_list s') = length (sv_list s)" using x(1) by (auto simp: put_slot_def split: if_splits)
    fix k
    assume "k \<noteq> nat c"
    then show "sv_epoll s' k = sv_epoll s k \<and> get_slot s' k = get_slot s k"
      using x(1) by (auto simp: put_slot_def get_slot_def set_event_def split: if_splits)
  next
    fix ev
    show "\<exists>x. get_slot s' (nat c) = Some x \<and> slot_ok ev x"
      using x by (cases ev) (auto simp: put_slot_def get_slot_def split: if_splits)
  qed
qed

lemma epoll_ok_recv:
  assumes ok: "epoll_ok s" and x: "get_slot s fd = Some x" "s_recv x = RecvCB" "s_send x = SendCB"
    and run: "recv_cb r fd s = Some (s', c)"
  shows "epoll_ok s'"
proof (cases "s' = s\<lparr>sv_epoll := (sv_epoll s)(fd := None), sv_closed := sv_closed s @ [fd]\<rparr>")
  case True
  then show ?thesis by (intro epoll_okI [OF ok, of _ fd]) auto
next
  case False
  then obtain conn ks where s': "put_slot fd (x\<lparr>s_conn := conn\<rparr>) ((set_event fd EPOLLOUT False s)\<lparr>sv_ks := ks\<rparr>) = Some s'"
    using run x(1) by (auto simp: recv_cb_def Let_def split: Option.bind_splits if_splits)
  show ?thesis
  proof (rule epoll_okI [OF ok, of _ fd])
    show "length (sv_list s') = length (sv_list s)" using s' by (auto simp: put_slot_def split: if_splits)
    fix k
    assume "k \<noteq> fd"
    then show "sv_epoll s' k = sv_epoll s k \<and> get_slot s' k = get_slot s k"
      using s' by (auto simp: put_slot_def get_slot_def set_event_def split: if_splits)
  next
    fix ev
    show "\<exists>x. get_slot s' fd = Some x \<and> slot_ok ev x"
      using s' x by (cases ev) (auto simp: put_slot_def get_slot_def split: if_splits)
  qed
qed

lemma epoll_ok_send:
  assumes ok: "epoll_ok s" and x: "get_slot s fd = Some x" "s_recv x = RecvCB" "s_send x = SendCB"
    and run: "send_cb n fd s = Some (s', c)"
  shows "epoll_ok s'"
proof (rule epoll_okI [OF ok, of _ fd])
  have s': "s' = set_event fd EPOLLIN False (s\<lparr>sv_sent := sv_sent s'\<rparr>)"
    using run by (auto simp: send_cb_def x(1) Let_def)
  show "length (sv_list s') = length (sv_list s)" by (subst s') simp
  have "get_slot s' k = get_slot s k" for k by (subst s') simp
  moreover have "sv_epoll s' k = sv_epoll s k" if "k \<noteq> fd" for k
    using that by (subst s') (simp add: set_event_def)
  ultimately show "sv_epoll s' k = sv_epoll s k \<and> get_slot s' k = get_slot s k" if "k \<noteq> fd" for k
    using that by simp
  show "\<exists>x. get_slot s' fd = Some x \<and> slot_ok ev x" for ev
    using \<open>\<And>k. get_slot s' k = get_slot s k\<close> x by (cases ev) auto
qed

lemma epoll_ok_event:
  assumes ok: "epoll_ok s" and e: "event_ok s (fd, inb, outb, r)" and run: "handle_event (fd, inb, outb, r) s = Some s'"
  shows "epoll_ok s'"
proof -
  obtain x where x: "get_slot s fd = Some x"
    using run by (auto simp: handle_event_def split: Option.bind_splits)
  consider (inp) "inb" | (out) "\<not> inb" "outb" | (none) "\<not> inb" "\<not> outb" by blast
  then show ?thesis
  proof cases
    case inp
    then have sl: "slot_ok EPOLLIN x" using ok e x unfolding epoll_ok_def event_ok_def by fastforce
    then show ?thesis
      using run inp x epoll_ok_accept [OF ok] epoll_ok_recv [OF ok x]
      by (auto simp: handle_event_def split: sysres.splits)
  next
    case out
    then have sl: "slot_ok EPOLLOUT x" using ok e x unfolding epoll_ok_def event_ok_def by fastforce
    then show ?thesis
      using run out x epoll_ok_send [OF ok x] by (auto simp: handle_event_def split: sysres.splits)
  next
    case none
    then show ?thesis using run ok x by (simp add: handle_event_def)
  qed
qed

lemma served_ok: "served s \<Longrightarrow> epoll_ok s"
proof (induction rule: served.induct)
  case (entry l ks s)
  then have l: "l < MAX_CONNS" by (auto simp: epoll_entry_start_def get_slot_def Let_def split: Option.bind_splits if_splits)
  then have "s = set_event l EPOLLIN True \<lparr>sv_ks = ks, sv_list = (replicate MAX_CONNS zero_slot)
      [l := zero_slot\<lparr>s_conn := (s_conn zero_slot)\<lparr>c_fd := l\<rparr>, s_recv := AcceptCB\<rparr>],
      sv_epoll = Map.empty, sv_closed = [], sv_sent = []\<rparr>"
    using entry by (simp add: epoll_entry_start_def get_slot_def put_slot_def Let_def)
  then show ?case using l by (auto simp: epoll_ok_def get_slot_def set_event_def split: if_splits)
next
  case (event s e s')
  then show ?case using epoll_ok_event by (cases e) blast
qed

section \<open>Properties\<close>

text \<open>
  one round of the reactor for a connected client refines the abstract stores.  The
  descriptor is readable, then writable; in between the request that the buffer holds (the bytes
  received, then whatever the buffer held behind them up to the next NUL) is executed.  The stores
  change as the abstract step does, the kernel is handed exactly the abstract reply, and the
  descriptor waits for input again.
\<close>

theorem epoll_round_refines:
  assumes "ks_inv (sv_ks s)" "get_slot s fd = Some x" "s_recv x = RecvCB" "s_send x = SendCB"
    "sv_epoll s fd = Some EPOLLIN" "data \<noteq> []" "length data \<le> length (c_rbuffer (s_conn x))"
    "NUL \<in> set (overlay data (c_rbuffer (s_conn x)))"
    "msg = held (overlay data (c_rbuffer (s_conn x)))" "length (words msg) \<le> KVSTORE_MAX_TOKENS"
    "decode (words msg) = Some (tg, q)" "req_ok (key_ok_of tg) q"
    "reply = snd (spec_request (ks_map (sv_ks s)) tg q)" "length reply < BUFFER_LENGTH" "NUL \<notin> set reply"
  shows "\<exists>s'. handle_events [(fd, True, False, Received data), (fd, False, True, Sent (int (length reply)))] s = Some s' \<and>
    ks_inv (sv_ks s') \<and> ks_map (sv_ks s') = fst (spec_request (ks_map (sv_ks s)) tg q) \<and>
    sv_sent s' = sv_sent s @ [(fd, reply)] \<and> sv_epoll s' = sv_epoll s"
proof -
  from recv_cb_executes [OF assms(1,2) _ _ assms(7-15), of "Received data"] assms(5,6) obtain s1 x1 where s1:
    "recv_cb (Received data) fd s = Some (s1, int (length data))" "ks_inv (sv_ks s1)"
    "ks_map (sv_ks s1) = fst (spec_request (ks_map (sv_ks s)) tg q)" "get_slot s1 fd = Some x1"
    "take (c_wlength (s_conn x1)) (c_wbuffer (s_conn x1)) = reply" "c_wlength (s_conn x1) = length reply"
    "s_recv x1 = s_recv x" "s_send x1 = s_send x" "sv_epoll s1 = (sv_epoll s)(fd \<mapsto> EPOLLOUT)"
    "sv_sent s1 = sv_sent s" by auto
  let ?s2 = "set_event fd EPOLLIN False (s1\<lparr>sv_sent := sv_sent s1 @ [(fd, reply)]\<rparr>)"
  have "handle_event (fd, True, False, Received data) s = Some s1"
    using assms(2,3) s1(1) by (simp add: handle_event_def)
  moreover have "handle_event (fd, False, True, Sent (int (length reply))) s1 = Some ?s2"
    using s1(4-8) assms(4) by (simp add: handle_event_def send_cb_def Let_def)
  moreover have "sv_epoll ?s2 = sv_epoll s"
    using assms(5) s1(9) by (auto simp: set_event_def fun_eq_iff)
  ultimately show ?thesis using s1(2,3,10) by simp
qed

text \<open>A concrete client: it is accepted, sends a request, and later a shorter one.\<close>

definition client_state :: "kvstore \<Rightarrow> char list \<Rightarrow> server" where
  "client_state ks buf =
     \<lparr>sv_ks = ks, sv_list = (replicate MAX_CONNS zero_slot)
        [5 := \<lparr>s_conn = (conn_of [])\<lparr>c_rbuffer := buf\<rparr>, s_recv = RecvCB, s_send = SendCB\<rparr>],
      sv_epoll = [5 \<mapsto> EPOLLIN], sv_closed = [], sv_sent = []\<rparr>"

lemma client_state_simps:
  "sv_ks (client_state ks buf) = ks" "sv_epoll (client_state ks buf) = [5 \<mapsto> EPOLLIN]"
  "sv_sent (client_state ks buf) = []"
  "get_slot (client_state ks buf) 5 =
     Some \<lparr>s_conn = (conn_of [])\<lparr>c_rbuffer := buf\<rparr>, s_recv = RecvCB, s_send = SendCB\<rparr>"
  by (simp_all add: client_state_def get_slot_def MAX_CONNS_def)

text \<open>
  The buffer of the witness is what the request \<open>RSET ab 1\<close> leaves behind: the five bytes of
  \<open>RGET a\<close> are completed by the old \<open>b\<close>, so the server looks up \<open>ab\<close>.
\<close>

theorem epoll_round_refines_witness:
  "\<exists>ks s'. ks_map ks = (\<lambda>_. Map.empty) \<and>
    handle_events [(5, True, False, Received ''RGET a''), (5, False, True, Sent 8)]
      (client_state ks (''RSET'' @ NUL # ''ab'' @ NUL # ''1'' @ replicate 1015 NUL)) = Some s' \<and>
    sv_sent s' = [(5, ''NO EXIST'')] \<and>
    held (overlay ''RGET a'' (''RSET'' @ NUL # ''ab'' @ NUL # ''1'' @ replicate 1015 NUL)) = ''RGET ab''"
proof -
  obtain ks where ks: "ks_inv ks" "ks_map ks = (\<lambda>_. Map.empty)" using start_ks_init by blast
  let ?buf = "''RSET'' @ NUL # ''ab'' @ NUL # ''1'' @ replicate 1015 NUL"
  have h: "held (overlay ''RGET a'' ?buf) = ''RGET ab''" by (simp add: held_def overlay_def)
  have w: "words ''RGET ab'' = [''RGET'', ''ab'']" "decode [''RGET'', ''ab''] = Some (TTree, GET ''ab'')"
    by code_simp+
  have rep: "snd (spec_request (\<lambda>_. Map.empty) TTree (GET ''ab'')) = ''NO EXIST''"
    by (simp add: spec_request_def)
  have "\<exists>s'. handle_events [(5, True, False, Received ''RGET a''), (5, False, True, Sent (int (length ''NO EXIST'')))]
      (client_state ks ?buf) = Some s' \<and> ks_inv (sv_ks s') \<and>
      ks_map (sv_ks s') = fst (spec_request (ks_map (sv_ks (client_state ks ?buf))) TTree (GET ''ab'')) \<and>
      sv_sent s' = sv_sent (client_state ks ?buf) @ [(5, ''NO EXIST'')] \<and> sv_epoll s' = sv_epoll (client_state ks ?buf)"
    by (rule epoll_round_refines [OF _ client_state_simps(4), where msg = "''RGET ab''"])
      (use ks h w rep in \<open>simp_all add: client_state_simps KVSTORE_MAX_TOKENS_def BUFFER_LENGTH_def req_ok_def overlay_def\<close>)
  then show ?thesis using ks(2) h by (auto simp: client_state_simps)
qed

text \<open>
  a recv that fails is not told apart from a request: the text still in the buffer is executed
  again, a reply is prepared, and \<open>rlength\<close> shrinks by one.
\<close>

theorem recv_error_replays:
  assumes "ks_inv (sv_ks s)" "get_slot s fd = Some x" "sv_epoll s fd = Some EPOLLIN"
    "NUL \<in> set (c_rbuffer (s_conn x))" "msg = held (c_rbuffer (s_conn x))"
    "length (words msg) \<le> KVSTORE_MAX_TOKENS" "decode (words msg) = Some (tg, q)" "req_ok (key_ok_of tg) q"
    "reply = snd (spec_request (ks_map (sv_ks s)) tg q)" "length reply < BUFFER_LENGTH" "NUL \<notin> set reply"
  shows "\<exists>s'. recv_cb RecvFailed fd s = Some (s', -1) \<and>
    ks_map (sv_ks s') = fst (spec_request (ks_map (sv_ks s)) tg q) \<and> sv_epoll s' fd = Some EPOLLOUT"
  using recv_cb_executes [OF assms(1,2), of RecvFailed "[]" msg tg q reply] assms(3-) by (auto simp: overlay_def)

theorem recv_error_replays_witness:
  "\<exists>ks s'. recv_cb RecvFailed 5 (client_state ks (''RSET a 1'' @ replicate 1016 NUL)) = Some (s', -1) \<and>
    ks_map (sv_ks s') TTree ''a'' = Some ''1'' \<and> ks_map ks TTree ''a'' = None"
proof -
  obtain ks where ks: "ks_inv ks" "ks_map ks = (\<lambda>_. Map.empty)" using start_ks_init by blast
  let ?buf = "''RSET a 1'' @ replicate 1016 NUL"
  have h: "held ?buf = ''RSET a 1''" by (simp add: held_def)
  have w: "words ''RSET a 1'' = [''RSET'', ''a'', ''1'']" "decode [''RSET'', ''a'', ''1''] = Some (TTree, SET ''a'' ''1'')"
    by code_simp+
  have rep: "spec_request (\<lambda>_. Map.empty) TTree (SET ''a'' ''1'') =
      ((\<lambda>_. Map.empty)(TTree := [''a'' \<mapsto> ''1'']), ''SUCCESS'')"
    by (simp add: spec_request_def has_room_def)
  have "\<exists>s'. recv_cb RecvFailed 5 (client_state ks ?buf) = Some (s', -1) \<and>
      ks_map (sv_ks s') = fst (spec_request (ks_map (sv_ks (client_state ks ?buf))) TTree (SET ''a'' ''1'')) \<and>
      sv_epoll s' 5 = Some EPOLLOUT"
    by (rule recv_error_replays [OF _ client_state_simps(4), where msg = "''RSET a 1''" and reply = "''SUCCESS''"])
      (use ks h w rep in \<open>simp_all add: client_state_simps KVSTORE_MAX_TOKENS_def BUFFER_LENGTH_def req_ok_def\<close>)
  then obtain s' where "recv_cb RecvFailed 5 (client_state ks ?buf) = Some (s', -1)"
      "ks_map (sv_ks s') = (\<lambda>_. Map.empty)(TTree := [''a'' \<mapsto> ''1''])"
    using ks(2) rep by (auto simp: client_state_simps simp del: ks_map.simps)
  then show ?thesis using ks(2) by (intro exI [of _ ks] exI [of _ s']) (simp del: ks_map.simps)
qed

text \<open>
  a descriptor of 1024 or more, which accept may return, is stored outside \<open>connection_list\<close>.
\<close>

theorem accept_overflow:
  assumes "length (sv_list s) = MAX_CONNS"
  shows "accept_cb c s = None \<longleftrightarrow> int MAX_CONNS \<le> c"
  using assms by (auto simp: accept_cb_def put_slot_def Let_def MAX_CONNS_def)

theorem accept_overflow_witness:
  "accept_cb 1024 (client_state start_ks []) = None \<and> accept_cb 7 (client_state start_ks []) \<noteq> None"
  using accept_overflow [of "client_state start_ks []" 1024] accept_overflow [of "client_state start_ks []" 7]
  by (simp add: client_state_def MAX_CONNS_def)

text \<open>
  whatever the kernel reports, every descriptor that becomes readable or writable has the
  callback stored that the loop calls: the reactor never calls through a null pointer.
\<close>

theorem epoll_callbacks_stored:
  assumes "served s" "event_ok s (fd, inb, outb, r)" "inb \<or> outb"
  shows "\<exists>x. get_slot s fd = Some x \<and> (inb \<longrightarrow> s_recv x = AcceptCB \<or> s_recv x = RecvCB) \<and>
    (outb \<longrightarrow> s_send x = SendCB)"
proof -
  obtain ev where "sv_epoll s fd = Some ev" "inb \<longrightarrow> ev = EPOLLIN" "outb \<longrightarrow> ev = EPOLLOUT"
    using assms(2,3) by (auto simp: event_ok_def)
  moreover from this obtain x where "get_slot s fd = Some x" "slot_ok ev x"
    using served_ok [OF assms(1)] by (auto simp: epoll_ok_def)
  ultimately show ?thesis by (cases ev) auto
qed

theorem epoll_callbacks_stored_witness:
  "\<exists>s x. epoll_entry_start 3 start_ks = Some s \<and> get_slot s 3 = Some x \<and> (s_recv x = AcceptCB \<or> s_recv x = RecvCB)"
proof -
  obtain s where s: "epoll_entry_start 3 start_ks = Some s" "sv_epoll s 3 = Some EPOLLIN"
    by (simp add: epoll_entry_start_def get_slot_def put_slot_def set_event_def MAX_CONNS_def)
  from epoll_callbacks_stored [OF served.entry [OF s(1)], of 3 True False "Accepted 5"] s
  show ?thesis by (auto simp: event_ok_def)
qed

end
