(* ===== verification/KV_Ntyco.thy ===== *)
theory KV_Ntyco
  imports KV_Epoll
begin

text \<open>
  The coroutine server of ntyco_entry.c: the reader that serves one client.  What recv and send
  answer in each turn of the loop is a list given from outside; when the list ends the reader is
  still waiting.
\<close>

section \<open>The reader\<close>

datatype recv_res = RData "char list" | REof | RError

record reader_st =
  rd_ks :: kvstore
  rd_sent :: "char list list" \<comment> \<open>what was handed to send, in order\<close>
  rd_closed :: bool

text \<open>\<open>connection_t item = {0}\<close>, filled by recv.\<close>

definition fresh_item :: "char list \<Rightarrow> connection_t option" where
  "fresh_item bs =
     (if BUFFER_LENGTH < length bs then None
      else Some \<lparr>c_fd = 0, c_rbuffer = bs @ replicate (BUFFER_LENGTH - length bs) NUL, c_rlength = 0,
             c_wbuffer = replicate BUFFER_LENGTH NUL, c_wlength = 0\<rparr>)"

text \<open>
  \<open>server_reader\<close>: every turn is an answer of recv and, should it come to that, of send.  An
  error of recv is neither data nor end of file, so the loop goes round.
\<close>

fun server_reader :: "(recv_res \<times> int) list \<Rightarrow> reader_st \<Rightarrow> reader_st option" where
  "server_reader [] s = Some s"
| "server_reader ((RData bs, sret) # es) s =
     (if bs = [] then Some (s\<lparr>rd_closed := True\<rparr>)
      else do {
        item \<leftarrow> fresh_item bs;
        (ks, item, _) \<leftarrow> kvstore_request (rd_ks s) item;
        msg \<leftarrow> c_str (c_wbuffer item) 0;
        let item = item\<lparr>c_wlength := length msg\<rparr>;
        let s = s\<lparr>rd_ks := ks, rd_sent := rd_sent s @ [take (c_wlength item) (c_wbuffer item)]\<rparr>;
        if sret = -1 then Some (s\<lparr>rd_closed := True\<rparr>) else server_reader es s })"
| "server_reader ((REof, sret) # es) s = Some (s\<lparr>rd_closed := True\<rparr>)"
| "server_reader ((RError, sret) # es) s = server_reader es s"

section \<open>The abstract session\<close>

fun spec_requests :: "(target \<Rightarrow> store) \<Rightarrow> (target \<times> kv_req) list \<Rightarrow> (target \<Rightarrow> store) \<times> string list" where
  "spec_requests m [] = (m, [])"
| "spec_requests m ((tg, q) # rs) =
     (let (m, msg) = spec_request m tg q; (m, msgs) = spec_requests m rs in (m, msg # msgs))"

text \<open>A text of the client that is one request.\<close>

definition asks :: "string \<Rightarrow> target \<times> kv_req \<Rightarrow> bool" where
  "asks msg tr \<longleftrightarrow>
     length msg < BUFFER_LENGTH \<and> NUL \<notin> set msg \<and> length (words msg) \<le> KVSTORE_MAX_TOKENS \<and>
     decode (words msg) = Some tr \<and> req_ok (key_ok_of (fst tr)) (snd tr)"

definition reply_ok :: "string \<Rightarrow> bool" where
  "reply_ok msg \<longleftrightarrow> length msg < BUFFER_LENGTH \<and> NUL \<notin> set msg"

text \<open>What one request does, from the received text to the reply in the send buffer.\<close>

lemma item_request:
  assumes inv: "ks_inv ks" and msg: "asks msg (tg, q)"
    and reply: "reply = snd (spec_request (ks_map ks) tg q)" "reply_ok reply"
  shows "\<exists>item ks' item' r. msg \<noteq> [] \<and> fresh_item msg = Some item \<and> kvstore_request ks item = Some (ks', item', r) \<and>
    c_str (c_wbuffer item') 0 = Some reply \<and> take (length reply) (c_wbuffer item') = reply \<and>
    ks_inv ks' \<and> ks_map ks' = fst (spec_request (ks_map ks) tg q)"
proof -
  have len: "length msg < BUFFER_LENGTH" "NUL \<notin> set msg" and ne: "msg \<noteq> []" "words msg \<noteq> []"
    using msg by (auto simp: asks_def)
  obtain item where item: "fresh_item msg = Some item"
      "c_rbuffer item = msg @ NUL # replicate (BUFFER_LENGTH - Suc (length msg)) NUL"
    using len(1) by (auto simp: fresh_item_def Suc_diff_Suc simp flip: replicate_Suc)
  obtain ks' b where ks: "kvstore_request ks item = Some (ks', item\<lparr>c_rbuffer := b, c_wbuffer := cleared reply\<rparr>, 0)"
      "ks_inv ks'" "ks_map ks' = fst (spec_request (ks_map ks) tg q)"
    using request_words [OF item(2) len(2), of ks] ks_handle_refines [OF inv, of tg q] msg ne reply(1)
    by (auto simp: asks_def)
  have "c_str (cleared reply) 0 = Some reply" "take (length reply) (cleared reply) = reply"
    using c_str_cleared [of reply] reply(2) by (simp_all add: reply_ok_def cleared_def)
  with ne(1) item(1) ks show ?thesis by fastforce
qed

lemma reader_turn:
  assumes inv: "ks_inv (rd_ks s)" and msg: "asks msg (tg, q)"
    and reply: "reply = snd (spec_request (ks_map (rd_ks s)) tg q)" "reply_ok reply" and sret: "sret \<noteq> -1"
  shows "\<exists>ks. server_reader ((RData msg, sret) # es) s =
      server_reader es (s\<lparr>rd_ks := ks, rd_sent := rd_sent s @ [reply]\<rparr>) \<and> ks_inv ks \<and>
    ks_map ks = fst (spec_request (ks_map (rd_ks s)) tg q)"
proof -
  from item_request [OF inv msg reply] obtain item ks item' r where
    "msg \<noteq> []" "fresh_item msg = Some item" "kvstore_request (rd_ks s) item = Some (ks, item', r)"
    "c_str (c_wbuffer item') 0 = Some reply" "take (length reply) (c_wbuffer item') = reply"
    "ks_inv ks" "ks_map ks = fst (spec_request (ks_map (rd_ks s)) tg q)" by blast
  then show ?thesis using sret by (intro exI [of _ ks]) simp
qed

section \<open>Properties\<close>

text \<open>
  C3: the reader refines the abstract session: a client that sends requests one by one, with
  everything sent back to it, gets exactly the abstract replies in that order, and the stores end
  as the abstract ones; no request sees bytes of an earlier one.
\<close>

theorem ntyco_session_refines:
  assumes "ks_inv (rd_ks s)" "list_all2 asks msgs rs" "\<forall>reply \<in> set (snd (spec_requests (ks_map (rd_ks s)) rs)). reply_ok reply"
  shows "\<exists>ks. server_reader (map (\<lambda>m. (RData m, int (length m))) msgs) s =
      Some (s\<lparr>rd_ks := ks, rd_sent := rd_sent s @ snd (spec_requests (ks_map (rd_ks s)) rs)\<rparr>) \<and> ks_inv ks \<and>
    ks_map ks = fst (spec_requests (ks_map (rd_ks s)) rs)"
  using assms(2,1,3)
proof (induction arbitrary: s rule: list_all2_induct)
  case Nil
  then show ?case by (intro exI [of _ "rd_ks s"]) simp
next
  case (Cons msg msgs tr rs)
  obtain tg q where tr: "tr = (tg, q)" by (cases tr) auto
  obtain m1 reply where m1: "spec_request (ks_map (rd_ks s)) tg q = (m1, reply)" by fastforce
  have "reply_ok reply" using Cons.prems(2) m1 by (simp add: tr case_prod_beta)
  let ?es = "map (\<lambda>m. (RData m, int (length m))) msgs"
  have reply: "reply = snd (spec_request (ks_map (rd_ks s)) tg q)" "asks msg (tg, q)" "int (length msg) \<noteq> -1"
    using m1 Cons.hyps(1) tr by simp_all
  from reader_turn [OF Cons.prems(1) reply(2,1) \<open>reply_ok reply\<close> reply(3), of ?es]
  obtain ks where ks: "server_reader ((RData msg, int (length msg)) # ?es) s =
      server_reader ?es (s\<lparr>rd_ks := ks, rd_sent := rd_sent s @ [reply]\<rparr>)" "ks_inv ks" "ks_map ks = m1"
    unfolding m1 by auto
  from Cons.IH [of "s\<lparr>rd_ks := ks, rd_sent := rd_sent s @ [reply]\<rparr>"] ks(2,3) Cons.prems(2) m1
  obtain ks' where "server_reader ?es (s\<lparr>rd_ks := ks, rd_sent := rd_sent s @ [reply]\<rparr>) =
      Some (s\<lparr>rd_ks := ks', rd_sent := rd_sent s @ reply # snd (spec_requests m1 rs)\<rparr>)" "ks_inv ks'"
      "ks_map ks' = fst (spec_requests m1 rs)"
    by (auto simp: tr case_prod_beta)
  then show ?case using ks(1) m1 by (auto simp: tr case_prod_beta)
qed

theorem ntyco_session_refines_witness:
  "\<exists>ks s'. ks_map ks = (\<lambda>_. Map.empty) \<and>
    server_reader [(RData ''RSET a 1'', 8), (RData ''RGET a'', 6)] \<lparr>rd_ks = ks, rd_sent = [], rd_closed = False\<rparr> = Some s' \<and>
    rd_sent s' = [''SUCCESS'', ''1'']"
proof -
  obtain ks where ks: "ks_inv ks" "ks_map ks = (\<lambda>_. Map.empty)" using start_ks_init by blast
  have w: "words ''RSET a 1'' = [''RSET'', ''a'', ''1'']" "decode [''RSET'', ''a'', ''1''] = Some (TTree, SET ''a'' ''1'')"
    "words ''RGET a'' = [''RGET'', ''a'']" "decode [''RGET'', ''a''] = Some (TTree, GET ''a'')"
    by code_simp+
  have rep: "snd (spec_requests (\<lambda>_. Map.empty) [(TTree, SET ''a'' ''1''), (TTree, GET ''a'')]) = [''SUCCESS'', ''1'']"
    by (simp add: spec_request_def has_room_def snprintf_s_def BUFFER_LENGTH_def)
  let ?s = "\<lparr>rd_ks = ks, rd_sent = [], rd_closed = False\<rparr>"
  have "list_all2 asks [''RSET a 1'', ''RGET a''] [(TTree, SET ''a'' ''1''), (TTree, GET ''a'')]"
    using w by (simp add: asks_def BUFFER_LENGTH_def KVSTORE_MAX_TOKENS_def req_ok_def del: decode.simps)
  from ntyco_session_refines [OF _ this, of ?s] ks rep show ?thesis
    by (auto simp: reply_ok_def BUFFER_LENGTH_def simp del: server_reader.simps spec_requests.simps ks_map.simps)
qed

text \<open>
  errors of recv never end the reader: after any number of them it is in the same state as
  before and goes on; the descriptor is not closed.
\<close>

theorem server_reader_ignores_errors:
  "server_reader (replicate n (RError, sret) @ es) s = server_reader es s"
  by (induction n) simp_all

end
