(* ===== verification/NTY_Tree.thy ===== *)
theory NTY_Tree
  imports RB_Zipper
begin

text \<open>
  The tree macros of nty_tree.h.  A node is its element; a subtree is a tree value, and the chain of
  parent pointers from a node to the root is the list of frames of a zipper, so that an
  assignment to a child, a colour or a parent is the corresponding change of the zipper.  The
  balancing loops of RB_INSERT_COLOR and RB_REMOVE_COLOR are the functions \<open>ins_loop\<close> and
  \<open>del_loop\<close>, one call per iteration.  The comparison function is a parameter, as in the macros.
  Inserting a node that is linked already, or removing one that is not, is undefined (\<open>None\<close>).
\<close>

section \<open>Red-black trees\<close>

definition RB_EMPTY :: "'e rbt \<Rightarrow> bool" where
  "RB_EMPTY t \<longleftrightarrow> t = Lf"

text \<open>\<open>RB_SET\<close> and the walk of \<open>RB_INSERT\<close>; the second result is the node with an equal key.\<close>

definition RB_INSERT :: "('e \<Rightarrow> 'e \<Rightarrow> int) \<Rightarrow> 'e \<Rightarrow> 'e rbt \<Rightarrow> ('e rbt \<times> 'e option) option" where
  "RB_INSERT cmp x t =
     (case zsearch (cmp x) [] t of
        (fs, Nd c l e r) \<Rightarrow> Some (t, Some e)
      | (fs, Lf) \<Rightarrow> if x \<in> set (inorder t) then None else Some (ins_fix fs (Nd RED Lf x Lf), None))"

text \<open>
  \<open>RB_REMOVE\<close> at a node: a node with two children is replaced by its successor, which takes
  over its links and its colour; the fix-up starts where a node went missing.
\<close>

definition rb_remove_at :: "'e frame list \<Rightarrow> color \<Rightarrow> 'e rbt \<Rightarrow> 'e rbt \<Rightarrow> 'e rbt" where
  "rb_remove_at fs c l r =
     (if l = Lf then del_at fs c r
      else if r = Lf then del_at fs c l
      else (case zmin [] r of
              (ds, Nd mc ml me mr) \<Rightarrow> del_at (ds @ FR c l me # fs) mc mr
            | (ds, Lf) \<Rightarrow> Lf))"

definition RB_REMOVE :: "('e \<Rightarrow> 'e \<Rightarrow> int) \<Rightarrow> 'e \<Rightarrow> 'e rbt \<Rightarrow> 'e rbt option" where
  "RB_REMOVE cmp x t =
     (case zsearch (cmp x) [] t of
        (fs, Nd c l e r) \<Rightarrow> if e = x then Some (rb_remove_at fs c l r) else None
      | (fs, Lf) \<Rightarrow> None)"

fun RB_FIND :: "('e \<Rightarrow> 'e \<Rightarrow> int) \<Rightarrow> 'e \<Rightarrow> 'e rbt \<Rightarrow> 'e option" where
  "RB_FIND cmp x Lf = None"
| "RB_FIND cmp x (Nd c l e r) =
     (if cmp x e < 0 then RB_FIND cmp x l else if cmp x e > 0 then RB_FIND cmp x r else Some e)"

fun rb_nfind :: "('e \<Rightarrow> 'e \<Rightarrow> int) \<Rightarrow> 'e \<Rightarrow> 'e rbt \<Rightarrow> 'e option \<Rightarrow> 'e option" where
  "rb_nfind cmp x Lf res = res"
| "rb_nfind cmp x (Nd c l e r) res =
     (if cmp x e < 0 then rb_nfind cmp x l (Some e)
      else if cmp x e > 0 then rb_nfind cmp x r res
      else Some e)"

definition RB_NFIND :: "('e \<Rightarrow> 'e \<Rightarrow> int) \<Rightarrow> 'e \<Rightarrow> 'e rbt \<Rightarrow> 'e option" where
  "RB_NFIND cmp x t = rb_nfind cmp x t None"

fun rb_minmax :: "int \<Rightarrow> 'e rbt \<Rightarrow> 'e option \<Rightarrow> 'e option" where
  "rb_minmax v Lf parent = parent"
| "rb_minmax v (Nd c l e r) parent = (if v < 0 then rb_minmax v l (Some e) else rb_minmax v r (Some e))"

definition RB_MINMAX :: "'e rbt \<Rightarrow> int \<Rightarrow> 'e option" where
  "RB_MINMAX t v = rb_minmax v t None"

definition RB_MIN :: "'e rbt \<Rightarrow> 'e option" where
  "RB_MIN t = RB_MINMAX t (-1)"

definition RB_MAX :: "'e rbt \<Rightarrow> 'e option" where
  "RB_MAX t = RB_MINMAX t 1"

text \<open>
  \<open>RB_NEXT\<close> and \<open>RB_PREV\<close> at the node with right (left) child given, below the frames; the climb
  stops at the first frame whose hole is a left (right) child.
\<close>

fun climb_next :: "'e frame list \<Rightarrow> 'e option" where
  "climb_next [] = None"
| "climb_next (FL c e r # fs) = Some e"
| "climb_next (FR c l e # fs) = climb_next fs"

fun climb_prev :: "'e frame list \<Rightarrow> 'e option" where
  "climb_prev [] = None"
| "climb_prev (FR c l e # fs) = Some e"
| "climb_prev (FL c e r # fs) = climb_prev fs"

fun leftmost :: "'e \<Rightarrow> 'e rbt \<Rightarrow> 'e" where
  "leftmost e Lf = e"
| "leftmost e (Nd c l e' r) = leftmost e' l"

fun rightmost :: "'e \<Rightarrow> 'e rbt \<Rightarrow> 'e" where
  "rightmost e Lf = e"
| "rightmost e (Nd c l e' r) = rightmost e' r"

definition RB_NEXT :: "'e frame list \<Rightarrow> 'e rbt \<Rightarrow> 'e option" where
  "RB_NEXT fs right = (case right of Lf \<Rightarrow> climb_next fs | Nd c l e r \<Rightarrow> Some (leftmost e l))"

definition RB_PREV :: "'e frame list \<Rightarrow> 'e rbt \<Rightarrow> 'e option" where
  "RB_PREV fs left = (case left of Lf \<Rightarrow> climb_prev fs | Nd c l e r \<Rightarrow> Some (rightmost e r))"

section \<open>Comparison by a key\<close>

definition cmp_by :: "('e \<Rightarrow> 'k::linorder) \<Rightarrow> 'e \<Rightarrow> 'e \<Rightarrow> int" where
  "cmp_by key x y = (if key x < key y then -1 else if key x = key y then 0 else 1)"

definition ordered :: "('e \<Rightarrow> 'k::linorder) \<Rightarrow> 'e rbt \<Rightarrow> bool" where
  "ordered key t \<longleftrightarrow> sorted_wrt (<) (map key (inorder t))"

definition rb_inv_by :: "('e \<Rightarrow> 'k::linorder) \<Rightarrow> 'e rbt \<Rightarrow> bool" where
  "rb_inv_by key t \<longleftrightarrow> is_rbt t \<and> ordered key t"

lemma cmp_by_simps [simp]:
  "cmp_by key x y < 0 \<longleftrightarrow> key x < key y" "0 < cmp_by key x y \<longleftrightarrow> key y < key x"
  "cmp_by key x y = 0 \<longleftrightarrow> key x = key y"
  by (auto simp: cmp_by_def)

lemma ordered_Nd:
  "ordered key (Nd c l e r) \<longleftrightarrow>
     ordered key l \<and> ordered key r \<and> (\<forall>y \<in> set (inorder l). key y < key e) \<and> (\<forall>y \<in> set (inorder r). key e < key y)"
  by (auto simp: ordered_def sorted_wrt_append) (meson less_trans)

lemma ordered_cong:
  "(\<And>y. y \<in> set (inorder t) \<Longrightarrow> key' y = key y) \<Longrightarrow> ordered key' t = ordered key t"
proof -
  assume "\<And>y. y \<in> set (inorder t) \<Longrightarrow> key' y = key y"
  then have "map key' (inorder t) = map key (inorder t)" by simp
  then show ?thesis by (simp only: ordered_def)
qed

lemma zsearch_by:
  assumes "zsearch (cmp_by key x) fs t = (fs', t')" "ordered key t"
    "\<forall>y \<in> set (lin fs). key y < key x" "\<forall>y \<in> set (rin fs). key x < key y"
  shows "(\<forall>y \<in> set (lin fs'). key y < key x) \<and> (\<forall>y \<in> set (rin fs'). key x < key y) \<and>
    (case t' of Lf \<Rightarrow> True | Nd c l e r \<Rightarrow> key e = key x)"
  using assms
proof (induction t arbitrary: fs)
  case (Nd c l e r)
  from Nd.prems(2) have o: "ordered key l" "ordered key r" "\<forall>y \<in> set (inorder l). key y < key e"
      "\<forall>y \<in> set (inorder r). key e < key y"
    by (simp_all add: ordered_Nd)
  consider "key x < key e" | "key x = key e" | "key e < key x" by (rule linorder_cases)
  then show ?case
  proof cases
    case 1
    then have "\<forall>y \<in> set (rin (FL c e r # fs)). key x < key y" using o(4) Nd.prems(4) by fastforce
    then show ?thesis using Nd.IH(1) [of "FL c e r # fs"] Nd.prems o(1) 1 by simp
  next
    case 2
    then show ?thesis using Nd.prems by auto
  next
    case 3
    then have "\<forall>y \<in> set (lin (FR c l e # fs)). key y < key x" using o(3) Nd.prems(3) by fastforce
    then show ?thesis using Nd.IH(2) [of "FR c l e # fs"] Nd.prems o(2) 3 by (simp add: less_not_sym)
  qed
qed auto

lemma find_append: "find P (xs @ ys) = (case find P xs of None \<Rightarrow> find P ys | Some z \<Rightarrow> Some z)"
  by (induction xs) auto

lemma find_none: "\<forall>y \<in> set ys. \<not> P y \<Longrightarrow> find P ys = None"
  by (simp add: find_None_iff)

lemma find_by: "ordered key t \<Longrightarrow> RB_FIND (cmp_by key) x t = find (\<lambda>y. key y = key x) (inorder t)"
proof (induction t)
  case (Nd c l e r)
  from Nd.prems have o: "ordered key l" "ordered key r" "\<forall>y \<in> set (inorder l). key y < key e" "\<forall>y \<in> set (inorder r). key e < key y"
    by (simp_all add: ordered_Nd)
  consider "key x < key e" | "key x = key e" | "key e < key x" by (rule linorder_cases)
  then show ?case
  proof cases
    case 1
    then have "find (\<lambda>y. key y = key x) (inorder r) = None" using o by (intro find_none) force
    then show ?thesis using 1 Nd.IH(1) [OF o(1)] by (auto simp: find_append split: option.split)
  next
    case 2
    then have "find (\<lambda>y. key y = key x) (inorder l) = None" using o by (intro find_none) force
    then show ?thesis using 2 by (simp add: find_append)
  next
    case 3
    then have "find (\<lambda>y. key y = key x) (inorder l) = None" using o by (intro find_none) force
    then show ?thesis using 3 Nd.IH(2) [OF o(2)] by (simp add: find_append less_not_sym less_imp_neq)
  qed
qed simp

lemma find_by_iff:
  assumes "ordered key t"
  shows "RB_FIND (cmp_by key) x t = Some y \<longleftrightarrow> y \<in> set (inorder t) \<and> key y = key x"
proof -
  have inj: "inj_on key (set (inorder t))" "distinct (inorder t)"
    using assms strict_sorted_iff [of "map key (inorder t)"] by (simp_all add: ordered_def distinct_map)
  show ?thesis unfolding find_by [OF assms]
  proof
    assume "find (\<lambda>y. key y = key x) (inorder t) = Some y"
    then show "y \<in> set (inorder t) \<and> key y = key x" by (auto simp: find_Some_iff)
  next
    assume y: "y \<in> set (inorder t) \<and> key y = key x"
    then have "find (\<lambda>y. key y = key x) (inorder t) \<noteq> None" by (auto simp: find_None_iff)
    then obtain z where z: "find (\<lambda>y. key y = key x) (inorder t) = Some z" by auto
    then have "z \<in> set (inorder t)" "key z = key x" by (auto simp: find_Some_iff)
    then show "find (\<lambda>y. key y = key x) (inorder t) = Some y"
      using z y inj_onD [OF inj(1), of z y] by simp
  qed
qed

section \<open>Insertion and removal\<close>

lemma sorted_wrt_parts:
  "sorted_wrt (<) (map key (lin fs @ xs @ rin fs)) \<Longrightarrow> sorted_wrt (<) (map key (lin fs @ rin fs))"
  by (auto simp: sorted_wrt_append)

theorem RB_INSERT_new:
  assumes inv: "rb_inv_by key t" and new: "\<forall>y \<in> set (inorder t). key y \<noteq> key x"
  shows "\<exists>t'. RB_INSERT (cmp_by key) x t = Some (t', None) \<and> rb_inv_by key t' \<and>
    set (inorder t') = insert x (set (inorder t))"
proof -
  obtain fs u where z: "zsearch (cmp_by key x) [] t = (fs, u)" by fastforce
  have plug: "plug fs u = t" using plug_zsearch [OF z] by simp
  have side: "\<forall>y \<in> set (lin fs). key y < key x" "\<forall>y \<in> set (rin fs). key x < key y"
    and u: "case u of Lf \<Rightarrow> True | Nd c l e r \<Rightarrow> key e = key x"
    using zsearch_by [OF z] inv by (simp_all add: rb_inv_by_def)
  have "u = Lf" using u new plug inorder_plug [of fs u] by (cases u) auto
  then have t: "inorder t = lin fs @ rin fs" using plug inorder_plug [of fs Lf] by auto
  let ?t = "ins_fix fs (Nd RED Lf x Lf)"
  have "is_rbt (plug fs Lf)" using inv plug \<open>u = Lf\<close> by (simp add: rb_inv_by_def)
  then have "is_rbt ?t" by (intro ins_fix_rbt ins_inv_leaf)
  moreover have io: "inorder ?t = lin fs @ x # rin fs" by (simp add: ins_fix_inorder inorder_plug)
  moreover have "ordered key ?t"
    using inv side unfolding rb_inv_by_def ordered_def t io by (auto simp: sorted_wrt_append)
  moreover have "x \<notin> set (inorder t)" using new by blast
  ultimately show ?thesis using z \<open>u = Lf\<close> t by (auto simp: RB_INSERT_def rb_inv_by_def)
qed

lemma RB_INSERT_dup:
  assumes inv: "rb_inv_by key t" and dup: "y \<in> set (inorder t)" "key y = key x"
  shows "RB_INSERT (cmp_by key) x t = Some (t, Some y)"
proof -
  obtain fs u where z: "zsearch (cmp_by key x) [] t = (fs, u)" by fastforce
  have io: "inorder t = lin fs @ inorder u @ rin fs" using plug_zsearch [OF z] inorder_plug [of fs u] by simp
  have side: "\<forall>y \<in> set (lin fs). key y < key x" "\<forall>y \<in> set (rin fs). key x < key y"
    and u: "case u of Lf \<Rightarrow> True | Nd c l e r \<Rightarrow> key e = key x"
    using zsearch_by [OF z] inv by (simp_all add: rb_inv_by_def)
  obtain c l e r where un: "u = Nd c l e r" using dup side io by (cases u) auto
  then have e: "e \<in> set (inorder t)" "key e = key y" using io u dup by auto
  have "inj_on key (set (inorder t))"
    using inv strict_sorted_iff [of "map key (inorder t)"] by (simp add: rb_inv_by_def ordered_def distinct_map)
  then have "e = y" using e dup(1) by (auto dest: inj_onD)
  then show ?thesis using z un by (simp add: RB_INSERT_def)
qed

lemma is_rbt_relabel:
  "is_rbt (plug fs (Nd c l e r)) = is_rbt (plug fs (Nd c l e' r))"
  by (simp add: is_rbt_def invc_plug invh_plug col_plug)

lemma rb_remove_at_correct:
  assumes rb: "is_rbt (plug fs (Nd c l e r))"
  shows "is_rbt (rb_remove_at fs c l r) \<and> inorder (rb_remove_at fs c l r) = lin fs @ inorder l @ inorder r @ rin fs"
proof (cases "l = Lf \<or> r = Lf")
  case True
  then show ?thesis
    using del_at_correct [OF rb, of r] del_at_correct [OF rb, of l] by (auto simp: rb_remove_at_def)
next
  case False
  then obtain ds mc me mr where m: "zmin [] r = (ds, Nd mc Lf me mr)"
    using zmin_node [of r "[]"] by auto
  have pr: "plug ds (Nd mc Lf me mr) = r" using plug_zmin [OF m] by simp
  have ld: "lin ds = []" using zmin_lin [of "[]" r ds] m by simp
  have "is_rbt (plug (ds @ FR c l me # fs) (Nd mc Lf me mr))"
    using rb is_rbt_relabel [of fs c l e r me] by (simp add: plug_append pr)
  from del_at_correct [OF this, of mr] False m
  have "is_rbt (rb_remove_at fs c l r)"
    "inorder (rb_remove_at fs c l r) = lin (ds @ FR c l me # fs) @ inorder mr @ rin (ds @ FR c l me # fs)"
    by (simp_all add: rb_remove_at_def)
  moreover have "inorder r = me # inorder mr @ rin ds"
    using ld by (subst pr [symmetric]) (simp add: inorder_plug)
  ultimately show ?thesis using ld by (simp add: lin_append rin_append)
qed

theorem RB_REMOVE_in:
  assumes inv: "rb_inv_by key t" and x: "x \<in> set (inorder t)"
  shows "\<exists>t'. RB_REMOVE (cmp_by key) x t = Some t' \<and> rb_inv_by key t' \<and> set (inorder t') = set (inorder t) - {x}"
proof -
  obtain fs u where z: "zsearch (cmp_by key x) [] t = (fs, u)" by fastforce
  have plug: "plug fs u = t" using plug_zsearch [OF z] by simp
  then have io: "inorder t = lin fs @ inorder u @ rin fs" using inorder_plug [of fs u] by simp
  have side: "\<forall>y \<in> set (lin fs). key y < key x" "\<forall>y \<in> set (rin fs). key x < key y"
    and u: "case u of Lf \<Rightarrow> True | Nd c l e r \<Rightarrow> key e = key x"
    using zsearch_by [OF z] inv by (simp_all add: rb_inv_by_def)
  obtain c l e r where un: "u = Nd c l e r" using x side io by (cases u) auto
  have dist: "distinct (inorder t)" "inj_on key (set (inorder t))"
    using inv strict_sorted_iff [of "map key (inorder t)"] by (simp_all add: rb_inv_by_def ordered_def distinct_map)
  have ex: "e = x" using io u un x dist(2) by (auto dest: inj_onD)
  have rb: "is_rbt (plug fs (Nd c l e r))" using inv plug un by (simp add: rb_inv_by_def)
  note rm = rb_remove_at_correct [OF rb]
  have "sorted_wrt (<) (map key (lin fs @ (inorder l @ [e] @ inorder r) @ rin fs))"
    using inv io un by (simp add: rb_inv_by_def ordered_def)
  then have "sorted_wrt (<) (map key (lin fs @ inorder l @ inorder r @ rin fs))"
    by (auto simp: sorted_wrt_append)
  moreover have "set (lin fs @ inorder l @ inorder r @ rin fs) = set (inorder t) - {x}"
    using dist(1) io un ex by auto
  ultimately show ?thesis using rm z un ex
    by (auto simp: RB_REMOVE_def rb_inv_by_def ordered_def)
qed

lemma RB_REMOVE_out:
  assumes inv: "rb_inv_by key t" and x: "x \<notin> set (inorder t)"
  shows "RB_REMOVE (cmp_by key) x t = None"
proof -
  obtain fs u where z: "zsearch (cmp_by key x) [] t = (fs, u)" by fastforce
  have "inorder t = lin fs @ inorder u @ rin fs" using plug_zsearch [OF z] inorder_plug [of fs u] by simp
  then show ?thesis using x z by (cases u) (auto simp: RB_REMOVE_def)
qed

section \<open>Minimum, maximum, neighbours\<close>

lemma inorder_nil [simp]: "inorder t = [] \<longleftrightarrow> t = Lf"
  by (cases t) auto

lemma rb_minmax_min: "rb_minmax (-1) t p = (if t = Lf then p else Some (hd (inorder t)))"
  by (induction t arbitrary: p) (auto simp: hd_append)

lemma rb_minmax_max: "rb_minmax 1 t p = (if t = Lf then p else Some (last (inorder t)))"
  by (induction t arbitrary: p) auto

lemma RB_MIN_hd: "RB_MIN t = (if t = Lf then None else Some (hd (inorder t)))"
  by (simp add: RB_MIN_def RB_MINMAX_def rb_minmax_min)

lemma RB_MAX_last: "RB_MAX t = (if t = Lf then None else Some (last (inorder t)))"
  by (simp add: RB_MAX_def RB_MINMAX_def rb_minmax_max)

lemma leftmost_hd: "leftmost e t = hd (inorder t @ [e])"
  by (induction e t rule: leftmost.induct) (auto simp: hd_append)

lemma rightmost_last: "rightmost e t = last (e # inorder t)"
  by (induction e t rule: rightmost.induct) auto

lemma climb_next_hd: "climb_next fs = (if rin fs = [] then None else Some (hd (rin fs)))"
  by (induction fs rule: climb_next.induct) auto

lemma climb_prev_last: "climb_prev fs = (if lin fs = [] then None else Some (last (lin fs)))"
  by (induction fs rule: climb_prev.induct) auto

text \<open>The neighbours in the sequence of the whole tree.\<close>

theorem RB_NEXT_PREV:
  "RB_NEXT fs r = (if inorder r @ rin fs = [] then None else Some (hd (inorder r @ rin fs))) \<and>
   RB_PREV fs l = (if lin fs @ inorder l = [] then None else Some (last (lin fs @ inorder l)))"
proof
  show "RB_NEXT fs r = (if inorder r @ rin fs = [] then None else Some (hd (inorder r @ rin fs)))"
    by (cases r) (auto simp: RB_NEXT_def climb_next_hd leftmost_hd hd_append)
  show "RB_PREV fs l = (if lin fs @ inorder l = [] then None else Some (last (lin fs @ inorder l)))"
    by (cases l) (auto simp: RB_PREV_def climb_prev_last rightmost_last)
qed

lemma RB_MIN_by:
  assumes "rb_inv_by key t"
  shows "RB_MIN t = None \<longleftrightarrow> inorder t = []"
    and "RB_MIN t = Some x \<Longrightarrow> x \<in> set (inorder t) \<and> (\<forall>y \<in> set (inorder t). key x \<le> key y)"
proof -
  show "RB_MIN t = None \<longleftrightarrow> inorder t = []" by (simp add: RB_MIN_hd)
  assume "RB_MIN t = Some x"
  then obtain ys where "inorder t = x # ys" by (cases "inorder t") (auto simp: RB_MIN_hd split: if_splits)
  then show "x \<in> set (inorder t) \<and> (\<forall>y \<in> set (inorder t). key x \<le> key y)"
    using assms by (auto simp: rb_inv_by_def ordered_def)
qed

lemma nfind_by:
  "ordered key t \<Longrightarrow> \<forall>z \<in> set_option res. \<forall>y \<in> set (inorder t). key y < key z \<Longrightarrow>
   rb_nfind (cmp_by key) x t res =
     (case filter (\<lambda>y. key x \<le> key y) (inorder t) of [] \<Rightarrow> res | y # _ \<Rightarrow> Some y)"
proof (induction t arbitrary: res)
  case (Nd c l e r)
  from Nd.prems(1) have o: "ordered key l" "ordered key r" "\<forall>y \<in> set (inorder l). key y < key e"
      "\<forall>y \<in> set (inorder r). key e < key y"
    by (simp_all add: ordered_Nd)
  consider "key x < key e" | "key x = key e" | "key e < key x" by (rule linorder_cases)
  then show ?case
  proof cases
    case 1
    then show ?thesis using Nd.IH(1) [OF o(1), of "Some e"] o(3)
      by (cases "filter (\<lambda>y. key x \<le> key y) (inorder l)") auto
  next
    case 2
    then have "filter (\<lambda>y. key x \<le> key y) (inorder l) = []" using o(3) by (auto simp: filter_empty_conv)
    then show ?thesis using 2 by simp
  next
    case 3
    then have "filter (\<lambda>y. key x \<le> key y) (inorder l) = []" using o(3) by (fastforce simp: filter_empty_conv)
    moreover have "\<not> key x \<le> key e" "\<not> key x < key e" using 3 by simp_all
    ultimately show ?thesis using 3 Nd.IH(2) [OF o(2), of res] Nd.prems(2) by simp
  qed
qed simp

text \<open>\<open>RB_NFIND\<close> is the first node whose key is at least that of \<open>x\<close>.\<close>

lemma RB_NFIND_by:
  "ordered key t \<Longrightarrow> RB_NFIND (cmp_by key) x t = find (\<lambda>y. key x \<le> key y) (inorder t)"
proof -
  assume "ordered key t"
  moreover have "(case filter P ys of [] \<Rightarrow> None | y # _ \<Rightarrow> Some y) = find P ys" for P and ys :: "'a list"
    by (induction ys) auto
  ultimately show ?thesis by (simp add: RB_NFIND_def nfind_by)
qed

section \<open>The contract the scheduler relies on\<close>

text \<open>
  A set of nodes ordered by a key that is read from the nodes' memory: the key function is an
  argument of the invariant, and an operation is given the comparison that the memory defines at
  that moment.
\<close>

locale node_tree =
  fixes inv :: "('e \<Rightarrow> 'k::linorder) \<Rightarrow> 't \<Rightarrow> bool"
    and elems :: "'t \<Rightarrow> 'e set"
    and ins :: "('e \<Rightarrow> 'e \<Rightarrow> int) \<Rightarrow> 'e \<Rightarrow> 't \<Rightarrow> ('t \<times> 'e option) option"
    and rem :: "('e \<Rightarrow> 'e \<Rightarrow> int) \<Rightarrow> 'e \<Rightarrow> 't \<Rightarrow> 't option"
    and fnd :: "('e \<Rightarrow> 'e \<Rightarrow> int) \<Rightarrow> 'e \<Rightarrow> 't \<Rightarrow> 'e option"
    and mn :: "'t \<Rightarrow> 'e option"
  assumes ins_new: "inv key t \<Longrightarrow> \<forall>y \<in> elems t. key y \<noteq> key x \<Longrightarrow>
      \<exists>t'. ins (cmp_by key) x t = Some (t', None) \<and> inv key t' \<and> elems t' = insert x (elems t)"
    and ins_dup: "inv key t \<Longrightarrow> y \<in> elems t \<Longrightarrow> key y = key x \<Longrightarrow> ins (cmp_by key) x t = Some (t, Some y)"
    and rem_in: "inv key t \<Longrightarrow> x \<in> elems t \<Longrightarrow>
      \<exists>t'. rem (cmp_by key) x t = Some t' \<and> inv key t' \<and> elems t' = elems t - {x}"
    and rem_out: "inv key t \<Longrightarrow> x \<notin> elems t \<Longrightarrow> rem (cmp_by key) x t = None"
    and fnd_iff: "inv key t \<Longrightarrow> fnd (cmp_by key) x t = Some y \<longleftrightarrow> y \<in> elems t \<and> key y = key x"
    and mn_none: "inv key t \<Longrightarrow> mn t = None \<longleftrightarrow> elems t = {}"
    and mn_least: "inv key t \<Longrightarrow> mn t = Some x \<Longrightarrow> x \<in> elems t \<and> (\<forall>y \<in> elems t. key x \<le> key y)"
    and inv_cong: "inv key t \<Longrightarrow> \<forall>y \<in> elems t. key' y = key y \<Longrightarrow> inv key' t"
    and inv_inj: "inv key t \<Longrightarrow> inj_on key (elems t)"
    and elems_finite: "finite (elems t)"
begin

lemma fnd_none: "inv key t \<Longrightarrow> fnd (cmp_by key) x t = None \<longleftrightarrow> (\<forall>y \<in> elems t. key y \<noteq> key x)"
  using fnd_iff by (metis not_None_eq)

lemma fnd_self: "inv key t \<Longrightarrow> x \<in> elems t \<Longrightarrow> fnd (cmp_by key) x t = Some x"
  by (simp add: fnd_iff)

lemma ins_cases:
  assumes "inv key t"
  obtains (new) t' where "ins (cmp_by key) x t = Some (t', None)" "inv key t'" "elems t' = insert x (elems t)"
      "\<forall>y \<in> elems t. key y \<noteq> key x"
  | (dup) y where "ins (cmp_by key) x t = Some (t, Some y)" "y \<in> elems t" "key y = key x"
  using ins_new [OF assms, of x] ins_dup [OF assms, of _ x] by blast

text \<open>The answers of the operations, with the case they tell apart read off the result.\<close>

lemma ins_answer:
  assumes "inv key t"
  shows "\<exists>t' r. ins (cmp_by key) x t = Some (t', r) \<and> inv key t' \<and>
    (case r of None \<Rightarrow> x \<notin> elems t \<and> elems t' = insert x (elems t) | Some y \<Rightarrow> y \<in> elems t \<and> key y = key x \<and> t' = t)"
proof (cases rule: ins_cases [OF assms, of x])
  case (1 t')
  then show ?thesis by (intro exI [of _ t'] exI [of _ None]) auto
next
  case (2 y)
  then show ?thesis using assms by (intro exI [of _ t] exI [of _ "Some y"]) simp
qed

lemma rem_answer:
  assumes "inv key t"
  shows "case rem (cmp_by key) x t of None \<Rightarrow> x \<notin> elems t
    | Some t' \<Rightarrow> inv key t' \<and> x \<in> elems t \<and> elems t' = elems t - {x}"
proof (cases "x \<in> elems t")
  case True
  then obtain t' where t': "rem (cmp_by key) x t = Some t'" "inv key t'" "elems t' = elems t - {x}"
    using rem_in [OF assms] by blast
  show ?thesis unfolding t'(1) option.case using t'(2,3) True by blast
next
  case False
  then show ?thesis unfolding rem_out [OF assms False] option.case .
qed

lemma fnd_answer:
  assumes "inv key t"
  shows "case fnd (cmp_by key) x t of None \<Rightarrow> \<forall>y \<in> elems t. key y \<noteq> key x | Some y \<Rightarrow> y \<in> elems t \<and> key y = key x"
proof (cases "fnd (cmp_by key) x t")
  case None
  have "\<forall>y \<in> elems t. key y \<noteq> key x" using None by (simp only: fnd_none [OF assms])
  then show ?thesis unfolding None option.case .
next
  case (Some y)
  have "y \<in> elems t \<and> key y = key x" using Some by (simp only: fnd_iff [OF assms])
  then show ?thesis unfolding Some option.case .
qed

lemma mn_answer:
  assumes "inv key t"
  shows "case mn t of None \<Rightarrow> elems t = {} | Some y \<Rightarrow> y \<in> elems t \<and> (\<forall>z \<in> elems t. key y \<le> key z)"
proof (cases "mn t")
  case None
  have "elems t = {}" using None by (simp only: mn_none [OF assms])
  then show ?thesis unfolding None option.case .
next
  case (Some y)
  show ?thesis unfolding Some option.case by (rule mn_least [OF assms Some])
qed

text \<open>The search finds what a search through a list of the same nodes finds.\<close>

lemma fnd_find:
  assumes "inv key t" "set xs = elems t"
  shows "find (\<lambda>y. key y = key x) xs = fnd (cmp_by key) x t"
proof (cases "find (\<lambda>y. key y = key x) xs")
  case None
  then show ?thesis using fnd_none [OF assms(1), of x] assms(2) by (auto simp: find_None_iff)
next
  case (Some y)
  then have "y \<in> elems t" "key y = key x" using assms(2) by (auto simp: find_Some_iff)
  then show ?thesis using fnd_iff [OF assms(1)] Some by metis
qed

text \<open>
  Re-keying one node that is outside the tree does not disturb it; so is taking a node out,
  changing its key, and putting it back.
\<close>

lemma inv_other_key: "inv key t \<Longrightarrow> x \<notin> elems t \<Longrightarrow> inv (key(x := k)) t"
  by (erule inv_cong) auto

lemma rekey:
  assumes "inv key t" "x \<in> elems t" "\<forall>y \<in> elems t. y \<noteq> x \<longrightarrow> key y \<noteq> k"
  shows "\<exists>t1 t2. rem (cmp_by key) x t = Some t1 \<and> ins (cmp_by (key(x := k))) x t1 = Some (t2, None) \<and>
    inv (key(x := k)) t2 \<and> elems t2 = elems t"
proof -
  obtain t1 where t1: "rem (cmp_by key) x t = Some t1" "inv key t1" "elems t1 = elems t - {x}"
    using rem_in [OF assms(1,2)] by blast
  have "inv (key(x := k)) t1" using inv_other_key [OF t1(2)] t1(3) by simp
  from ins_new [OF this, of x] t1 assms(2,3) show ?thesis by auto
qed

end

interpretation rbn: node_tree rb_inv_by "\<lambda>t. set (inorder t)" RB_INSERT RB_REMOVE RB_FIND RB_MIN
proof (unfold_locales, goal_cases)
  case (1 key t x)
  then show ?case by (rule RB_INSERT_new)
next
  case (2 key t y x)
  then show ?case by (rule RB_INSERT_dup)
next
  case (3 key t x)
  then show ?case by (rule RB_REMOVE_in)
next
  case (4 key t x)
  then show ?case by (rule RB_REMOVE_out)
next
  case (5 key t x y)
  then show ?case using find_by_iff [of key t x y] by (simp add: rb_inv_by_def)
next
  case (6 key t)
  then show ?case using RB_MIN_by(1) by fastforce
next
  case (7 key t x)
  then show ?case by (rule RB_MIN_by(2))
next
  case (8 key t key')
  then show ?case using ordered_cong [of t key' key] by (simp add: rb_inv_by_def)
next
  case (9 key t)
  then show ?case
    using strict_sorted_iff [of "map key (inorder t)"] by (simp add: rb_inv_by_def ordered_def distinct_map)
next
  case (10 t)
  show ?case by simp
qed

lemma rb_inv_by_Lf [simp]: "rb_inv_by key Lf"
  by (simp add: rb_inv_by_def is_rbt_def ordered_def)

end
