(* ===== verification/NTY_Sched.thy ===== *)
theory NTY_Sched
  imports NTY_Tree "HOL-Library.Word" "HOL-Library.Monad_Syntax"
begin

unbundle bit_operations_syntax

text \<open>
  The coroutine scheduler: nty_schedule.c and nty_coroutine.c.  A coroutine is a handle into the
  store of live coroutines; the sleeping and the waiting tree hold handles and are ordered by a
  member of the coroutine that the comparison functions read.  Running a coroutine until it yields
  is the parameter \<open>sw\<close>, the clock is a list of readings.  \<open>None\<close> is undefined behaviour or a
  failed assertion.
\<close>

section \<open>State\<close>

type_synonym cid = nat

record coro =
  co_status :: "32 word"
  co_fd :: int
  co_events :: "16 word"
  co_sleep :: "64 word" \<comment> \<open>\<open>sleep_usecs\<close>\<close>
  co_ops :: "32 word"
  co_num :: "64 word" \<comment> \<open>\<open>id\<close>\<close>
  co_birth :: "64 word"

record sched =
  sc_birth :: "64 word"
  sc_default_timeout :: "64 word"
  sc_spawned :: int
  sc_curr :: "cid option"
  sc_ready :: "cid list" \<comment> \<open>the tail queue \<open>ready\<close>\<close>
  sc_sleeping :: "cid rbt"
  sc_waiting :: "cid rbt"
  sc_cos :: "cid \<Rightarrow> coro option" \<comment> \<open>the live coroutines\<close>
  sc_fresh :: cid \<comment> \<open>an address that holds no coroutine\<close>
  sc_clock :: "nat \<Rightarrow> 64 word" \<comment> \<open>the readings of gettimeofday\<close>
  sc_ticks :: nat

text \<open>\<open>nty_coroutine_status\<close>\<close>

abbreviation WAIT_READ :: nat where "WAIT_READ \<equiv> 0"
abbreviation WAIT_WRITE :: nat where "WAIT_WRITE \<equiv> 1"
abbreviation ST_NEW :: nat where "ST_NEW \<equiv> 2"
abbreviation ST_READY :: nat where "ST_READY \<equiv> 3"
abbreviation ST_EXITED :: nat where "ST_EXITED \<equiv> 4"
abbreviation ST_SLEEPING :: nat where "ST_SLEEPING \<equiv> 6"
abbreviation ST_EXPIRED :: nat where "ST_EXPIRED \<equiv> 7"
abbreviation ST_FDEOF :: nat where "ST_FDEOF \<equiv> 8"
abbreviation ST_DETACH :: nat where "ST_DETACH \<equiv> 9"

definition BIT :: "nat \<Rightarrow> 32 word" where "BIT n = push_bit n 1"
definition CLEARBIT :: "nat \<Rightarrow> 32 word" where "CLEARBIT n = NOT (push_bit n 1)"

abbreviation POLLIN :: "16 word" where "POLLIN \<equiv> 1"
abbreviation POLLOUT :: "16 word" where "POLLOUT \<equiv> 4"

section \<open>Memory and clock\<close>

definition usec_now :: "sched \<Rightarrow> 64 word \<times> sched" where
  "usec_now s = (sc_clock s (sc_ticks s), s\<lparr>sc_ticks := Suc (sc_ticks s)\<rparr>)"

definition diff_usecs :: "64 word \<Rightarrow> 64 word \<Rightarrow> 64 word" where
  "diff_usecs t1 t2 = t2 - t1"

definition upd_co :: "cid \<Rightarrow> (coro \<Rightarrow> coro) \<Rightarrow> sched \<Rightarrow> sched option" where
  "upd_co co f s = do { c \<leftarrow> sc_cos s co; Some (s\<lparr>sc_cos := (sc_cos s)(co \<mapsto> f c)\<rparr>) }"

definition sleep_key :: "sched \<Rightarrow> cid \<Rightarrow> 64 word" where
  "sleep_key s co = (case sc_cos s co of Some c \<Rightarrow> co_sleep c | None \<Rightarrow> 0)"

definition wait_key :: "sched \<Rightarrow> cid \<Rightarrow> int" where
  "wait_key s co = (case sc_cos s co of Some c \<Rightarrow> co_fd c | None \<Rightarrow> 0)"

definition nty_coroutine_sleep_cmp :: "sched \<Rightarrow> cid \<Rightarrow> cid \<Rightarrow> int" where
  "nty_coroutine_sleep_cmp s co1 co2 =
     (if sleep_key s co1 < sleep_key s co2 then -1
      else if sleep_key s co1 = sleep_key s co2 then 0 else 1)"

definition nty_coroutine_wait_cmp :: "sched \<Rightarrow> cid \<Rightarrow> cid \<Rightarrow> int" where
  "nty_coroutine_wait_cmp s co1 co2 =
     (if wait_key s co1 < wait_key s co2 then -1
      else if wait_key s co1 = wait_key s co2 then 0 else 1)"

section \<open>Sleeping\<close>

text \<open>
  The loop of \<open>nty_schedule_sched_sleepdown\<close>: while another coroutine has the same deadline, the
  own one moves by a microsecond.
\<close>

partial_function (option) sleep_insert :: "cid \<Rightarrow> sched \<Rightarrow> sched option" where
  "sleep_insert co s = do {
     r \<leftarrow> RB_INSERT (nty_coroutine_sleep_cmp s) co (sc_sleeping s);
     (case snd r of
        Some _ \<Rightarrow> do {
          s1 \<leftarrow> upd_co co (\<lambda>c. c\<lparr>co_sleep := co_sleep c + 1\<rparr>) s;
          sleep_insert co s1 }
      | None \<Rightarrow> upd_co co (\<lambda>c. c\<lparr>co_status := co_status c OR BIT ST_SLEEPING\<rparr>) (s\<lparr>sc_sleeping := fst r\<rparr>)) }"

definition nty_schedule_sched_sleepdown :: "cid \<Rightarrow> 64 word \<Rightarrow> sched \<Rightarrow> sched option" where
  "nty_schedule_sched_sleepdown co msecs s = do {
     let usecs = msecs * 1000;
     s \<leftarrow> (case RB_FIND (nty_coroutine_sleep_cmp s) co (sc_sleeping s) of
             None \<Rightarrow> Some s
           | Some co_tmp \<Rightarrow> do {
               t \<leftarrow> RB_REMOVE (nty_coroutine_sleep_cmp s) co_tmp (sc_sleeping s);
               Some (s\<lparr>sc_sleeping := t\<rparr>) });
     let (now, s) = usec_now s;
     s \<leftarrow> upd_co co (\<lambda>c. c\<lparr>co_sleep := diff_usecs (sc_birth s) now + usecs\<rparr>) s;
     if msecs = 0 then Some s else sleep_insert co s }"

definition nty_schedule_desched_sleepdown :: "cid \<Rightarrow> sched \<Rightarrow> sched option" where
  "nty_schedule_desched_sleepdown co s = do {
     c \<leftarrow> sc_cos s co;
     if co_status c AND BIT ST_SLEEPING \<noteq> 0
     then do {
       t \<leftarrow> RB_REMOVE (nty_coroutine_sleep_cmp s) co (sc_sleeping s);
       upd_co co (\<lambda>c. c\<lparr>co_status :=
         ((co_status c AND CLEARBIT ST_SLEEPING) OR BIT ST_READY) AND CLEARBIT ST_EXPIRED\<rparr>)
         (s\<lparr>sc_sleeping := t\<rparr>) }
     else Some s }"

section \<open>Waiting for a descriptor\<close>

text \<open>
  The search with a coroutine \<open>find_it\<close> on the stack, which is not in the store: it has the
  address \<open>sc_fresh\<close> and the searched descriptor.
\<close>

definition find_wait :: "int \<Rightarrow> sched \<Rightarrow> cid option" where
  "find_wait fd s =
     RB_FIND (cmp_by ((wait_key s)(sc_fresh s := fd))) (sc_fresh s) (sc_waiting s)"

definition nty_schedule_search_wait :: "int \<Rightarrow> sched \<Rightarrow> (sched \<times> cid) option" where
  "nty_schedule_search_wait fd s = do {
     co \<leftarrow> find_wait fd s;
     s \<leftarrow> upd_co co (\<lambda>c. c\<lparr>co_status := 0\<rparr>) s;
     Some (s, co) }"

definition nty_schedule_desched_wait :: "int \<Rightarrow> sched \<Rightarrow> (sched \<times> cid) option" where
  "nty_schedule_desched_wait fd s = do {
     co \<leftarrow> find_wait fd s;
     t \<leftarrow> RB_REMOVE (nty_coroutine_wait_cmp s) co (sc_waiting s);
     s \<leftarrow> upd_co co (\<lambda>c. c\<lparr>co_status := 0\<rparr>) (s\<lparr>sc_waiting := t\<rparr>);
     s \<leftarrow> nty_schedule_desched_sleepdown co s;
     Some (s, co) }"

text \<open>The status is or-ed with the number of the enumeration, not with its bit.\<close>

definition nty_schedule_sched_wait ::
  "cid \<Rightarrow> int \<Rightarrow> 16 word \<Rightarrow> 64 word \<Rightarrow> sched \<Rightarrow> sched option" where
  "nty_schedule_sched_wait co fd events timeout s = do {
     c \<leftarrow> sc_cos s co;
     if co_status c AND BIT WAIT_READ \<noteq> 0 \<or> co_status c AND BIT WAIT_WRITE \<noteq> 0 then None
     else do {
       s \<leftarrow> (if events AND POLLIN \<noteq> 0
             then upd_co co (\<lambda>c. c\<lparr>co_status := co_status c OR of_nat WAIT_READ\<rparr>) s
             else if events AND POLLOUT \<noteq> 0
             then upd_co co (\<lambda>c. c\<lparr>co_status := co_status c OR of_nat WAIT_WRITE\<rparr>) s
             else None);
       s \<leftarrow> upd_co co (\<lambda>c. c\<lparr>co_fd := fd, co_events := events\<rparr>) s;
       (t, dup) \<leftarrow> RB_INSERT (nty_coroutine_wait_cmp s) co (sc_waiting s);
       if dup \<noteq> None then None
       else do {
         let s = s\<lparr>sc_waiting := t\<rparr>;
         if timeout = 1 then Some s else nty_schedule_sched_sleepdown co timeout s } } }"

definition nty_schedule_cancel_wait :: "cid \<Rightarrow> sched \<Rightarrow> sched option" where
  "nty_schedule_cancel_wait co s = do {
     t \<leftarrow> RB_REMOVE (nty_coroutine_wait_cmp s) co (sc_waiting s);
     Some (s\<lparr>sc_waiting := t\<rparr>) }"

section \<open>Timers and polling\<close>

definition nty_schedule_expired :: "sched \<Rightarrow> (sched \<times> cid option) option" where
  "nty_schedule_expired s = do {
     let (now, s) = usec_now s;
     let t_diff_usecs = diff_usecs (sc_birth s) now;
     (case RB_MIN (sc_sleeping s) of
        None \<Rightarrow> Some (s, None)
      | Some co \<Rightarrow> do {
          c \<leftarrow> sc_cos s co;
          if co_sleep c \<le> t_diff_usecs
          then do {
            t \<leftarrow> RB_REMOVE (nty_coroutine_sleep_cmp s) co (sc_sleeping s);
            Some (s\<lparr>sc_sleeping := t\<rparr>, Some co) }
          else Some (s, None) }) }"

definition nty_schedule_isdone :: "sched \<Rightarrow> bool" where
  "nty_schedule_isdone s \<longleftrightarrow> RB_EMPTY (sc_waiting s) \<and> RB_EMPTY (sc_sleeping s) \<and> sc_ready s = []"

definition nty_schedule_min_timeout :: "sched \<Rightarrow> (sched \<times> 64 word) option" where
  "nty_schedule_min_timeout s = do {
     let (now, s) = usec_now s;
     let t_diff_usecs = diff_usecs (sc_birth s) now;
     (case RB_MIN (sc_sleeping s) of
        None \<Rightarrow> Some (s, sc_default_timeout s)
      | Some co \<Rightarrow> do {
          c \<leftarrow> sc_cos s co;
          Some (s, if co_sleep c > t_diff_usecs then co_sleep c - t_diff_usecs else 0) }) }"

text \<open>
  The timespec that \<open>nty_schedule_epoll\<close> computes, and the milliseconds that \<open>nty_epoller_wait\<close> makes
  of it before they become an int.
\<close>

definition epoll_timespec :: "64 word \<Rightarrow> 64 word \<times> 64 word" where
  "epoll_timespec usecs =
     (let tv_sec = usecs div 1000000
      in if tv_sec \<noteq> 0 then (tv_sec, (usecs mod 1000) * 1000) else (tv_sec, usecs * 1000))"

definition nty_epoller_wait_ms :: "64 word \<times> 64 word \<Rightarrow> nat" where
  "nty_epoller_wait_ms t = unat (fst t) * 1000 + unat (snd t) div 1000000"

text \<open>\<open>nty_schedule_epoll\<close> up to the call of \<open>epoll_wait\<close>: the timeout, if it gets there.\<close>

definition nty_schedule_epoll :: "sched \<Rightarrow> (sched \<times> nat option) option" where
  "nty_schedule_epoll s = do {
     (s, usecs) \<leftarrow> nty_schedule_min_timeout s;
     if usecs \<noteq> 0 \<and> sc_ready s = []
     then Some (s, Some (nty_epoller_wait_ms (epoll_timespec usecs)))
     else Some (s, None) }"

section \<open>Coroutines\<close>

definition nty_coroutine_free :: "cid \<Rightarrow> sched \<Rightarrow> sched option" where
  "nty_coroutine_free co s = do {
     _ \<leftarrow> sc_cos s co;
     Some (s\<lparr>sc_spawned := sc_spawned s - 1, sc_cos := (sc_cos s)(co := None)\<rparr>) }"

definition nty_coroutine_init :: "cid \<Rightarrow> sched \<Rightarrow> sched option" where
  "nty_coroutine_init co s = upd_co co (\<lambda>c. c\<lparr>co_status := BIT ST_READY\<rparr>) s"

text \<open>
  \<open>nty_coroutine_yield\<close> as far as the store goes, and the end of \<open>_exec\<close>: when the function of the
  coroutine returns, it marks itself and yields for the last time.
\<close>

definition nty_coroutine_yield :: "cid \<Rightarrow> sched \<Rightarrow> sched option" where
  "nty_coroutine_yield co s = upd_co co (\<lambda>c. c\<lparr>co_ops := 0\<rparr>) s"

definition exec_return :: "cid \<Rightarrow> sched \<Rightarrow> sched option" where
  "exec_return co s = do {
     s \<leftarrow> upd_co co (\<lambda>c. c\<lparr>co_status := co_status c OR ((BIT ST_EXITED OR BIT ST_FDEOF) OR BIT ST_DETACH)\<rparr>) s;
     nty_coroutine_yield co s }"

definition nty_coroutine_resume ::
  "(cid \<Rightarrow> sched \<Rightarrow> sched option) \<Rightarrow> cid \<Rightarrow> sched \<Rightarrow> (sched \<times> int) option" where
  "nty_coroutine_resume sw co s = do {
     c \<leftarrow> sc_cos s co;
     s \<leftarrow> (if co_status c AND BIT ST_NEW \<noteq> 0 then nty_coroutine_init co s else Some s);
     s \<leftarrow> sw co (s\<lparr>sc_curr := Some co\<rparr>);
     let s = s\<lparr>sc_curr := None\<rparr>;
     c \<leftarrow> sc_cos s co;
     if co_status c AND BIT ST_EXITED \<noteq> 0
     then do {
       s \<leftarrow> (if co_status c AND BIT ST_DETACH \<noteq> 0 then nty_coroutine_free co s else Some s);
       Some (s, -1) }
     else Some (s, 0) }"

text \<open>A handle that is put into a tail queue twice would corrupt the queue.\<close>

definition ready_insert :: "cid \<Rightarrow> sched \<Rightarrow> sched option" where
  "ready_insert co s = (if co \<in> set (sc_ready s) then None else Some (s\<lparr>sc_ready := sc_ready s @ [co]\<rparr>))"

text \<open>The result says whether the coroutine yields here.\<close>

definition nty_coroutine_renice :: "cid \<Rightarrow> sched \<Rightarrow> (sched \<times> bool) option" where
  "nty_coroutine_renice co s = do {
     s \<leftarrow> upd_co co (\<lambda>c. c\<lparr>co_ops := co_ops c + 1\<rparr>) s;
     c \<leftarrow> sc_cos s co;
     if co_ops c < 5 then Some (s, False)
     else do {
       s \<leftarrow> ready_insert co s;
       s \<leftarrow> nty_coroutine_yield co s;
       Some (s, True) } }"

definition nty_coroutine_sleep :: "64 word \<Rightarrow> sched \<Rightarrow> (sched \<times> bool) option" where
  "nty_coroutine_sleep msecs s = do {
     co \<leftarrow> sc_curr s;
     if msecs = 0
     then do {
       s \<leftarrow> ready_insert co s;
       s \<leftarrow> nty_coroutine_yield co s;
       Some (s, True) }
     else do {
       s \<leftarrow> nty_schedule_sched_sleepdown co msecs s;
       Some (s, False) } }"

definition nty_coroutine_detach :: "sched \<Rightarrow> sched option" where
  "nty_coroutine_detach s = do {
     co \<leftarrow> sc_curr s;
     upd_co co (\<lambda>c. c\<lparr>co_status := co_status c OR BIT ST_DETACH\<rparr>) s }"

text \<open>
  \<open>nty_schedule_create\<close>: \<open>ok\<close> says whether calloc succeeds, \<open>pfd\<close> is the answer of epoll_create.
  When all goes well the function ends without returning a value, the second \<open>None\<close>.
\<close>

definition nty_schedule_create ::
  "bool \<Rightarrow> int \<Rightarrow> (nat \<Rightarrow> 64 word) \<Rightarrow> sched option \<times> int option" where
  "nty_schedule_create ok pfd clock =
     (if \<not> ok then (None, Some (-1))
      else if pfd = -1 then (None, Some (-2))
      else
        let s = \<lparr>sc_birth = 0, sc_default_timeout = 3000000, sc_spawned = 0, sc_curr = None,
                 sc_ready = [], sc_sleeping = Lf, sc_waiting = Lf, sc_cos = Map.empty, sc_fresh = 1,
                 sc_clock = clock, sc_ticks = 0\<rparr>;
            (now, s) = usec_now s
        in (Some (s\<lparr>sc_birth := now\<rparr>), None))"

text \<open>
  \<open>nty_coroutine_create\<close> once there is a scheduler; the new handle is the fresh address.  The
  result is the handle stored in \<open>*new_co\<close> and the return value.
\<close>

definition create_on :: "bool \<Rightarrow> sched \<Rightarrow> (sched \<times> cid option \<times> int) option" where
  "create_on ok s =
     (if \<not> ok then Some (s, None, -2)
      else do {
        let co = sc_fresh s;
        let n = sc_spawned s;
        let (now, s) = usec_now (s\<lparr>sc_fresh := Suc co, sc_spawned := n + 1\<rparr>);
        let s = s\<lparr>sc_cos := (sc_cos s)(co \<mapsto>
            \<lparr>co_status = BIT ST_NEW, co_fd = -1, co_events = 0, co_sleep = 0, co_ops = 0,
             co_num = of_int n, co_birth = now\<rparr>)\<rparr>;
        s \<leftarrow> ready_insert co s;
        Some (s, Some co, 0) })"

definition nty_coroutine_create ::
  "bool \<times> int \<Rightarrow> (nat \<Rightarrow> 64 word) \<Rightarrow> bool \<Rightarrow> sched option \<Rightarrow> (sched option \<times> cid option \<times> int) option" where
  "nty_coroutine_create env clock ok sched =
     (case (case sched of None \<Rightarrow> fst (nty_schedule_create (fst env) (snd env) clock) | Some s \<Rightarrow> Some s) of
        None \<Rightarrow> Some (None, None, -1)
      | Some s \<Rightarrow> do {
          (s, co, ret) \<leftarrow> create_on ok s;
          Some (Some s, co, ret) })"

section \<open>The main loop\<close>

text \<open>1. the expired sleepers\<close>

partial_function (option) run_expired :: "(cid \<Rightarrow> sched \<Rightarrow> sched option) \<Rightarrow> sched \<Rightarrow> sched option" where
  "run_expired sw s = do {
     r \<leftarrow> nty_schedule_expired s;
     (case snd r of
        None \<Rightarrow> Some (fst r)
      | Some co \<Rightarrow> do {
          q \<leftarrow> nty_coroutine_resume sw co (fst r);
          run_expired sw (fst q) }) }"

text \<open>2. the ready queue, up to the coroutine that was last when the round began\<close>

partial_function (option) run_ready :: "(cid \<Rightarrow> sched \<Rightarrow> sched option) \<Rightarrow> cid option \<Rightarrow> sched \<Rightarrow> sched option" where
  "run_ready sw last_co s =
     (case sc_ready s of
        [] \<Rightarrow> Some s
      | co # rest \<Rightarrow> do {
          let s1 = s\<lparr>sc_ready := rest\<rparr>;
          c \<leftarrow> sc_cos s1 co;
          if co_status c AND BIT ST_FDEOF \<noteq> 0 then nty_coroutine_free co s1
          else do {
            q \<leftarrow> nty_coroutine_resume sw co s1;
            if Some co = last_co then Some (fst q) else run_ready sw last_co (fst q) } })"

definition ready_round :: "(cid \<Rightarrow> sched \<Rightarrow> sched option) \<Rightarrow> sched \<Rightarrow> sched option" where
  "ready_round sw s = run_ready sw (if sc_ready s = [] then None else Some (last (sc_ready s))) s"

text \<open>3. the events that epoll reported: descriptor and EPOLLHUP, from the last to the first\<close>

fun run_events :: "(cid \<Rightarrow> sched \<Rightarrow> sched option) \<Rightarrow> (int \<times> bool) list \<Rightarrow> sched \<Rightarrow> sched option" where
  "run_events sw [] s = Some s"
| "run_events sw ((fd, eof) # evs) s = do {
     (s, co) \<leftarrow> nty_schedule_search_wait fd s;
     s \<leftarrow> (if eof then upd_co co (\<lambda>c. c\<lparr>co_status := co_status c OR BIT ST_FDEOF\<rparr>) s else Some s);
     (s, _) \<leftarrow> nty_coroutine_resume sw co s;
     run_events sw evs s }"

text \<open>One turn of \<open>nty_schedule_run\<close>; \<open>evs\<close> are the events in the order of the array.\<close>

definition schedule_turn ::
  "(cid \<Rightarrow> sched \<Rightarrow> sched option) \<Rightarrow> (int \<times> bool) list \<Rightarrow> sched \<Rightarrow> sched option" where
  "schedule_turn sw evs s = do {
     s \<leftarrow> run_expired sw s;
     s \<leftarrow> ready_round sw s;
     (s, t) \<leftarrow> nty_schedule_epoll s;
     if t = None then Some s else run_events sw (rev evs) s }"

fun nty_schedule_run ::
  "(cid \<Rightarrow> sched \<Rightarrow> sched option) \<Rightarrow> (int \<times> bool) list list \<Rightarrow> sched \<Rightarrow> sched option" where
  "nty_schedule_run sw [] s = Some s"
| "nty_schedule_run sw (evs # rest) s =
     (if nty_schedule_isdone s then Some s
      else do { s \<leftarrow> schedule_turn sw evs s; nty_schedule_run sw rest s })"

section \<open>The invariant\<close>

text \<open>
  The trees are ordered by the members the comparison functions read, and trees and queue hold
  live coroutines only.
\<close>

definition sched_inv :: "sched \<Rightarrow> bool" where
  "sched_inv s \<longleftrightarrow>
     rb_inv_by (sleep_key s) (sc_sleeping s) \<and> rb_inv_by (wait_key s) (sc_waiting s) \<and>
     set (inorder (sc_sleeping s)) \<subseteq> dom (sc_cos s) \<and> set (inorder (sc_waiting s)) \<subseteq> dom (sc_cos s) \<and>
     set (sc_ready s) \<subseteq> dom (sc_cos s) \<and> distinct (sc_ready s) \<and>
     (\<forall>co \<in> dom (sc_cos s). co < sc_fresh s)"

lemma sleep_cmp_by: "nty_coroutine_sleep_cmp s = cmp_by (sleep_key s)"
  by (intro ext) (simp add: nty_coroutine_sleep_cmp_def cmp_by_def)

lemma wait_cmp_by: "nty_coroutine_wait_cmp s = cmp_by (wait_key s)"
  by (intro ext) (simp add: nty_coroutine_wait_cmp_def cmp_by_def)

lemma sleep_key_upd:
  "sleep_key (s\<lparr>sc_cos := (sc_cos s)(co \<mapsto> c)\<rparr>) = (sleep_key s)(co := co_sleep c)"
  by (auto simp: sleep_key_def)

lemma wait_key_upd:
  "wait_key (s\<lparr>sc_cos := (sc_cos s)(co \<mapsto> c)\<rparr>) = (wait_key s)(co := co_fd c)"
  by (auto simp: wait_key_def)

lemma key_simps [simp]:
  "sleep_key (s\<lparr>sc_sleeping := t\<rparr>) = sleep_key s" "wait_key (s\<lparr>sc_sleeping := t\<rparr>) = wait_key s"
  "sleep_key (s\<lparr>sc_waiting := t\<rparr>) = sleep_key s" "wait_key (s\<lparr>sc_waiting := t\<rparr>) = wait_key s"
  "sleep_key (s\<lparr>sc_ticks := n\<rparr>) = sleep_key s" "wait_key (s\<lparr>sc_ticks := n\<rparr>) = wait_key s"
  "sleep_key (s\<lparr>sc_ready := r\<rparr>) = sleep_key s" "wait_key (s\<lparr>sc_ready := r\<rparr>) = wait_key s"
  "sleep_key (s\<lparr>sc_curr := c\<rparr>) = sleep_key s" "wait_key (s\<lparr>sc_curr := c\<rparr>) = wait_key s"
  by (simp_all add: sleep_key_def wait_key_def fun_eq_iff)

section \<open>Going to sleep\<close>

abbreviation sleepers :: "sched \<Rightarrow> cid set" where "sleepers s \<equiv> set (inorder (sc_sleeping s))"
abbreviation waiters :: "sched \<Rightarrow> cid set" where "waiters s \<equiv> set (inorder (sc_waiting s))"

lemma sched_invD:
  assumes "sched_inv s"
  shows "rb_inv_by (sleep_key s) (sc_sleeping s)" "rb_inv_by (wait_key s) (sc_waiting s)"
    "sleepers s \<subseteq> dom (sc_cos s)" "waiters s \<subseteq> dom (sc_cos s)" "set (sc_ready s) \<subseteq> dom (sc_cos s)"
    "distinct (sc_ready s)" "\<And>co. co \<in> dom (sc_cos s) \<Longrightarrow> co < sc_fresh s"
  using assms by (simp_all add: sched_inv_def)

lemma free_deadline:
  fixes v :: "64 word"
  assumes "finite A" "card A < 2 ^ 64"
  shows "\<exists>n \<le> card A. v + of_nat n \<notin> A \<and> (\<forall>m < n. v + of_nat m \<in> A)"
proof -
  have "inj_on (\<lambda>n. v + of_nat n :: 64 word) {..card A}"
  proof (rule inj_onI)
    fix m n
    assume "m \<in> {..card A}" "n \<in> {..card A}" "v + of_nat m = v + (of_nat n :: 64 word)"
    then have "unat (of_nat m :: 64 word) = unat (of_nat n :: 64 word)" "m < 2 ^ 64" "n < 2 ^ 64"
      using assms(2) by simp_all
    then show "m = n" by (simp add: unsigned_of_nat take_bit_nat_eq_self)
  qed
  then have "card ((\<lambda>n. v + of_nat n) ` {..card A}) = Suc (card A)" by (simp add: card_image)
  then have "\<not> (\<lambda>n. v + of_nat n) ` {..card A} \<subseteq> A"
    using card_mono [OF assms(1)] by (metis Suc_n_not_le_n)
  then obtain n where n: "n \<le> card A" "v + of_nat n \<notin> A" by auto
  let ?n = "LEAST n. v + of_nat n \<notin> A"
  have "v + of_nat ?n \<notin> A" "?n \<le> n" using n(2) by (rule LeastI, rule Least_le)
  moreover have "\<forall>m < ?n. v + of_nat m \<in> A" using not_less_Least by blast
  ultimately show ?thesis using n(1) by (meson le_trans)
qed

lemma sleep_insert_run:
  assumes "rb_inv_by (sleep_key s) (sc_sleeping s)" "co \<notin> sleepers s" "sc_cos s co = Some c"
    "co_sleep c + of_nat n \<notin> sleep_key s ` sleepers s" "\<forall>m < n. co_sleep c + of_nat m \<in> sleep_key s ` sleepers s"
  shows "\<exists>t. sleep_insert co s = Some (s\<lparr>sc_sleeping := t, sc_cos := (sc_cos s)(co \<mapsto>
      c\<lparr>co_sleep := co_sleep c + of_nat n, co_status := co_status c OR BIT ST_SLEEPING\<rparr>)\<rparr>) \<and>
    rb_inv_by ((sleep_key s)(co := co_sleep c + of_nat n)) t \<and> set (inorder t) = insert co (sleepers s)"
  using assms
proof (induction n arbitrary: s c)
  case 0
  have key: "sleep_key s co = co_sleep c" using 0(3) by (simp add: sleep_key_def)
  have "\<forall>y \<in> sleepers s. sleep_key s y \<noteq> sleep_key s co" using 0(4) key by (auto simp: image_iff)
  from rbn.ins_new [OF 0(1) this] obtain t where
    t: "RB_INSERT (cmp_by (sleep_key s)) co (sc_sleeping s) = Some (t, None)" "rb_inv_by (sleep_key s) t"
      "set (inorder t) = insert co (sleepers s)" by blast
  have "(sleep_key s)(co := co_sleep c) = sleep_key s" using key by auto
  then show ?case using t 0(3)
    by (intro exI [of _ t]) (simp add: sleep_insert.simps sleep_cmp_by upd_co_def fun_upd_def)
next
  case (Suc n)
  have key: "sleep_key s co = co_sleep c" using Suc.prems(3) by (simp add: sleep_key_def)
  obtain y where y: "y \<in> sleepers s" "sleep_key s y = sleep_key s co"
    using Suc.prems(5) key by (auto dest: spec [of _ 0])
  let ?c = "c\<lparr>co_sleep := co_sleep c + 1\<rparr>"
  let ?s = "s\<lparr>sc_cos := (sc_cos s)(co \<mapsto> ?c)\<rparr>"
  have step: "sleep_insert co s = sleep_insert co ?s"
    using rbn.ins_dup [OF Suc.prems(1) y] Suc.prems(3)
    by (subst sleep_insert.simps) (simp add: sleep_cmp_by upd_co_def)
  have keys: "sleep_key ?s = (sleep_key s)(co := co_sleep c + 1)" by (simp add: sleep_key_upd)
  have same: "sleep_key ?s ` sleepers s = sleep_key s ` sleepers s"
    unfolding keys using Suc.prems(2) by (intro image_cong) auto
  have p1: "rb_inv_by (sleep_key ?s) (sc_sleeping ?s)"
    unfolding keys using rbn.inv_other_key [OF Suc.prems(1,2)] by simp
  have p2: "co \<notin> sleepers ?s" "sc_cos ?s co = Some ?c" using Suc.prems(2) by simp_all
  have p3: "co_sleep ?c + of_nat n \<notin> sleep_key ?s ` sleepers ?s"
    using Suc.prems(4) same by (simp add: algebra_simps)
  have p4: "\<forall>m < n. co_sleep ?c + of_nat m \<in> sleep_key ?s ` sleepers ?s"
    using Suc.prems(5) same by (auto simp: algebra_simps dest: spec [of _ "Suc _"])
  from Suc.IH [OF p1 p2 p3 p4] obtain t where "sleep_insert co ?s = Some (?s\<lparr>sc_sleeping := t, sc_cos := (sc_cos ?s)(co \<mapsto>
      ?c\<lparr>co_sleep := co_sleep ?c + of_nat n, co_status := co_status ?c OR BIT ST_SLEEPING\<rparr>)\<rparr>)"
    "rb_inv_by ((sleep_key ?s)(co := co_sleep ?c + of_nat n)) t" "set (inorder t) = insert co (sleepers ?s)"
    by blast
  moreover have "co_sleep c + of_nat (Suc n) = co_sleep c + 1 + of_nat n" by (simp add: algebra_simps)
  moreover have "(sc_cos ?s)(co \<mapsto> x) = (sc_cos s)(co \<mapsto> x)" for x by simp
  moreover have "((sleep_key s)(co := v))(co := w) = (sleep_key s)(co := w)" for v w by simp
  ultimately show ?case unfolding step keys
    by (intro exI [of _ t]) (simp del: of_nat_Suc fun_upd_apply add: add.assoc)
qed

lemma usec_now_simps [simp]:
  "fst (usec_now s) = sc_clock s (sc_ticks s)" "snd (usec_now s) = s\<lparr>sc_ticks := Suc (sc_ticks s)\<rparr>"
  by (simp_all add: usec_now_def)

text \<open>What a change of one live coroutine keeps, when its descriptor stays.\<close>

lemma sched_invI:
  assumes inv: "sched_inv s" and cos: "sc_cos s' = (sc_cos s)(co \<mapsto> c')" "sc_cos s co = Some c" "co_fd c' = co_fd c"
    and same: "sc_waiting s' = sc_waiting s" "sc_ready s' = sc_ready s" "sc_fresh s' = sc_fresh s"
    and sl: "rb_inv_by (sleep_key s') (sc_sleeping s')" "sleepers s' \<subseteq> dom (sc_cos s')"
  shows "sched_inv s'"
proof -
  have "wait_key s' = wait_key s" using cos by (auto simp: wait_key_def fun_eq_iff)
  moreover have "dom (sc_cos s') = dom (sc_cos s)" using cos by auto
  ultimately show ?thesis using inv same sl by (simp add: sched_inv_def)
qed

text \<open>Before it sets its own, a coroutine takes whoever has its old deadline out of the tree.\<close>

lemma same_deadline_out:
  assumes D: "rb_inv_by (sleep_key s) (sc_sleeping s)" and key: "sleep_key s co = co_sleep c"
  obtains t where "(case RB_FIND (nty_coroutine_sleep_cmp s) co (sc_sleeping s) of None \<Rightarrow> Some s
      | Some co_tmp \<Rightarrow> do { t \<leftarrow> RB_REMOVE (nty_coroutine_sleep_cmp s) co_tmp (sc_sleeping s);
                          Some (s\<lparr>sc_sleeping := t\<rparr>) }) = Some (s\<lparr>sc_sleeping := t\<rparr>)"
      "rb_inv_by (sleep_key s) t" "set (inorder t) = {y \<in> sleepers s. sleep_key s y \<noteq> co_sleep c}"
proof (cases "RB_FIND (cmp_by (sleep_key s)) co (sc_sleeping s)")
  case None
  then have "\<forall>y \<in> sleepers s. sleep_key s y \<noteq> co_sleep c" using rbn.fnd_none [OF D] key by simp
  then show ?thesis using that [of "sc_sleeping s"] None D by (auto simp: sleep_cmp_by)
next
  case (Some z)
  then have z: "z \<in> sleepers s" "sleep_key s z = co_sleep c" using rbn.fnd_iff [OF D] key by simp_all
  from rbn.rem_in [OF D z(1)] obtain t where
    t: "RB_REMOVE (cmp_by (sleep_key s)) z (sc_sleeping s) = Some t" "rb_inv_by (sleep_key s) t"
      "set (inorder t) = sleepers s - {z}" by blast
  have "y = z" if "y \<in> sleepers s" "sleep_key s y = co_sleep c" for y
    using that z by (intro inj_onD [OF rbn.inv_inj [OF D]]) simp_all
  then have "sleepers s - {z} = {y \<in> sleepers s. sleep_key s y \<noteq> co_sleep c}" using z by blast
  then show ?thesis using that [of t] t Some by (simp add: sleep_cmp_by)
qed

lemma sleepdown_spec:
  assumes inv: "sched_inv s" and live: "sc_cos s co = Some c" and ms: "msecs \<noteq> 0"
    and few: "card (sleepers s) < 2 ^ 64"
  shows "\<exists>s' n. nty_schedule_sched_sleepdown co msecs s = Some s' \<and> sched_inv s' \<and>
    sleepers s' = insert co {y \<in> sleepers s. sleep_key s y \<noteq> co_sleep c} \<and> n \<le> card (sleepers s) \<and>
    sleep_key s' co = (sc_clock s (sc_ticks s) - sc_birth s) + msecs * 1000 + of_nat n \<and>
    (\<forall>y. y \<noteq> co \<longrightarrow> sc_cos s' y = sc_cos s y) \<and> sc_waiting s' = sc_waiting s \<and> sc_ready s' = sc_ready s \<and>
    sc_cos s' co = Some (c\<lparr>co_sleep := sleep_key s' co, co_status := co_status c OR BIT ST_SLEEPING\<rparr>)"
proof -
  note D = sched_invD [OF inv]
  have key: "sleep_key s co = co_sleep c" using live by (simp add: sleep_key_def)
  obtain t where t: "(case RB_FIND (nty_coroutine_sleep_cmp s) co (sc_sleeping s) of None \<Rightarrow> Some s
      | Some co_tmp \<Rightarrow> do { t \<leftarrow> RB_REMOVE (nty_coroutine_sleep_cmp s) co_tmp (sc_sleeping s);
                          Some (s\<lparr>sc_sleeping := t\<rparr>) }) = Some (s\<lparr>sc_sleeping := t\<rparr>)"
      "rb_inv_by (sleep_key s) t" "set (inorder t) = {y \<in> sleepers s. sleep_key s y \<noteq> co_sleep c}"
    using same_deadline_out [OF D(1) key] .
  let ?v = "(sc_clock s (sc_ticks s) - sc_birth s) + msecs * 1000"
  let ?c = "c\<lparr>co_sleep := ?v\<rparr>"
  let ?s = "s\<lparr>sc_sleeping := t, sc_ticks := Suc (sc_ticks s), sc_cos := (sc_cos s)(co \<mapsto> ?c)\<rparr>"
  have run: "nty_schedule_sched_sleepdown co msecs s = sleep_insert co ?s"
    unfolding nty_schedule_sched_sleepdown_def Let_def t(1)
    using live ms by (simp add: usec_now_def upd_co_def diff_usecs_def)
  have keys: "sleep_key ?s = (sleep_key s)(co := ?v)" by (auto simp: sleep_key_def)
  have out: "co \<notin> set (inorder t)" using t(3) key by simp
  have i1: "rb_inv_by (sleep_key ?s) (sc_sleeping ?s)"
    unfolding keys using rbn.inv_other_key [OF t(2) out] by simp
  have fin: "finite (sleep_key ?s ` sleepers ?s)" by simp
  have le: "card (sleep_key ?s ` sleepers ?s) \<le> card (sleepers s)"
  proof -
    have "card (sleep_key ?s ` sleepers ?s) \<le> card (sleepers ?s)" by (rule card_image_le) simp
    also have "\<dots> \<le> card (sleepers s)" using t(3) by (intro card_mono) auto
    finally show ?thesis .
  qed
  from free_deadline [OF fin, of ?v] le few obtain n where
    n: "n \<le> card (sleepers s)" "?v + of_nat n \<notin> sleep_key ?s ` sleepers ?s"
      "\<forall>m < n. ?v + of_nat m \<in> sleep_key ?s ` sleepers ?s" by (meson le_less_trans le_trans)
  have i2: "co \<notin> sleepers ?s" "sc_cos ?s co = Some ?c" using out by simp_all
  have i3: "co_sleep ?c + of_nat n \<notin> sleep_key ?s ` sleepers ?s"
    "\<forall>m < n. co_sleep ?c + of_nat m \<in> sleep_key ?s ` sleepers ?s" using n by simp_all
  let ?c' = "?c\<lparr>co_sleep := co_sleep ?c + of_nat n, co_status := co_status ?c OR BIT ST_SLEEPING\<rparr>"
  from sleep_insert_run [OF i1 i2 i3] obtain u where
    u: "sleep_insert co ?s = Some (?s\<lparr>sc_sleeping := u, sc_cos := (sc_cos ?s)(co \<mapsto> ?c')\<rparr>)"
      "rb_inv_by ((sleep_key ?s)(co := co_sleep ?c + of_nat n)) u" "set (inorder u) = insert co (sleepers ?s)" by blast
  let ?s' = "?s\<lparr>sc_sleeping := u, sc_cos := (sc_cos ?s)(co \<mapsto> ?c')\<rparr>"
  have k': "sleep_key ?s' = (sleep_key ?s)(co := co_sleep ?c + of_nat n)" by (auto simp: sleep_key_def)
  have "sched_inv ?s'"
  proof (rule sched_invI [OF inv, of _ co ?c' c])
    show "rb_inv_by (sleep_key ?s') (sc_sleeping ?s')" unfolding k' using u(2) by simp
    show "sleepers ?s' \<subseteq> dom (sc_cos ?s')" using u(3) t(3) D(3) by auto
  qed (use live in simp_all)
  moreover have "sleepers ?s' = insert co {y \<in> sleepers s. sleep_key s y \<noteq> co_sleep c}"
    using u(3) t(3) by simp
  moreover have "sleep_key ?s' co = ?v + of_nat n" unfolding k' by simp
  ultimately show ?thesis using run u(1) n(1) by (intro exI [of _ ?s'] exI [of _ n]) simp
qed

section \<open>Waking up\<close>

lemma expired_spec:
  assumes inv: "sched_inv s"
  shows "\<exists>s' r. nty_schedule_expired s = Some (s', r) \<and> sched_inv s' \<and> sc_cos s' = sc_cos s \<and>
    (case r of
       None \<Rightarrow> sleepers s' = sleepers s \<and> (\<forall>y \<in> sleepers s. sc_clock s (sc_ticks s) - sc_birth s < sleep_key s y)
     | Some co \<Rightarrow> co \<in> sleepers s \<and> sleep_key s co \<le> sc_clock s (sc_ticks s) - sc_birth s \<and>
         (\<forall>y \<in> sleepers s. sleep_key s co \<le> sleep_key s y) \<and> sleepers s' = sleepers s - {co})"
proof -
  note D = sched_invD [OF inv]
  let ?t = "sc_clock s (sc_ticks s) - sc_birth s"
  let ?s = "s\<lparr>sc_ticks := Suc (sc_ticks s)\<rparr>"
  have inv1: "sched_inv ?s" using inv by (simp add: sched_inv_def)
  show ?thesis
  proof (cases "RB_MIN (sc_sleeping s)")
    case None
    then have "sleepers s = {}" using rbn.mn_none [OF D(1)] by simp
    then show ?thesis using None inv1
      by (intro exI [of _ ?s] exI [of _ None]) (simp add: nty_schedule_expired_def usec_now_def Let_def)
  next
    case (Some co)
    then have co: "co \<in> sleepers s" "\<forall>y \<in> sleepers s. sleep_key s co \<le> sleep_key s y"
      using rbn.mn_least [OF D(1)] by simp_all
    then obtain c where c: "sc_cos s co = Some c" using D(3) by blast
    then have key: "sleep_key s co = co_sleep c" by (simp add: sleep_key_def)
    show ?thesis
    proof (cases "co_sleep c \<le> ?t")
      case True
      from rbn.rem_in [OF D(1) co(1)] obtain t where
        t: "RB_REMOVE (cmp_by (sleep_key s)) co (sc_sleeping s) = Some t" "rb_inv_by (sleep_key s) t"
          "set (inorder t) = sleepers s - {co}" by blast
      have "sched_inv (?s\<lparr>sc_sleeping := t\<rparr>)" using inv t(2,3) by (auto simp: sched_inv_def)
      then show ?thesis using True Some c co key t
        by (intro exI [of _ "?s\<lparr>sc_sleeping := t\<rparr>"] exI [of _ "Some co"])
          (simp add: nty_schedule_expired_def usec_now_def Let_def diff_usecs_def sleep_cmp_by)
    next
      case False
      then have "\<forall>y \<in> sleepers s. ?t < sleep_key s y" using co(2) key by fastforce
      then show ?thesis using False Some c inv1
        by (intro exI [of _ ?s] exI [of _ None]) (simp add: nty_schedule_expired_def usec_now_def Let_def diff_usecs_def)
    qed
  qed
qed

lemma find_wait_iff:
  assumes inv: "sched_inv s"
  shows "find_wait fd s = Some co \<longleftrightarrow> co \<in> waiters s \<and> wait_key s co = fd"
    and "find_wait fd s = None \<longleftrightarrow> (\<forall>y \<in> waiters s. wait_key s y \<noteq> fd)"
proof -
  note D = sched_invD [OF inv]
  have fresh: "sc_fresh s \<notin> waiters s" using D(4,7) by blast
  then have ne: "y \<in> waiters s \<Longrightarrow> y \<noteq> sc_fresh s" for y by blast
  note i = rbn.inv_other_key [OF D(2) fresh, of fd]
  show "find_wait fd s = Some co \<longleftrightarrow> co \<in> waiters s \<and> wait_key s co = fd"
    unfolding find_wait_def rbn.fnd_iff [OF i] using ne by auto
  show "find_wait fd s = None \<longleftrightarrow> (\<forall>y \<in> waiters s. wait_key s y \<noteq> fd)"
    unfolding find_wait_def rbn.fnd_none [OF i] using ne by auto
qed

end
