(* ===== verification/NTY_Sched_Props.thy ===== *)
theory NTY_Sched_Props
  imports NTY_Sched
begin

text \<open>
  Properties of the coroutine scheduler: deadlines, expiry, waiting for descriptors, the round over
  the ready queue, and the poll timeout; among them those that show where the scheduler loses or
  keeps a timer it should not.
\<close>

section \<open>Lemmas\<close>

lemma BIT_0 [simp]: "0 AND BIT n = (0 :: 32 word)"
  by simp

lemma sched_inv_upd:
  assumes "sched_inv s" "sc_cos s co = Some c" "co_sleep c' = co_sleep c" "co_fd c' = co_fd c"
  shows "sched_inv (s\<lparr>sc_cos := (sc_cos s)(co \<mapsto> c')\<rparr>)"
proof (rule sched_invI [OF assms(1) _ assms(2,4)])
  have "sleep_key (s\<lparr>sc_cos := (sc_cos s)(co \<mapsto> c')\<rparr>) = sleep_key s"
    using assms(2,3) by (auto simp: sleep_key_def fun_eq_iff)
  then show "rb_inv_by (sleep_key (s\<lparr>sc_cos := (sc_cos s)(co \<mapsto> c')\<rparr>)) (sc_sleeping (s\<lparr>sc_cos := (sc_cos s)(co \<mapsto> c')\<rparr>))"
    using sched_invD(1) [OF assms(1)] by simp
  show "sleepers (s\<lparr>sc_cos := (sc_cos s)(co \<mapsto> c')\<rparr>) \<subseteq> dom (sc_cos (s\<lparr>sc_cos := (sc_cos s)(co \<mapsto> c')\<rparr>))"
    using sched_invD(3) [OF assms(1)] by auto
qed simp_all

lemma desched_wait_run:
  assumes inv: "sched_inv s" and co: "co \<in> waiters s" and c: "sc_cos s co = Some c" "co_fd c = fd"
  shows "\<exists>t. nty_schedule_desched_wait fd s =
      Some (s\<lparr>sc_waiting := t, sc_cos := (sc_cos s)(co \<mapsto> c\<lparr>co_status := 0\<rparr>)\<rparr>, co) \<and>
    set (inorder t) = waiters s - {co} \<and>
    sched_inv (s\<lparr>sc_waiting := t, sc_cos := (sc_cos s)(co \<mapsto> c\<lparr>co_status := 0\<rparr>)\<rparr>)"
proof -
  note D = sched_invD [OF inv]
  have "find_wait fd s = Some co" using find_wait_iff(1) [OF inv] co c by (simp add: wait_key_def)
  moreover obtain t where "RB_REMOVE (cmp_by (wait_key s)) co (sc_waiting s) = Some t"
      and t: "rb_inv_by (wait_key s) t" "set (inorder t) = waiters s - {co}"
    using rbn.rem_in [OF D(2) co] by blast
  moreover have "sched_inv (s\<lparr>sc_waiting := t\<rparr>)" using inv t by (auto simp: sched_inv_def)
  then have "sched_inv ((s\<lparr>sc_waiting := t\<rparr>)\<lparr>sc_cos := (sc_cos s)(co \<mapsto> c\<lparr>co_status := 0\<rparr>)\<rparr>)"
    using sched_inv_upd [of "s\<lparr>sc_waiting := t\<rparr>" co c "c\<lparr>co_status := 0\<rparr>"] c(1) by simp
  ultimately show ?thesis using c(1)
    by (intro exI [of _ t]) (simp add: nty_schedule_desched_wait_def wait_cmp_by upd_co_def
        nty_schedule_desched_sleepdown_def fun_upd_def)
qed

text \<open>The part of \<open>nty_schedule_sched_wait\<close> before the timeout.\<close>

definition wait_entry :: "coro \<Rightarrow> int \<Rightarrow> 16 word \<Rightarrow> coro" where
  "wait_entry c fd events = c\<lparr>co_status := (if events AND POLLIN \<noteq> 0 then co_status c else co_status c OR BIT 0),
     co_fd := fd, co_events := events\<rparr>"

lemma sched_wait_run:
  assumes inv: "sched_inv s" and c: "sc_cos s co = Some c" and out: "co \<notin> waiters s"
    and st: "co_status c AND BIT WAIT_READ = 0" "co_status c AND BIT WAIT_WRITE = 0"
    and free: "\<forall>y \<in> waiters s. wait_key s y \<noteq> fd" and ev: "events AND POLLIN \<noteq> 0 \<or> events AND POLLOUT \<noteq> 0"
  shows "\<exists>t. nty_schedule_sched_wait co fd events timeout s =
      (let s' = s\<lparr>sc_waiting := t, sc_cos := (sc_cos s)(co \<mapsto> wait_entry c fd events)\<rparr>
       in if timeout = 1 then Some s' else nty_schedule_sched_sleepdown co timeout s') \<and>
    sched_inv (s\<lparr>sc_waiting := t, sc_cos := (sc_cos s)(co \<mapsto> wait_entry c fd events)\<rparr>) \<and>
    set (inorder t) = insert co (waiters s)"
proof -
  note D = sched_invD [OF inv]
  let ?c = "wait_entry c fd events"
  let ?s = "s\<lparr>sc_cos := (sc_cos s)(co \<mapsto> ?c)\<rparr>"
  have key: "wait_key ?s = (wait_key s)(co := fd)" by (simp add: wait_key_upd wait_entry_def)
  have i: "rb_inv_by (wait_key ?s) (sc_waiting s)"
    unfolding key using rbn.inv_other_key [OF D(2) out] by simp
  have "\<forall>y \<in> waiters s. wait_key ?s y \<noteq> wait_key ?s co" unfolding key using free out by auto
  from rbn.ins_new [OF i this] obtain t where
    t: "RB_INSERT (cmp_by (wait_key ?s)) co (sc_waiting s) = Some (t, None)" "rb_inv_by (wait_key ?s) t"
      "set (inorder t) = insert co (waiters s)" by blast
  let ?s' = "?s\<lparr>sc_waiting := t\<rparr>"
  have one: "of_nat WAIT_WRITE = BIT 0" by (simp add: BIT_def)
  have run: "nty_schedule_sched_wait co fd events timeout s =
      (if timeout = 1 then Some ?s' else nty_schedule_sched_sleepdown co timeout ?s')"
  proof (cases "events AND POLLIN \<noteq> 0")
    case True
    then have "wait_entry c fd events = c\<lparr>co_fd := fd, co_events := events\<rparr>" by (simp add: wait_entry_def)
    then show ?thesis using True c st t(1)
      by (simp add: nty_schedule_sched_wait_def upd_co_def wait_cmp_by Let_def)
  next
    case False
    then have "wait_entry c fd events = c\<lparr>co_status := co_status c OR 1, co_fd := fd, co_events := events\<rparr>"
      by (simp add: wait_entry_def BIT_def)
    then show ?thesis using False ev c st t(1)
      by (simp add: nty_schedule_sched_wait_def upd_co_def wait_cmp_by Let_def)
  qed
  have sl: "sleep_key ?s = sleep_key s" using c by (auto simp: sleep_key_def wait_entry_def fun_eq_iff)
  have "co < sc_fresh s" using D(7) c by blast
  then have inv': "sched_inv ?s'"
    using D inv t(2,3) c by (auto simp: sched_inv_def sl)
  have order: "?s' = s\<lparr>sc_waiting := t, sc_cos := (sc_cos s)(co \<mapsto> ?c)\<rparr>" by simp
  show ?thesis using run t(3) inv' unfolding order Let_def by blast
qed

lemma create_on_typed:
  assumes inv: "sched_inv s"
  shows "\<exists>s'. create_on ok s = Some (s', if ok then Some (sc_fresh s) else None, if ok then 0 else -2) \<and> sched_inv s' \<and>
    (if ok then last (sc_ready s') = sc_fresh s \<and> map_option co_status (sc_cos s' (sc_fresh s)) = Some (BIT ST_NEW) else s' = s) \<and>
    sc_fresh s \<notin> sleepers s \<union> waiters s \<and> sc_sleeping s' = sc_sleeping s \<and> sc_waiting s' = sc_waiting s \<and>
    sc_curr s' = sc_curr s \<and> (\<forall>y \<in> dom (sc_cos s). sc_cos s' y = sc_cos s y)"
proof -
  note D = sched_invD [OF inv]
  have new: "sc_fresh s \<notin> dom (sc_cos s)" using D(7) by blast
  then have out: "sc_fresh s \<notin> sleepers s" "sc_fresh s \<notin> waiters s" "sc_fresh s \<notin> set (sc_ready s)"
    using D(3-5) by blast+
  show ?thesis
  proof (cases ok)
    case True
    let ?s = "s\<lparr>sc_fresh := Suc (sc_fresh s), sc_spawned := sc_spawned s + 1, sc_ticks := Suc (sc_ticks s),
        sc_cos := (sc_cos s)(sc_fresh s \<mapsto> \<lparr>co_status = BIT ST_NEW, co_fd = -1, co_events = 0, co_sleep = 0, co_ops = 0,
             co_num = of_int (sc_spawned s), co_birth = sc_clock s (sc_ticks s)\<rparr>),
        sc_ready := sc_ready s @ [sc_fresh s]\<rparr>"
    have eq: "create_on ok s = Some (?s, Some (sc_fresh s), 0)"
      using True out by (simp add: create_on_def Let_def usec_now_def ready_insert_def)
    have keys: "sleep_key ?s = (sleep_key s)(sc_fresh s := 0)" "wait_key ?s = (wait_key s)(sc_fresh s := -1)"
      by (auto simp: sleep_key_def wait_key_def)
    have "rb_inv_by (sleep_key ?s) (sc_sleeping ?s)" "rb_inv_by (wait_key ?s) (sc_waiting ?s)"
      unfolding keys using rbn.inv_other_key [OF D(1) out(1)] rbn.inv_other_key [OF D(2) out(2)] by simp_all
    then have "sched_inv ?s" using D out by (auto simp: sched_inv_def less_Suc_eq)
    moreover have "\<forall>y \<in> dom (sc_cos s). sc_cos ?s y = sc_cos s y" using new by auto
    ultimately show ?thesis using True eq out by (intro exI [of _ ?s]) simp
  qed (use inv out in \<open>simp add: create_on_def\<close>)
qed

text \<open>Each coroutine of a list resumed once, in order, after it was taken off the queue.\<close>

fun resume_list :: "(cid \<Rightarrow> sched \<Rightarrow> sched option) \<Rightarrow> cid list \<Rightarrow> sched \<Rightarrow> sched option" where
  "resume_list sw [] s = Some s"
| "resume_list sw (co # cs) s = do {
     q \<leftarrow> nty_coroutine_resume sw co (s\<lparr>sc_ready := tl (sc_ready s)\<rparr>);
     resume_list sw cs (fst q) }"

text \<open>
  What the body of a coroutine may do until it yields: append to the ready queue, and touch no
  coroutine that is queued.
\<close>

definition well_behaved :: "(cid \<Rightarrow> sched \<Rightarrow> sched option) \<Rightarrow> bool" where
  "well_behaved sw \<longleftrightarrow> (\<forall>co s s'. sw co s = Some s' \<longrightarrow>
     (\<exists>ys. sc_ready s' = sc_ready s @ ys) \<and> (\<forall>y \<in> set (sc_ready s). y \<noteq> co \<longrightarrow> sc_cos s' y = sc_cos s y))"

lemma resume_parts:
  assumes "nty_coroutine_resume sw co s = Some (s', r)"
  obtains s1 s2 where "sc_ready s1 = sc_ready s" "\<forall>y. y \<noteq> co \<longrightarrow> sc_cos s1 y = sc_cos s y"
    "sw co s1 = Some s2" "sc_ready s' = sc_ready s2" "\<forall>y. y \<noteq> co \<longrightarrow> sc_cos s' y = sc_cos s2 y"
proof -
  from assms obtain c s1 s2 where c: "sc_cos s co = Some c"
    and s1: "(if co_status c AND BIT ST_NEW \<noteq> 0 then nty_coroutine_init co s else Some s) = Some s1"
    and s2: "sw co (s1\<lparr>sc_curr := Some co\<rparr>) = Some s2"
    and rest: "do { c \<leftarrow> sc_cos s2 co;
        if co_status c AND BIT ST_EXITED \<noteq> 0
        then do { s \<leftarrow> (if co_status c AND BIT ST_DETACH \<noteq> 0 then nty_coroutine_free co (s2\<lparr>sc_curr := None\<rparr>)
                         else Some (s2\<lparr>sc_curr := None\<rparr>));
                  Some (s, -1) }
        else Some (s2\<lparr>sc_curr := None\<rparr>, 0) } = Some (s', r)"
    by (auto simp: nty_coroutine_resume_def Let_def split: Option.bind_splits)
  show thesis
  proof (rule that [of "s1\<lparr>sc_curr := Some co\<rparr>" s2])
    show "sc_ready (s1\<lparr>sc_curr := Some co\<rparr>) = sc_ready s" "\<forall>y. y \<noteq> co \<longrightarrow> sc_cos (s1\<lparr>sc_curr := Some co\<rparr>) y = sc_cos s y"
      using s1 c by (auto simp: nty_coroutine_init_def upd_co_def split: if_splits)
    show "sc_ready s' = sc_ready s2" "\<forall>y. y \<noteq> co \<longrightarrow> sc_cos s' y = sc_cos s2 y"
      using rest by (auto simp: nty_coroutine_free_def split: if_splits Option.bind_splits)
  qed (rule s2)
qed

lemma resume_queue:
  assumes sw: "well_behaved sw" and run: "nty_coroutine_resume sw co s = Some (s', r)"
  shows "(\<exists>ys. sc_ready s' = sc_ready s @ ys) \<and> (\<forall>y \<in> set (sc_ready s). y \<noteq> co \<longrightarrow> sc_cos s' y = sc_cos s y)"
proof -
  obtain s1 s2 where s1: "sc_ready s1 = sc_ready s" "\<forall>y. y \<noteq> co \<longrightarrow> sc_cos s1 y = sc_cos s y"
    and s2: "sw co s1 = Some s2" and s': "sc_ready s' = sc_ready s2" "\<forall>y. y \<noteq> co \<longrightarrow> sc_cos s' y = sc_cos s2 y"
    using resume_parts [OF run] by blast
  have "(\<exists>ys. sc_ready s2 = sc_ready s1 @ ys) \<and> (\<forall>y \<in> set (sc_ready s1). y \<noteq> co \<longrightarrow> sc_cos s2 y = sc_cos s1 y)"
    using sw s2 unfolding well_behaved_def by blast
  then show ?thesis using s1 s' by simp
qed

lemma run_ready_list:
  assumes sw: "well_behaved sw"
  shows "cs \<noteq> [] \<Longrightarrow> distinct cs \<Longrightarrow> sc_ready s = cs @ ys \<Longrightarrow>
    \<forall>co \<in> set cs. \<exists>c. sc_cos s co = Some c \<and> co_status c AND BIT ST_FDEOF = 0 \<Longrightarrow>
    run_ready sw (Some (last cs)) s = resume_list sw cs s"
proof (induction cs arbitrary: s ys)
  case (Cons co cs)
  let ?s = "s\<lparr>sc_ready := cs @ ys\<rparr>"
  obtain c where c: "sc_cos s co = Some c" "co_status c AND BIT ST_FDEOF = 0" using Cons.prems(4) by auto
  have step: "run_ready sw (Some (last (co # cs))) s = do {
      q \<leftarrow> nty_coroutine_resume sw co ?s;
      if co = last (co # cs) then Some (fst q) else run_ready sw (Some (last (co # cs))) (fst q) }"
    using Cons.prems(3) c by (subst run_ready.simps) (simp add: Let_def)
  have list: "resume_list sw (co # cs) s = do {
      q \<leftarrow> nty_coroutine_resume sw co ?s; resume_list sw cs (fst q) }"
    using Cons.prems(3) by simp
  show ?case
  proof (cases "cs = []")
    case True
    then show ?thesis unfolding step list by simp
  next
    case False
    then have ne: "co \<noteq> last (co # cs)" using Cons.prems(2) by auto
    have "run_ready sw (Some (last (co # cs))) (fst q) = resume_list sw cs (fst q)"
      if run: "nty_coroutine_resume sw co ?s = Some q" for q
    proof -
      obtain s' r where q: "q = (s', r)" by (cases q) auto
      obtain zs where zs: "sc_ready s' = (cs @ ys) @ zs" "\<forall>y \<in> set (cs @ ys). y \<noteq> co \<longrightarrow> sc_cos s' y = sc_cos s y"
        using resume_queue [OF sw run [unfolded q]] by auto
      have "\<forall>y \<in> set cs. \<exists>c. sc_cos s' y = Some c \<and> co_status c AND BIT ST_FDEOF = 0"
        using zs(2) Cons.prems(2,4) by auto
      then show ?thesis using Cons.IH [of s' "ys @ zs"] zs(1) False Cons.prems(2) by (simp add: q)
    qed
    then show ?thesis unfolding step list using ne by (auto split: Option.bind_splits)
  qed
qed simp

section \<open>Properties\<close>

text \<open>
  C24: starting a coroutine: the first creation also makes the scheduler, and creation keeps the
  scheduler well formed; the new coroutine is alive, marked new, last in the ready queue and in no
  tree.  Out of memory leaves the coroutines as they were.
\<close>

theorem coroutine_create_typed:
  assumes "case sched of None \<Rightarrow> True | Some s \<Rightarrow> sched_inv s"
    "nty_coroutine_create env clock ok sched = Some (r, co, ret)"
  shows "case r of None \<Rightarrow> sched = None \<and> co = None \<and> ret = -1
    | Some s' \<Rightarrow> sched_inv s' \<and>
       (case co of None \<Rightarrow> \<not> ok \<and> ret = -2 \<and> (\<forall>s. sched = Some s \<longrightarrow> s' = s)
        | Some c \<Rightarrow> ret = 0 \<and> last (sc_ready s') = c \<and> c \<notin> sleepers s' \<union> waiters s' \<and>
            map_option co_status (sc_cos s' c) = Some (BIT ST_NEW))"
proof -
  have start: "sched_inv s" if "nty_schedule_create ok' pfd clk = (Some s, v)" for ok' pfd clk s v
    using that by (auto simp: nty_schedule_create_def usec_now_def sched_inv_def rb_inv_by_def
        is_rbt_def ordered_def split: if_splits)
  let ?m = "case sched of None \<Rightarrow> fst (nty_schedule_create (fst env) (snd env) clock) | Some s \<Rightarrow> Some s"
  show ?thesis
  proof (cases ?m)
    case None
    moreover from this have "sched = None" by (cases sched) simp_all
    ultimately show ?thesis using assms(2) by (simp add: nty_coroutine_create_def)
  next
    case (Some s)
    then obtain s' where run: "create_on ok s = Some (s', co, ret)" and r: "r = Some s'"
      using assms(2) unfolding nty_coroutine_create_def by (auto split: Option.bind_splits)
    have "sched_inv s \<and> (\<forall>s0. sched = Some s0 \<longrightarrow> s = s0)"
      using Some assms(1) start [of "fst env" "snd env" clock s]
      by (cases sched) (simp_all add: prod_eq_iff)
    with create_on_typed [of s ok] run show ?thesis unfolding r by (cases ok) auto
  qed
qed

theorem coroutine_create_typed_witness:
  "\<exists>s'. nty_coroutine_create (True, 3) (\<lambda>n. of_nat n) True None = Some (Some s', Some 1, 0) \<and> sched_inv s'"
proof -
  obtain s' where s': "nty_coroutine_create (True, 3) (\<lambda>n. of_nat n) True None = Some (Some s', Some 1, 0)"
    by (simp add: nty_coroutine_create_def nty_schedule_create_def create_on_def usec_now_def ready_insert_def Let_def)
  then show ?thesis using coroutine_create_typed [OF _ s'] by simp
qed

text \<open>
  C25: \<open>nty_schedule_sched_sleepdown\<close> always returns: after at most as many microseconds of delay as
  there are sleepers, the coroutine is in the sleeping tree under a deadline of its own, and the
  invariant of the scheduler holds.  Of the others, those whose deadline equals the one the
  coroutine had before are thrown out of the tree: for a coroutine that was not asleep that is a
  lost timer of another coroutine.
\<close>

theorem sleepdown_sets_deadline:
  assumes "sched_inv s" "sc_cos s co = Some c" "msecs \<noteq> 0" "card (sleepers s) < 2 ^ 64"
  shows "\<exists>s' n. nty_schedule_sched_sleepdown co msecs s = Some s' \<and> sched_inv s' \<and>
    sleepers s' = insert co {y \<in> sleepers s. sleep_key s y \<noteq> co_sleep c} \<and> n \<le> card (sleepers s) \<and>
    sleep_key s' co = (sc_clock s (sc_ticks s) - sc_birth s) + msecs * 1000 + of_nat n"
  using sleepdown_spec [OF assms] by blast

definition coro_at :: "64 word \<Rightarrow> coro" where
  "coro_at d = \<lparr>co_status = BIT ST_READY, co_fd = 7, co_events = 0, co_sleep = d, co_ops = 0, co_num = 0, co_birth = 0\<rparr>"

text \<open>Coroutine 1 sleeps until 5000; coroutine 2 is awake with an old deadline of 5000.\<close>

definition two_coros :: sched where
  "two_coros =
     \<lparr>sc_birth = 0, sc_default_timeout = 3000000, sc_spawned = 2, sc_curr = Some 2, sc_ready = [],
      sc_sleeping = Nd BLACK Lf 1 Lf, sc_waiting = Lf,
      sc_cos = [1 \<mapsto> (coro_at 5000)\<lparr>co_status := BIT ST_SLEEPING\<rparr>, 2 \<mapsto> coro_at 5000], sc_fresh = 3,
      sc_clock = (\<lambda>_. 6000), sc_ticks = 0\<rparr>"

lemma two_coros_inv: "sched_inv two_coros"
  by (auto simp: sched_inv_def two_coros_def rb_inv_by_def is_rbt_def ordered_def)

theorem sleepdown_sets_deadline_witness:
  "\<exists>s'. nty_schedule_sched_sleepdown 2 10 two_coros = Some s' \<and> sleepers two_coros = {1} \<and> sleepers s' = {2}"
proof -
  have "sc_cos two_coros 2 = Some (coro_at 5000)" by (simp add: two_coros_def)
  from sleepdown_sets_deadline [OF two_coros_inv this, of 10] show ?thesis
    by (auto simp: two_coros_def sleep_key_def coro_at_def)
qed

text \<open>
  C26: \<open>nty_schedule_expired\<close> returns a sleeper of the least deadline if that has passed, and takes
  exactly this one out of the tree; it returns none only when every deadline lies ahead.
\<close>

theorem expired_in_order:
  assumes "sched_inv s"
  shows "\<exists>s' r. nty_schedule_expired s = Some (s', r) \<and> sched_inv s' \<and>
    (case r of
       None \<Rightarrow> sleepers s' = sleepers s \<and> (\<forall>y \<in> sleepers s. sc_clock s (sc_ticks s) - sc_birth s < sleep_key s y)
     | Some co \<Rightarrow> co \<in> sleepers s \<and> sleep_key s co \<le> sc_clock s (sc_ticks s) - sc_birth s \<and>
         (\<forall>y \<in> sleepers s. sleep_key s co \<le> sleep_key s y) \<and> sleepers s' = sleepers s - {co})"
  using expired_spec [OF assms] by blast

theorem expired_in_order_witness:
  "\<exists>s' r. nty_schedule_expired two_coros = Some (s', r) \<and> sched_inv s'"
  using expired_in_order [OF two_coros_inv] by blast

text \<open>
  \<open>nty_schedule_desched_wait\<close> clears the status before it looks for the sleeping bit in it, so a
  coroutine that waited with a timeout stays in the sleeping tree when its descriptor is ready.
\<close>

theorem desched_wait_keeps_timer:
  assumes "sched_inv s" "co \<in> waiters s" "sc_cos s co = Some c" "co_fd c = fd"
  shows "\<exists>s'. nty_schedule_desched_wait fd s = Some (s', co) \<and> waiters s' = waiters s - {co} \<and>
    sleepers s' = sleepers s \<and> sc_cos s' co = Some (c\<lparr>co_status := 0\<rparr>)"
  using desched_wait_run [OF assms] by fastforce

definition timed_wait :: sched where
  "timed_wait = two_coros\<lparr>sc_waiting := Nd BLACK Lf 1 Lf\<rparr>"

theorem desched_wait_keeps_timer_witness:
  "\<exists>s'. nty_schedule_desched_wait 7 timed_wait = Some (s', 1) \<and> waiters s' = {} \<and> sleepers s' = {1}"
proof -
  have inv: "sched_inv timed_wait"
    by (auto simp: timed_wait_def sched_inv_def two_coros_def rb_inv_by_def is_rbt_def ordered_def)
  have c: "1 \<in> waiters timed_wait" "sc_cos timed_wait 1 = Some ((coro_at 5000)\<lparr>co_status := BIT ST_SLEEPING\<rparr>)"
      "co_fd ((coro_at 5000)\<lparr>co_status := BIT ST_SLEEPING\<rparr>) = 7"
    by (simp_all add: timed_wait_def two_coros_def coro_at_def)
  from desched_wait_keeps_timer [OF inv c] show ?thesis by (auto simp: timed_wait_def two_coros_def)
qed

text \<open>
  a descriptor for which no coroutine waits (the event descriptor, or one reported after its
  coroutine left the tree) makes \<open>nty_schedule_search_wait\<close> and \<open>nty_schedule_desched_wait\<close> write
  through a null pointer; the test for NULL of the caller comes too late.
\<close>

theorem search_wait_null:
  assumes "sched_inv s" "\<forall>y \<in> waiters s. wait_key s y \<noteq> fd"
  shows "nty_schedule_search_wait fd s = None \<and> nty_schedule_desched_wait fd s = None"
  using find_wait_iff(2) [OF assms(1), of fd] assms(2)
  by (simp add: nty_schedule_search_wait_def nty_schedule_desched_wait_def)

theorem search_wait_null_witness: "nty_schedule_search_wait 4 two_coros = None"
  using search_wait_null [OF two_coros_inv, of 4] by (simp add: two_coros_def)

text \<open>
  the poll timeout in milliseconds never exceeds the time to the next deadline.  It is short
  of it by less than a millisecond below one second, and by up to a whole second above: the
  microseconds modulo 1000, not modulo 1000000, go into the nanoseconds.
\<close>

theorem poll_timeout_early:
  "nty_epoller_wait_ms (epoll_timespec usecs) =
    (if unat usecs < 1000000 then unat usecs div 1000 else unat usecs div 1000000 * 1000)"
proof -
  have d: "unat (usecs div 1000000) = unat usecs div 1000000"
    and m: "unat (usecs mod 1000) = unat usecs mod 1000"
    by (simp_all add: unat_div_distrib unat_mod_distrib)
  have z: "usecs div 1000000 = 0 \<longleftrightarrow> unat usecs < 1000000"
    using d by (metis div_eq_0_iff unat_eq_zero zero_neq_numeral)
  have small: "unat (x * 1000) = unat x * 1000" if "unat x < 1000000" for x :: "64 word"
  proof -
    have "unat x * unat (1000 :: 64 word) < 2 ^ LENGTH(64)" using that by simp
    then show ?thesis by (simp add: unat_word_ariths take_bit_nat_eq_self)
  qed
  show ?thesis
  proof (cases "unat usecs < 1000000")
    case True
    then show ?thesis using z small [of usecs] d
      by (simp add: nty_epoller_wait_ms_def epoll_timespec_def Let_def)
  next
    case False
    have "unat usecs mod 1000 < 1000000" by (rule less_trans [of _ 1000]) simp_all
    then have "unat (usecs mod 1000 * 1000) = (unat usecs mod 1000) * 1000"
      using small [of "usecs mod 1000"] m by simp
    moreover have "(unat usecs mod 1000) * 1000 div 1000000 = 0"
      using mod_less_divisor [of 1000 "unat usecs"] by (intro div_less) linarith
    ultimately show ?thesis using False z d
      by (simp add: nty_epoller_wait_ms_def epoll_timespec_def Let_def)
  qed
qed

text \<open>
  C27: one pass over the ready queue resumes every coroutine that was queued when it began exactly
  once and in the order of the queue, and those that the bodies append wait for the next pass.
\<close>

theorem ready_round_fair:
  assumes "well_behaved sw" "distinct (sc_ready s)"
    "\<forall>co \<in> set (sc_ready s). \<exists>c. sc_cos s co = Some c \<and> co_status c AND BIT ST_FDEOF = 0"
  shows "ready_round sw s = resume_list sw (sc_ready s) s"
proof (cases "sc_ready s = []")
  case True
  then show ?thesis by (simp add: ready_round_def run_ready.simps)
next
  case False
  then show ?thesis using run_ready_list [OF assms(1) False assms(2), of s "[]"] assms(3)
    by (simp add: ready_round_def)
qed

definition both_ready :: sched where
  "both_ready = two_coros\<lparr>sc_ready := [2, 1]\<rparr>"

theorem ready_round_fair_witness:
  "ready_round (\<lambda>_. Some) both_ready = resume_list (\<lambda>_. Some) [2, 1] both_ready \<and>
   map_option sc_ready (resume_list (\<lambda>_. Some) [2, 1] both_ready) = Some []"
proof -
  have wb: "well_behaved (\<lambda>_. Some)" by (simp add: well_behaved_def)
  have r: "sc_ready both_ready = [2, 1]" by (simp add: both_ready_def)
  have ok: "\<forall>co \<in> set (sc_ready both_ready). \<exists>c. sc_cos both_ready co = Some c \<and> co_status c AND BIT ST_FDEOF = 0"
    by (simp add: both_ready_def two_coros_def coro_at_def BIT_def)
  have "ready_round (\<lambda>_. Some) both_ready = resume_list (\<lambda>_. Some) [2, 1] both_ready"
    using ready_round_fair [OF wb _ ok] by (simp add: r)
  then show ?thesis
    by (simp add: both_ready_def two_coros_def coro_at_def BIT_def nty_coroutine_resume_def Let_def)
qed

text \<open>
  \<open>nty_schedule_sched_wait\<close> keeps the trees well formed and registers the coroutine: with a
  descriptor that nobody waits for it enters the waiting tree under it, the search by that descriptor
  finds it, and unless the timeout is 1 it also enters the sleeping tree.  Waiting to read leaves no
  trace in the status: the bit that the assertion at the start of the function tests is never set.
\<close>

theorem sched_wait_registers:
  assumes "sched_inv s" "sc_cos s co = Some c" "co \<notin> waiters s"
    "co_status c AND BIT WAIT_READ = 0" "co_status c AND BIT WAIT_WRITE = 0"
    "\<forall>y \<in> waiters s. wait_key s y \<noteq> fd" "events AND POLLIN \<noteq> 0" "timeout \<noteq> 0" "card (sleepers s) < 2 ^ 64"
  shows "\<exists>s' c'. nty_schedule_sched_wait co fd events timeout s = Some s' \<and> sched_inv s' \<and>
    waiters s' = insert co (waiters s) \<and> find_wait fd s' = Some co \<and> (timeout \<noteq> 1 \<longrightarrow> co \<in> sleepers s') \<and>
    sc_cos s' co = Some c' \<and> co_fd c' = fd \<and> co_status c' AND BIT WAIT_READ = 0"
proof -
  have ev: "events AND POLLIN \<noteq> 0 \<or> events AND POLLOUT \<noteq> 0" using assms(7) by blast
  let ?c = "wait_entry c fd events"
  obtain t where t: "nty_schedule_sched_wait co fd events timeout s =
      (let s' = s\<lparr>sc_waiting := t, sc_cos := (sc_cos s)(co \<mapsto> ?c)\<rparr>
       in if timeout = 1 then Some s' else nty_schedule_sched_sleepdown co timeout s')"
    and inv: "sched_inv (s\<lparr>sc_waiting := t, sc_cos := (sc_cos s)(co \<mapsto> ?c)\<rparr>)"
    and mem: "set (inorder t) = insert co (waiters s)"
    using sched_wait_run [OF assms(1-6) ev] by blast
  let ?s = "s\<lparr>sc_waiting := t, sc_cos := (sc_cos s)(co \<mapsto> ?c)\<rparr>"
  have c': "co_fd ?c = fd" "co_status ?c AND BIT WAIT_READ = 0"
    using assms(4,7) by (simp_all add: wait_entry_def)
  have live: "sc_cos ?s co = Some ?c" by simp
  show ?thesis
  proof (cases "timeout = 1")
    case True
    have "find_wait fd ?s = Some co"
      unfolding find_wait_iff(1) [OF inv] using c' mem by (simp add: wait_key_def)
    then show ?thesis using True t inv mem c' by (intro exI [of _ ?s] exI [of _ ?c]) simp
  next
    case False
    have few: "card (sleepers ?s) < 2 ^ 64" using assms(9) by simp
    from sleepdown_spec [OF inv live assms(8) few] obtain s' where
      s': "nty_schedule_sched_sleepdown co timeout ?s = Some s'" "sched_inv s'" "co \<in> sleepers s'"
        "sc_waiting s' = t"
        "sc_cos s' co = Some (?c\<lparr>co_sleep := sleep_key s' co, co_status := co_status ?c OR BIT ST_SLEEPING\<rparr>)"
      by auto
    let ?d = "?c\<lparr>co_sleep := sleep_key s' co, co_status := co_status ?c OR BIT ST_SLEEPING\<rparr>"
    have fd: "co_fd ?d = fd" using c' by simp
    have "find_wait fd s' = Some co"
      unfolding find_wait_iff(1) [OF s'(2)] using s' fd mem by (simp add: wait_key_def)
    moreover have "co_status ?d AND BIT WAIT_READ = 0"
      using c'(2) by (simp add: bit.conj_disj_distrib2 BIT_def)
    ultimately show ?thesis using False t s' fd mem by (intro exI [of _ s'] exI [of _ ?d]) simp
  qed
qed

theorem sched_wait_registers_witness:
  "\<exists>s'. nty_schedule_sched_wait 2 9 POLLIN 1 timed_wait = Some s' \<and> find_wait 9 s' = Some 2"
proof -
  have inv: "sched_inv timed_wait"
    by (auto simp: timed_wait_def sched_inv_def two_coros_def rb_inv_by_def is_rbt_def ordered_def)
  have "sc_cos timed_wait 2 = Some (coro_at 5000)" "2 \<notin> waiters timed_wait"
      "\<forall>y \<in> waiters timed_wait. wait_key timed_wait y \<noteq> 9" "card (sleepers timed_wait) < 2 ^ 64"
      "co_status (coro_at 5000) AND BIT WAIT_READ = 0" "co_status (coro_at 5000) AND BIT WAIT_WRITE = 0"
    by (simp_all add: timed_wait_def two_coros_def coro_at_def wait_key_def BIT_def)
  from sched_wait_registers [OF inv this(1,2,5,6,3) _ _ this(4), of POLLIN 1]
  show ?thesis by auto
qed

end
