(* ===== verification/NTY_Socket.thy ===== *)
theory NTY_Socket
  imports NTY_Sched_Props
begin

text \<open>
  The socket calls of the coroutine library: nty_socket.c, with the hooks that replace the C
  library's functions of the same names (\<open>COROUTINE_HOOK\<close> is defined), so that \<open>nty_send\<close> calls the
  hook \<open>send\<close>, which calls \<open>send_f\<close>.  The kernel is a parameter that answers the calls in the
  order of a tick; waiting until the scheduler resumes the coroutine is the parameter \<open>yl\<close>.
\<close>

section \<open>State and kernel\<close>

record io =
  io_sched :: "sched option" \<comment> \<open>\<open>nty_coroutine_get_sched()\<close>\<close>
  io_interest :: "int \<Rightarrow> 32 word option" \<comment> \<open>the interest list of the poller\<close>
  io_open :: "int set"
  io_wire :: "int \<Rightarrow> char list" \<comment> \<open>what the kernel took for a descriptor\<close>
  io_heard :: "int \<Rightarrow> (nat + char list) list" \<comment> \<open>what its recv has answered for one\<close>
  io_errno :: nat
  io_tick :: nat

record kernel =
  k_send :: "nat \<Rightarrow> nat + nat" \<comment> \<open>an errno, or the room for data\<close>
  k_recv :: "nat \<Rightarrow> nat + char list" \<comment> \<open>an errno, or the data that is there\<close>
  k_desc :: "nat \<Rightarrow> nat + nat" \<comment> \<open>an errno, or a new descriptor\<close>
  k_call :: "nat \<Rightarrow> nat option" \<comment> \<open>the errno of a call that fails\<close>
  k_poll :: "nat \<Rightarrow> int"

type_synonym waiter = "io \<Rightarrow> io option"

abbreviation EAGAIN :: nat where "EAGAIN \<equiv> 11"
abbreviation EBADF :: nat where "EBADF \<equiv> 9"
abbreviation ECONNRESET :: nat where "ECONNRESET \<equiv> 104"
abbreviation EINPROGRESS :: nat where "EINPROGRESS \<equiv> 115"

definition tick :: "nat option \<Rightarrow> io \<Rightarrow> io" where
  "tick e s = s\<lparr>io_tick := Suc (io_tick s), io_errno := (case e of None \<Rightarrow> io_errno s | Some n \<Rightarrow> n)\<rparr>"

definition sys_send :: "kernel \<Rightarrow> int \<Rightarrow> char list \<Rightarrow> io \<Rightarrow> (io \<times> int) option" where
  "sys_send k fd bytes s =
     (case k_send k (io_tick s) of
        Inl e \<Rightarrow> Some (tick (Some e) s, -1)
      | Inr room \<Rightarrow>
          let n = min room (length bytes)
          in Some ((tick None s)\<lparr>io_wire := (io_wire s)(fd := io_wire s fd @ take n bytes)\<rparr>, int n))"

definition heard :: "int \<Rightarrow> nat + char list \<Rightarrow> io \<Rightarrow> io" where
  "heard fd a s = s\<lparr>io_heard := (io_heard s)(fd := io_heard s fd @ [a])\<rparr>"

definition sys_recv :: "kernel \<Rightarrow> int \<Rightarrow> nat \<Rightarrow> io \<Rightarrow> (io \<times> int \<times> char list) option" where
  "sys_recv k fd len s =
     (case k_recv k (io_tick s) of
        Inl e \<Rightarrow> Some (heard fd (Inl e) (tick (Some e) s), -1, [])
      | Inr bytes \<Rightarrow>
          Some (heard fd (Inr (take len bytes)) (tick None s), int (min len (length bytes)), take len bytes))"

definition sys_desc :: "kernel \<Rightarrow> io \<Rightarrow> (io \<times> int) option" where
  "sys_desc k s =
     (case k_desc k (io_tick s) of
        Inl e \<Rightarrow> Some (tick (Some e) s, -1)
      | Inr fd \<Rightarrow> Some ((tick None s)\<lparr>io_open := insert (int fd) (io_open s)\<rparr>, int fd))"

definition sys_call :: "kernel \<Rightarrow> io \<Rightarrow> (io \<times> int) option" where
  "sys_call k s =
     (case k_call k (io_tick s) of
        Some e \<Rightarrow> Some (tick (Some e) s, -1)
      | None \<Rightarrow> Some (tick None s, 0))"

definition sys_close :: "int \<Rightarrow> io \<Rightarrow> (io \<times> int) option" where
  "sys_close fd s =
     (if fd \<in> io_open s
      then Some (s\<lparr>io_open := io_open s - {fd}, io_interest := (io_interest s)(fd := None)\<rparr>, 0)
      else Some (s\<lparr>io_errno := EBADF\<rparr>, -1))"

text \<open>The value of an expression of type \<open>ssize_t\<close> stored in an int.\<close>

definition to_int :: "int \<Rightarrow> int" where
  "to_int x = sint (word_of_int x :: 32 word)"

section \<open>Waiting\<close>

definition nty_pollevent_2epoll :: "16 word \<Rightarrow> 32 word" where
  "nty_pollevent_2epoll events =
     (let e = 0;
          e = (if events AND 0x001 \<noteq> 0 then e OR 0x001 else e);
          e = (if events AND 0x004 \<noteq> 0 then e OR 0x004 else e);
          e = (if events AND 0x010 \<noteq> 0 then e OR 0x010 else e);
          e = (if events AND 0x008 \<noteq> 0 then e OR 0x008 else e);
          e = (if events AND 0x040 \<noteq> 0 then e OR 0x040 else e);
          e = (if events AND 0x100 \<noteq> 0 then e OR 0x100 else e)
      in e)"

definition nty_epollevent_2poll :: "32 word \<Rightarrow> 16 word" where
  "nty_epollevent_2poll events =
     (let e = 0;
          e = (if events AND 0x001 \<noteq> 0 then e OR 0x001 else e);
          e = (if events AND 0x004 \<noteq> 0 then e OR 0x004 else e);
          e = (if events AND 0x010 \<noteq> 0 then e OR 0x010 else e);
          e = (if events AND 0x008 \<noteq> 0 then e OR 0x008 else e);
          e = (if events AND 0x040 \<noteq> 0 then e OR 0x040 else e);
          e = (if events AND 0x100 \<noteq> 0 then e OR 0x100 else e)
      in e)"

abbreviation EV_IN :: "16 word" where "EV_IN \<equiv> 0x19" \<comment> \<open>\<open>POLLIN | POLLERR | POLLHUP\<close>\<close>
abbreviation EV_OUT :: "16 word" where "EV_OUT \<equiv> 0x1C" \<comment> \<open>\<open>POLLOUT | POLLERR | POLLHUP\<close>\<close>

definition lift_sched :: "(sched \<Rightarrow> sched option) \<Rightarrow> io \<Rightarrow> io option" where
  "lift_sched f s = do { sch \<leftarrow> io_sched s; sch \<leftarrow> f sch; Some (s\<lparr>io_sched := Some sch\<rparr>) }"

text \<open>The first loop of \<open>nty_poll_inner\<close>; adding a descriptor that is registered changes nothing.\<close>

fun poll_add :: "cid \<Rightarrow> int \<Rightarrow> (int \<times> 16 word) list \<Rightarrow> io \<Rightarrow> io option" where
  "poll_add co timeout [] s = Some s"
| "poll_add co timeout ((fd, events) # fds) s = do {
     let s = (if io_interest s fd = None
              then s\<lparr>io_interest := (io_interest s)(fd \<mapsto> nty_pollevent_2epoll events)\<rparr> else s);
     s \<leftarrow> lift_sched (upd_co co (\<lambda>c. c\<lparr>co_events := events\<rparr>)) s;
     s \<leftarrow> lift_sched (nty_schedule_sched_wait co fd events (word_of_int timeout)) s;
     poll_add co timeout fds s }"

text \<open>The second one.\<close>

fun poll_del :: "(int \<times> 16 word) list \<Rightarrow> io \<Rightarrow> io option" where
  "poll_del [] s = Some s"
| "poll_del ((fd, events) # fds) s = do {
     let s = s\<lparr>io_interest := (io_interest s)(fd := None)\<rparr>;
     s \<leftarrow> lift_sched (\<lambda>sch. map_option fst (nty_schedule_desched_wait fd sch)) s;
     poll_del fds s }"

definition nty_poll_inner ::
  "kernel \<Rightarrow> waiter \<Rightarrow> (int \<times> 16 word) list \<Rightarrow> int \<Rightarrow> io \<Rightarrow> (io \<times> int) option" where
  "nty_poll_inner k yl fds timeout s =
     (if timeout = 0 then Some (tick None s, k_poll k (io_tick s))
      else
        let timeout = (if timeout < 0 then 2147483647 else timeout)
        in case io_sched s of
             None \<Rightarrow> Some (s, -1)
           | Some sch \<Rightarrow> do {
               co \<leftarrow> sc_curr sch;
               s \<leftarrow> poll_add co timeout fds s;
               s \<leftarrow> lift_sched (nty_coroutine_yield co) s;
               s \<leftarrow> yl s;
               s \<leftarrow> poll_del fds s;
               Some (s, int (length fds)) })"

section \<open>Sending\<close>

text \<open>
  \<open>nty_send\<close>, and the hooks \<open>send\<close> and \<open>write\<close> once they have found a scheduler, have the same body
  around different functions \<open>put\<close>; an overflow of the counter is undefined.
\<close>

partial_function (option) send_loop ::
  "kernel \<Rightarrow> waiter \<Rightarrow> (int \<Rightarrow> char list \<Rightarrow> io \<Rightarrow> (io \<times> int) option) \<Rightarrow> int \<Rightarrow> char list \<Rightarrow>
   int \<Rightarrow> int \<Rightarrow> io \<Rightarrow> (io \<times> int \<times> int) option" where
  "send_loop k yl put fd buf sent ret s =
     (if nat sent < length buf
      then do {
        p \<leftarrow> nty_poll_inner k yl [(fd, EV_OUT)] 1 s;
        q \<leftarrow> put fd (drop (nat sent) buf) (fst p);
        if to_int (snd q) \<le> 0 then Some (fst q, sent, to_int (snd q))
        else if sent + to_int (snd q) > 2147483647 then None
        else send_loop k yl put fd buf (sent + to_int (snd q)) (to_int (snd q)) (fst q) }
      else Some (s, sent, ret))"

definition send_body ::
  "kernel \<Rightarrow> waiter \<Rightarrow> (int \<Rightarrow> char list \<Rightarrow> io \<Rightarrow> (io \<times> int) option) \<Rightarrow> int \<Rightarrow> char list \<Rightarrow> io \<Rightarrow>
   (io \<times> int) option" where
  "send_body k yl put fd buf s = do {
     (s, r) \<leftarrow> put fd buf s;
     let ret = to_int r;
     if ret = 0 then Some (s, ret)
     else do {
       (s, sent, ret) \<leftarrow> send_loop k yl put fd buf (if ret > 0 then ret else 0) ret s;
       if ret \<le> 0 \<and> sent = 0 then Some (s, ret) else Some (s, sent) } }"

definition hook_send :: "kernel \<Rightarrow> waiter \<Rightarrow> int \<Rightarrow> char list \<Rightarrow> io \<Rightarrow> (io \<times> int) option" where
  "hook_send k yl fd buf s =
     (if io_sched s = None then sys_send k fd buf s else send_body k yl (sys_send k) fd buf s)"

definition hook_write :: "kernel \<Rightarrow> waiter \<Rightarrow> int \<Rightarrow> char list \<Rightarrow> io \<Rightarrow> (io \<times> int) option" where
  "hook_write k yl fd buf s =
     (if io_sched s = None then sys_send k fd buf s else send_body k yl (sys_send k) fd buf s)"

definition nty_send :: "kernel \<Rightarrow> waiter \<Rightarrow> int \<Rightarrow> char list \<Rightarrow> io \<Rightarrow> (io \<times> int) option" where
  "nty_send k yl fd buf s = send_body k yl (hook_send k yl) fd buf s"

definition hook_sendto :: "kernel \<Rightarrow> waiter \<Rightarrow> int \<Rightarrow> char list \<Rightarrow> io \<Rightarrow> (io \<times> int) option" where
  "hook_sendto k yl fd buf s =
     (if io_sched s = None then sys_send k fd buf s
      else do {
        (s, _) \<leftarrow> nty_poll_inner k yl [(fd, EV_OUT)] 1 s;
        (s, r) \<leftarrow> sys_send k fd buf s;
        let ret = to_int r;
        if ret < 0
        then (if io_errno s = EAGAIN then Some (s, ret)
              else if io_errno s = ECONNRESET then Some (s, 0) else None)
        else Some (s, ret) })"

partial_function (option) sendto_loop ::
  "kernel \<Rightarrow> waiter \<Rightarrow> int \<Rightarrow> char list \<Rightarrow> int \<Rightarrow> io \<Rightarrow> (io \<times> int) option" where
  "sendto_loop k yl fd buf sent s =
     (if nat sent < length buf
      then do {
        p \<leftarrow> nty_poll_inner k yl [(fd, EV_OUT)] 1 s;
        q \<leftarrow> hook_sendto k yl fd (drop (nat sent) buf) (fst p);
        if to_int (snd q) \<le> 0
        then (if io_errno (fst q) = EAGAIN then sendto_loop k yl fd buf sent (fst q)
              else if io_errno (fst q) = ECONNRESET then Some (fst q, to_int (snd q)) else None)
        else if sent + to_int (snd q) > 2147483647 then None
        else sendto_loop k yl fd buf (sent + to_int (snd q)) (fst q) }
      else Some (s, sent))"

definition nty_sendto :: "kernel \<Rightarrow> waiter \<Rightarrow> int \<Rightarrow> char list \<Rightarrow> io \<Rightarrow> (io \<times> int) option" where
  "nty_sendto k yl fd buf s = sendto_loop k yl fd buf 0 s"

section \<open>Receiving\<close>

text \<open>
  \<open>nty_recv\<close> and the hooks \<open>recv\<close> and \<open>read\<close> wait once and then receive; an error is passed on
  whatever it is.  \<open>nty_recvfrom\<close> and its hook tell the errors apart.
\<close>

definition recv_body ::
  "kernel \<Rightarrow> waiter \<Rightarrow> (int \<Rightarrow> nat \<Rightarrow> io \<Rightarrow> (io \<times> int \<times> char list) option) \<Rightarrow> int \<Rightarrow> nat \<Rightarrow> io \<Rightarrow>
   (io \<times> int \<times> char list) option" where
  "recv_body k yl rcv fd len s = do {
     (s, _) \<leftarrow> nty_poll_inner k yl [(fd, EV_IN)] 1 s;
     (s, r, bytes) \<leftarrow> rcv fd len s;
     let ret = to_int r;
     if ret < 0 \<and> io_errno s = ECONNRESET then Some (s, -1, bytes) else Some (s, ret, bytes) }"

definition hook_recv :: "kernel \<Rightarrow> waiter \<Rightarrow> int \<Rightarrow> nat \<Rightarrow> io \<Rightarrow> (io \<times> int \<times> char list) option" where
  "hook_recv k yl fd len s =
     (if io_sched s = None then sys_recv k fd len s else recv_body k yl (sys_recv k) fd len s)"

definition hook_read :: "kernel \<Rightarrow> waiter \<Rightarrow> int \<Rightarrow> nat \<Rightarrow> io \<Rightarrow> (io \<times> int \<times> char list) option" where
  "hook_read k yl fd len s =
     (if io_sched s = None then sys_recv k fd len s else recv_body k yl (sys_recv k) fd len s)"

definition nty_recv :: "kernel \<Rightarrow> waiter \<Rightarrow> int \<Rightarrow> nat \<Rightarrow> io \<Rightarrow> (io \<times> int \<times> char list) option" where
  "nty_recv k yl fd len s = recv_body k yl (hook_recv k yl) fd len s"

definition recvfrom_body ::
  "kernel \<Rightarrow> waiter \<Rightarrow> (int \<Rightarrow> nat \<Rightarrow> io \<Rightarrow> (io \<times> int \<times> char list) option) \<Rightarrow> int \<Rightarrow> nat \<Rightarrow> io \<Rightarrow>
   (io \<times> int \<times> char list) option" where
  "recvfrom_body k yl rcv fd len s = do {
     (s, _) \<leftarrow> nty_poll_inner k yl [(fd, EV_IN)] 1 s;
     (s, r, bytes) \<leftarrow> rcv fd len s;
     let ret = to_int r;
     if ret < 0
     then (if io_errno s = EAGAIN then Some (s, ret, bytes)
           else if io_errno s = ECONNRESET then Some (s, 0, bytes) else None)
     else Some (s, ret, bytes) }"

definition hook_recvfrom :: "kernel \<Rightarrow> waiter \<Rightarrow> int \<Rightarrow> nat \<Rightarrow> io \<Rightarrow> (io \<times> int \<times> char list) option" where
  "hook_recvfrom k yl fd len s =
     (if io_sched s = None then sys_recv k fd len s else recvfrom_body k yl (sys_recv k) fd len s)"

definition nty_recvfrom :: "kernel \<Rightarrow> waiter \<Rightarrow> int \<Rightarrow> nat \<Rightarrow> io \<Rightarrow> (io \<times> int \<times> char list) option" where
  "nty_recvfrom k yl fd len s = recvfrom_body k yl (hook_recvfrom k yl) fd len s"

section \<open>Descriptors\<close>

definition hook_close :: "int \<Rightarrow> io \<Rightarrow> (io \<times> int) option" where
  "hook_close fd s = sys_close fd s"

definition nty_close :: "int \<Rightarrow> io \<Rightarrow> (io \<times> int) option" where
  "nty_close fd s = hook_close fd s"

text \<open>When fcntl fails, its result -1 is closed and not the new descriptor.\<close>

definition socket_body :: "kernel \<Rightarrow> (io \<Rightarrow> (io \<times> int) option) \<Rightarrow> io \<Rightarrow> (io \<times> int) option" where
  "socket_body k sock s = do {
     (s, fd) \<leftarrow> sock s;
     if fd = -1 then Some (s, -1)
     else do {
       (s, ret) \<leftarrow> sys_call k s;
       if ret = -1 then do { (s, _) \<leftarrow> hook_close ret s; Some (s, -1) }
       else do { (s, _) \<leftarrow> sys_call k s; Some (s, fd) } } }"

definition hook_socket :: "kernel \<Rightarrow> io \<Rightarrow> (io \<times> int) option" where
  "hook_socket k s = (if io_sched s = None then sys_desc k s else socket_body k (sys_desc k) s)"

definition nty_socket :: "kernel \<Rightarrow> io \<Rightarrow> (io \<times> int) option" where
  "nty_socket k s = socket_body k (hook_socket k) s"

partial_function (option) accept_loop ::
  "kernel \<Rightarrow> waiter \<Rightarrow> (io \<Rightarrow> (io \<times> int) option) \<Rightarrow> int \<Rightarrow> io \<Rightarrow> (io \<times> int) option" where
  "accept_loop k yl acc fd s = do {
     p \<leftarrow> nty_poll_inner k yl [(fd, EV_IN)] 1 s;
     q \<leftarrow> acc (fst p);
     if snd q < 0
     then (if io_errno (fst q) = EAGAIN then accept_loop k yl acc fd (fst q) else Some (fst q, -1))
     else Some q }"

definition accept_body ::
  "kernel \<Rightarrow> waiter \<Rightarrow> (io \<Rightarrow> (io \<times> int) option) \<Rightarrow> int \<Rightarrow> io \<Rightarrow> (io \<times> int) option" where
  "accept_body k yl acc fd s = do {
     _ \<leftarrow> io_sched s;
     (s, sockfd) \<leftarrow> accept_loop k yl acc fd s;
     if sockfd < 0 then Some (s, -1)
     else do {
       (s, ret) \<leftarrow> sys_call k s;
       if ret = -1 then do { (s, _) \<leftarrow> hook_close sockfd s; Some (s, -1) }
       else do { (s, _) \<leftarrow> sys_call k s; Some (s, sockfd) } } }"

definition hook_accept :: "kernel \<Rightarrow> waiter \<Rightarrow> int \<Rightarrow> io \<Rightarrow> (io \<times> int) option" where
  "hook_accept k yl fd s =
     (if io_sched s = None then sys_desc k s else accept_body k yl (sys_desc k) fd s)"

definition nty_accept :: "kernel \<Rightarrow> waiter \<Rightarrow> int \<Rightarrow> io \<Rightarrow> (io \<times> int) option" where
  "nty_accept k yl fd s = accept_body k yl (hook_accept k yl fd) fd s"

partial_function (option) connect_body ::
  "kernel \<Rightarrow> waiter \<Rightarrow> (io \<Rightarrow> (io \<times> int) option) \<Rightarrow> int \<Rightarrow> io \<Rightarrow> (io \<times> int) option" where
  "connect_body k yl con fd s = do {
     p \<leftarrow> nty_poll_inner k yl [(fd, EV_OUT)] 1 s;
     q \<leftarrow> con (fst p);
     if snd q = -1 \<and> (io_errno (fst q) = EAGAIN \<or> io_errno (fst q) = EINPROGRESS)
     then connect_body k yl con fd (fst q)
     else Some q }"

definition hook_connect :: "kernel \<Rightarrow> waiter \<Rightarrow> int \<Rightarrow> io \<Rightarrow> (io \<times> int) option" where
  "hook_connect k yl fd s =
     (if io_sched s = None then sys_call k s else connect_body k yl (sys_call k) fd s)"

definition nty_connect :: "kernel \<Rightarrow> waiter \<Rightarrow> int \<Rightarrow> io \<Rightarrow> (io \<times> int) option" where
  "nty_connect k yl fd s = connect_body k yl (hook_connect k yl fd) fd s"

end
