(* ===== verification/NTY_Socket_Props.thy ===== *)
theory NTY_Socket_Props
  imports NTY_Socket
begin

text \<open>
  Properties of the socket calls: waiting gives the descriptor back to the kernel as it took it, a
  send hands over a prefix and ends, whatever lies between it and the kernel; errors and leaks.
\<close>

section \<open>Waiting for one descriptor\<close>

text \<open>The running coroutine may wait for \<open>fd\<close>; it waits for \<open>fd\<close>.\<close>

definition io_ready :: "int \<Rightarrow> io \<Rightarrow> bool" where
  "io_ready fd s \<longleftrightarrow> (\<exists>sch co c. io_sched s = Some sch \<and> sched_inv sch \<and> sc_curr sch = Some co \<and>
     sc_cos sch co = Some c \<and> co \<notin> waiters sch \<and> (\<forall>y \<in> waiters sch. wait_key sch y \<noteq> fd) \<and>
     co_status c AND BIT WAIT_READ = 0 \<and> co_status c AND BIT WAIT_WRITE = 0)"

definition io_waiting :: "int \<Rightarrow> cid \<Rightarrow> io \<Rightarrow> bool" where
  "io_waiting fd co s \<longleftrightarrow> (\<exists>sch. io_sched s = Some sch \<and> sched_inv sch \<and> sc_curr sch = Some co \<and>
     co \<in> waiters sch \<and> wait_key sch co = fd)"

text \<open>
  What is relied on between the yield of a coroutine and its resumption: it comes back as the
  running coroutine, still in the waiting tree, and nobody else sends on its descriptor.
\<close>

definition yields_ok :: "int \<Rightarrow> waiter \<Rightarrow> bool" where
  "yields_ok fd yl \<longleftrightarrow> (\<forall>co s. io_waiting fd co s \<longrightarrow>
     (\<exists>s'. yl s = Some s' \<and> io_waiting fd co s' \<and> io_wire s' fd = io_wire s fd))"

lemma tick_simps [simp]:
  "io_sched (tick e s) = io_sched s" "io_wire (tick e s) = io_wire s" "io_interest (tick e s) = io_interest s"
  "io_open (tick e s) = io_open s" "io_tick (tick e s) = Suc (io_tick s)" "io_errno (tick (Some n) s) = n"
  "io_heard (tick e s) = io_heard s"
  by (simp_all add: tick_def)

lemma heard_simps [simp]:
  "io_sched (heard fd a s) = io_sched s" "io_wire (heard fd a s) = io_wire s" "io_interest (heard fd a s) = io_interest s"
  "io_open (heard fd a s) = io_open s" "io_tick (heard fd a s) = io_tick s" "io_errno (heard fd a s) = io_errno s"
  "io_heard (heard fd a s) fd = io_heard s fd @ [a]"
  by (simp_all add: heard_def)

lemma io_ready_same: "io_ready fd s \<Longrightarrow> io_sched s' = io_sched s \<Longrightarrow> io_ready fd s'"
  by (simp add: io_ready_def)

lemma poll_add_waits:
  assumes "io_ready fd s" "ev AND POLLIN \<noteq> 0 \<or> ev AND POLLOUT \<noteq> 0"
  obtains sch co s' where "io_sched s = Some sch" "sc_curr sch = Some co"
    "poll_add co 1 [(fd, ev)] s = Some s'" "io_waiting fd co s'" "io_wire s' = io_wire s"
proof -
  obtain sch co c where sch: "io_sched s = Some sch" "sched_inv sch" "sc_curr sch = Some co" "sc_cos sch co = Some c"
    "co \<notin> waiters sch" "\<forall>y \<in> waiters sch. wait_key sch y \<noteq> fd"
    "co_status c AND BIT WAIT_READ = 0" "co_status c AND BIT WAIT_WRITE = 0"
    using assms(1) unfolding io_ready_def by blast
  let ?c = "c\<lparr>co_events := ev\<rparr>"
  let ?sch = "sch\<lparr>sc_cos := (sc_cos sch)(co \<mapsto> ?c)\<rparr>"
  have "sched_inv ?sch" using sched_inv_upd [OF sch(2,4)] by simp
  moreover have "sc_cos ?sch co = Some ?c" "co \<notin> waiters ?sch" using sch by simp_all
  moreover have "co_status ?c AND BIT WAIT_READ = 0" "co_status ?c AND BIT WAIT_WRITE = 0" using sch by simp_all
  moreover have "\<forall>y \<in> waiters ?sch. wait_key ?sch y \<noteq> fd" using sch(5,6) by (auto simp: wait_key_def)
  ultimately obtain t where t: "nty_schedule_sched_wait co fd ev 1 ?sch =
      Some (?sch\<lparr>sc_waiting := t, sc_cos := (sc_cos ?sch)(co \<mapsto> wait_entry ?c fd ev)\<rparr>)"
    "sched_inv (?sch\<lparr>sc_waiting := t, sc_cos := (sc_cos ?sch)(co \<mapsto> wait_entry ?c fd ev)\<rparr>)"
    "set (inorder t) = insert co (waiters ?sch)"
    using sched_wait_run [of ?sch co ?c fd ev 1] assms(2) unfolding Let_def by auto
  let ?s = "(if io_interest s fd = None
              then s\<lparr>io_interest := (io_interest s)(fd \<mapsto> nty_pollevent_2epoll ev)\<rparr> else s)"
  let ?t = "?sch\<lparr>sc_waiting := t, sc_cos := (sc_cos ?sch)(co \<mapsto> wait_entry ?c fd ev)\<rparr>"
  have s: "io_sched ?s = Some sch" "io_wire ?s = io_wire s" using sch(1) by simp_all
  have "poll_add co 1 [(fd, ev)] s = Some (?s\<lparr>io_sched := Some ?t\<rparr>)"
    using t(1) sch(4) s(1) by (simp add: Let_def lift_sched_def upd_co_def)
  moreover have "wait_key ?t co = fd" by (simp add: wait_key_def wait_entry_def)
  then have "io_waiting fd co (?s\<lparr>io_sched := Some ?t\<rparr>)"
    unfolding io_waiting_def using t(2,3) sch(3) by (intro exI [of _ ?t]) simp
  ultimately show thesis using that [OF sch(1,3), of "?s\<lparr>io_sched := Some ?t\<rparr>"] s(2) by simp
qed

lemma io_waiting_yield:
  assumes "io_waiting fd co s"
  obtains s' where "lift_sched (nty_coroutine_yield co) s = Some s'" "io_waiting fd co s'" "io_wire s' = io_wire s"
proof -
  obtain sch where w: "sched_inv sch" "co \<in> waiters sch" "wait_key sch co = fd" "io_sched s = Some sch" "sc_curr sch = Some co"
    using assms unfolding io_waiting_def by blast
  then obtain c where c: "sc_cos sch co = Some c" using sched_invD(4) by blast
  let ?sch = "sch\<lparr>sc_cos := (sc_cos sch)(co \<mapsto> c\<lparr>co_ops := 0\<rparr>)\<rparr>"
  have "sched_inv ?sch" using sched_inv_upd [OF w(1) c] by simp
  moreover have "wait_key ?sch co = fd" using w(3) c by (simp add: wait_key_def)
  ultimately have "io_waiting fd co (s\<lparr>io_sched := Some ?sch\<rparr>)"
    unfolding io_waiting_def using w(2,5) by (intro exI [of _ ?sch]) simp
  moreover have "lift_sched (nty_coroutine_yield co) s = Some (s\<lparr>io_sched := Some ?sch\<rparr>)"
    using w(4) c by (simp add: lift_sched_def nty_coroutine_yield_def upd_co_def)
  ultimately show thesis using that [of "s\<lparr>io_sched := Some ?sch\<rparr>"] by simp
qed

lemma poll_del_ready:
  assumes "io_waiting fd co s"
  obtains s' where "poll_del [(fd, ev)] s = Some s'" "io_ready fd s'" "io_wire s' = io_wire s" "io_interest s' fd = None"
proof -
  obtain sch where w: "io_sched s = Some sch" "sched_inv sch" "sc_curr sch = Some co"
    "co \<in> waiters sch" "wait_key sch co = fd" using assms unfolding io_waiting_def by blast
  then obtain c where c: "sc_cos sch co = Some c" using sched_invD(4) by blast
  then have "co_fd c = fd" using w(5) by (simp add: wait_key_def)
  from desched_wait_run [OF w(2,4) c this] obtain t where
    t: "nty_schedule_desched_wait fd sch =
        Some (sch\<lparr>sc_waiting := t, sc_cos := (sc_cos sch)(co \<mapsto> c\<lparr>co_status := 0\<rparr>)\<rparr>, co)"
      "set (inorder t) = waiters sch - {co}"
      "sched_inv (sch\<lparr>sc_waiting := t, sc_cos := (sc_cos sch)(co \<mapsto> c\<lparr>co_status := 0\<rparr>)\<rparr>)" by blast
  let ?sch = "sch\<lparr>sc_waiting := t, sc_cos := (sc_cos sch)(co \<mapsto> c\<lparr>co_status := 0\<rparr>)\<rparr>"
  let ?s = "s\<lparr>io_interest := (io_interest s)(fd := None), io_sched := Some ?sch\<rparr>"
  have "wait_key sch y \<noteq> fd" if "y \<in> waiters sch" "y \<noteq> co" for y
    using inj_onD [OF rbn.inv_inj [OF sched_invD(2) [OF w(2)]] _ that(1) w(4)] that(2) w(5) by auto
  then have "\<forall>y \<in> waiters ?sch. wait_key ?sch y \<noteq> fd" using t(2) by (auto simp: wait_key_def)
  then have "io_ready fd ?s" unfolding io_ready_def using t(2,3) w(3)
    by (intro exI [of _ ?sch] exI [of _ co] exI [of _ "c\<lparr>co_status := 0\<rparr>"]) simp
  moreover have "poll_del [(fd, ev)] s = Some ?s" using t(1) w(1) by (simp add: Let_def lift_sched_def)
  ultimately show thesis using that [of ?s] by simp
qed

lemma wait_one:
  assumes "yields_ok fd yl" "io_ready fd s" "ev AND POLLIN \<noteq> 0 \<or> ev AND POLLOUT \<noteq> 0"
  obtains s' where "nty_poll_inner k yl [(fd, ev)] 1 s = Some (s', 1)" "io_ready fd s'"
    "io_wire s' fd = io_wire s fd" "io_interest s' fd = None"
proof -
  obtain sch co s1 where s1: "io_sched s = Some sch" "sc_curr sch = Some co"
    "poll_add co 1 [(fd, ev)] s = Some s1" "io_waiting fd co s1" "io_wire s1 = io_wire s"
    using poll_add_waits [OF assms(2,3)] .
  obtain s2 where s2: "lift_sched (nty_coroutine_yield co) s1 = Some s2" "io_waiting fd co s2" "io_wire s2 = io_wire s1"
    using io_waiting_yield [OF s1(4)] .
  obtain s3 where s3: "yl s2 = Some s3" "io_waiting fd co s3" "io_wire s3 fd = io_wire s2 fd"
    using assms(1) s2(2) unfolding yields_ok_def by blast
  obtain s4 where s4: "poll_del [(fd, ev)] s3 = Some s4" "io_ready fd s4" "io_wire s4 = io_wire s3" "io_interest s4 fd = None"
    using poll_del_ready [OF s3(2)] .
  have "nty_poll_inner k yl [(fd, ev)] 1 s = Some (s4, 1)"
    using s1(1-3) s2(1) s3(1) s4(1) by (simp add: nty_poll_inner_def Let_def del: poll_add.simps poll_del.simps)
  then show thesis using that s1(5) s2(3) s3(3) s4 by simp
qed

section \<open>Sending through any number of layers\<close>

lemma to_int_small: "- 2147483648 \<le> x \<Longrightarrow> x < 2147483648 \<Longrightarrow> to_int x = x"
  unfolding to_int_def by (simp add: sint_sbintrunc' signed_take_bit_int_eq_self)

text \<open>The last call of the kernel before this state took nothing.\<close>

definition refused :: "kernel \<Rightarrow> io \<Rightarrow> bool" where
  "refused k s \<longleftrightarrow> (\<exists>t. io_tick s = Suc t \<and> (case k_send k t of Inl e \<Rightarrow> True | Inr room \<Rightarrow> room = 0))"

definition takes_all :: "kernel \<Rightarrow> bool" where
  "takes_all k \<longleftrightarrow> (\<forall>t. \<exists>room > 0. k_send k t = Inr room)"

lemma not_refused: "takes_all k \<Longrightarrow> \<not> refused k s"
proof
  assume "takes_all k" "refused k s"
  then obtain t where "case k_send k t of Inl e \<Rightarrow> True | Inr room \<Rightarrow> room = 0" unfolding refused_def by blast
  moreover obtain room where "0 < room" "k_send k t = Inr room" using \<open>takes_all k\<close> unfolding takes_all_def by blast
  ultimately show False by simp
qed

text \<open>
  The contract of a function that sends: it returns, it hands over the prefix it says, and it
  hands over nothing only when the kernel takes nothing.
\<close>

locale sender =
  fixes k :: kernel and yl :: waiter
    and put :: "int \<Rightarrow> char list \<Rightarrow> io \<Rightarrow> (io \<times> int) option"
  assumes put_prefix: "yields_ok fd yl \<Longrightarrow> io_ready fd s \<Longrightarrow> bytes \<noteq> [] \<Longrightarrow> length bytes < 2 ^ 31 \<Longrightarrow>
    \<exists>s' n. put fd bytes s = Some (s', n) \<and> io_ready fd s' \<and> -1 \<le> n \<and> n \<le> int (length bytes) \<and>
      io_wire s' fd = io_wire s fd @ take (nat n) bytes \<and> (n \<le> 0 \<longrightarrow> refused k s')"
begin

lemma loop_prefix:
  assumes yl: "yields_ok fd yl" and len: "length buf < 2 ^ 31"
  shows "io_ready fd s \<Longrightarrow> 0 \<le> sent \<Longrightarrow> sent \<le> int (length buf) \<Longrightarrow>
    \<exists>s' n r. send_loop k yl put fd buf sent ret s = Some (s', n, r) \<and> io_ready fd s' \<and>
      sent \<le> n \<and> n \<le> int (length buf) \<and>
      io_wire s' fd = io_wire s fd @ take (nat (n - sent)) (drop (nat sent) buf) \<and>
      (if n < int (length buf) then -1 \<le> r \<and> r \<le> 0 \<and> refused k s' else r = ret \<or> 0 < r)"
proof (induction "length buf - nat sent" arbitrary: sent ret s rule: less_induct)
  case less
  show ?case
  proof (cases "nat sent < length buf")
    case False
    then have "sent = int (length buf)" using less.prems by linarith
    then show ?thesis using less.prems by (subst send_loop.simps) simp
  next
    case True
    obtain s1 where s1: "nty_poll_inner k yl [(fd, EV_OUT)] 1 s = Some (s1, 1)" "io_ready fd s1"
      "io_wire s1 fd = io_wire s fd" using wait_one [OF yl less.prems(1), of EV_OUT k] by auto
    let ?bytes = "drop (nat sent) buf"
    have "?bytes \<noteq> []" "length ?bytes < 2 ^ 31" using True len by simp_all
    from put_prefix [OF yl s1(2) this] obtain s2 n where
      s2: "put fd ?bytes s1 = Some (s2, n)" "io_ready fd s2" "-1 \<le> n" "n \<le> int (length ?bytes)"
        "io_wire s2 fd = io_wire s1 fd @ take (nat n) ?bytes" "n \<le> 0 \<longrightarrow> refused k s2" by blast
    have n: "to_int n = n" using s2(3,4) len by (intro to_int_small) simp_all
    have step: "send_loop k yl put fd buf sent ret s =
        (if n \<le> 0 then Some (s2, sent, n) else send_loop k yl put fd buf (sent + n) n s2)"
      using True s1(1) s2(1,4) n len less.prems(2) by (subst send_loop.simps) simp
    show ?thesis
    proof (cases "n \<le> 0")
      case stop: True
      then show ?thesis unfolding step using s2 s1(3) True less.prems by auto
    next
      case False
      have m: "length buf - nat (sent + n) < length buf - nat sent" using False True less.prems(2) by linarith
      have b: "0 \<le> sent + n" "sent + n \<le> int (length buf)" using s2(4) False less.prems(2,3) True by simp_all
      from less.hyps [OF m s2(2) b, of n] obtain s' n' r where
        s': "send_loop k yl put fd buf (sent + n) n s2 = Some (s', n', r)" "io_ready fd s'" "sent + n \<le> n'"
          "n' \<le> int (length buf)" "io_wire s' fd = io_wire s2 fd @ take (nat (n' - (sent + n))) (drop (nat (sent + n)) buf)"
          "if n' < int (length buf) then -1 \<le> r \<and> r \<le> 0 \<and> refused k s' else r = n \<or> 0 < r" by blast
      have "take (nat n) ?bytes @ take (nat (n' - (sent + n))) (drop (nat (sent + n)) buf) = take (nat (n' - sent)) ?bytes"
      proof -
        have e: "nat (n' - sent) = nat n + nat (n' - (sent + n))" "nat (sent + n) = nat n + nat sent"
          using s'(3) False less.prems(2) by simp_all
        show ?thesis unfolding e take_add by (simp add: add.commute)
      qed
      then have "io_wire s' fd = io_wire s fd @ take (nat (n' - sent)) ?bytes" using s'(5) s2(5) s1(3) by simp
      then show ?thesis unfolding step using s' False less.prems by (intro exI [of _ s'] exI [of _ n'] exI [of _ r]) auto
    qed
  qed
qed

lemma body_prefix:
  assumes yl: "yields_ok fd yl" and s: "io_ready fd s" and bytes: "bytes \<noteq> []" "length bytes < 2 ^ 31"
  shows "\<exists>s' n. send_body k yl put fd bytes s = Some (s', n) \<and> io_ready fd s' \<and> -1 \<le> n \<and> n \<le> int (length bytes) \<and>
      io_wire s' fd = io_wire s fd @ take (nat n) bytes \<and> (n < int (length bytes) \<longrightarrow> refused k s')"
proof -
  from put_prefix [OF yl s bytes] obtain s1 n where
    s1: "put fd bytes s = Some (s1, n)" "io_ready fd s1" "-1 \<le> n" "n \<le> int (length bytes)"
      "io_wire s1 fd = io_wire s fd @ take (nat n) bytes" "n \<le> 0 \<longrightarrow> refused k s1" by blast
  have n: "to_int n = n" using s1(3,4) bytes(2) by (intro to_int_small) simp_all
  show ?thesis
  proof (cases "n = 0")
    case True
    then show ?thesis using s1 n bytes(1) by (auto simp: send_body_def Let_def)
  next
    case False
    define m where "m = (if n > 0 then n else 0)"
    have m: "0 \<le> m" "m \<le> int (length bytes)" "nat n = nat m" using s1(4) by (auto simp: m_def)
    from loop_prefix [OF yl bytes(2) s1(2) m(1,2), of n] obtain s' n' r where
      s': "send_loop k yl put fd bytes m n s1 = Some (s', n', r)" "io_ready fd s'" "m \<le> n'" "n' \<le> int (length bytes)"
        "io_wire s' fd = io_wire s1 fd @ take (nat (n' - m)) (drop (nat m) bytes)"
        "if n' < int (length bytes) then -1 \<le> r \<and> r \<le> 0 \<and> refused k s' else r = n \<or> 0 < r" by blast
    have "nat n' = nat m + nat (n' - m)" using s'(3) m(1) by linarith
    then have "io_wire s' fd = io_wire s fd @ take (nat n') bytes"
      using s'(5) s1(5) unfolding m(3) by (simp only: take_add append_assoc)
    moreover have "send_body k yl put fd bytes s = (if r \<le> 0 \<and> n' = 0 then Some (s', r) else Some (s', n'))"
    proof -
      have "(if 0 < to_int n then to_int n else 0) = m" by (simp add: n m_def)
      then show ?thesis using s1(1) s'(1) n False by (simp add: send_body_def Let_def)
    qed
    moreover have "n' = 0 \<Longrightarrow> n' < int (length bytes)" using bytes(1) by simp
    ultimately show ?thesis using s' m(1) by (cases "r \<le> 0 \<and> n' = 0") auto
  qed
qed

text \<open>With a kernel that never refuses data.\<close>

lemma body_all:
  assumes "yields_ok fd yl" "io_ready fd s" "bytes \<noteq> []" "length bytes < 2 ^ 31" "takes_all k"
  shows "\<exists>s'. send_body k yl put fd bytes s = Some (s', int (length bytes)) \<and> io_ready fd s' \<and>
    io_wire s' fd = io_wire s fd @ bytes"
proof -
  obtain s' n where s': "send_body k yl put fd bytes s = Some (s', n)" "io_ready fd s'" "n \<le> int (length bytes)"
      "io_wire s' fd = io_wire s fd @ take (nat n) bytes" "n < int (length bytes) \<longrightarrow> refused k s'"
    using body_prefix [OF assms(1-4)] by metis
  then have "n = int (length bytes)" using not_refused [OF assms(5)] by fastforce
  then show ?thesis using s' by simp
qed

end

lemma sys_send_prefix:
  assumes "io_ready fd s" "bytes \<noteq> []"
  shows "\<exists>s' n. sys_send k fd bytes s = Some (s', n) \<and> io_ready fd s' \<and> -1 \<le> n \<and> n \<le> int (length bytes) \<and>
      io_wire s' fd = io_wire s fd @ take (nat n) bytes \<and> (n \<le> 0 \<longrightarrow> refused k s')"
proof (cases "k_send k (io_tick s)")
  case (Inl e)
  moreover have "io_ready fd (tick (Some e) s)" by (rule io_ready_same [OF assms(1)]) simp
  ultimately show ?thesis by (simp add: sys_send_def refused_def)
next
  case (Inr room)
  let ?n = "min room (length bytes)"
  let ?s = "(tick None s)\<lparr>io_wire := (io_wire s)(fd := io_wire s fd @ take ?n bytes)\<rparr>"
  have "io_ready fd ?s" by (rule io_ready_same [OF assms(1)]) simp
  moreover have "sys_send k fd bytes s = Some (?s, int ?n)" using Inr by (simp add: sys_send_def Let_def)
  moreover have "?n = 0 \<Longrightarrow> refused k ?s" using Inr assms(2) by (simp add: refused_def min_def split: if_splits)
  ultimately show ?thesis by (intro exI [of _ ?s] exI [of _ "int ?n"]) simp
qed

interpretation sys: sender k yl "sys_send k" for k yl
  by unfold_locales (rule sys_send_prefix)

lemma hook_send_sched: "io_ready fd s \<Longrightarrow> hook_send k yl fd bytes s = send_body k yl (sys_send k) fd bytes s"
  by (auto simp: hook_send_def io_ready_def)

interpretation hook: sender k yl "hook_send k yl" for k yl
proof unfold_locales
  fix fd s and bytes :: "char list"
  assume a: "yields_ok fd yl" "io_ready fd s" "bytes \<noteq> []" "length bytes < 2 ^ 31"
  from sys.body_prefix [OF this] show "\<exists>s' n. hook_send k yl fd bytes s = Some (s', n) \<and> io_ready fd s' \<and> -1 \<le> n \<and>
      n \<le> int (length bytes) \<and> io_wire s' fd = io_wire s fd @ take (nat n) bytes \<and> (n \<le> 0 \<longrightarrow> refused k s')"
    unfolding hook_send_sched [OF a(2)] by (metis a(3) length_greater_0_conv of_nat_0_less_iff order_le_less_trans)
qed

section \<open>Receiving through any number of layers\<close>

text \<open>
  The contract of a function that receives: it returns what the kernel answers to one call, and puts nothing
  on the wire.
\<close>

locale receiver =
  fixes k :: kernel and yl :: waiter
    and rcv :: "int \<Rightarrow> nat \<Rightarrow> io \<Rightarrow> (io \<times> int \<times> char list) option"
  assumes rcv_answers: "yields_ok fd yl \<Longrightarrow> io_ready fd s \<Longrightarrow> len < 2 ^ 31 \<Longrightarrow>
    \<exists>s' t. io_ready fd s' \<and> io_wire s' fd = io_wire s fd \<and>
      rcv fd len s = (case k_recv k t of Inl e \<Rightarrow> Some (s', -1, [])
        | Inr msg \<Rightarrow> Some (s', int (min len (length msg)), take len msg))"
begin

lemma body_answers:
  assumes "yields_ok fd yl" "io_ready fd s" "len < 2 ^ 31"
  shows "\<exists>s' t. io_ready fd s' \<and> io_wire s' fd = io_wire s fd \<and>
      recv_body k yl rcv fd len s = (case k_recv k t of Inl e \<Rightarrow> Some (s', -1, [])
        | Inr msg \<Rightarrow> Some (s', int (min len (length msg)), take len msg))"
proof -
  obtain s1 where s1: "nty_poll_inner k yl [(fd, EV_IN)] 1 s = Some (s1, 1)" "io_ready fd s1" "io_wire s1 fd = io_wire s fd"
    using wait_one [OF assms(1,2), of EV_IN k] by auto
  from rcv_answers [OF assms(1) s1(2) assms(3)] obtain s2 t where
    s2: "io_ready fd s2" "io_wire s2 fd = io_wire s1 fd" "rcv fd len s1 = (case k_recv k t of Inl e \<Rightarrow> Some (s2, -1, [])
        | Inr msg \<Rightarrow> Some (s2, int (min len (length msg)), take len msg))" by blast
  have "to_int (int (min len (length msg))) = int (min len (length msg))" for msg :: "char list"
    using assms(3) by (intro to_int_small) simp_all
  moreover have "to_int (-1) = -1" by (rule to_int_small) simp_all
  ultimately have "recv_body k yl rcv fd len s = (case k_recv k t of Inl e \<Rightarrow> Some (s2, -1, [])
        | Inr msg \<Rightarrow> Some (s2, int (min len (length msg)), take len msg))"
    using s1(1) s2(3) by (simp add: recv_body_def Let_def split: sum.splits)
  then show ?thesis using s1(3) s2(1,2) by auto
qed

lemma body_takes:
  assumes "yields_ok fd yl" "io_ready fd s" "\<forall>t. \<exists>msg. k_recv k t = Inr msg \<and> length msg < len" "len < 2 ^ 31"
  shows "\<exists>s' t msg. k_recv k t = Inr msg \<and> recv_body k yl rcv fd len s = Some (s', int (length msg), msg) \<and> io_ready fd s' \<and>
    io_wire s' fd = io_wire s fd"
proof -
  from body_answers [OF assms(1,2,4)] obtain s' t where
    s': "io_ready fd s'" "io_wire s' fd = io_wire s fd" "recv_body k yl rcv fd len s = (case k_recv k t of Inl e \<Rightarrow> Some (s', -1, [])
        | Inr msg \<Rightarrow> Some (s', int (min len (length msg)), take len msg))" by blast
  moreover obtain msg where "k_recv k t = Inr msg" "length msg < len" using assms(3) by blast
  ultimately show ?thesis by (intro exI [of _ s'] exI [of _ t] exI [of _ msg]) simp
qed

end

lemma sys_recv_answers:
  assumes "io_ready fd s"
  shows "\<exists>s' t. io_ready fd s' \<and> io_wire s' fd = io_wire s fd \<and>
      sys_recv k fd len s = (case k_recv k t of Inl e \<Rightarrow> Some (s', -1, [])
        | Inr msg \<Rightarrow> Some (s', int (min len (length msg)), take len msg))"
proof (cases "k_recv k (io_tick s)")
  case (Inl e)
  moreover have "io_ready fd (heard fd (Inl e) (tick (Some e) s))" by (rule io_ready_same [OF assms]) simp
  ultimately show ?thesis
    by (intro exI [of _ "heard fd (Inl e) (tick (Some e) s)"] exI [of _ "io_tick s"]) (simp add: sys_recv_def)
next
  case (Inr msg)
  moreover have "io_ready fd (heard fd (Inr (take len msg)) (tick None s))" by (rule io_ready_same [OF assms]) simp
  ultimately show ?thesis
    by (intro exI [of _ "heard fd (Inr (take len msg)) (tick None s)"] exI [of _ "io_tick s"]) (simp add: sys_recv_def)
qed

interpretation rsys: receiver k yl "sys_recv k" for k yl
  by unfold_locales (rule sys_recv_answers)

lemma hook_recv_sched: "io_ready fd s \<Longrightarrow> hook_recv k yl fd len s = recv_body k yl (sys_recv k) fd len s"
  by (auto simp: hook_recv_def io_ready_def)

interpretation rhook: receiver k yl "hook_recv k yl" for k yl
  by unfold_locales (simp only: hook_recv_sched, rule rsys.body_answers)

section \<open>Event masks\<close>

lemma flag_bit:
  fixes w :: "'a::len word"
  shows "w AND 0x001 \<noteq> 0 \<longleftrightarrow> bit w 0" "w AND 0x004 \<noteq> 0 \<longleftrightarrow> bit w 2" "w AND 0x008 \<noteq> 0 \<longleftrightarrow> bit w 3"
    "w AND 0x010 \<noteq> 0 \<longleftrightarrow> bit w 4" "w AND 0x040 \<noteq> 0 \<longleftrightarrow> bit w 6" "w AND 0x100 \<noteq> 0 \<longleftrightarrow> bit w 8"
  using and_exp_eq_0_iff_not_bit [of w 0] and_exp_eq_0_iff_not_bit [of w 2] and_exp_eq_0_iff_not_bit [of w 3]
    and_exp_eq_0_iff_not_bit [of w 4] and_exp_eq_0_iff_not_bit [of w 6] and_exp_eq_0_iff_not_bit [of w 8]
  by simp_all

lemma and_bit:
  fixes w :: "'a::len word"
  shows "w AND 2 ^ n = (if bit w n then 2 ^ n else 0)"
  by (rule bit_word_eqI) (auto simp: bit_and_iff bit_exp_iff)

lemma flag_mask:
  fixes w :: "'a::len word"
  shows "w AND 0x15D = (if bit w 0 then 1 else 0) OR (if bit w 2 then 4 else 0) OR (if bit w 3 then 8 else 0) OR
    (if bit w 4 then 0x10 else 0) OR (if bit w 6 then 0x40 else 0) OR (if bit w 8 then 0x100 else 0)"
proof -
  have "(0x15D :: 'a word) = 2 ^ 0 OR 2 ^ 2 OR 2 ^ 3 OR 2 ^ 4 OR 2 ^ 6 OR 2 ^ 8" by simp
  then have "w AND 0x15D = w AND 2 ^ 0 OR w AND 2 ^ 2 OR w AND 2 ^ 3 OR w AND 2 ^ 4 OR w AND 2 ^ 6 OR w AND 2 ^ 8"
    by (simp only: bit.conj_disj_distrib)
  then show ?thesis unfolding and_bit by simp
qed

section \<open>Properties\<close>

text \<open>
  C28: \<open>nty_send\<close>, which calls the hook \<open>send\<close>, which calls the kernel, returns; what the kernel took is
  the prefix of the buffer of the length it returns, and it returns less than the length of the
  buffer only when the last call of the kernel took nothing.  Between its calls the coroutine may
  be suspended any number of times.
\<close>

theorem nty_send_prefix:
  assumes "yields_ok fd yl" "io_ready fd s" "buf \<noteq> []" "length buf < 2 ^ 31"
  shows "\<exists>s' n. nty_send k yl fd buf s = Some (s', n) \<and> io_ready fd s' \<and> -1 \<le> n \<and> n \<le> int (length buf) \<and>
      io_wire s' fd = io_wire s fd @ take (nat n) buf \<and> (n < int (length buf) \<longrightarrow> refused k s')"
  using hook.body_prefix [OF assms] by (simp add: nty_send_def)

definition coroutine_io :: io where
  "coroutine_io = \<lparr>io_sched = Some timed_wait, io_interest = Map.empty, io_open = {9}, io_wire = (\<lambda>_. []),
     io_heard = (\<lambda>_. []), io_errno = 0, io_tick = 0\<rparr>"

definition slow_kernel :: kernel where
  "slow_kernel = \<lparr>k_send = (\<lambda>t. if t = 1 then Inl EAGAIN else Inr 2), k_recv = (\<lambda>t. Inl ECONNRESET),
     k_desc = (\<lambda>t. Inr 5), k_call = (\<lambda>t. Some 22), k_poll = (\<lambda>t. 0)\<rparr>"

lemma timed_wait_inv: "sched_inv timed_wait"
  by (auto simp: timed_wait_def sched_inv_def two_coros_def rb_inv_by_def is_rbt_def ordered_def)

lemma coroutine_io_ready: "io_ready 9 coroutine_io"
proof -
  have "sc_cos timed_wait 2 = Some (coro_at 5000)" "sc_curr timed_wait = Some 2" "2 \<notin> waiters timed_wait"
      "\<forall>y \<in> waiters timed_wait. wait_key timed_wait y \<noteq> 9"
      "co_status (coro_at 5000) AND BIT WAIT_READ = 0" "co_status (coro_at 5000) AND BIT WAIT_WRITE = 0"
    by (simp_all add: timed_wait_def two_coros_def coro_at_def wait_key_def BIT_def)
  then show ?thesis unfolding io_ready_def coroutine_io_def using timed_wait_inv by fastforce
qed

lemma yields_ok_Some: "yields_ok fd Some"
  by (simp add: yields_ok_def)

theorem nty_send_prefix_witness:
  "\<exists>s' n. nty_send slow_kernel Some 9 ''hello'' coroutine_io = Some (s', n) \<and> io_wire s' 9 = take (nat n) ''hello'' \<and> io_ready 9 s'"
  using nty_send_prefix [OF yields_ok_Some coroutine_io_ready, of "''hello''" slow_kernel]
  by (auto simp: coroutine_io_def)

text \<open>
  waiting for a descriptor leaves no trace: \<open>nty_poll_inner\<close> answers 1, the descriptor is out of the
  interest list again, the coroutine is the running one, out of the waiting tree and free to wait
  again, and nothing was sent for it.
\<close>

theorem poll_inner_restores:
  assumes "yields_ok fd yl" "io_ready fd s" "ev AND POLLIN \<noteq> 0 \<or> ev AND POLLOUT \<noteq> 0"
  shows "\<exists>s'. nty_poll_inner k yl [(fd, ev)] 1 s = Some (s', 1) \<and> io_ready fd s' \<and> io_interest s' fd = None \<and>
    io_wire s' fd = io_wire s fd"
  using wait_one [OF assms, of k] by blast

theorem poll_inner_restores_witness:
  "\<exists>s'. nty_poll_inner slow_kernel Some [(9, EV_IN)] 1 coroutine_io = Some (s', 1) \<and> io_ready 9 s'"
  using poll_inner_restores [OF yields_ok_Some coroutine_io_ready, of EV_IN slow_kernel] by auto

text \<open>
  the two translations between the event masks of poll and of epoll undo each other on the six
  flags that both know, and drop every other flag.
\<close>

theorem pollevent_roundtrip:
  "nty_epollevent_2poll (nty_pollevent_2epoll e) = e AND 0x15D \<and>
   nty_pollevent_2epoll (nty_epollevent_2poll e') = e' AND 0x15D"
proof
  show "nty_epollevent_2poll (nty_pollevent_2epoll e) = e AND 0x15D"
    unfolding nty_epollevent_2poll_def nty_pollevent_2epoll_def Let_def flag_bit flag_mask
    by (cases "bit e 0"; cases "bit e 2"; cases "bit e 3"; cases "bit e 4"; cases "bit e 6"; cases "bit e 8") simp_all
  show "nty_pollevent_2epoll (nty_epollevent_2poll e') = e' AND 0x15D"
    unfolding nty_epollevent_2poll_def nty_pollevent_2epoll_def Let_def flag_bit flag_mask
    by (cases "bit e' 0"; cases "bit e' 2"; cases "bit e' 3"; cases "bit e' 4"; cases "bit e' 6"; cases "bit e' 8") simp_all
qed

text \<open>
  when the new descriptor cannot be made non-blocking, \<open>nty_socket\<close> reports failure and leaves the
  descriptor open: it closes the result of fcntl.
\<close>

theorem nty_socket_leaks:
  assumes "k_desc k (io_tick s) = Inr fd" "k_call k (Suc (io_tick s)) = Some e" "-1 \<notin> io_open s"
  shows "\<exists>s'. nty_socket k s = Some (s', -1) \<and> io_open s' = insert (int fd) (io_open s)"
  using assms
  by (cases "io_sched s") (auto simp: nty_socket_def socket_body_def hook_socket_def sys_desc_def sys_call_def
      hook_close_def sys_close_def)

theorem nty_socket_leaks_witness:
  "\<exists>s'. nty_socket slow_kernel coroutine_io = Some (s', -1) \<and> io_open s' = {5, 9}"
  using nty_socket_leaks [of slow_kernel coroutine_io 5 22] by (auto simp: coroutine_io_def slow_kernel_def)

text \<open>
  a receive that fails with an error: \<open>nty_recv\<close> passes it on as -1; \<open>nty_recvfrom\<close> reports a reset
  connection as 0, which is what the end of the stream looks like, passes EAGAIN on, and ends the
  program on every other error.
\<close>

theorem recv_errors:
  assumes "yields_ok fd yl" "io_ready fd s" "\<forall>t. k_recv k t = Inl e"
  shows "\<exists>s'. nty_recv k yl fd len s = Some (s', -1, []) \<and>
    (if e = EAGAIN then \<exists>s'. nty_recvfrom k yl fd len s = Some (s', -1, [])
     else if e = ECONNRESET then \<exists>s'. nty_recvfrom k yl fd len s = Some (s', 0, [])
     else nty_recvfrom k yl fd len s = None)"
proof -
  obtain s1 where s1: "nty_poll_inner k yl [(fd, EV_IN)] 1 s = Some (s1, 1)" "io_ready fd s1"
    using wait_one [OF assms(1,2), of EV_IN k] by auto
  obtain s2 where s2: "nty_poll_inner k yl [(fd, EV_IN)] 1 s1 = Some (s2, 1)"
    using wait_one [OF assms(1) s1(2), of EV_IN k] by auto
  have sch: "io_sched s1 \<noteq> None" using s1(2) by (auto simp: io_ready_def)
  have sys: "sys_recv k fd len x = Some (heard fd (Inl e) (tick (Some e) x), -1, [])" for x
    using assms(3) by (simp add: sys_recv_def)
  have m: "to_int (-1) = -1" "to_int 0 = 0" by (simp_all add: to_int_small)
  show ?thesis
    using s1(1) s2 sch m
    by (simp add: nty_recv_def recv_body_def hook_recv_def nty_recvfrom_def recvfrom_body_def hook_recvfrom_def
        sys Let_def)
qed

theorem recv_errors_witness:
  "\<exists>s'. nty_recvfrom slow_kernel Some 9 10 coroutine_io = Some (s', 0, [])"
  using recv_errors [OF yields_ok_Some coroutine_io_ready, of slow_kernel ECONNRESET 10] by (simp add: slow_kernel_def)

end
