(* ===== verification/KV_Coroutine.thy ===== *)
theory KV_Coroutine
  imports KV_Ntyco NTY_Socket_Props
begin

text \<open>
  The key-value server on its coroutines: the reader of ntyco_entry.c, whose \<open>recv\<close> and \<open>send\<close> are the
  hooks of nty_socket.c, which suspend it in the scheduler.  Here the request processing, the socket
  calls and the scheduler meet.
\<close>

section \<open>The reader\<close>

text \<open>At most \<open>n\<close> turns of \<open>server_reader\<close>; the last result says whether it has closed the client.\<close>

fun coroutine_reader ::
  "kernel \<Rightarrow> waiter \<Rightarrow> int \<Rightarrow> nat \<Rightarrow> kvstore \<Rightarrow> io \<Rightarrow> (kvstore \<times> io \<times> bool) option" where
  "coroutine_reader k yl fd 0 ks s = Some (ks, s, False)"
| "coroutine_reader k yl fd (Suc n) ks s = do {
     (s, ret, bytes) \<leftarrow> hook_recv k yl fd BUFFER_LENGTH s;
     if ret > 0
     then do {
       item \<leftarrow> fresh_item bytes;
       (ks, item, _) \<leftarrow> kvstore_request ks item;
       msg \<leftarrow> c_str (c_wbuffer item) 0;
       let item = item\<lparr>c_wlength := length msg\<rparr>;
       (s, sret) \<leftarrow> hook_send k yl fd (take (c_wlength item) (c_wbuffer item)) s;
       if sret = -1 then do { (s, _) \<leftarrow> hook_close fd s; Some (ks, s, True) }
       else coroutine_reader k yl fd n ks s }
     else if ret = 0 then do { (s, _) \<leftarrow> hook_close fd s; Some (ks, s, True) }
     else coroutine_reader k yl fd n ks s }"

section \<open>The accepting coroutine\<close>

text \<open>
  One turn of the loop of \<open>server\<close>: accept, the argument for the reader, its coroutine.  \<open>mem\<close> says
  whether there is memory for the argument and \<open>ok\<close> whether there is for the coroutine.  \<open>jobs\<close>
  holds the coroutines that were handed to the scheduler with the descriptor each one serves;
  nothing is asked about the descriptor.
\<close>

definition server_turn ::
  "kernel \<Rightarrow> waiter \<Rightarrow> bool \<times> int \<Rightarrow> (nat \<Rightarrow> 64 word) \<Rightarrow> int \<Rightarrow> bool \<Rightarrow> bool \<Rightarrow> (cid \<times> int) list \<times> io \<Rightarrow>
   ((cid \<times> int) list \<times> io) option" where
  "server_turn k yl env clock fd mem ok = (\<lambda>(jobs, s). do {
     (s, cli_fd) \<leftarrow> hook_accept k yl fd s;
     if \<not> mem then None
     else do {
       (sch, co, _) \<leftarrow> nty_coroutine_create env clock ok (io_sched s);
       Some (case co of None \<Rightarrow> jobs | Some c \<Rightarrow> jobs @ [(c, cli_fd)], s\<lparr>io_sched := sch\<rparr>) } })"

text \<open>
  \<open>server\<close>: the listening socket, whose bind and listen may fail unnoticed, and then one turn for
  each element of \<open>turns\<close>.
\<close>

fun server_turns ::
  "kernel \<Rightarrow> waiter \<Rightarrow> bool \<times> int \<Rightarrow> (nat \<Rightarrow> 64 word) \<Rightarrow> int \<Rightarrow> (bool \<times> bool) list \<Rightarrow> (cid \<times> int) list \<times> io \<Rightarrow>
   ((cid \<times> int) list \<times> io) option" where
  "server_turns k yl env clock fd [] js = Some js"
| "server_turns k yl env clock fd ((mem, ok) # turns) js = do {
     js \<leftarrow> server_turn k yl env clock fd mem ok js;
     server_turns k yl env clock fd turns js }"

definition coroutine_server ::
  "kernel \<Rightarrow> waiter \<Rightarrow> bool \<times> int \<Rightarrow> (nat \<Rightarrow> 64 word) \<Rightarrow> (bool \<times> bool) list \<Rightarrow> io \<Rightarrow> ((cid \<times> int) list \<times> io) option" where
  "coroutine_server k yl env clock turns s = do {
     (s, fd) \<leftarrow> nty_socket k s;
     if fd < 0 then Some ([], s)
     else do {
       (s, _) \<leftarrow> sys_call k s;
       (s, _) \<leftarrow> sys_call k s;
       server_turns k yl env clock fd turns ([], s) } }"

section \<open>Lemmas\<close>

lemma recv_takes:
  assumes "yields_ok fd yl" "io_ready fd s" "\<forall>t. \<exists>msg. k_recv k t = Inr msg \<and> length msg < len" "len < 2 ^ 31"
  shows "\<exists>s' t msg. k_recv k t = Inr msg \<and> hook_recv k yl fd len s = Some (s', int (length msg), msg) \<and> io_ready fd s' \<and>
    io_wire s' fd = io_wire s fd"
  unfolding hook_recv_sched [OF assms(2)] by (rule rsys.body_takes [OF assms])

lemma send_all:
  assumes "yields_ok fd yl" "io_ready fd s" "bytes \<noteq> []" "length bytes < 2 ^ 31" "takes_all k"
  shows "\<exists>s'. hook_send k yl fd bytes s = Some (s', int (length bytes)) \<and> io_ready fd s' \<and>
    io_wire s' fd = io_wire s fd @ bytes"
  unfolding hook_send_sched [OF assms(2)] by (rule sys.body_all [OF assms])

text \<open>The requests that a client may send, and the replies that may answer them.\<close>

definition asked :: "kernel \<Rightarrow> target \<times> kv_req \<Rightarrow> bool" where
  "asked k tr \<longleftrightarrow> (\<exists>t msg. k_recv k t = Inr msg \<and> asks msg tr)"

definition replies_fit :: "kernel \<Rightarrow> (target \<Rightarrow> store) \<Rightarrow> bool" where
  "replies_fit k m \<longleftrightarrow> (\<forall>rs. (\<forall>tr \<in> set rs. asked k tr) \<longrightarrow>
     (\<forall>reply \<in> set (snd (spec_requests m rs)). reply_ok reply \<and> reply \<noteq> []))"

lemma replies_fit_step:
  assumes "replies_fit k m" "asked k (tg, q)"
  shows "reply_ok (snd (spec_request m tg q))" "snd (spec_request m tg q) \<noteq> []" "replies_fit k (fst (spec_request m tg q))"
proof -
  have "\<forall>reply \<in> set (snd (spec_requests m ((tg, q) # rs))). reply_ok reply \<and> reply \<noteq> []" if "\<forall>tr \<in> set rs. asked k tr" for rs
    using assms that unfolding replies_fit_def by (metis set_ConsD)
  note this [unfolded spec_requests.simps Let_def case_prod_beta]
  from this [of "[]"] this show "reply_ok (snd (spec_request m tg q))" "snd (spec_request m tg q) \<noteq> []"
      "replies_fit k (fst (spec_request m tg q))"
    unfolding replies_fit_def by simp_all
qed

section \<open>Accepting\<close>

text \<open>A kernel that does not call the coroutine back for nothing.\<close>

definition no_false_alarm :: "kernel \<Rightarrow> bool" where
  "no_false_alarm k \<longleftrightarrow> (\<forall>t. k_desc k t \<noteq> Inl EAGAIN)"

lemma accept_once:
  assumes "yields_ok fd yl" "io_ready fd s" "no_false_alarm k"
  obtains s1 where "io_ready fd s1" "io_wire s1 fd = io_wire s fd"
    "accept_loop k yl (sys_desc k) fd s = (case k_desc k (io_tick s1) of
       Inl e \<Rightarrow> Some (tick (Some e) s1, -1)
     | Inr n \<Rightarrow> Some ((tick None s1)\<lparr>io_open := insert (int n) (io_open s1)\<rparr>, int n))"
proof -
  obtain s1 where s1: "nty_poll_inner k yl [(fd, EV_IN)] 1 s = Some (s1, 1)" "io_ready fd s1" "io_wire s1 fd = io_wire s fd"
    using wait_one [OF assms(1,2), of EV_IN k] by auto
  have "k_desc k (io_tick s1) \<noteq> Inl EAGAIN" using assms(3) by (simp add: no_false_alarm_def)
  then have "accept_loop k yl (sys_desc k) fd s = (case k_desc k (io_tick s1) of
       Inl e \<Rightarrow> Some (tick (Some e) s1, -1)
     | Inr n \<Rightarrow> Some ((tick None s1)\<lparr>io_open := insert (int n) (io_open s1)\<rparr>, int n))"
    unfolding accept_loop.simps [of k yl "sys_desc k" fd s] s1(1)
    by (auto simp: sys_desc_def split: sum.splits)
  then show thesis using that [OF s1(2,3)] by blast
qed

text \<open>The new coroutine starts at the end of the ready queue and the caller can go on waiting.\<close>

lemma spawn_ready:
  assumes "io_ready fd s"
  obtains sch sch' where "io_sched s = Some sch" "sched_inv sch'"
    "nty_coroutine_create env clock True (io_sched s) = Some (Some sch', Some (sc_fresh sch), 0)"
    "last (sc_ready sch') = sc_fresh sch" "map_option co_status (sc_cos sch' (sc_fresh sch)) = Some (BIT ST_NEW)"
    "sc_fresh sch \<notin> dom (sc_cos sch)" "io_ready fd (s\<lparr>io_sched := Some sch'\<rparr>)"
proof -
  obtain sch co c where sch: "io_sched s = Some sch" "sched_inv sch" "sc_curr sch = Some co" "sc_cos sch co = Some c"
    "co \<notin> waiters sch" "\<forall>y \<in> waiters sch. wait_key sch y \<noteq> fd"
    "co_status c AND BIT WAIT_READ = 0" "co_status c AND BIT WAIT_WRITE = 0"
    using assms unfolding io_ready_def by blast
  obtain sch' where n: "create_on True sch = Some (sch', Some (sc_fresh sch), 0)" "sched_inv sch'"
    "last (sc_ready sch') = sc_fresh sch" "map_option co_status (sc_cos sch' (sc_fresh sch)) = Some (BIT ST_NEW)"
    "sc_waiting sch' = sc_waiting sch" "sc_curr sch' = sc_curr sch" "\<forall>y \<in> dom (sc_cos sch). sc_cos sch' y = sc_cos sch y"
    using create_on_typed [OF sch(2), of True] by auto
  have w: "wait_key sch' y = wait_key sch y" if "y \<in> waiters sch" for y
  proof -
    have "sc_cos sch' y = sc_cos sch y" using sched_invD(4) [OF sch(2)] n(7) that by blast
    then show ?thesis by (simp add: wait_key_def)
  qed
  have "sc_cos sch' co = Some c" using sch(4) n(7) domI by metis
  then have "io_ready fd (s\<lparr>io_sched := Some sch'\<rparr>)" unfolding io_ready_def using n(2,5,6) sch(3,5-8) w
    by (intro exI [of _ sch'] exI [of _ co] exI [of _ c]) simp
  moreover have "nty_coroutine_create env clock True (io_sched s) = Some (Some sch', Some (sc_fresh sch), 0)"
    using sch(1) n(1) by (simp add: nty_coroutine_create_def)
  moreover have "sc_fresh sch \<notin> dom (sc_cos sch)" using sched_invD(7) [OF sch(2)] by blast
  ultimately show thesis using that [OF sch(1) n(2)] n(3,4) by blast
qed

lemma accepted:
  assumes "yields_ok fd yl" "io_ready fd s" "no_false_alarm k"
  obtains s1 cli where "hook_accept k yl fd s = Some (s1, cli)" "io_ready fd s1" "io_wire s1 fd = io_wire s fd"
    "0 \<le> cli \<and> cli \<in> io_open s1 \<or> cli = -1" "(\<forall>t. \<exists>e. k_desc k t = Inl e) \<longrightarrow> cli = -1"
proof -
  obtain s1 where s1: "io_ready fd s1" "io_wire s1 fd = io_wire s fd" and run:
    "accept_loop k yl (sys_desc k) fd s = (case k_desc k (io_tick s1) of
       Inl e \<Rightarrow> Some (tick (Some e) s1, -1)
     | Inr n \<Rightarrow> Some ((tick None s1)\<lparr>io_open := insert (int n) (io_open s1)\<rparr>, int n))"
    using accept_once [OF assms] by blast
  have ready: "io_ready fd s'" if "io_sched s' = io_sched s1" for s' by (rule io_ready_same [OF s1(1) that])
  obtain sch where sch: "io_sched s = Some sch" using assms(2) by (auto simp: io_ready_def)
  show thesis
  proof (cases "k_desc k (io_tick s1)")
    case (Inl e)
    then have "hook_accept k yl fd s = Some (tick (Some e) s1, -1)"
      using run sch by (simp add: hook_accept_def accept_body_def)
    from that [OF this ready] s1(2) show thesis by simp
  next
    case (Inr n)
    let ?s2 = "(tick None s1)\<lparr>io_open := insert (int n) (io_open s1)\<rparr>"
    show thesis
    proof (cases "k_call k (io_tick ?s2)")
      case None
      obtain s3 r where s3: "sys_call k (tick None ?s2) = Some (s3, r)" "io_sched s3 = io_sched s1" "io_wire s3 = io_wire s1"
          "int n \<in> io_open s3"
        by (cases "k_call k (Suc (Suc (io_tick s1)))") (simp_all add: sys_call_def)
      have "hook_accept k yl fd s = Some (s3, int n)"
        using run sch Inr None s3(1) by (simp add: hook_accept_def accept_body_def sys_call_def)
      moreover have "\<not> (\<forall>t. \<exists>e. k_desc k t = Inl e)" using Inr by (metis Inl_Inr_False)
      ultimately show thesis using that [OF _ ready] s1(2) s3(2-4) by simp
    next
      case (Some e)
      have "hook_accept k yl fd s = Some ((tick (Some e) ?s2)\<lparr>io_open := io_open s1 - {int n},
          io_interest := (io_interest s1)(int n := None)\<rparr>, -1)"
        using run sch Inr Some by (simp add: hook_accept_def accept_body_def sys_call_def hook_close_def sys_close_def)
      from that [OF this ready] s1(2) show thesis by simp
    qed
  qed
qed

lemma spawned:
  assumes "yields_ok fd yl" "io_ready fd s" "no_false_alarm k"
  obtains s' co cli sch' where "server_turn k yl env clock fd True True (jobs, s) = Some (jobs @ [(co, cli)], s')"
    "io_ready fd s'" "io_wire s' fd = io_wire s fd" "io_sched s' = Some sch'" "last (sc_ready sch') = co"
    "map_option co_status (sc_cos sch' co) = Some (BIT ST_NEW)"
    "0 \<le> cli \<and> cli \<in> io_open s' \<or> cli = -1" "(\<forall>t. \<exists>e. k_desc k t = Inl e) \<longrightarrow> cli = -1"
proof -
  obtain s1 cli where s1: "hook_accept k yl fd s = Some (s1, cli)" "io_ready fd s1" "io_wire s1 fd = io_wire s fd"
    "0 \<le> cli \<and> cli \<in> io_open s1 \<or> cli = -1" "(\<forall>t. \<exists>e. k_desc k t = Inl e) \<longrightarrow> cli = -1"
    by (rule accepted [OF assms])
  obtain sch sch' where "io_sched s1 = Some sch" "sched_inv sch'"
    and sp: "nty_coroutine_create env clock True (io_sched s1) = Some (Some sch', Some (sc_fresh sch), 0)"
      "last (sc_ready sch') = sc_fresh sch" "map_option co_status (sc_cos sch' (sc_fresh sch)) = Some (BIT ST_NEW)"
    and "sc_fresh sch \<notin> dom (sc_cos sch)" and ready: "io_ready fd (s1\<lparr>io_sched := Some sch'\<rparr>)"
    by (rule spawn_ready [OF s1(2), of env clock])
  have "server_turn k yl env clock fd True True (jobs, s) = Some (jobs @ [(sc_fresh sch, cli)], s1\<lparr>io_sched := Some sch'\<rparr>)"
    using s1(1) sp(1) by (simp add: server_turn_def)
  then show thesis using that [of "sc_fresh sch" cli "s1\<lparr>io_sched := Some sch'\<rparr>" sch'] sp(2,3) ready s1(3-5) by simp
qed

lemma server_turns_ready:
  assumes "yields_ok fd yl" "io_ready fd s" "no_false_alarm k"
  shows "\<exists>jobs' s'. server_turns k yl env clock fd (replicate n (True, True)) (jobs, s) = Some (jobs @ jobs', s') \<and>
    length jobs' = n \<and> io_ready fd s'"
  using assms(2)
proof (induction n arbitrary: jobs s)
  case (Suc n)
  obtain s1 co cli where s1: "server_turn k yl env clock fd True True (jobs, s) = Some (jobs @ [(co, cli)], s1)" "io_ready fd s1"
    by (rule spawned [OF assms(1) Suc.prems assms(3), of env clock jobs]) blast
  from Suc.IH [OF s1(2), of "jobs @ [(co, cli)]"] obtain jobs' s' where
    "server_turns k yl env clock fd (replicate n (True, True)) (jobs @ [(co, cli)], s1) = Some ((jobs @ [(co, cli)]) @ jobs', s')"
    "length jobs' = n" "io_ready fd s'" by blast
  then show ?case using s1(1) by (intro exI [of _ "(co, cli) # jobs'"] exI [of _ s']) simp
qed simp

text \<open>Two coroutines that wait for one descriptor fail the assertion of \<open>nty_schedule_sched_wait\<close>.\<close>

lemma sched_wait_taken:
  assumes inv: "sched_inv s" and co: "co \<notin> waiters s" and y: "y \<in> waiters s" "wait_key s y = fd"
  shows "nty_schedule_sched_wait co fd ev timeout s = None"
proof -
  have "RB_INSERT (nty_coroutine_wait_cmp (s\<lparr>sc_cos := (sc_cos s)(co \<mapsto> d)\<rparr>)) co (sc_waiting s) = Some (sc_waiting s, Some y)"
    if "co_fd d = fd" for d
  proof -
    let ?s = "s\<lparr>sc_cos := (sc_cos s)(co \<mapsto> d)\<rparr>"
    have key: "wait_key ?s = (wait_key s)(co := fd)" using that by (simp add: wait_key_upd)
    have "rb_inv_by (wait_key ?s) (sc_waiting s)"
      unfolding key using rbn.inv_other_key [OF sched_invD(2) [OF inv] co] by simp
    moreover have "wait_key ?s y = wait_key ?s co" unfolding key using co y by auto
    ultimately show ?thesis using rbn.ins_dup [of "wait_key ?s" "sc_waiting s" y co] y(1) by (simp add: wait_cmp_by)
  qed
  note dup = this
  show ?thesis
    by (cases "sc_cos s co") (simp_all add: nty_schedule_sched_wait_def upd_co_def dup Let_def)
qed

section \<open>Properties\<close>

text \<open>
  a turn of the accepting coroutine returns when the kernel wakes it with a connection or an
  error.  It hands exactly one new coroutine to the scheduler, at the end of the ready queue and in
  the status NEW; the descriptor of this reader is the open one that was accepted, or -1 when accept
  or fcntl failed.  The coroutine can wait for the listening descriptor again, so \<open>n\<close> turns start
  \<open>n\<close> readers.
\<close>

theorem server_spawns_reader:
  assumes "yields_ok fd yl" "io_ready fd s" "no_false_alarm k"
  shows "(\<exists>s' co cli sch'. server_turn k yl env clock fd True True (jobs, s) = Some (jobs @ [(co, cli)], s') \<and>
      io_ready fd s' \<and> io_sched s' = Some sch' \<and> last (sc_ready sch') = co \<and>
      map_option co_status (sc_cos sch' co) = Some (BIT ST_NEW) \<and> (0 \<le> cli \<and> cli \<in> io_open s' \<or> cli = -1)) \<and>
    (\<exists>jobs' s'. server_turns k yl env clock fd (replicate n (True, True)) (jobs, s) = Some (jobs @ jobs', s') \<and>
      length jobs' = n \<and> io_ready fd s')"
proof
  show "\<exists>s' co cli sch'. server_turn k yl env clock fd True True (jobs, s) = Some (jobs @ [(co, cli)], s') \<and>
      io_ready fd s' \<and> io_sched s' = Some sch' \<and> last (sc_ready sch') = co \<and>
      map_option co_status (sc_cos sch' co) = Some (BIT ST_NEW) \<and> (0 \<le> cli \<and> cli \<in> io_open s' \<or> cli = -1)"
    by (rule spawned [OF assms, of env clock jobs]) auto
qed (rule server_turns_ready [OF assms])

definition busy_kernel :: kernel where
  "busy_kernel = \<lparr>k_send = (\<lambda>t. Inr 3), k_recv = (\<lambda>t. Inr []), k_desc = (\<lambda>t. if t < 1 then Inr 12 else Inl 24),
     k_call = (\<lambda>t. None), k_poll = (\<lambda>t. 0)\<rparr>"

theorem server_spawns_reader_witness:
  "\<exists>jobs s'. server_turns busy_kernel Some (True, 3) (\<lambda>n. 0) 9 [(True, True), (True, True)] ([], coroutine_io) = Some (jobs, s') \<and>
    length jobs = 2"
proof -
  have "no_false_alarm busy_kernel" by (simp add: no_false_alarm_def busy_kernel_def)
  moreover have "[(True, True), (True, True)] = replicate 2 (True, True)" by (simp add: numeral_2_eq_2)
  ultimately show ?thesis
    using server_spawns_reader [OF yields_ok_Some coroutine_io_ready, of busy_kernel "(True, 3)" "\<lambda>n. 0" "[]" 2]
    by (simp only:) auto
qed

text \<open>
  C5: the result of accept is not looked at.  While the kernel refuses connections (no descriptors
  left, say), each turn starts a reader for the descriptor -1; and when one coroutine waits for -1,
  the next one that does the same ends the program in the assertion of \<open>nty_schedule_sched_wait\<close>.
\<close>

theorem failed_accept_aborts:
  assumes "yields_ok fd yl" "io_ready fd s" "\<forall>t. k_desc k t = Inl e" "e \<noteq> EAGAIN"
    "io_sched s2 = Some sch" "sched_inv sch" "sc_curr sch = Some co2" "co2 \<notin> waiters sch"
    "co1 \<in> waiters sch" "wait_key sch co1 = -1"
  shows "(\<exists>s' co. server_turn k yl env clock fd True True (jobs, s) = Some (jobs @ [(co, -1)], s') \<and> io_ready fd s') \<and>
    coroutine_reader k2 yl2 (-1) (Suc n) ks s2 = None"
proof
  have "no_false_alarm k" using assms(3,4) by (simp add: no_false_alarm_def)
  from spawned [OF assms(1,2) this, of env clock jobs] assms(3)
  show "\<exists>s' co. server_turn k yl env clock fd True True (jobs, s) = Some (jobs @ [(co, -1)], s') \<and> io_ready fd s'"
    by (metis (no_types, lifting))
next
  have "nty_schedule_sched_wait co2 (-1) EV_IN 1 (sch\<lparr>sc_cos := (sc_cos sch)(co2 \<mapsto> c)\<rparr>) = None"
    if "sc_cos sch co2 = Some d" "c = d\<lparr>co_events := EV_IN\<rparr>" for c d
  proof (rule sched_wait_taken)
    show "sched_inv (sch\<lparr>sc_cos := (sc_cos sch)(co2 \<mapsto> c)\<rparr>)" using sched_inv_upd [OF assms(6) that(1)] that(2) by simp
    show "co2 \<notin> waiters (sch\<lparr>sc_cos := (sc_cos sch)(co2 \<mapsto> c)\<rparr>)" using assms(8) by simp
    show "co1 \<in> waiters (sch\<lparr>sc_cos := (sc_cos sch)(co2 \<mapsto> c)\<rparr>)" using assms(9) by simp
    show "wait_key (sch\<lparr>sc_cos := (sc_cos sch)(co2 \<mapsto> c)\<rparr>) co1 = -1" using assms(8-10) by (auto simp: wait_key_def)
  qed
  then have "poll_add co2 1 [(-1, EV_IN)] s2 = None"
    using assms(5) by (cases "sc_cos sch co2") (simp_all add: Let_def lift_sched_def upd_co_def)
  then have "nty_poll_inner k2 yl2 [(-1, EV_IN)] 1 s2 = None"
    using assms(5,7) by (simp add: nty_poll_inner_def Let_def del: poll_add.simps)
  then show "coroutine_reader k2 yl2 (-1) (Suc n) ks s2 = None"
    using assms(5) by (simp add: hook_recv_def recv_body_def)
qed

definition one_waits :: sched where
  "one_waits = two_coros\<lparr>sc_waiting := Nd BLACK Lf 1 Lf,
     sc_cos := [1 \<mapsto> (coro_at 5000)\<lparr>co_status := BIT ST_SLEEPING, co_fd := -1\<rparr>, 2 \<mapsto> coro_at 5000]\<rparr>"

theorem failed_accept_aborts_witness:
  "(\<exists>s' co. server_turn (busy_kernel\<lparr>k_desc := \<lambda>t. Inl 24\<rparr>) Some (True, 3) (\<lambda>n. 0) 9 True True ([], coroutine_io) =
      Some ([(co, -1)], s')) \<and>
   (\<forall>ks. coroutine_reader busy_kernel Some (-1) 1 ks (coroutine_io\<lparr>io_sched := Some one_waits\<rparr>) = None)"
proof -
  have 1: "\<forall>t. k_desc (busy_kernel\<lparr>k_desc := \<lambda>t. Inl 24\<rparr>) t = Inl 24" by simp
  have w: "sched_inv one_waits"
    by (auto simp: one_waits_def sched_inv_def two_coros_def rb_inv_by_def is_rbt_def ordered_def)
  have "sc_curr one_waits = Some 2" "2 \<notin> waiters one_waits" "1 \<in> waiters one_waits" "wait_key one_waits 1 = -1"
    by (simp_all add: one_waits_def two_coros_def coro_at_def wait_key_def)
  from failed_accept_aborts [OF yields_ok_Some coroutine_io_ready 1 _ _ w this, of "coroutine_io\<lparr>io_sched := Some one_waits\<rparr>"
      "(True, 3)" "\<lambda>n. 0" "[]" busy_kernel Some 0]
  have "(\<exists>s' co. server_turn (busy_kernel\<lparr>k_desc := \<lambda>t. Inl 24\<rparr>) Some (True, 3) (\<lambda>n. 0) 9 True True ([], coroutine_io) =
      Some ([(co, -1)], s')) \<and>
    coroutine_reader busy_kernel Some (-1) 1 ks (coroutine_io\<lparr>io_sched := Some one_waits\<rparr>) = None" for ks
    by (simp del: coroutine_reader.simps) blast
  then show ?thesis by blast
qed

text \<open>
  C4: the server on coroutines refines the abstract stores.  Suppose everything that the client of a
  descriptor sends is a request, the replies fit the buffer and the kernel takes what it is given.
  Then the reader, suspended by its calls any number of times, answers after \<open>n\<close> turns a sequence of
  \<open>n\<close> requests of the client: the stores are the abstract ones after these, and what the kernel took
  for the descriptor is the concatenation of the abstract replies.
\<close>

theorem coroutine_server_refines:
  assumes "yields_ok fd yl" "io_ready fd s" "ks_inv ks" "takes_all k"
    "\<forall>t. \<exists>msg tr. k_recv k t = Inr msg \<and> asks msg tr" "replies_fit k (ks_map ks)"
  shows "\<exists>ks' s' rs. coroutine_reader k yl fd n ks s = Some (ks', s', False) \<and>
    length rs = n \<and> (\<forall>tr \<in> set rs. asked k tr) \<and> io_ready fd s' \<and> ks_inv ks' \<and>
    ks_map ks' = fst (spec_requests (ks_map ks) rs) \<and>
    io_wire s' fd = io_wire s fd @ concat (snd (spec_requests (ks_map ks) rs))"
  using assms(2,3,6)
proof (induction n arbitrary: ks s)
  case 0
  then show ?case by (intro exI [of _ ks] exI [of _ s] exI [of _ "[]"]) simp
next
  case (Suc n)
  have "\<forall>t. \<exists>msg. k_recv k t = Inr msg \<and> length msg < BUFFER_LENGTH" "BUFFER_LENGTH < 2 ^ 31"
    using assms(5) by (fastforce simp: asks_def) (simp add: BUFFER_LENGTH_def)
  from recv_takes [OF assms(1) Suc.prems(1) this] obtain s1 t msg where
    s1: "k_recv k t = Inr msg" "hook_recv k yl fd BUFFER_LENGTH s = Some (s1, int (length msg), msg)" "io_ready fd s1"
      "io_wire s1 fd = io_wire s fd" by blast
  obtain tg q where msg: "asks msg (tg, q)" using assms(5) s1(1) by (metis Inr_inject surj_pair)
  then have tr: "asked k (tg, q)" using s1(1) unfolding asked_def by blast
  let ?reply = "snd (spec_request (ks_map ks) tg q)"
  note fit = replies_fit_step [OF Suc.prems(3) tr]
  from item_request [OF Suc.prems(2) msg refl fit(1)] obtain item ks1 item' r where
    req: "msg \<noteq> []" "fresh_item msg = Some item" "kvstore_request ks item = Some (ks1, item', r)"
      "c_str (c_wbuffer item') 0 = Some ?reply" "take (length ?reply) (c_wbuffer item') = ?reply"
      "ks_inv ks1" "ks_map ks1 = fst (spec_request (ks_map ks) tg q)" by blast
  have "length ?reply < 2 ^ 31" using fit(1) by (simp add: reply_ok_def BUFFER_LENGTH_def)
  from send_all [OF assms(1) s1(3) fit(2) this assms(4)] obtain s2 where
    s2: "hook_send k yl fd ?reply s1 = Some (s2, int (length ?reply))" "io_ready fd s2"
      "io_wire s2 fd = io_wire s1 fd @ ?reply" by blast
  have step: "coroutine_reader k yl fd (Suc n) ks s = coroutine_reader k yl fd n ks1 s2"
    using s1(2) req(1-5) s2(1) by simp
  have "replies_fit k (ks_map ks1)" using fit(3) req(7) by simp
  from Suc.IH [OF s2(2) req(6) this] obtain ks' s' rs where
    "coroutine_reader k yl fd n ks1 s2 = Some (ks', s', False)" "length rs = n" "\<forall>tr \<in> set rs. asked k tr"
    "io_ready fd s'" "ks_inv ks'" "ks_map ks' = fst (spec_requests (ks_map ks1) rs)"
    "io_wire s' fd = io_wire s2 fd @ concat (snd (spec_requests (ks_map ks1) rs))" by blast
  then show ?case using step tr s2(3) s1(4) req(7)
    by (intro exI [of _ ks'] exI [of _ s'] exI [of _ "(tg, q) # rs"]) (simp add: case_prod_beta Let_def)
qed

definition get_kernel :: kernel where
  "get_kernel = \<lparr>k_send = (\<lambda>t. Inr 3), k_recv = (\<lambda>t. Inr ''RGET a''), k_desc = (\<lambda>t. Inl 0),
     k_call = (\<lambda>t. None), k_poll = (\<lambda>t. 0)\<rparr>"

lemma asks_rget: "asks ''RGET a'' tr \<longleftrightarrow> tr = (TTree, GET ''a'')"
proof -
  have "words ''RGET a'' = [''RGET'', ''a'']" "decode [''RGET'', ''a''] = Some (TTree, GET ''a'')" by code_simp+
  then show ?thesis by (auto simp: asks_def BUFFER_LENGTH_def KVSTORE_MAX_TOKENS_def req_ok_def simp del: decode.simps)
qed

lemma rget_replies:
  "\<forall>tr \<in> set rs. tr = (TTree, GET ''a'') \<Longrightarrow>
    spec_requests (\<lambda>_. Map.empty) rs = (\<lambda>_. Map.empty, replicate (length rs) ''NO EXIST'')"
  by (induction rs) (auto simp: spec_request_def fun_upd_def)

theorem coroutine_server_refines_witness:
  "\<exists>ks ks' s'. ks_inv ks \<and> coroutine_reader get_kernel Some 9 2 ks coroutine_io = Some (ks', s', False) \<and>
    io_wire s' 9 = ''NO EXISTNO EXIST''"
proof -
  obtain ks where ks: "ks_inv ks" "ks_map ks = (\<lambda>_. Map.empty)" using start_ks_init by blast
  have asked: "asked get_kernel tr \<longleftrightarrow> tr = (TTree, GET ''a'')" for tr
    by (simp add: asked_def get_kernel_def asks_rget)
  have fit: "replies_fit get_kernel (ks_map ks)"
    unfolding replies_fit_def asked ks(2) by (auto simp: rget_replies reply_ok_def BUFFER_LENGTH_def)
  have "takes_all get_kernel" by (auto simp: takes_all_def get_kernel_def)
  moreover have "\<forall>t. \<exists>msg tr. k_recv get_kernel t = Inr msg \<and> asks msg tr" by (simp add: get_kernel_def asks_rget)
  ultimately obtain ks' s' rs where r: "coroutine_reader get_kernel Some 9 2 ks coroutine_io = Some (ks', s', False)"
      "length rs = 2" "\<forall>tr \<in> set rs. asked get_kernel tr"
      "io_wire s' 9 = io_wire coroutine_io 9 @ concat (snd (spec_requests (ks_map ks) rs))"
    using coroutine_server_refines [OF yields_ok_Some coroutine_io_ready ks(1) _ _ fit, of 2] by blast
  then have "io_wire s' 9 = ''NO EXISTNO EXIST''"
    unfolding ks(2) asked by (simp add: rget_replies coroutine_io_def numeral_2_eq_2)
  then show ?thesis using ks(1) r(1) by blast
qed

end
