(* ===== verification/KV_Epoll_Session.thy ===== *)
theory KV_Epoll_Session
  imports KV_Ntyco
begin

text \<open>
  Sessions of the reactor with any number of clients: connections, requests, replies and farewells
  in any order that the kernel can report, against an abstract front end that keeps the three
  stores and the replies that wait for their clients to become writable.
\<close>

section \<open>The abstract front end\<close>

datatype client_ev =
    Join nat
  | Ask nat "char list" target kv_req
  | Reply nat string
  | Leave nat

record front =
  fr_stores :: "target \<Rightarrow> store"
  fr_clients :: "nat set"
  fr_pending :: "nat \<Rightarrow> string option"
  fr_log :: "(nat \<times> string) list"

text \<open>
  What may happen, with the listening descriptor \<open>l\<close>: a new descriptor is not in use and has a place
  in the table, a client that waits for a reply is silent, a request is a text that ends in a zero
  byte, and a reply that is due goes out whole.
\<close>

fun spec_event :: "nat \<Rightarrow> client_ev \<Rightarrow> front \<Rightarrow> front option" where
  "spec_event l (Join fd) f =
     (if fd \<noteq> l \<and> fd < MAX_CONNS \<and> fd \<notin> fr_clients f then Some (f\<lparr>fr_clients := insert fd (fr_clients f)\<rparr>) else None)"
| "spec_event l (Ask fd data tg q) f =
     (let (m, reply) = spec_request (fr_stores f) tg q
      in if fd \<in> fr_clients f \<and> fr_pending f fd = None \<and> NUL \<in> set data \<and> length data \<le> BUFFER_LENGTH \<and>
           asks (held data) (tg, q) \<and> reply_ok reply
         then Some (f\<lparr>fr_stores := m, fr_pending := (fr_pending f)(fd \<mapsto> reply)\<rparr>) else None)"
| "spec_event l (Reply fd reply) f =
     (if fr_pending f fd = Some reply
      then Some (f\<lparr>fr_pending := (fr_pending f)(fd := None), fr_log := fr_log f @ [(fd, reply)]\<rparr>) else None)"
| "spec_event l (Leave fd) f =
     (if fd \<in> fr_clients f \<and> fr_pending f fd = None then Some (f\<lparr>fr_clients := fr_clients f - {fd}\<rparr>) else None)"

fun spec_events :: "nat \<Rightarrow> client_ev list \<Rightarrow> front \<Rightarrow> front option" where
  "spec_events l [] f = Some f"
| "spec_events l (e # es) f = do { f \<leftarrow> spec_event l e f; spec_events l es f }"

text \<open>What the kernel reports for each of these.\<close>

fun kernel_event :: "nat \<Rightarrow> client_ev \<Rightarrow> nat \<times> bool \<times> bool \<times> sysres" where
  "kernel_event l (Join fd) = (l, True, False, Accepted (int fd))"
| "kernel_event l (Ask fd data tg q) = (fd, True, False, Received data)"
| "kernel_event l (Reply fd reply) = (fd, False, True, Sent (int (length reply)))"
| "kernel_event l (Leave fd) = (fd, True, False, Received [])"

section \<open>The simulation\<close>

definition client_slot :: "string option \<Rightarrow> epoll_ev option \<Rightarrow> slot \<Rightarrow> bool" where
  "client_slot pending ev x \<longleftrightarrow> s_recv x = RecvCB \<and> s_send x = SendCB \<and> length (c_rbuffer (s_conn x)) = BUFFER_LENGTH \<and>
     (case pending of
        None \<Rightarrow> ev = Some EPOLLIN
      | Some r \<Rightarrow> ev = Some EPOLLOUT \<and> c_wlength (s_conn x) = length r \<and> take (length r) (c_wbuffer (s_conn x)) = r)"

definition front_of :: "nat \<Rightarrow> server \<Rightarrow> front \<Rightarrow> bool" where
  "front_of l s f \<longleftrightarrow>
     ks_inv (sv_ks s) \<and> ks_map (sv_ks s) = fr_stores f \<and> sv_sent s = fr_log f \<and> length (sv_list s) = MAX_CONNS \<and>
     l \<notin> fr_clients f \<and> (\<exists>x. get_slot s l = Some x \<and> s_recv x = AcceptCB) \<and> sv_epoll s l = Some EPOLLIN \<and>
     (\<forall>fd \<in> fr_clients f. \<exists>x. get_slot s fd = Some x \<and> client_slot (fr_pending f fd) (sv_epoll s fd) x) \<and>
     (\<forall>fd. fd \<notin> fr_clients f \<longrightarrow> fr_pending f fd = None \<and> (fd \<noteq> l \<longrightarrow> sv_epoll s fd = None))"

lemma front_ofD:
  assumes "front_of l s f"
  shows "ks_inv (sv_ks s)" "ks_map (sv_ks s) = fr_stores f" "sv_sent s = fr_log f" "length (sv_list s) = MAX_CONNS"
    "l \<notin> fr_clients f" "\<exists>x. get_slot s l = Some x \<and> s_recv x = AcceptCB" "sv_epoll s l = Some EPOLLIN"
    "fd \<in> fr_clients f \<Longrightarrow> \<exists>x. get_slot s fd = Some x \<and> client_slot (fr_pending f fd) (sv_epoll s fd) x"
    "fd \<notin> fr_clients f \<Longrightarrow> fr_pending f fd = None" "fd \<notin> fr_clients f \<Longrightarrow> fd \<noteq> l \<Longrightarrow> sv_epoll s fd = None"
  using assms unfolding front_of_def by blast+

text \<open>An event of one client leaves the others as they are.\<close>

lemma front_ofI:
  assumes old: "front_of l s f" and fd: "fd \<noteq> l"
    and ks: "ks_inv (sv_ks s')" "ks_map (sv_ks s') = fr_stores f'" "sv_sent s' = fr_log f'" "length (sv_list s') = length (sv_list s)"
    and other: "\<And>k. k \<noteq> fd \<Longrightarrow> get_slot s' k = get_slot s k \<and> sv_epoll s' k = sv_epoll s k \<and>
      fr_pending f' k = fr_pending f k \<and> (k \<in> fr_clients f' \<longleftrightarrow> k \<in> fr_clients f)"
    and here: "fd \<in> fr_clients f' \<Longrightarrow> \<exists>x. get_slot s' fd = Some x \<and> client_slot (fr_pending f' fd) (sv_epoll s' fd) x"
      "fd \<notin> fr_clients f' \<Longrightarrow> fr_pending f' fd = None \<and> sv_epoll s' fd = None"
  shows "front_of l s' f'"
  unfolding front_of_def
proof (intro conjI ballI allI impI)
  show "length (sv_list s') = MAX_CONNS" using ks(4) front_ofD(4) [OF old] by simp
  show "l \<notin> fr_clients f'" "sv_epoll s' l = Some EPOLLIN" "\<exists>x. get_slot s' l = Some x \<and> s_recv x = AcceptCB"
    using other [of l] fd front_ofD(5-7) [OF old] by auto
next
  fix k
  assume "k \<in> fr_clients f'"
  then show "\<exists>x. get_slot s' k = Some x \<and> client_slot (fr_pending f' k) (sv_epoll s' k) x"
    using here(1) other [of k] front_ofD(8) [OF old, of k] by (cases "k = fd") auto
next
  fix k
  assume k: "k \<notin> fr_clients f'"
  then show "fr_pending f' k = None" using here(2) other [of k] front_ofD(9) [OF old, of k] by (cases "k = fd") auto
  assume "k \<noteq> l"
  then show "sv_epoll s' k = None" using k here(2) other [of k] front_ofD(10) [OF old, of k] by (cases "k = fd") auto
qed (use ks in simp_all)

lemma front_join:
  assumes "front_of l s f" "spec_event l (Join fd) f = Some f'"
  shows "\<exists>s'. handle_event (kernel_event l (Join fd)) s = Some s' \<and> front_of l s' f'"
proof -
  have fd: "fd \<noteq> l" "fd < MAX_CONNS" "fd \<notin> fr_clients f" "f' = f\<lparr>fr_clients := insert fd (fr_clients f)\<rparr>"
    using assms(2) by (auto split: if_splits)
  note D = front_ofD [OF assms(1)]
  let ?x = "\<lparr>s_conn = \<lparr>c_fd = fd, c_rbuffer = replicate BUFFER_LENGTH NUL, c_rlength = 0,
             c_wbuffer = replicate BUFFER_LENGTH NUL, c_wlength = 0\<rparr>, s_recv = RecvCB, s_send = SendCB\<rparr>"
  let ?s' = "s\<lparr>sv_epoll := (sv_epoll s)(fd \<mapsto> EPOLLIN), sv_list := (sv_list s)[fd := ?x]\<rparr>"
  have "get_slot s fd \<noteq> None" using fd(2) D(4) by (simp add: get_slot_def)
  moreover have "set_event fd EPOLLIN True s = s\<lparr>sv_epoll := (sv_epoll s)(fd \<mapsto> EPOLLIN)\<rparr>"
    using D(10) [OF fd(3,1)] by (simp add: set_event_def)
  ultimately have run: "handle_event (kernel_event l (Join fd)) s = Some ?s'" using D(6) D(4) fd(2)
    by (auto simp: handle_event_def accept_cb_def put_slot_def Let_def)
  have "front_of l ?s' f'"
  proof (rule front_ofI [OF assms(1) fd(1)])
    show "\<exists>x. get_slot ?s' fd = Some x \<and> client_slot (fr_pending f' fd) (sv_epoll ?s' fd) x"
      using fd(2,4) D(4) D(9) [OF fd(3)] by (simp add: get_slot_def client_slot_def)
  qed (use D(1-4) fd in \<open>auto simp: get_slot_def\<close>)
  then show ?thesis using run by blast
qed

lemma front_ask:
  assumes "front_of l s f" "spec_event l (Ask fd data tg q) f = Some f'"
  shows "\<exists>s'. handle_event (kernel_event l (Ask fd data tg q)) s = Some s' \<and> front_of l s' f'"
proof -
  obtain m reply where m: "spec_request (fr_stores f) tg q = (m, reply)" by fastforce
  then have fd: "fd \<in> fr_clients f" "fr_pending f fd = None" "NUL \<in> set data" "length data \<le> BUFFER_LENGTH"
      "asks (held data) (tg, q)" "reply_ok reply"
    and f': "f' = f\<lparr>fr_stores := m, fr_pending := (fr_pending f)(fd \<mapsto> reply)\<rparr>"
    using assms(2) by (auto split: if_splits)
  note D = front_ofD [OF assms(1)]
  obtain x where x: "get_slot s fd = Some x" "s_recv x = RecvCB" "s_send x = SendCB"
      "length (c_rbuffer (s_conn x)) = BUFFER_LENGTH" "sv_epoll s fd = Some EPOLLIN"
    using D(8) [OF fd(1)] fd(2) by (auto simp: client_slot_def)
  have held: "held data = held (overlay data (c_rbuffer (s_conn x)))" "NUL \<in> set (overlay data (c_rbuffer (s_conn x)))"
    using fd(3) by (auto simp: held_def overlay_def takeWhile_append1)
  have a: "length (words (held data)) \<le> KVSTORE_MAX_TOKENS" "decode (words (held data)) = Some (tg, q)" "req_ok (key_ok_of tg) q"
    using fd(5) by (auto simp: asks_def)
  have r: "reply = snd (spec_request (ks_map (sv_ks s)) tg q)" "length reply < BUFFER_LENGTH" "NUL \<notin> set reply"
    using m fd(6) D(2) by (auto simp: reply_ok_def)
  have "data \<noteq> []" using fd(3) by auto
  with recv_cb_executes [OF D(1) x(1) _ _ _ held(2,1) a r, of "Received data"] fd(4) x(4,5)
  obtain s' x' where s': "recv_cb (Received data) fd s = Some (s', int (length data))" "ks_inv (sv_ks s')"
      "ks_map (sv_ks s') = m" "get_slot s' fd = Some x'" "take (length reply) (c_wbuffer (s_conn x')) = reply"
      "c_wlength (s_conn x') = length reply" "length (c_rbuffer (s_conn x')) = BUFFER_LENGTH" "s_recv x' = s_recv x"
      "s_send x' = s_send x" "sv_epoll s' = (sv_epoll s)(fd \<mapsto> EPOLLOUT)" "sv_sent s' = sv_sent s"
      "\<forall>k. k \<noteq> fd \<longrightarrow> get_slot s' k = get_slot s k"
    using m D(2) by auto
  have len: "length (sv_list s') = length (sv_list s)"
    using s'(1) by (auto simp: recv_cb_def put_slot_def Let_def split: Option.bind_splits if_splits)
  have "front_of l s' f'"
  proof (rule front_ofI [OF assms(1), of fd])
    show "fd \<noteq> l" using fd(1) D(5) by blast
    show "\<exists>x. get_slot s' fd = Some x \<and> client_slot (fr_pending f' fd) (sv_epoll s' fd) x"
      using s'(4-10) x(2,3) f' by (simp add: client_slot_def)
  qed (use s'(2,3,10-12) D(3) f' len fd(1) in auto)
  moreover have "handle_event (kernel_event l (Ask fd data tg q)) s = Some s'"
    using x(1,2) s'(1) by (simp add: handle_event_def)
  ultimately show ?thesis by blast
qed

lemma front_reply:
  assumes "front_of l s f" "spec_event l (Reply fd reply) f = Some f'"
  shows "\<exists>s'. handle_event (kernel_event l (Reply fd reply)) s = Some s' \<and> front_of l s' f'"
proof -
  have p: "fr_pending f fd = Some reply"
    and f': "f' = f\<lparr>fr_pending := (fr_pending f)(fd := None), fr_log := fr_log f @ [(fd, reply)]\<rparr>"
    using assms(2) by (auto split: if_splits)
  note D = front_ofD [OF assms(1)]
  have fd: "fd \<in> fr_clients f" using D(9) [of fd] p by auto
  obtain x where x: "get_slot s fd = Some x" "s_recv x = RecvCB" "s_send x = SendCB"
      "length (c_rbuffer (s_conn x)) = BUFFER_LENGTH" "sv_epoll s fd = Some EPOLLOUT" "c_wlength (s_conn x) = length reply"
      "take (length reply) (c_wbuffer (s_conn x)) = reply"
    using D(8) [OF fd] p by (auto simp: client_slot_def)
  let ?s' = "set_event fd EPOLLIN False (s\<lparr>sv_sent := sv_sent s @ [(fd, reply)]\<rparr>)"
  have run: "handle_event (kernel_event l (Reply fd reply)) s = Some ?s'"
    using x by (simp add: handle_event_def send_cb_def Let_def)
  have ev: "sv_epoll ?s' = (sv_epoll s)(fd \<mapsto> EPOLLIN)" using x(5) by (simp add: set_event_mod)
  have "front_of l ?s' f'"
  proof (rule front_ofI [OF assms(1), of fd])
    show "fd \<noteq> l" using fd D(5) by blast
    show "\<exists>x. get_slot ?s' fd = Some x \<and> client_slot (fr_pending f' fd) (sv_epoll ?s' fd) x"
      using x f' unfolding ev by (simp add: client_slot_def)
  qed (use D(1-3) f' fd in \<open>auto simp: set_event_def get_slot_def\<close>)
  then show ?thesis using run by blast
qed

lemma front_leave:
  assumes "front_of l s f" "spec_event l (Leave fd) f = Some f'"
  shows "\<exists>s'. handle_event (kernel_event l (Leave fd)) s = Some s' \<and> front_of l s' f'"
proof -
  have fd: "fd \<in> fr_clients f" "fr_pending f fd = None" "f' = f\<lparr>fr_clients := fr_clients f - {fd}\<rparr>"
    using assms(2) by (auto split: if_splits)
  note D = front_ofD [OF assms(1)]
  obtain x where x: "get_slot s fd = Some x" "s_recv x = RecvCB" using D(8) [OF fd(1)] by (auto simp: client_slot_def)
  let ?s' = "s\<lparr>sv_epoll := (sv_epoll s)(fd := None), sv_closed := sv_closed s @ [fd]\<rparr>"
  have run: "handle_event (kernel_event l (Leave fd)) s = Some ?s'" using x by (simp add: handle_event_def recv_cb_def)
  have "front_of l ?s' f'"
  proof (rule front_ofI [OF assms(1), of fd])
    show "fd \<noteq> l" using fd(1) D(5) by blast
  qed (use D(1-3) fd in auto)
  then show ?thesis using run by blast
qed

lemma front_event:
  assumes "front_of l s f" "spec_event l e f = Some f'"
  shows "\<exists>s'. handle_event (kernel_event l e) s = Some s' \<and> front_of l s' f'"
  using assms by (cases e) (simp_all only: front_join front_ask front_reply front_leave)

lemma front_events:
  assumes "front_of l s f" "spec_events l es f = Some f'"
  shows "\<exists>s'. handle_events (map (kernel_event l) es) s = Some s' \<and> front_of l s' f'"
  using assms
proof (induction es arbitrary: s f)
  case (Cons e es)
  then obtain f1 where f1: "spec_event l e f = Some f1" "spec_events l es f1 = Some f'" by (auto split: Option.bind_splits)
  from front_event [OF Cons.prems(1) f1(1)] Cons.IH [OF _ f1(2)] show ?case by fastforce
qed simp

lemma front_start:
  assumes "epoll_entry_start l ks = Some s" "ks_inv ks"
  shows "front_of l s \<lparr>fr_stores = ks_map ks, fr_clients = {}, fr_pending = Map.empty, fr_log = []\<rparr>"
proof -
  have "l < MAX_CONNS" using assms(1) by (auto simp: epoll_entry_start_def get_slot_def Let_def split: Option.bind_splits if_splits)
  moreover from this have "s = set_event l EPOLLIN True \<lparr>sv_ks = ks, sv_list = (replicate MAX_CONNS zero_slot)
      [l := zero_slot\<lparr>s_conn := (s_conn zero_slot)\<lparr>c_fd := l\<rparr>, s_recv := AcceptCB\<rparr>],
      sv_epoll = Map.empty, sv_closed = [], sv_sent = []\<rparr>"
    using assms(1) by (simp add: epoll_entry_start_def get_slot_def put_slot_def Let_def)
  ultimately show ?thesis using assms(2) by (auto simp: front_of_def get_slot_def set_event_def)
qed

section \<open>Properties\<close>

text \<open>
  C2: the reactor refines the abstract front end.  From the start of \<open>epoll_entry\<close> on, let clients
  connect, send requests, take their replies and leave, in any interleaving; each client waits for
  its reply before it sends again.  Then the loop handles every event, the stores are the abstract
  ones, the replies went out to the right descriptors in the order of the abstract log, and exactly
  the listening descriptor and the connected clients are registered, a client for output when its
  reply is due and for input otherwise.
\<close>

theorem epoll_session_refines:
  assumes "epoll_entry_start l ks = Some s" "ks_inv ks"
    "spec_events l es \<lparr>fr_stores = ks_map ks, fr_clients = {}, fr_pending = Map.empty, fr_log = []\<rparr> = Some f"
  shows "\<exists>s'. handle_events (map (kernel_event l) es) s = Some s' \<and> ks_inv (sv_ks s') \<and>
    ks_map (sv_ks s') = fr_stores f \<and> sv_sent s' = fr_log f \<and>
    sv_epoll s' = (\<lambda>fd. if fd = l then Some EPOLLIN else if fd \<in> fr_clients f
                        then Some (if fr_pending f fd = None then EPOLLIN else EPOLLOUT) else None)"
proof -
  obtain s' where s': "handle_events (map (kernel_event l) es) s = Some s'" "front_of l s' f"
    using front_events [OF front_start [OF assms(1,2)] assms(3)] by blast
  note D = front_ofD [OF s'(2)]
  have "sv_epoll s' fd = Some (if fr_pending f fd = None then EPOLLIN else EPOLLOUT)" if "fd \<in> fr_clients f" for fd
    using D(8) [OF that] by (auto simp: client_slot_def split: option.splits)
  then have "sv_epoll s' = (\<lambda>fd. if fd = l then Some EPOLLIN else if fd \<in> fr_clients f
                        then Some (if fr_pending f fd = None then EPOLLIN else EPOLLOUT) else None)"
    using D(7,10) by (auto simp: fun_eq_iff)
  then show ?thesis using s'(1) D(1-3) by blast
qed

definition two_clients :: "client_ev list" where
  "two_clients = [Join 5, Join 6, Ask 5 (''RSET a 1'' @ [NUL]) TTree (SET ''a'' ''1''),
     Ask 6 (''RGET a'' @ [NUL]) TTree (GET ''a''), Reply 6 ''1'', Reply 5 ''SUCCESS'', Leave 5]"

theorem epoll_session_refines_witness:
  "\<exists>ks s s'. epoll_entry_start 3 ks = Some s \<and> handle_events (map (kernel_event 3) two_clients) s = Some s' \<and>
    sv_sent s' = [(6, ''1''), (5, ''SUCCESS'')] \<and> sv_epoll s' 5 = None \<and> sv_epoll s' 6 = Some EPOLLIN"
proof -
  obtain ks where ks: "ks_inv ks" "ks_map ks = (\<lambda>_. Map.empty)" using start_ks_init by blast
  obtain s where s: "epoll_entry_start 3 ks = Some s"
    by (simp add: epoll_entry_start_def get_slot_def put_slot_def set_event_def MAX_CONNS_def)
  have w: "words ''RSET a 1'' = [''RSET'', ''a'', ''1'']" "decode [''RSET'', ''a'', ''1''] = Some (TTree, SET ''a'' ''1'')"
    "words ''RGET a'' = [''RGET'', ''a'']" "decode [''RGET'', ''a''] = Some (TTree, GET ''a'')"
    by code_simp+
  have a: "asks ''RSET a 1'' (TTree, SET ''a'' ''1'')" "asks ''RGET a'' (TTree, GET ''a'')"
    using w by (simp_all add: asks_def BUFFER_LENGTH_def KVSTORE_MAX_TOKENS_def req_ok_def del: decode.simps)
  have h: "held (''RSET a 1'' @ [NUL]) = ''RSET a 1''" "held (''RGET a'' @ [NUL]) = ''RGET a''" by (simp_all add: held_def)
  have rep: "spec_request (\<lambda>_. Map.empty) TTree (SET ''a'' ''1'') = ((\<lambda>_. Map.empty)(TTree := [''a'' \<mapsto> ''1'']), ''SUCCESS'')"
    "spec_request ((\<lambda>_. Map.empty)(TTree := [''a'' \<mapsto> ''1''])) TTree (GET ''a'') =
      ((\<lambda>_. Map.empty)(TTree := [''a'' \<mapsto> ''1'']), ''1'')"
    by (auto simp: spec_request_def has_room_def snprintf_s_def BUFFER_LENGTH_def)
  let ?f = "\<lparr>fr_stores = (\<lambda>_. Map.empty)(TTree := [''a'' \<mapsto> ''1'']), fr_clients = {6}, fr_pending = Map.empty,
      fr_log = [(6, ''1''), (5, ''SUCCESS'')]\<rparr>"
  have "spec_events 3 two_clients \<lparr>fr_stores = ks_map ks, fr_clients = {}, fr_pending = Map.empty, fr_log = []\<rparr> = Some ?f"
    unfolding ks(2) two_clients_def
    by (simp add: h [simplified] a rep reply_ok_def BUFFER_LENGTH_def MAX_CONNS_def insert_Diff_if fun_upd_twist)
  from epoll_session_refines [OF s ks(1) this] s show ?thesis by fastforce
qed

end
