(* ===== verification/NTY_Run.thy ===== *)
theory NTY_Run
  imports NTY_Sched_Props
begin

text \<open>
  The main loop of the coroutine scheduler: with coroutines that keep to a contract a turn of
  \<open>nty_schedule_run\<close> returns and leaves the scheduler well formed; a coroutine that ends while its
  timer runs breaks the loop.
\<close>

section \<open>The contract of the bodies\<close>

abbreviation has :: "coro \<Rightarrow> nat \<Rightarrow> bool" where "has c n \<equiv> co_status c AND BIT n \<noteq> 0"

text \<open>No coroutine has ended or lost its peer.\<close>

definition all_live :: "sched \<Rightarrow> bool" where
  "all_live s \<longleftrightarrow> (\<forall>co c. sc_cos s co = Some c \<longrightarrow> \<not> has c ST_FDEOF \<and> \<not> has c ST_EXITED)"

text \<open>A coroutine that is ready waits for nothing.\<close>

definition apart :: "sched \<Rightarrow> bool" where
  "apart s \<longleftrightarrow> set (sc_ready s) \<inter> (sleepers s \<union> waiters s) = {}"

definition calm :: "sched \<Rightarrow> bool" where
  "calm s \<longleftrightarrow> sched_inv s \<and> all_live s \<and> apart s"

text \<open>
  The limits of a program: how many coroutines live at a time, how often a body reads the clock until it yields, by how many
  microseconds the clock moves at most while it is read as often as all of them together do, and the last reading, as the time since the
  scheduler was created.
\<close>

record limits =
  lim_live :: nat
  lim_reads :: nat
  lim_gap :: nat
  lim_last :: nat

definition elapsed :: "sched \<Rightarrow> nat \<Rightarrow> nat" where
  "elapsed s n = unat (sc_clock s n - sc_birth s)"

definition window :: "limits \<Rightarrow> nat" where
  "window L = (lim_live L + 1) * (lim_reads L + 1)"

definition steady :: "limits \<Rightarrow> sched \<Rightarrow> bool" where
  "steady L s \<longleftrightarrow> (\<forall>n k. k \<le> window L \<longrightarrow> elapsed s n \<le> elapsed s (n + k) \<and> elapsed s (n + k) \<le> elapsed s n + lim_gap L) \<and>
     (\<forall>n. elapsed s n \<le> lim_last L)"

definition few :: "limits \<Rightarrow> sched \<Rightarrow> bool" where
  "few L s \<longleftrightarrow> card (dom (sc_cos s)) \<le> lim_live L"

text \<open>
  What the scheduler may rely on while it hands on the control: the queue only grows at its end, a timer that
  is set or moved runs for longer than the gap, the others keep waiting for their descriptors, and the limits are kept.
\<close>

definition hands_on :: "limits \<Rightarrow> cid \<Rightarrow> sched \<Rightarrow> sched \<Rightarrow> bool" where
  "hands_on L co s s' \<longleftrightarrow> sched_inv s' \<and> apart s' \<and> dom (sc_cos s) - {co} \<subseteq> dom (sc_cos s') \<and>
     (\<exists>ys. sc_ready s' = sc_ready s @ ys) \<and>
     (\<forall>y \<in> sleepers s'. y \<in> sleepers s \<and> sleep_key s' y = sleep_key s y \<or>
        elapsed s (sc_ticks s) + lim_gap L < unat (sleep_key s' y)) \<and>
     waiters s - {co} \<subseteq> waiters s' \<and> (\<forall>y \<in> waiters s - {co}. wait_key s' y = wait_key s y) \<and>
     sc_clock s' = sc_clock s \<and> sc_birth s' = sc_birth s \<and>
     sc_ticks s \<le> sc_ticks s' \<and> sc_ticks s' \<le> sc_ticks s + lim_reads L \<and> few L s'"

text \<open>
  The state in which a coroutine is resumed; it finds the mark for EPOLLHUP only where it waits for a descriptor, which has lost
  its peer.
\<close>

definition resumable :: "limits \<Rightarrow> cid \<Rightarrow> sched \<Rightarrow> bool" where
  "resumable L co s \<longleftrightarrow> sched_inv s \<and> apart s \<and> all_live (s\<lparr>sc_cos := (sc_cos s)(co := None)\<rparr>) \<and> co \<notin> set (sc_ready s) \<and>
     (\<exists>c. sc_cos s co = Some c \<and> \<not> has c ST_EXITED \<and> (has c ST_FDEOF \<longrightarrow> co \<in> waiters s)) \<and> few L s \<and> steady L s"

text \<open>
  The body of a coroutine until it yields or ends; one that ends is not waited for any more, and one that goes on has cleared
  the mark for EPOLLHUP, as \<open>nty_schedule_desched_wait\<close> does.
\<close>

definition cooperative :: "limits \<Rightarrow> (cid \<Rightarrow> sched \<Rightarrow> sched option) \<Rightarrow> bool" where
  "cooperative L sw \<longleftrightarrow> (\<forall>co s. resumable L co s \<and> sc_curr s = Some co \<longrightarrow>
     (\<exists>s' c. sw co s = Some s' \<and> hands_on L co s s' \<and> all_live (s'\<lparr>sc_cos := (sc_cos s')(co := None)\<rparr>) \<and>
        sc_cos s' co = Some c \<and>
        (if has c ST_EXITED then has c ST_DETACH \<and> co \<notin> sleepers s' \<union> waiters s' \<union> set (sc_ready s')
         else \<not> has c ST_FDEOF)))"

section \<open>Lemmas\<close>

lemma sched_inv_curr [simp]: "sched_inv (s\<lparr>sc_curr := c\<rparr>) = sched_inv s"
  by (simp add: sched_inv_def)

lemma apart_simps [simp]:
  "apart (s\<lparr>sc_curr := c\<rparr>) = apart s" "apart (s\<lparr>sc_cos := m\<rparr>) = apart s" "apart (s\<lparr>sc_spawned := n\<rparr>) = apart s"
  by (simp_all add: apart_def)

lemma all_live_curr [simp]: "all_live (s\<lparr>sc_curr := c\<rparr>) = all_live s"
  by (simp add: all_live_def)

lemma elapsed_same: "sc_clock s' = sc_clock s \<Longrightarrow> sc_birth s' = sc_birth s \<Longrightarrow> elapsed s' = elapsed s"
  by (simp add: elapsed_def fun_eq_iff)

lemma steady_same: "sc_clock s' = sc_clock s \<Longrightarrow> sc_birth s' = sc_birth s \<Longrightarrow> steady L s' = steady L s"
  using elapsed_same [of s' s] by (simp add: steady_def)

lemma elapsed_simps [simp]:
  "elapsed (s\<lparr>sc_curr := c\<rparr>) = elapsed s" "elapsed (s\<lparr>sc_cos := m\<rparr>) = elapsed s" "elapsed (s\<lparr>sc_ready := r\<rparr>) = elapsed s"
  "elapsed (s\<lparr>sc_ticks := k\<rparr>) = elapsed s" "elapsed (s\<lparr>sc_spawned := i\<rparr>) = elapsed s"
  by (rule elapsed_same; simp)+

lemma steady_simps [simp]:
  "steady L (s\<lparr>sc_curr := c\<rparr>) = steady L s" "steady L (s\<lparr>sc_cos := m\<rparr>) = steady L s" "steady L (s\<lparr>sc_ready := r\<rparr>) = steady L s"
  "steady L (s\<lparr>sc_ticks := k\<rparr>) = steady L s"
  by (rule steady_same; simp)+

lemma few_simps [simp]:
  "few L (s\<lparr>sc_curr := c\<rparr>) = few L s" "few L (s\<lparr>sc_ready := r\<rparr>) = few L s" "few L (s\<lparr>sc_ticks := k\<rparr>) = few L s"
  by (simp_all add: few_def)

lemma steadyD:
  assumes "steady L s" "m \<le> n" "n \<le> m + window L"
  shows "elapsed s m \<le> elapsed s n" "elapsed s n \<le> elapsed s m + lim_gap L"
proof -
  obtain k where "n = m + k" using assms(2) le_Suc_ex by blast
  then show "elapsed s m \<le> elapsed s n" "elapsed s n \<le> elapsed s m + lim_gap L"
    using assms(1,3) unfolding steady_def by simp_all
qed

lemma finite_live: "sched_inv s \<Longrightarrow> finite (dom (sc_cos s))"
  by (rule finite_subset [of _ "{..< sc_fresh s}"]) (auto dest: sched_invD(7))

lemma few_upd: "few L s \<Longrightarrow> co \<in> dom (sc_cos s) \<Longrightarrow> few L (s\<lparr>sc_cos := (sc_cos s)(co \<mapsto> c)\<rparr>)"
  by (simp add: few_def insert_absorb)

lemma sched_inv_free:
  assumes "sched_inv s" "co \<notin> sleepers s \<union> waiters s \<union> set (sc_ready s)"
  shows "sched_inv (s\<lparr>sc_spawned := n, sc_cos := (sc_cos s)(co := None)\<rparr>)"
proof -
  note D = sched_invD [OF assms(1)]
  let ?s = "s\<lparr>sc_spawned := n, sc_cos := (sc_cos s)(co := None)\<rparr>"
  have "sleep_key ?s = (sleep_key s)(co := 0)" "wait_key ?s = (wait_key s)(co := 0)"
    by (auto simp: sleep_key_def wait_key_def)
  then have "rb_inv_by (sleep_key ?s) (sc_sleeping ?s)" "rb_inv_by (wait_key ?s) (sc_waiting ?s)"
    using rbn.inv_other_key [OF D(1)] rbn.inv_other_key [OF D(2)] assms(2) by simp_all
  then show ?thesis using D assms(2) by (auto simp: sched_inv_def)
qed

lemma all_live_but:
  assumes "all_live (s\<lparr>sc_cos := (sc_cos s)(co := None)\<rparr>)" "sc_cos s co = Some c" "\<not> has c ST_FDEOF" "\<not> has c ST_EXITED"
  shows "all_live s"
  unfolding all_live_def
proof (intro allI impI)
  fix x d
  assume d: "sc_cos s x = Some d"
  show "\<not> has d ST_FDEOF \<and> \<not> has d ST_EXITED"
  proof (cases "x = co")
    case True
    then show ?thesis using d assms(2-4) by simp
  next
    case False
    then have "((sc_cos s)(co := None)) x = Some d" using d by simp
    then show ?thesis using assms(1) unfolding all_live_def by simp
  qed
qed

lemma hands_on_free:
  assumes h: "hands_on L co s s1" and out: "co \<notin> sleepers s1 \<union> waiters s1 \<union> set (sc_ready s1)"
  shows "hands_on L co s (s1\<lparr>sc_curr := None, sc_spawned := n, sc_cos := (sc_cos s1)(co := None)\<rparr>)"
proof -
  let ?s = "s1\<lparr>sc_spawned := n, sc_cos := (sc_cos s1)(co := None)\<rparr>"
  let ?s' = "s1\<lparr>sc_curr := None, sc_spawned := n, sc_cos := (sc_cos s1)(co := None)\<rparr>"
  have "sched_inv ?s" using h out by (intro sched_inv_free) (simp_all add: hands_on_def)
  moreover have "?s' = ?s\<lparr>sc_curr := None\<rparr>" by simp
  ultimately have inv: "sched_inv ?s'" by (simp only: sched_inv_curr)
  have sl: "sleep_key ?s' y = sleep_key s1 y" if "y \<in> sleepers s1" for y
    using that out by (auto simp: sleep_key_def)
  have wt: "wait_key ?s' y = wait_key s1 y" if "y \<in> waiters s - {co}" for y
    using that by (simp add: wait_key_def)
  have "few L s1" "sched_inv s1" using h by (simp_all add: hands_on_def)
  then have "few L ?s'" using card_mono [OF finite_live, of s1 "dom (sc_cos s1) - {co}"] by (auto simp: few_def)
  then show ?thesis using h inv unfolding hands_on_def by (auto simp: sl wt apart_def)
qed

text \<open>Resuming a coroutine under the contract.\<close>

lemma calm_resumable:
  assumes "calm s" "co \<in> dom (sc_cos s)" "co \<notin> set (sc_ready s)" "few L s" "steady L s"
  shows "resumable L co s"
  using assms by (auto simp: resumable_def calm_def all_live_def)

lemma resume_ok:
  assumes sw: "cooperative L sw" and res: "resumable L co s"
  shows "\<exists>s' r. nty_coroutine_resume sw co s = Some (s', r) \<and> hands_on L co s s' \<and> calm s'"
proof -
  have inv: "sched_inv s" "apart s" "all_live (s\<lparr>sc_cos := (sc_cos s)(co := None)\<rparr>)" "co \<notin> set (sc_ready s)" "few L s" "steady L s"
    using res by (simp_all add: resumable_def)
  obtain c where c: "sc_cos s co = Some c" "\<not> has c ST_EXITED" "has c ST_FDEOF \<longrightarrow> co \<in> waiters s"
    using res unfolding resumable_def by blast
  let ?c = "if has c ST_NEW then c\<lparr>co_status := BIT ST_READY\<rparr> else c"
  let ?s = "s\<lparr>sc_cos := (sc_cos s)(co \<mapsto> ?c), sc_curr := Some co\<rparr>"
  have init: "(if has c ST_NEW then nty_coroutine_init co s else Some s) = Some (s\<lparr>sc_cos := (sc_cos s)(co \<mapsto> ?c)\<rparr>)"
    using c(1) by (auto simp: nty_coroutine_init_def upd_co_def map_upd_triv)
  have keys: "sleep_key ?s = sleep_key s" "wait_key ?s = wait_key s"
    using c(1) by (auto simp: sleep_key_def wait_key_def fun_eq_iff)
  have "sched_inv (s\<lparr>sc_cos := (sc_cos s)(co \<mapsto> ?c)\<rparr>)" using sched_inv_upd [OF inv(1) c(1)] by simp
  then have "sched_inv ?s" by simp
  moreover have "\<not> has ?c ST_EXITED" "has ?c ST_FDEOF \<longrightarrow> co \<in> waiters s" using c(2,3) by (simp_all add: BIT_def)
  moreover have "all_live (?s\<lparr>sc_cos := (sc_cos ?s)(co := None)\<rparr>)" using inv(3) by (simp add: all_live_def)
  moreover have "few L ?s" using few_upd [OF inv(5)] c(1) by auto
  moreover have "apart ?s" "co \<notin> set (sc_ready ?s)" "steady L ?s" using inv(2,4,6) by simp_all
  ultimately have "resumable L co ?s" unfolding resumable_def by simp
  moreover have "sc_curr ?s = Some co" by simp
  ultimately obtain s1 d where s1: "sw co ?s = Some s1" "hands_on L co ?s s1"
      "all_live (s1\<lparr>sc_cos := (sc_cos s1)(co := None)\<rparr>)" "sc_cos s1 co = Some d"
      "if has d ST_EXITED then has d ST_DETACH \<and> co \<notin> sleepers s1 \<union> waiters s1 \<union> set (sc_ready s1)
       else \<not> has d ST_FDEOF"
    using sw unfolding cooperative_def by meson
  have h: "hands_on L co s s1" using s1(2) unfolding hands_on_def keys by auto
  show ?thesis
  proof (cases "has d ST_EXITED")
    case True
    let ?s' = "s1\<lparr>sc_curr := None, sc_spawned := sc_spawned s1 - 1, sc_cos := (sc_cos s1)(co := None)\<rparr>"
    have "nty_coroutine_resume sw co s = Some (?s', -1)"
      using c(1) s1(1,4,5) True by (simp add: nty_coroutine_resume_def init nty_coroutine_free_def)
    moreover have "all_live ?s'" using s1(3) by (simp add: all_live_def)
    moreover have "hands_on L co s ?s'" using s1(5) True by (intro hands_on_free [OF h]) simp
    ultimately show ?thesis unfolding calm_def hands_on_def by blast
  next
    case False
    let ?s' = "s1\<lparr>sc_curr := None\<rparr>"
    have "nty_coroutine_resume sw co s = Some (?s', 0)"
      using c(1) s1(1,4) False by (simp add: nty_coroutine_resume_def init)
    moreover have "all_live ?s'" using all_live_but [OF s1(3,4)] s1(5) False by simp
    moreover have "hands_on L co s ?s'" using h by (simp add: hands_on_def)
    ultimately show ?thesis unfolding calm_def hands_on_def by blast
  qed
qed

text \<open>
  The three phases of a turn.  In the first, every sleeper whose time has come is resumed.  It ends because a timer that is set
  meanwhile runs past the time \<open>T\<close> that the clock can reach before all that were due have been resumed once.
\<close>

definition due :: "nat \<Rightarrow> sched \<Rightarrow> cid set" where
  "due T s = {y \<in> sleepers s. unat (sleep_key s y) \<le> T}"

lemma hands_on_due: "hands_on L co s s' \<Longrightarrow> T \<le> elapsed s (sc_ticks s) + lim_gap L \<Longrightarrow> due T s' \<subseteq> due T s"
  unfolding hands_on_def due_def by force

lemma hands_on_keeps:
  assumes "hands_on L co s s'" "steady L s"
  shows "sc_clock s' = sc_clock s" "sc_birth s' = sc_birth s" "few L s'" "steady L s'"
  using assms steady_same [of s' s L] by (simp_all add: hands_on_def)

lemma expired_frame:
  assumes "nty_schedule_expired s = Some (s1, r)"
  shows "sc_clock s1 = sc_clock s" "sc_birth s1 = sc_birth s" "sc_ready s1 = sc_ready s" "sc_waiting s1 = sc_waiting s"
    "sc_ticks s1 = Suc (sc_ticks s)"
  using assms by (auto simp: nty_schedule_expired_def usec_now_def Let_def split: option.splits Option.bind_splits if_splits)

lemma run_expired_within:
  assumes sw: "cooperative L sw" and T: "T = elapsed s0 n0 + lim_gap L"
  shows "calm s \<Longrightarrow> few L s \<Longrightarrow> steady L s \<Longrightarrow> sc_clock s = sc_clock s0 \<Longrightarrow> sc_birth s = sc_birth s0 \<Longrightarrow> n0 \<le> sc_ticks s \<Longrightarrow>
    sc_ticks s + (card (due T s) + 1) * (lim_reads L + 1) \<le> n0 + window L \<Longrightarrow>
    \<exists>s' n. run_expired sw s = Some s' \<and> calm s' \<and> few L s' \<and> sc_clock s' = sc_clock s0 \<and> sc_birth s' = sc_birth s0 \<and>
      (\<forall>y \<in> sleepers s'. elapsed s0 n < unat (sleep_key s' y))"
proof (induction "card (due T s)" arbitrary: s rule: less_induct)
  case less
  have inv: "sched_inv s" "all_live s" "apart s" using less.prems(1) by (simp_all add: calm_def)
  have same0: "elapsed s = elapsed s0" by (rule elapsed_same [OF less.prems(4,5)])
  obtain s1 r where s1: "nty_schedule_expired s = Some (s1, r)" "sched_inv s1" "sc_cos s1 = sc_cos s"
      "case r of
         None \<Rightarrow> sleepers s1 = sleepers s \<and> (\<forall>y \<in> sleepers s. sc_clock s (sc_ticks s) - sc_birth s < sleep_key s y)
       | Some co \<Rightarrow> co \<in> sleepers s \<and> sleep_key s co \<le> sc_clock s (sc_ticks s) - sc_birth s \<and>
           (\<forall>y \<in> sleepers s. sleep_key s co \<le> sleep_key s y) \<and> sleepers s1 = sleepers s - {co}"
    using expired_spec [OF inv(1)] by blast
  note same = expired_frame [OF s1(1)]
  have key: "sleep_key s1 = sleep_key s" using s1(3) by (simp add: sleep_key_def fun_eq_iff)
  show ?case
  proof (cases r)
    case None
    then have "run_expired sw s = Some s1" using s1(1) by (simp add: run_expired.simps)
    moreover have "calm s1" "few L s1" using inv s1 None same less.prems(2) by (simp_all add: calm_def all_live_def apart_def few_def)
    moreover have "\<forall>y \<in> sleepers s1. elapsed s (sc_ticks s) < unat (sleep_key s1 y)"
      using s1(4) None key by (simp add: elapsed_def word_less_nat_alt)
    ultimately show ?thesis using same same0 less.prems(4,5) by (intro exI [of _ s1] exI [of _ "sc_ticks s"]) simp
  next
    case (Some co)
    have "1 \<le> card (due T s) + 1" by simp
    then have budget: "sc_ticks s + 1 \<le> n0 + window L" using less.prems(7) by simp
    have "elapsed s (sc_ticks s) \<le> T" "elapsed s n0 \<le> elapsed s (sc_ticks s1)"
      using steadyD [OF less.prems(3), of n0 "sc_ticks s"] steadyD [OF less.prems(3), of n0 "sc_ticks s1"] less.prems(6) budget T same(5) same0
      by simp_all
    then have T': "elapsed s (sc_ticks s) \<le> T" "T \<le> elapsed s1 (sc_ticks s1) + lim_gap L"
      using T same0 elapsed_same [OF same(1,2)] by simp_all
    have co: "co \<in> sleepers s" "unat (sleep_key s co) \<le> T" "sleepers s1 = sleepers s - {co}"
      using s1(4) Some T'(1) by (auto simp: elapsed_def word_le_nat_alt)
    have calm1: "calm s1" using inv s1(2,3) same co(3) by (auto simp: calm_def all_live_def apart_def)
    have "co \<in> dom (sc_cos s1)" "co \<notin> set (sc_ready s1)"
      using sched_invD(3) [OF inv(1)] co(1) inv(3) s1(3) same(3) by (auto simp: apart_def)
    moreover have "few L s1" "steady L s1" using less.prems(2,3) s1(3) steady_same [OF same(1,2)] by (simp_all add: few_def)
    ultimately have "resumable L co s1" using calm_resumable [OF calm1] by blast
    then obtain s2 q where s2: "nty_coroutine_resume sw co s1 = Some (s2, q)" "hands_on L co s1 s2" "calm s2"
      using resume_ok [OF sw] by blast
    note keep = hands_on_keeps [OF s2(2) \<open>steady L s1\<close>]
    have ticks: "sc_ticks s2 \<le> sc_ticks s + 1 + lim_reads L" "n0 \<le> sc_ticks s2"
      using s2(2) same(5) less.prems(6) by (simp_all add: hands_on_def)
    have "due T s2 \<subseteq> due T s - {co}" using hands_on_due [OF s2(2) T'(2)] co(3) key by (auto simp: due_def)
    moreover have "co \<in> due T s" "finite (due T s)" using co by (simp_all add: due_def)
    ultimately have fewer: "card (due T s2) < card (due T s)"
      by (metis card_Diff1_less card_mono finite_Diff le_less_trans)
    then have "(card (due T s2) + 1) * (lim_reads L + 1) \<le> card (due T s) * (lim_reads L + 1)" by (intro mult_le_mono1) simp
    then have "sc_ticks s2 + (card (due T s2) + 1) * (lim_reads L + 1) \<le> n0 + window L"
      using ticks(1) less.prems(7) by simp
    from less.hyps [OF fewer s2(3) keep(3,4) _ _ ticks(2) this] keep(1,2) same(1,2) less.prems(4,5) obtain s' n where
      s': "run_expired sw s2 = Some s'" "calm s'" "few L s'" "sc_clock s' = sc_clock s0" "sc_birth s' = sc_birth s0"
      "\<forall>y \<in> sleepers s'. elapsed s0 n < unat (sleep_key s' y)" by auto
    have "run_expired sw s = Some s'" using s1(1) Some s2(1) s'(1) by (subst run_expired.simps) simp
    then show ?thesis using s'(2-6) by blast
  qed
qed

lemma run_expired_ok:
  assumes "cooperative L sw" "calm s" "few L s" "steady L s"
  shows "\<exists>s' n. run_expired sw s = Some s' \<and> calm s' \<and> few L s' \<and> sc_clock s' = sc_clock s \<and> sc_birth s' = sc_birth s \<and>
    (\<forall>y \<in> sleepers s'. elapsed s n < unat (sleep_key s' y))"
proof -
  let ?T = "elapsed s (sc_ticks s) + lim_gap L"
  have inv: "sched_inv s" using assms(2) by (simp add: calm_def)
  have "due ?T s \<subseteq> dom (sc_cos s)" using sched_invD(3) [OF inv] by (auto simp: due_def)
  then have "card (due ?T s) \<le> lim_live L"
    using card_mono [OF finite_live [OF inv], of "due ?T s"] assms(3) unfolding few_def by linarith
  then have "(card (due ?T s) + 1) * (lim_reads L + 1) \<le> window L" unfolding window_def by (intro mult_le_mono1) simp
  then show ?thesis using run_expired_within [OF assms(1), of ?T s "sc_ticks s", OF refl assms(2-4)] by simp
qed

lemma run_ready_ok:
  assumes sw: "cooperative L sw"
  shows "calm s \<Longrightarrow> few L s \<Longrightarrow> steady L s \<Longrightarrow> sc_ready s = cs @ ys \<Longrightarrow> cs \<noteq> [] \<Longrightarrow>
    \<exists>s'. run_ready sw (Some (last cs)) s = Some s' \<and> calm s' \<and> few L s' \<and> sc_clock s' = sc_clock s \<and> sc_birth s' = sc_birth s"
proof (induction cs arbitrary: s ys)
  case (Cons co cs)
  have inv: "sched_inv s" "all_live s" "apart s" using Cons.prems(1) by (simp_all add: calm_def)
  let ?s = "s\<lparr>sc_ready := cs @ ys\<rparr>"
  have co: "co \<in> dom (sc_cos s)" "distinct (co # cs @ ys)" using sched_invD(5,6) [OF inv(1)] Cons.prems(4) by auto
  then obtain c where c: "sc_cos s co = Some c" "\<not> has c ST_FDEOF" using inv(2) by (auto simp: all_live_def)
  have "calm ?s" using inv Cons.prems(4) by (auto simp: calm_def sched_inv_def all_live_def apart_def)
  moreover have "co \<in> dom (sc_cos ?s)" "co \<notin> set (sc_ready ?s)" "few L ?s" "steady L ?s" using co Cons.prems(2,3) by simp_all
  ultimately have "resumable L co ?s" by (rule calm_resumable)
  then obtain s1 r where s1: "nty_coroutine_resume sw co ?s = Some (s1, r)" "hands_on L co ?s s1" "calm s1"
    using resume_ok [OF sw] by blast
  have keep: "sc_clock s1 = sc_clock s" "sc_birth s1 = sc_birth s" "few L s1" "steady L s1"
    using hands_on_keeps [OF s1(2)] Cons.prems(3) by simp_all
  have step: "run_ready sw (Some (last (co # cs))) s =
      (if co = last (co # cs) then Some s1 else run_ready sw (Some (last (co # cs))) s1)"
    using Cons.prems(4) c s1(1) by (subst run_ready.simps) (simp add: Let_def)
  show ?case
  proof (cases "cs = []")
    case True
    then show ?thesis using step s1(3) keep by simp
  next
    case False
    then have "co \<noteq> last cs" using co(2) by (metis UnI1 distinct.simps(2) last_in_set set_append)
    moreover obtain zs where "sc_ready s1 = cs @ ys @ zs" using s1(2) by (auto simp: hands_on_def)
    ultimately show ?thesis using Cons.IH [OF s1(3) keep(3,4) _ False] step False keep(1,2) by auto
  qed
qed simp

lemma ready_round_ok:
  assumes "cooperative L sw" "calm s" "few L s" "steady L s"
  obtains s' where "ready_round sw s = Some s'" "calm s'" "few L s'" "sc_clock s' = sc_clock s" "sc_birth s' = sc_birth s"
proof (cases "sc_ready s = []")
  case True
  then show ?thesis using that [of s] assms(2,3) by (simp add: ready_round_def run_ready.simps)
next
  case False
  then show ?thesis using that run_ready_ok [OF assms, of "sc_ready s" "[]"] by (auto simp: ready_round_def)
qed

lemma schedule_epoll_ok:
  assumes "calm s"
  obtains t where "nty_schedule_epoll s = Some (s\<lparr>sc_ticks := Suc (sc_ticks s)\<rparr>, t)" "calm (s\<lparr>sc_ticks := Suc (sc_ticks s)\<rparr>)"
proof -
  have inv: "sched_inv s" using assms by (simp add: calm_def)
  have "calm (s\<lparr>sc_ticks := Suc (sc_ticks s)\<rparr>)" using assms by (simp add: calm_def sched_inv_def all_live_def apart_def)
  moreover have "\<exists>t. nty_schedule_epoll s = Some (s\<lparr>sc_ticks := Suc (sc_ticks s)\<rparr>, t)"
  proof (cases "RB_MIN (sc_sleeping s)")
    case None
    then show ?thesis by (simp add: nty_schedule_epoll_def nty_schedule_min_timeout_def usec_now_def Let_def)
  next
    case (Some co)
    then have "co \<in> dom (sc_cos s)" using rbn.mn_least [OF sched_invD(1) [OF inv]] sched_invD(3) [OF inv] by blast
    then show ?thesis using Some
      by (auto simp: nty_schedule_epoll_def nty_schedule_min_timeout_def usec_now_def Let_def)
  qed
  ultimately show ?thesis using that by blast
qed

text \<open>Events that the poller may report: descriptors that are waited for, each one once, closed by the peer or not.\<close>

definition reported :: "(int \<times> bool) list \<Rightarrow> sched \<Rightarrow> bool" where
  "reported evs s \<longleftrightarrow> distinct (map fst evs) \<and> fst ` set evs \<subseteq> wait_key s ` waiters s"

lemma run_events_ok:
  assumes sw: "cooperative L sw"
  shows "calm s \<Longrightarrow> few L s \<Longrightarrow> steady L s \<Longrightarrow> reported evs s \<Longrightarrow>
    \<exists>s'. run_events sw evs s = Some s' \<and> calm s' \<and> few L s' \<and> sc_clock s' = sc_clock s \<and> sc_birth s' = sc_birth s"
proof (induction evs arbitrary: s)
  case (Cons e evs)
  obtain fd hup where e: "e = (fd, hup)" by (cases e)
  have inv: "sched_inv s" "all_live s" "apart s" using Cons.prems(1) by (simp_all add: calm_def)
  obtain co where co: "co \<in> waiters s" "wait_key s co = fd" using Cons.prems(4) e by (auto simp: reported_def)
  then have find: "find_wait fd s = Some co" using find_wait_iff(1) [OF inv(1)] by blast
  obtain c where c: "sc_cos s co = Some c" using sched_invD(4) [OF inv(1)] co(1) by blast
  let ?c = "c\<lparr>co_status := if hup then BIT ST_FDEOF else 0\<rparr>"
  let ?s = "s\<lparr>sc_cos := (sc_cos s)(co \<mapsto> ?c)\<rparr>"
  have search: "do { (s, co) \<leftarrow> nty_schedule_search_wait fd s;
      s \<leftarrow> (if hup then upd_co co (\<lambda>c. c\<lparr>co_status := co_status c OR BIT ST_FDEOF\<rparr>) s else Some s);
      nty_coroutine_resume sw co s } = nty_coroutine_resume sw co ?s"
    using find c by (simp add: nty_schedule_search_wait_def upd_co_def)
  have "sched_inv ?s" using sched_inv_upd [OF inv(1) c] by simp
  moreover have "apart ?s" "all_live (?s\<lparr>sc_cos := (sc_cos ?s)(co := None)\<rparr>)" using inv(2,3) by (simp_all add: all_live_def)
  moreover have "co \<notin> set (sc_ready ?s)" using inv(3) co(1) by (auto simp: apart_def)
  moreover have "\<not> has ?c ST_EXITED" by (simp add: BIT_def)
  moreover have "few L ?s" "steady L ?s" using few_upd [OF Cons.prems(2), of co] c Cons.prems(3) by auto
  ultimately have "resumable L co ?s" using co(1) unfolding resumable_def by simp
  then obtain s1 r where s1: "nty_coroutine_resume sw co ?s = Some (s1, r)" "hands_on L co ?s s1" "calm s1"
    using resume_ok [OF sw] by blast
  have keep: "sc_clock s1 = sc_clock s" "sc_birth s1 = sc_birth s" "few L s1" "steady L s1"
    using hands_on_keeps [OF s1(2)] \<open>steady L ?s\<close> by simp_all
  have key: "wait_key ?s = wait_key s" using c by (auto simp: wait_key_def fun_eq_iff)
  have "fd' \<in> wait_key s1 ` waiters s1" if "fd' \<in> fst ` set evs" for fd'
  proof -
    have "fd' \<in> wait_key s ` waiters s" using Cons.prems(4) that unfolding reported_def by auto
    then obtain y where y: "y \<in> waiters s" "wait_key s y = fd'" by (elim imageE) simp
    have "fd \<notin> fst ` set evs" using Cons.prems(4) e by (simp add: reported_def)
    then have "fd' \<noteq> fd" using that by blast
    with y have "y \<in> waiters ?s - {co}" using co(2) by auto
    then have "y \<in> waiters s1" "wait_key s1 y = fd'" using s1(2) y(2) unfolding hands_on_def key by auto
    then show ?thesis by force
  qed
  then have "reported evs s1" using Cons.prems(4) unfolding reported_def by auto
  from Cons.IH [OF s1(3) keep(3,4) this] obtain s' where
    s': "run_events sw evs s1 = Some s'" "calm s'" "few L s'" "sc_clock s' = sc_clock s1" "sc_birth s' = sc_birth s1" by blast
  have "run_events sw (e # evs) s = do { (s, _) \<leftarrow> do { (s, co) \<leftarrow> nty_schedule_search_wait fd s;
      s \<leftarrow> (if hup then upd_co co (\<lambda>c. c\<lparr>co_status := co_status c OR BIT ST_FDEOF\<rparr>) s else Some s);
      nty_coroutine_resume sw co s }; run_events sw evs s }"
    by (simp add: e bind_assoc case_prod_unfold)
  then show ?case unfolding search using s1(1) s' keep by simp
qed simp

section \<open>Properties\<close>

text \<open>A turn up to the events, and what the poller may report over several turns.\<close>

definition turn_polls :: "(cid \<Rightarrow> sched \<Rightarrow> sched option) \<Rightarrow> sched \<Rightarrow> sched option" where
  "turn_polls sw s = do {
     s \<leftarrow> run_expired sw s;
     s \<leftarrow> ready_round sw s;
     (s, _) \<leftarrow> nty_schedule_epoll s;
     Some s }"

fun poller_ok :: "(cid \<Rightarrow> sched \<Rightarrow> sched option) \<Rightarrow> (int \<times> bool) list list \<Rightarrow> sched \<Rightarrow> bool" where
  "poller_ok sw [] s = True"
| "poller_ok sw (evs # rest) s =
     ((case turn_polls sw s of None \<Rightarrow> True | Some s1 \<Rightarrow> reported evs s1) \<and>
      (case schedule_turn sw evs s of None \<Rightarrow> True | Some s1 \<Rightarrow> poller_ok sw rest s1))"

lemma schedule_turn_ok:
  assumes sw: "cooperative L sw" and calm: "calm s" and lim: "few L s" "steady L s"
    and evs: "case turn_polls sw s of None \<Rightarrow> True | Some s1 \<Rightarrow> reported evs s1"
  obtains s' where "schedule_turn sw evs s = Some s'" "calm s'" "few L s'" "sc_clock s' = sc_clock s" "sc_birth s' = sc_birth s"
proof -
  obtain s1 where s1: "run_expired sw s = Some s1" "calm s1" "few L s1" "sc_clock s1 = sc_clock s" "sc_birth s1 = sc_birth s"
    using run_expired_ok [OF sw calm lim] by blast
  have st1: "steady L s1" using lim(2) steady_same [OF s1(4,5)] by simp
  obtain s2 where s2: "ready_round sw s1 = Some s2" "calm s2" "few L s2" "sc_clock s2 = sc_clock s1" "sc_birth s2 = sc_birth s1"
    using ready_round_ok [OF sw s1(2,3) st1] .
  let ?s3 = "s2\<lparr>sc_ticks := Suc (sc_ticks s2)\<rparr>"
  obtain t where s3: "nty_schedule_epoll s2 = Some (?s3, t)" "calm ?s3" using schedule_epoll_ok [OF s2(2)] .
  have lim3: "few L ?s3" "steady L ?s3" using s2(3) st1 steady_same [OF s2(4,5)] by simp_all
  have "reported evs ?s3" using evs s1(1) s2(1) s3(1) by (simp add: turn_polls_def)
  then have "reported (rev evs) ?s3" by (simp add: reported_def rev_map [symmetric])
  from run_events_ok [OF sw s3(2) lim3 this] obtain s4 where
    s4: "run_events sw (rev evs) ?s3 = Some s4" "calm s4" "few L s4" "sc_clock s4 = sc_clock s2" "sc_birth s4 = sc_birth s2" by auto
  show thesis
  proof (cases t)
    case None
    then show thesis using that [of ?s3] s1 s2 s3 lim3 by (simp add: schedule_turn_def)
  next
    case (Some a)
    then show thesis using that [of s4] s1 s2 s3 s4 by (simp add: schedule_turn_def)
  qed
qed

text \<open>
  C22: the main loop keeps the scheduler well formed and every turn ends.  The bodies of the
  coroutines keep to the contract \<open>cooperative\<close> within the limits: a coroutine that ends waits for nothing, one that goes on has
  cleared the mark for EPOLLHUP, the others keep their places in the waiting tree, and each timer runs for longer than the clock
  moves while every live coroutine is resumed once.  The poller reports descriptors that are waited for, closed ones or not.  Then any
  number of turns returns, although timers that bodies set expire in later turns and expired ones are served until
  none is left: none reads a freed
  coroutine, puts one into a queue or a tree twice, or fails an assertion.
\<close>

theorem schedule_run_returns:
  assumes "cooperative L sw" "calm s" "few L s" "steady L s" "poller_ok sw evss s"
  shows "\<exists>s'. nty_schedule_run sw evss s = Some s' \<and> calm s' \<and> few L s'"
  using assms(2-)
proof (induction evss arbitrary: s)
  case (Cons evs evss)
  obtain s1 where s1: "schedule_turn sw evs s = Some s1" "calm s1" "few L s1" "sc_clock s1 = sc_clock s" "sc_birth s1 = sc_birth s"
    using schedule_turn_ok [OF assms(1) Cons.prems(1-3)] Cons.prems(4) by auto
  moreover have "steady L s1" using Cons.prems(3) steady_same [OF s1(4,5)] by simp
  ultimately show ?case using Cons.IH [OF s1(2,3)] Cons.prems by auto
qed simp

text \<open>A body that sleeps ten milliseconds again and again; where it waits for a descriptor it first stops to.\<close>

definition nap_body :: "cid \<Rightarrow> sched \<Rightarrow> sched option" where
  "nap_body co s = do {
     c \<leftarrow> sc_cos s co;
     s \<leftarrow> (if co \<in> waiters s then map_option fst (nty_schedule_desched_wait (co_fd c) s) else Some s);
     (s, _) \<leftarrow> nty_coroutine_sleep 10 s;
     nty_coroutine_yield co s }"

definition two_naps :: limits where
  "two_naps = \<lparr>lim_live = 2, lim_reads = 1, lim_gap = 9999, lim_last = 1000000\<rparr>"

lemma sleep_insert_frame:
  assumes "sleep_insert co s = Some s'"
  shows "sc_clock s' = sc_clock s \<and> sc_birth s' = sc_birth s \<and> sc_ticks s' = sc_ticks s"
  by (rule sleep_insert.raw_induct [where P = "\<lambda>co s s'. sc_clock s' = sc_clock s \<and> sc_birth s' = sc_birth s \<and> sc_ticks s' = sc_ticks s",
        OF _ assms])
    (fastforce simp: upd_co_def split: Option.bind_splits option.splits prod.splits)

lemma sleepdown_frame:
  assumes "nty_schedule_sched_sleepdown co msecs s = Some s'"
  shows "sc_clock s' = sc_clock s" "sc_birth s' = sc_birth s" "sc_ticks s' = Suc (sc_ticks s)"
  using assms
  by (auto simp: nty_schedule_sched_sleepdown_def usec_now_def upd_co_def Let_def dest!: sleep_insert_frame
      split: Option.bind_splits option.splits if_splits)

text \<open>The body stops to wait, if it does: its mark is gone, and nothing else has changed.\<close>

lemma nap_desched:
  assumes "sched_inv s" "sc_cos s co = Some c" "has c ST_FDEOF \<longrightarrow> co \<in> waiters s" "\<not> has c ST_EXITED"
  obtains t d where "(if co \<in> waiters s then map_option fst (nty_schedule_desched_wait (co_fd c) s) else Some s) =
      Some (s\<lparr>sc_waiting := t, sc_cos := (sc_cos s)(co \<mapsto> d)\<rparr>)"
    "sched_inv (s\<lparr>sc_waiting := t, sc_cos := (sc_cos s)(co \<mapsto> d)\<rparr>)" "set (inorder t) = waiters s - {co}"
    "co_sleep d = co_sleep c" "\<not> has d ST_FDEOF" "\<not> has d ST_EXITED"
proof (cases "co \<in> waiters s")
  case True
  then obtain t where t: "nty_schedule_desched_wait (co_fd c) s =
      Some (s\<lparr>sc_waiting := t, sc_cos := (sc_cos s)(co \<mapsto> c\<lparr>co_status := 0\<rparr>)\<rparr>, co)"
      "set (inorder t) = waiters s - {co}" "sched_inv (s\<lparr>sc_waiting := t, sc_cos := (sc_cos s)(co \<mapsto> c\<lparr>co_status := 0\<rparr>)\<rparr>)"
    using desched_wait_run [OF assms(1) _ assms(2) refl] by blast
  then show thesis using True by (intro that [of "c\<lparr>co_status := 0\<rparr>" t]) simp_all
next
  case False
  moreover have "s\<lparr>sc_waiting := sc_waiting s, sc_cos := (sc_cos s)(co \<mapsto> c)\<rparr> = s" using assms(2) by (simp add: map_upd_triv)
  ultimately show thesis using assms by (intro that [of c "sc_waiting s"]) (simp_all add: map_upd_triv)
qed

lemma nap_cooperative: "cooperative two_naps nap_body"
  unfolding cooperative_def
proof (intro allI impI)
  fix co s
  assume a: "resumable two_naps co s \<and> sc_curr s = Some co"
  then have inv: "sched_inv s" "apart s" "all_live (s\<lparr>sc_cos := (sc_cos s)(co := None)\<rparr>)" "co \<notin> set (sc_ready s)"
      "few two_naps s" "steady two_naps s" "sc_curr s = Some co"
    by (simp_all add: resumable_def)
  obtain c where c: "sc_cos s co = Some c" "\<not> has c ST_EXITED" "has c ST_FDEOF \<longrightarrow> co \<in> waiters s"
    using a unfolding resumable_def by blast
  obtain t d where d: "(if co \<in> waiters s then map_option fst (nty_schedule_desched_wait (co_fd c) s) else Some s) =
      Some (s\<lparr>sc_waiting := t, sc_cos := (sc_cos s)(co \<mapsto> d)\<rparr>)"
    "sched_inv (s\<lparr>sc_waiting := t, sc_cos := (sc_cos s)(co \<mapsto> d)\<rparr>)" "set (inorder t) = waiters s - {co}"
    "co_sleep d = co_sleep c" "\<not> has d ST_FDEOF" "\<not> has d ST_EXITED"
    using nap_desched [OF inv(1) c(1,3,2)] .
  let ?s1 = "s\<lparr>sc_waiting := t, sc_cos := (sc_cos s)(co \<mapsto> d)\<rparr>"
  have "card (sleepers s) \<le> 2"
    using card_mono [OF finite_live [OF inv(1)] sched_invD(3) [OF inv(1)]] inv(5) by (simp add: few_def two_naps_def)
  then have card: "card (sleepers ?s1) \<le> 2" by simp
  have cd: "sc_cos ?s1 co = Some d" "card (sleepers ?s1) < 2 ^ 64" "(10 :: 64 word) \<noteq> 0" using card by simp_all
  obtain s2 n where s2: "nty_schedule_sched_sleepdown co 10 ?s1 = Some s2" "sched_inv s2"
      "sleepers s2 = insert co {y \<in> sleepers ?s1. sleep_key ?s1 y \<noteq> co_sleep d}" "n \<le> card (sleepers ?s1)"
      "sleep_key s2 co = (sc_clock ?s1 (sc_ticks ?s1) - sc_birth ?s1) + 10 * 1000 + of_nat n"
      "\<forall>y. y \<noteq> co \<longrightarrow> sc_cos s2 y = sc_cos ?s1 y" "sc_waiting s2 = sc_waiting ?s1" "sc_ready s2 = sc_ready ?s1"
      "sc_cos s2 co = Some (d\<lparr>co_sleep := sleep_key s2 co, co_status := co_status d OR BIT ST_SLEEPING\<rparr>)"
    using sleepdown_spec [OF d(2) cd(1,3,2)] by blast
  note frame = sleepdown_frame [OF s2(1)]
  let ?e = "d\<lparr>co_sleep := sleep_key s2 co, co_status := co_status d OR BIT ST_SLEEPING\<rparr>"
  let ?s3 = "s2\<lparr>sc_cos := (sc_cos s2)(co \<mapsto> ?e\<lparr>co_ops := 0\<rparr>)\<rparr>"
  have run: "nap_body co s = Some ?s3"
    using c(1) d(1) s2(1,9) inv(7) by (simp add: nap_body_def nty_coroutine_sleep_def nty_coroutine_yield_def upd_co_def)
  have inv3: "sched_inv ?s3" using sched_inv_upd [OF s2(2,9)] by simp
  have old: "sleep_key ?s3 y = sleep_key s y" "wait_key ?s3 y = wait_key s y" if "y \<noteq> co" for y
    using s2(6) that by (simp_all add: sleep_key_def wait_key_def)
  have "elapsed s (sc_ticks s) \<le> 1000000" using inv(6) by (simp add: steady_def two_naps_def)
  then have "unat ((sc_clock s (sc_ticks s) - sc_birth s) + 10 * 1000 + of_nat n) = elapsed s (sc_ticks s) + 10000 + n"
    using s2(4) card by (simp add: elapsed_def unat_word_ariths unat_of_nat)
  then have late: "elapsed s (sc_ticks s) + lim_gap two_naps < unat (sleep_key ?s3 co)"
    using s2(5) by (simp add: sleep_key_def two_naps_def)
  have dom: "dom (sc_cos ?s3) = dom (sc_cos s)" using s2(6,9) c(1) by (auto split: if_splits)
  have "hands_on two_naps co s ?s3"
    unfolding hands_on_def
  proof (intro conjI)
    show "apart ?s3" using inv(2,4) s2(3,7,8) d(3) by (auto simp: apart_def)
    show "\<forall>y \<in> sleepers ?s3. y \<in> sleepers s \<and> sleep_key ?s3 y = sleep_key s y \<or>
        elapsed s (sc_ticks s) + lim_gap two_naps < unat (sleep_key ?s3 y)"
    proof
      fix y
      assume "y \<in> sleepers ?s3"
      then have "y = co \<or> y \<noteq> co \<and> y \<in> sleepers s" using s2(3) by auto
      then show "y \<in> sleepers s \<and> sleep_key ?s3 y = sleep_key s y \<or>
          elapsed s (sc_ticks s) + lim_gap two_naps < unat (sleep_key ?s3 y)"
        using late old(1) by blast
    qed
    show "waiters s - {co} \<subseteq> waiters ?s3" "\<forall>y \<in> waiters s - {co}. wait_key ?s3 y = wait_key s y"
      using s2(7) d(3) old(2) by simp_all
    show "few two_naps ?s3" using inv(5) dom by (simp add: few_def)
  qed (use inv3 dom s2(8) frame in \<open>simp_all add: two_naps_def\<close>)
  moreover have "(sc_cos ?s3)(co := None) = (sc_cos s)(co := None)" using s2(6) by (auto simp: fun_eq_iff)
  then have "all_live (?s3\<lparr>sc_cos := (sc_cos ?s3)(co := None)\<rparr>)" using inv(3) by (simp add: all_live_def)
  moreover have "\<not> has (?e\<lparr>co_ops := 0\<rparr>) ST_EXITED" "\<not> has (?e\<lparr>co_ops := 0\<rparr>) ST_FDEOF"
    using d(5,6) by (simp_all add: BIT_def bit.conj_disj_distrib2)
  ultimately show "\<exists>s' c. nap_body co s = Some s' \<and> hands_on two_naps co s s' \<and> all_live (s'\<lparr>sc_cos := (sc_cos s')(co := None)\<rparr>) \<and>
      sc_cos s' co = Some c \<and> (if has c ST_EXITED then has c ST_DETACH \<and> co \<notin> sleepers s' \<union> waiters s' \<union> set (sc_ready s')
       else \<not> has c ST_FDEOF)"
    using run by (intro exI [of _ ?s3] exI [of _ "?e\<lparr>co_ops := 0\<rparr>"]) simp
qed

text \<open>
  Coroutine 1 waits for descriptor 7, whose peer closes in the first turn, and coroutine 2 sleeps; a millisecond passes between two
  readings of the clock, for a thousand of them, so that the timers expire again and again.
\<close>

definition napping :: sched where
  "napping = two_coros\<lparr>sc_curr := None, sc_sleeping := Nd BLACK Lf 2 Lf, sc_waiting := Nd BLACK Lf 1 Lf,
     sc_clock := (\<lambda>n. of_nat (1000 * min n 1000))\<rparr>"

lemma idle_poller: "poller_ok sw (replicate n []) s"
  by (induction n arbitrary: s) (auto simp: reported_def split: option.splits)

theorem schedule_run_returns_witness:
  "\<forall>n. \<exists>s'. nty_schedule_run nap_body ([(7, True)] # replicate n []) napping = Some s' \<and> calm s'"
proof
  fix n
  have calm: "calm napping"
    by (auto simp: calm_def napping_def sched_inv_def two_coros_def rb_inv_by_def is_rbt_def ordered_def
        all_live_def coro_at_def BIT_def apart_def split: if_splits)
  have few: "few two_naps napping" by (simp add: few_def two_naps_def napping_def two_coros_def)
  have el: "elapsed napping n = 1000 * min n 1000" for n
  proof -
    have "1000 * min n 1000 < (2 :: nat) ^ 64" by (simp add: min_def)
    then have "unat (of_nat (1000 * min n 1000) :: 64 word) = 1000 * min n 1000" by (simp only: unat_of_nat) simp
    then show ?thesis by (simp add: elapsed_def napping_def two_coros_def)
  qed
  have steady: "steady two_naps napping" unfolding steady_def el by (auto simp: window_def two_naps_def min_def)
  have "run_expired nap_body napping = Some (napping\<lparr>sc_ticks := 1\<rparr>)"
    by (subst run_expired.simps) (simp add: nty_schedule_expired_def usec_now_def RB_MIN_hd diff_usecs_def Let_def napping_def two_coros_def
      coro_at_def)
  moreover have "ready_round nap_body (napping\<lparr>sc_ticks := 1\<rparr>) = Some (napping\<lparr>sc_ticks := 1\<rparr>)"
    by (simp add: ready_round_def run_ready.simps napping_def two_coros_def)
  moreover have "\<exists>t. nty_schedule_epoll (napping\<lparr>sc_ticks := 1\<rparr>) = Some (napping\<lparr>sc_ticks := 2\<rparr>, t)"
    by (simp add: nty_schedule_epoll_def nty_schedule_min_timeout_def usec_now_def RB_MIN_hd Let_def napping_def two_coros_def coro_at_def)
  ultimately have "turn_polls nap_body napping = Some (napping\<lparr>sc_ticks := 2\<rparr>)" by (auto simp: turn_polls_def)
  moreover have "reported [(7, True)] (napping\<lparr>sc_ticks := 2\<rparr>)"
    by (simp add: reported_def napping_def two_coros_def coro_at_def wait_key_def)
  ultimately have "poller_ok nap_body ([(7, True)] # replicate n []) napping"
    by (simp add: idle_poller split: option.splits)
  then show "\<exists>s'. nty_schedule_run nap_body ([(7, True)] # replicate n []) napping = Some s' \<and> calm s'"
    using schedule_run_returns [OF nap_cooperative calm few steady] by blast
qed

text \<open>
  C23: \<open>nty_coroutine_sleep\<close> sets a timer and returns at once, it does not yield.  A coroutine whose
  last call it is ends with the timer running: \<open>nty_coroutine_resume\<close> frees it while the sleeping tree
  still holds it, and the next turn of the main loop reads the freed memory.
\<close>

theorem sleep_then_exit_dangles:
  assumes "sched_inv s" "sc_cos s co = Some c" "sleepers s = {}" "msecs \<noteq> 0"
    "\<And>co s. sw co s = do { (s, _) \<leftarrow> nty_coroutine_sleep msecs s; exec_return co s }"
  shows "\<exists>s'. nty_coroutine_resume sw co s = Some (s', -1) \<and> co \<in> sleepers s' \<and> sc_cos s' co = None \<and>
    nty_schedule_run sw (evs # evss) s' = None"
proof -
  let ?c = "if has c ST_NEW then c\<lparr>co_status := BIT ST_READY\<rparr> else c"
  let ?s = "s\<lparr>sc_cos := (sc_cos s)(co \<mapsto> ?c), sc_curr := Some co\<rparr>"
  have init: "(if has c ST_NEW then nty_coroutine_init co s else Some s) = Some (s\<lparr>sc_cos := (sc_cos s)(co \<mapsto> ?c)\<rparr>)"
    using assms(2) by (auto simp: nty_coroutine_init_def upd_co_def map_upd_triv)
  have "sched_inv (s\<lparr>sc_cos := (sc_cos s)(co \<mapsto> ?c)\<rparr>)" using sched_inv_upd [OF assms(1,2)] by simp
  then have "sched_inv ?s" by simp
  from sleepdown_spec [OF this, of co ?c msecs] assms(3,4) obtain s1 where
    s1: "nty_schedule_sched_sleepdown co msecs ?s = Some s1" "sleepers s1 = {co}" "sched_inv s1"
      "sc_cos s1 co = Some (?c\<lparr>co_sleep := sleep_key s1 co, co_status := co_status ?c OR BIT ST_SLEEPING\<rparr>)"
    by auto
  let ?d = "?c\<lparr>co_sleep := sleep_key s1 co, co_status := (co_status ?c OR BIT ST_SLEEPING) OR
      ((BIT ST_EXITED OR BIT ST_FDEOF) OR BIT ST_DETACH), co_ops := 0\<rparr>"
  have sw: "sw co ?s = Some (s1\<lparr>sc_cos := (sc_cos s1)(co \<mapsto> ?d)\<rparr>)"
    using s1(1,4) assms(4,5)
    by (simp add: nty_coroutine_sleep_def exec_return_def nty_coroutine_yield_def upd_co_def)
  have bits: "has ?d ST_DETACH" "has ?d ST_EXITED"
    by (simp_all add: BIT_def bit.conj_disj_distrib2 or_eq_0_iff)
  let ?s' = "s1\<lparr>sc_curr := None, sc_spawned := sc_spawned s1 - 1, sc_cos := (sc_cos s1)(co := None)\<rparr>"
  have "nty_coroutine_resume sw co s = Some (?s', -1)"
    using assms(2) sw bits by (simp add: nty_coroutine_resume_def init nty_coroutine_free_def)
  moreover have "RB_MIN (sc_sleeping s1) = Some co"
  proof (cases "RB_MIN (sc_sleeping s1)")
    case None
    then show ?thesis using rbn.mn_none [OF sched_invD(1) [OF s1(3)]] s1(2) by simp
  next
    case (Some x)
    then show ?thesis using rbn.mn_least [OF sched_invD(1) [OF s1(3)]] s1(2) by auto
  qed
  then have "nty_schedule_expired ?s' = None" by (simp add: nty_schedule_expired_def usec_now_def Let_def)
  then have "schedule_turn sw evs ?s' = None" by (simp add: schedule_turn_def run_expired.simps)
  moreover have "\<not> nty_schedule_isdone ?s'"
    using s1(2) by (auto simp: nty_schedule_isdone_def RB_EMPTY_def)
  ultimately show ?thesis using s1(2) by (intro exI [of _ ?s']) simp
qed

theorem sleep_then_exit_dangles_witness:
  "\<exists>s s'. nty_coroutine_resume (\<lambda>co s. do { (s, _) \<leftarrow> nty_coroutine_sleep 10 s; exec_return co s }) 2 s = Some (s', -1) \<and>
    sc_cos s' 2 = None \<and> 2 \<in> sleepers s'"
proof -
  let ?s = "two_coros\<lparr>sc_sleeping := Lf\<rparr>"
  have "sched_inv ?s" by (auto simp: sched_inv_def two_coros_def rb_inv_by_def is_rbt_def ordered_def)
  moreover have "sc_cos ?s 2 = Some (coro_at 5000)" "sleepers ?s = {}" by (simp_all add: two_coros_def)
  ultimately show ?thesis using sleep_then_exit_dangles [of ?s 2 "coro_at 5000" 10, OF _ _ _ _ refl, of "[]" "[]"] by auto
qed

end
