(* ===== verification/NTY_Splay.thy ===== *)
theory NTY_Splay
  imports NTY_Tree
begin

text \<open>
  The splay macros of nty_tree.h.  The top-down splay hangs the parts it passes into two trees that
  grow at one end; the trees under construction are the lists \<open>ls\<close> and \<open>rs\<close> of what was linked,
  the latest first, and \<open>SPLAY_ASSEMBLE\<close> closes them.
\<close>

section \<open>Operations\<close>

datatype 'e splay = SL | SN "'e splay" 'e "'e splay"

text \<open>\<open>SPLAY_LINKRIGHT\<close> appends to the left tree, \<open>SPLAY_LINKLEFT\<close> to the right one.\<close>

fun close_left :: "('e splay \<times> 'e) list \<Rightarrow> 'e splay \<Rightarrow> 'e splay" where
  "close_left [] t = t"
| "close_left ((l, e) # ls) t = close_left ls (SN l e t)"

fun close_right :: "('e \<times> 'e splay) list \<Rightarrow> 'e splay \<Rightarrow> 'e splay" where
  "close_right [] t = t"
| "close_right ((e, r) # rs) t = close_right rs (SN t e r)"

definition SPLAY_ASSEMBLE ::
  "('e splay \<times> 'e) list \<Rightarrow> ('e \<times> 'e splay) list \<Rightarrow> 'e splay \<Rightarrow> 'e \<Rightarrow> 'e splay \<Rightarrow> 'e splay" where
  "SPLAY_ASSEMBLE ls rs l e r = SN (close_left ls l) e (close_right rs r)"

text \<open>The loop of \<open>SPLAY\<close>; \<open>c e\<close> compares the searched node with \<open>e\<close>.\<close>

fun splay_loop ::
  "('e \<Rightarrow> int) \<Rightarrow> ('e splay \<times> 'e) list \<Rightarrow> ('e \<times> 'e splay) list \<Rightarrow> 'e splay \<Rightarrow> 'e splay" where
  "splay_loop c ls rs SL = SL"
| "splay_loop c ls rs (SN l e r) =
     (if c e = 0 then SPLAY_ASSEMBLE ls rs l e r
      else if c e < 0
      then (case l of
              SL \<Rightarrow> SPLAY_ASSEMBLE ls rs l e r
            | SN ll le lr \<Rightarrow>
                if c le < 0
                then (if ll = SL then SPLAY_ASSEMBLE ls rs ll le (SN lr e r)
                      else splay_loop c ls ((le, SN lr e r) # rs) ll)
                else splay_loop c ls ((e, r) # rs) l)
      else (case r of
              SL \<Rightarrow> SPLAY_ASSEMBLE ls rs l e r
            | SN rl re rr \<Rightarrow>
                if c re > 0
                then (if rr = SL then SPLAY_ASSEMBLE ls rs (SN l e rl) re rr
                      else splay_loop c ((SN l e rl, re) # ls) rs rr)
                else splay_loop c ((l, e) # ls) rs r))"

text \<open>\<open>SPLAY\<close> on a non-empty tree; the callers test for emptiness.\<close>

definition SPLAY :: "('e \<Rightarrow> int) \<Rightarrow> 'e splay \<Rightarrow> 'e splay" where
  "SPLAY c t = splay_loop c [] [] t"

definition SPLAY_FIND :: "('e \<Rightarrow> 'e \<Rightarrow> int) \<Rightarrow> 'e \<Rightarrow> 'e splay \<Rightarrow> 'e splay \<times> 'e option" where
  "SPLAY_FIND cmp x t =
     (case t of
        SL \<Rightarrow> (t, None)
      | _ \<Rightarrow> (case SPLAY (cmp x) t of
                SN l e r \<Rightarrow> (SN l e r, if cmp x e = 0 then Some e else None)
              | SL \<Rightarrow> (SL, None)))"

definition SPLAY_INSERT :: "('e \<Rightarrow> 'e \<Rightarrow> int) \<Rightarrow> 'e \<Rightarrow> 'e splay \<Rightarrow> 'e splay \<times> 'e option" where
  "SPLAY_INSERT cmp x t =
     (case t of
        SL \<Rightarrow> (SN SL x SL, None)
      | _ \<Rightarrow> (case SPLAY (cmp x) t of
                SN l e r \<Rightarrow>
                  if cmp x e < 0 then (SN l x (SN SL e r), None)
                  else if cmp x e > 0 then (SN (SN l e SL) x r, None)
                  else (SN l e r, Some e)
              | SL \<Rightarrow> (SL, None)))"

definition SPLAY_REMOVE :: "('e \<Rightarrow> 'e \<Rightarrow> int) \<Rightarrow> 'e \<Rightarrow> 'e splay \<Rightarrow> 'e splay \<times> 'e option" where
  "SPLAY_REMOVE cmp x t =
     (case t of
        SL \<Rightarrow> (t, None)
      | _ \<Rightarrow> (case SPLAY (cmp x) t of
                SN l e r \<Rightarrow>
                  if cmp x e = 0
                  then (case l of
                          SL \<Rightarrow> (r, Some x)
                        | _ \<Rightarrow> (case SPLAY (cmp x) l of
                                  SN l' e' r' \<Rightarrow> (SN l' e' r, Some x)
                                | SL \<Rightarrow> (SL, None)))
                  else (SN l e r, None)
              | SL \<Rightarrow> (SL, None)))"

text \<open>\<open>SPLAY_MINMAX\<close>: the same loop with the fixed comparison result \<open>v\<close>, which is not 0.\<close>

definition SPLAY_MINMAX :: "int \<Rightarrow> 'e splay \<Rightarrow> 'e splay" where
  "SPLAY_MINMAX v t = splay_loop (\<lambda>_. v) [] [] t"

definition SPLAY_MIN_MAX :: "'e splay \<Rightarrow> int \<Rightarrow> 'e splay \<times> 'e option" where
  "SPLAY_MIN_MAX t v =
     (case t of SL \<Rightarrow> (t, None)
      | _ \<Rightarrow> (case SPLAY_MINMAX v t of SN l e r \<Rightarrow> (SN l e r, Some e) | SL \<Rightarrow> (SL, None)))"

text \<open>\<open>SPLAY_NEXT\<close> of a node of the tree: the leftmost node to the right of the splayed root.\<close>

fun sleftmost :: "'e \<Rightarrow> 'e splay \<Rightarrow> 'e" where
  "sleftmost e SL = e"
| "sleftmost e (SN l e' r) = sleftmost e' l"

definition SPLAY_NEXT :: "('e \<Rightarrow> 'e \<Rightarrow> int) \<Rightarrow> 'e \<Rightarrow> 'e splay \<Rightarrow> 'e splay \<times> 'e option" where
  "SPLAY_NEXT cmp x t =
     (case SPLAY (cmp x) t of
        SN l e r \<Rightarrow> (SN l e r, case r of SL \<Rightarrow> None | SN rl re rr \<Rightarrow> Some (sleftmost re rl))
      | SL \<Rightarrow> (SL, None))"

section \<open>The sequence of a splay tree\<close>

fun sinorder :: "'e splay \<Rightarrow> 'e list" where
  "sinorder SL = []"
| "sinorder (SN l e r) = sinorder l @ e # sinorder r"

definition left_seq :: "('e splay \<times> 'e) list \<Rightarrow> 'e list" where
  "left_seq ls = concat (map (\<lambda>(l, e). sinorder l @ [e]) (rev ls))"

definition right_seq :: "('e \<times> 'e splay) list \<Rightarrow> 'e list" where
  "right_seq rs = concat (map (\<lambda>(e, r). e # sinorder r) rs)"

lemma seq_simps [simp]:
  "left_seq [] = []" "right_seq [] = []"
  "left_seq ((l, e) # ls) = left_seq ls @ sinorder l @ [e]"
  "right_seq ((e, r) # rs) = e # sinorder r @ right_seq rs"
  by (simp_all add: left_seq_def right_seq_def)

lemma close_left_seq: "sinorder (close_left ls t) = left_seq ls @ sinorder t"
  by (induction ls t rule: close_left.induct) simp_all

lemma close_right_seq: "sinorder (close_right rs t) = sinorder t @ right_seq rs"
  by (induction rs t rule: close_right.induct) simp_all

lemma assemble_seq:
  "sinorder (SPLAY_ASSEMBLE ls rs l e r) = left_seq ls @ sinorder l @ e # sinorder r @ right_seq rs"
  by (simp add: SPLAY_ASSEMBLE_def close_left_seq close_right_seq)

declare splay_loop.simps(2) [simp del]

lemma splay_loop_seq:
  "t \<noteq> SL \<Longrightarrow> sinorder (splay_loop c ls rs t) = left_seq ls @ sinorder t @ right_seq rs"
proof (induction c ls rs t rule: splay_loop.induct)
  case (2 c ls rs l e r)
  from 2(1-4) show ?case
    by (subst splay_loop.simps(2)) (auto simp: assemble_seq split: splay.split)
qed simp

lemma splay_loop_root: "t \<noteq> SL \<Longrightarrow> splay_loop c ls rs t \<noteq> SL"
proof (induction c ls rs t rule: splay_loop.induct)
  case (2 c ls rs l e r)
  from 2(1-4) show ?case
    by (subst splay_loop.simps(2)) (auto simp: SPLAY_ASSEMBLE_def split: splay.split)
qed simp

lemma SPLAY_root:
  assumes "t \<noteq> SL"
  obtains l e r where "SPLAY c t = SN l e r" "sinorder t = sinorder l @ e # sinorder r"
proof -
  obtain l e r where u: "SPLAY c t = SN l e r"
    using splay_loop_root [OF assms, of c "[]" "[]"] by (cases "SPLAY c t") (auto simp: SPLAY_def)
  then have "sinorder (SPLAY c t) = sinorder t" using splay_loop_seq [OF assms, of c "[]" "[]"] by (simp add: SPLAY_def)
  then show thesis using that u by simp
qed

text \<open>The root after a splay: the searched node when there is one, else a neighbour of its place.\<close>

definition sordered :: "('e \<Rightarrow> 'k::linorder) \<Rightarrow> 'e splay \<Rightarrow> bool" where
  "sordered key t \<longleftrightarrow> sorted_wrt (<) (map key (sinorder t))"

lemma sordered_SL [simp]: "sordered key SL"
  by (simp add: sordered_def)

lemma sordered_SN:
  "sordered key (SN l e r) \<longleftrightarrow>
     sordered key l \<and> sordered key r \<and> (\<forall>y \<in> set (sinorder l). key y < key e) \<and> (\<forall>y \<in> set (sinorder r). key e < key y)"
  by (auto simp: sordered_def sorted_wrt_append) (meson less_trans)

definition apart :: "('e \<Rightarrow> 'k::linorder) \<Rightarrow> 'e \<Rightarrow> 'e splay \<Rightarrow> bool" where
  "apart key x t \<longleftrightarrow>
     (case t of SL \<Rightarrow> True | SN l e r \<Rightarrow>
        (\<forall>y \<in> set (sinorder l). key y < key x) \<and> (\<forall>y \<in> set (sinorder r). key x < key y))"

lemma apart_assemble:
  assumes "\<forall>y \<in> set (left_seq ls @ sinorder l). key y < key x" "\<forall>y \<in> set (sinorder r @ right_seq rs). key x < key y"
  shows "apart key x (SPLAY_ASSEMBLE ls rs l e r)"
  using assms by (auto simp: apart_def SPLAY_ASSEMBLE_def close_left_seq close_right_seq)

lemma splay_left_apart:
  assumes ih: "\<And>t' ls' rs'. size t' < size (SN l e r) \<Longrightarrow> sordered key t' \<Longrightarrow> t' \<noteq> SL \<Longrightarrow>
      \<forall>y \<in> set (left_seq ls'). key y < key x \<Longrightarrow> \<forall>y \<in> set (right_seq rs'). key x < key y \<Longrightarrow>
      apart key x (splay_loop (cmp_by key x) ls' rs' t')"
    and t: "sordered key (SN l e r)" and acc: "\<forall>y \<in> set (left_seq ls). key y < key x" "\<forall>y \<in> set (right_seq rs). key x < key y"
    and less: "key x < key e"
  shows "apart key x (splay_loop (cmp_by key x) ls rs (SN l e r))"
proof -
  have o: "sordered key l" "sordered key r" "\<forall>y \<in> set (sinorder l). key y < key e" "\<forall>y \<in> set (sinorder r). key e < key y"
    using t by (simp_all add: sordered_SN)
  have rx: "\<forall>y \<in> set (sinorder r). key x < key y" using o(4) less by fastforce
  show ?thesis
  proof (cases l)
    case SL
    then show ?thesis using less rx acc by (auto simp: splay_loop.simps(2) intro!: apart_assemble)
  next
    case (SN ll le lr)
    then have ol: "sordered key ll" "\<forall>y \<in> set (sinorder ll). key y < key le" "\<forall>y \<in> set (sinorder lr). key le < key y"
      using o(1) by (simp_all add: sordered_SN)
    show ?thesis
    proof (cases "key x < key le")
      case True
      then have lx: "\<forall>y \<in> set (sinorder lr @ e # sinorder r @ right_seq rs). key x < key y"
        using ol(3) rx less acc(2) by fastforce
      show ?thesis
      proof (cases "ll = SL")
        case True
        then show ?thesis using less SN \<open>key x < key le\<close> lx acc(1)
          by (auto simp: splay_loop.simps(2) intro!: apart_assemble)
      next
        case False
        have "apart key x (splay_loop (cmp_by key x) ls ((le, SN lr e r) # rs) ll)"
          by (rule ih) (use SN ol(1) False acc(1) True lx in \<open>auto\<close>)
        then show ?thesis using less SN True False by (simp add: t splay_loop.simps(2) less_not_sym less_imp_neq)
      qed
    next
      case False
      have "apart key x (splay_loop (cmp_by key x) ls ((e, r) # rs) l)"
        by (rule ih) (use SN o(1) acc less rx in \<open>auto\<close>)
      then show ?thesis using less SN False by (simp add: t splay_loop.simps(2) less_not_sym less_imp_neq)
    qed
  qed
qed

lemma splay_right_apart:
  assumes ih: "\<And>t' ls' rs'. size t' < size (SN l e r) \<Longrightarrow> sordered key t' \<Longrightarrow> t' \<noteq> SL \<Longrightarrow>
      \<forall>y \<in> set (left_seq ls'). key y < key x \<Longrightarrow> \<forall>y \<in> set (right_seq rs'). key x < key y \<Longrightarrow>
      apart key x (splay_loop (cmp_by key x) ls' rs' t')"
    and t: "sordered key (SN l e r)" and acc: "\<forall>y \<in> set (left_seq ls). key y < key x" "\<forall>y \<in> set (right_seq rs). key x < key y"
    and less: "key e < key x"
  shows "apart key x (splay_loop (cmp_by key x) ls rs (SN l e r))"
proof -
  have o: "sordered key l" "sordered key r" "\<forall>y \<in> set (sinorder l). key y < key e" "\<forall>y \<in> set (sinorder r). key e < key y"
    using t by (simp_all add: sordered_SN)
  have ne: "key x \<noteq> key e" "\<not> key x < key e" using less by auto
  from less have lx: "\<forall>y \<in> set (sinorder l). key y < key x" using o(3) by fastforce
  show ?thesis
  proof (cases r)
    case SL
    then show ?thesis using less lx acc by (auto simp: splay_loop.simps(2) intro!: apart_assemble)
  next
    case (SN rl re rr)
    then have ol: "sordered key rr" "\<forall>y \<in> set (sinorder rl). key y < key re" "\<forall>y \<in> set (sinorder rr). key re < key y"
      using o(2) by (simp_all add: sordered_SN)
    show ?thesis
    proof (cases "key re < key x")
      case True
      then have rx: "\<forall>y \<in> set (left_seq ls @ sinorder l @ e # sinorder rl). key y < key x"
        using ol(2) lx less acc(1) by fastforce
      show ?thesis
      proof (cases "rr = SL")
        case True
        then show ?thesis using less SN \<open>key re < key x\<close> rx acc(2)
          by (auto simp: splay_loop.simps(2) intro!: apart_assemble)
      next
        case False
        have "apart key x (splay_loop (cmp_by key x) ((SN l e rl, re) # ls) rs rr)"
          by (rule ih) (use SN ol(1) False acc(2) True rx in \<open>auto\<close>)
        then show ?thesis using less ne SN True False by (simp add: t splay_loop.simps(2))
      qed
    next
      case False
      have "apart key x (splay_loop (cmp_by key x) ((l, e) # ls) rs r)"
        by (rule ih) (use SN o(2) acc less lx in \<open>auto\<close>)
      then show ?thesis using less ne SN False by (simp add: t splay_loop.simps(2))
    qed
  qed
qed

lemma splay_loop_apart:
  assumes "sordered key t" "t \<noteq> SL" "\<forall>y \<in> set (left_seq ls). key y < key x" "\<forall>y \<in> set (right_seq rs). key x < key y"
  shows "apart key x (splay_loop (cmp_by key x) ls rs t)"
  using assms
proof (induction "size t" arbitrary: t ls rs rule: less_induct)
  case less
  then obtain l e r where t: "t = SN l e r" by (cases t) auto
  have o: "sordered key (SN l e r)" using less.prems(1) by (simp add: t)
  note ih = less.hyps [unfolded t]
  consider "key x = key e" | "key x < key e" | "key e < key x" using linorder_less_linear by blast
  then show ?case
  proof cases
    case 1
    then show ?thesis using o less.prems by (simp add: t sordered_SN splay_loop.simps(2) apart_assemble ball_Un)
  next
    case 2
    show ?thesis unfolding t by (rule splay_left_apart [OF ih o less.prems(3,4) 2])
  next
    case 3
    show ?thesis unfolding t by (rule splay_right_apart [OF ih o less.prems(3,4) 3])
  qed
qed

lemma SPLAY_apart:
  assumes "sordered key t" "t \<noteq> SL"
  obtains l e r where "SPLAY (cmp_by key x) t = SN l e r" "sinorder t = sinorder l @ e # sinorder r"
    "\<forall>y \<in> set (sinorder l). key y < key x" "\<forall>y \<in> set (sinorder r). key x < key y" "sordered key (SN l e r)"
proof -
  obtain l e r where u: "SPLAY (cmp_by key x) t = SN l e r" "sinorder t = sinorder l @ e # sinorder r"
    using SPLAY_root [OF assms(2)] by blast
  have "apart key x (SN l e r)"
    using splay_loop_apart [OF assms, of "[]" x "[]"] u(1) by (simp add: SPLAY_def)
  moreover have "sordered key (SN l e r)" using assms(1) u(2) by (simp add: sordered_def)
  ultimately show thesis using that u by (simp add: apart_def)
qed

section \<open>The operations as operations on a finite set\<close>

lemma SPLAY_INSERT_by:
  assumes o: "sordered key t"
  shows "\<exists>t'. sordered key t' \<and>
    (if \<exists>y \<in> set (sinorder t). key y = key x
     then set (sinorder t') = set (sinorder t) \<and>
       (\<exists>y \<in> set (sinorder t). key y = key x \<and> SPLAY_INSERT (cmp_by key) x t = (t', Some y))
     else set (sinorder t') = insert x (set (sinorder t)) \<and> SPLAY_INSERT (cmp_by key) x t = (t', None))"
proof (cases "t = SL")
  case True
  then show ?thesis by (intro exI [of _ "SN SL x SL"]) (simp add: SPLAY_INSERT_def sordered_def)
next
  case False
  from SPLAY_apart [OF o False, of x] obtain l e r where u:
    "SPLAY (cmp_by key x) t = SN l e r" "sinorder t = sinorder l @ e # sinorder r"
    "\<forall>y \<in> set (sinorder l). key y < key x" "\<forall>y \<in> set (sinorder r). key x < key y" "sordered key (SN l e r)" by blast
  have ins: "SPLAY_INSERT (cmp_by key) x t =
      (if key x < key e then (SN l x (SN SL e r), None)
       else if key e < key x then (SN (SN l e SL) x r, None) else (SN l e r, Some e))"
    using False u(1) by (cases t) (simp_all add: SPLAY_INSERT_def)
  consider "key x < key e" | "key x = key e" | "key e < key x" by (rule linorder_cases)
  then show ?thesis
  proof cases
    case 1
    then have "\<forall>y \<in> set (sinorder t). key y \<noteq> key x" using u(2-4) by auto
    moreover have "sordered key (SN l x (SN SL e r))" using u(3-5) 1 by (auto simp: sordered_SN)
    ultimately show ?thesis using 1 ins u(2) by auto
  next
    case 2
    then show ?thesis using ins u(2,5) by auto
  next
    case 3
    then have "\<forall>y \<in> set (sinorder t). key y \<noteq> key x" using u(2-4) by auto
    moreover have "sordered key (SN (SN l e SL) x r)" using u(3-5) 3 by (auto simp: sordered_SN)
    ultimately show ?thesis using 3 ins u(2) less_not_sym [of "key e" "key x"] by auto
  qed
qed

lemma SPLAY_REMOVE_by:
  assumes o: "sordered key t" and x: "x \<in> set (sinorder t)"
  shows "\<exists>t'. SPLAY_REMOVE (cmp_by key) x t = (t', Some x) \<and> sordered key t' \<and>
    set (sinorder t') = set (sinorder t) - {x}"
proof -
  have ne: "t \<noteq> SL" using x by auto
  from SPLAY_apart [OF o ne, of x] obtain l e r where u:
    "SPLAY (cmp_by key x) t = SN l e r" "sinorder t = sinorder l @ e # sinorder r"
    "\<forall>y \<in> set (sinorder l). key y < key x" "\<forall>y \<in> set (sinorder r). key x < key y" "sordered key (SN l e r)" by blast
  have ex: "e = x" using x u(2-4) by auto
  have diff: "set (sinorder t) - {x} = set (sinorder l) \<union> set (sinorder r)" using u(2-4) ex by auto
  show ?thesis
  proof (cases "l = SL")
    case True
    then have "SPLAY_REMOVE (cmp_by key) x t = (r, Some x)"
      using ne u(1) ex by (cases t) (simp_all add: SPLAY_REMOVE_def)
    then show ?thesis using u(5) diff True by (simp add: sordered_SN)
  next
    case False
    from u(5) have ol: "sordered key l" by (simp add: sordered_SN)
    from SPLAY_apart [OF ol False, of x] obtain l' e' r' where v:
      "SPLAY (cmp_by key x) l = SN l' e' r'" "sinorder l = sinorder l' @ e' # sinorder r'"
      "\<forall>y \<in> set (sinorder l'). key y < key x" "\<forall>y \<in> set (sinorder r'). key x < key y" "sordered key (SN l' e' r')" by blast
    have "sinorder r' = []"
    proof (rule ccontr)
      assume "sinorder r' \<noteq> []"
      then obtain y where "y \<in> set (sinorder r')" by (cases "sinorder r'") auto
      then have "key x < key y" "key y < key x" using u(3) v(2,4) by auto
      then show False by simp
    qed
    then have r': "r' = SL" by (cases r') simp_all
    have "SPLAY_REMOVE (cmp_by key) x t = (SN l' e' r, Some x)"
      using ne False u(1) v(1) ex by (cases t; cases l) (simp_all add: SPLAY_REMOVE_def)
    moreover have "key e' < key x" using u(3) v(2) by simp
    then have "sordered key (SN l' e' r)" using u(4,5) v(5) by (auto simp: sordered_SN)
    moreover have "set (sinorder (SN l' e' r)) = set (sinorder t) - {x}" using diff v(2) r' by auto
    ultimately show ?thesis by blast
  qed
qed

lemma SPLAY_REMOVE_absent:
  assumes o: "sordered key t" and x: "\<forall>y \<in> set (sinorder t). key y \<noteq> key x"
  shows "\<exists>t'. SPLAY_REMOVE (cmp_by key) x t = (t', None) \<and> sinorder t' = sinorder t"
proof (cases "t = SL")
  case False
  from SPLAY_apart [OF o False, of x] obtain l e r where u:
    "SPLAY (cmp_by key x) t = SN l e r" "sinorder t = sinorder l @ e # sinorder r"
    "\<forall>y \<in> set (sinorder l). key y < key x" "\<forall>y \<in> set (sinorder r). key x < key y" "sordered key (SN l e r)" by blast
  have "key e \<noteq> key x" using x u(2) by simp
  then have "cmp_by key x e \<noteq> 0" by (auto simp: cmp_by_def)
  then have "SPLAY_REMOVE (cmp_by key) x t = (SN l e r, None)"
    using False u(1) by (cases t) (simp_all add: SPLAY_REMOVE_def)
  then show ?thesis using u(2) by simp
qed (simp add: SPLAY_REMOVE_def)

lemma sleftmost_hd: "sleftmost e t = hd (sinorder t @ [e])"
  by (induction t arbitrary: e) (simp_all add: hd_append)

lemma SPLAY_NEXT_by:
  assumes o: "sordered key t" and t: "sinorder t = as @ x # bs"
  shows "\<exists>t'. SPLAY_NEXT (cmp_by key) x t = (t', if bs = [] then None else Some (hd bs)) \<and> sinorder t' = sinorder t"
proof -
  have "t \<noteq> SL" using t by auto
  from SPLAY_apart [OF o this, of x] obtain l e r where u:
    "SPLAY (cmp_by key x) t = SN l e r" "sinorder t = sinorder l @ e # sinorder r"
    "\<forall>y \<in> set (sinorder l). key y < key x" "\<forall>y \<in> set (sinorder r). key x < key y" "sordered key (SN l e r)" by blast
  have ord: "\<forall>y \<in> set as. key y < key x" "\<forall>y \<in> set bs. key x < key y"
    using o t by (auto simp: sordered_def sorted_wrt_append)
  have "x \<in> set (sinorder t)" using t by simp
  then have e: "e = x" using u(2-4) by auto
  have "filter (\<lambda>y. key x < key y) (sinorder l @ e # sinorder r) = sinorder r"
    using u(3,4) e by (auto simp: filter_empty_conv filter_id_conv dest: less_not_sym)
  moreover have "filter (\<lambda>y. key x < key y) (as @ x # bs) = bs"
    using ord by (auto simp: filter_empty_conv filter_id_conv dest: less_not_sym)
  ultimately have bs: "bs = sinorder r" using t u(2) by metis
  have "SPLAY_NEXT (cmp_by key) x t = (SN l e r, if sinorder r = [] then None else Some (hd (sinorder r)))"
    using u(1) by (cases r) (simp_all add: SPLAY_NEXT_def sleftmost_hd hd_append)
  then show ?thesis using u(2) bs by simp
qed

lemma SPLAY_FIND_by:
  assumes o: "sordered key t"
  shows "\<exists>t'. sinorder t' = sinorder t \<and>
    SPLAY_FIND (cmp_by key) x t = (t', find (\<lambda>y. key y = key x) (sinorder t))"
proof (cases "t = SL")
  case True
  then show ?thesis by (intro exI [of _ SL]) (simp add: SPLAY_FIND_def)
next
  case False
  from SPLAY_apart [OF o False, of x] obtain l e r where u:
    "SPLAY (cmp_by key x) t = SN l e r" "sinorder t = sinorder l @ e # sinorder r"
    "\<forall>y \<in> set (sinorder l). key y < key x" "\<forall>y \<in> set (sinorder r). key x < key y" "sordered key (SN l e r)" by blast
  have "find (\<lambda>y. key y = key x) (sinorder l) = None" "find (\<lambda>y. key y = key x) (sinorder r) = None"
    using u(3,4) by (auto intro!: find_none)
  then have "find (\<lambda>y. key y = key x) (sinorder t) = (if key x = key e then Some e else None)"
    by (simp add: u(2) find_append)
  moreover have "SPLAY_FIND (cmp_by key) x t = (SN l e r, if key x = key e then Some e else None)"
    using False u(1) by (cases t) (simp_all add: SPLAY_FIND_def)
  ultimately show ?thesis using u(2) by auto
qed

text \<open>The minimum and the maximum come to the root.\<close>

lemma splay_loop_min: "t \<noteq> SL \<Longrightarrow> \<exists>e r. splay_loop (\<lambda>_. -1) [] rs t = SN SL e r"
proof (induction "size t" arbitrary: t rs rule: less_induct)
  case less
  then obtain l e r where t: "t = SN l e r" by (cases t) auto
  show ?case
  proof (cases l)
    case (SN ll le lr)
    then show ?thesis using less.hyps [of ll "(le, SN lr e r) # rs"] t
      by (auto simp: splay_loop.simps(2) SPLAY_ASSEMBLE_def)
  qed (simp add: t splay_loop.simps(2) SPLAY_ASSEMBLE_def)
qed

lemma splay_loop_max: "t \<noteq> SL \<Longrightarrow> \<exists>l e. splay_loop (\<lambda>_. 1) ls [] t = SN l e SL"
proof (induction "size t" arbitrary: t ls rule: less_induct)
  case less
  then obtain l e r where t: "t = SN l e r" by (cases t) auto
  show ?case
  proof (cases r)
    case (SN rl re rr)
    then show ?thesis using less.hyps [of rr "(SN l e rl, re) # ls"] t
      by (auto simp: splay_loop.simps(2) SPLAY_ASSEMBLE_def)
  qed (simp add: t splay_loop.simps(2) SPLAY_ASSEMBLE_def)
qed

lemma SPLAY_MIN_MAX_ends:
  assumes "t \<noteq> SL"
  shows "\<exists>t'. sinorder t' = sinorder t \<and> SPLAY_MIN_MAX t (-1) = (t', Some (hd (sinorder t)))"
    and "\<exists>t'. sinorder t' = sinorder t \<and> SPLAY_MIN_MAX t 1 = (t', Some (last (sinorder t)))"
proof -
  obtain e r where m: "SPLAY_MINMAX (-1) t = SN SL e r"
    using splay_loop_min [OF assms, of "[]"] by (auto simp: SPLAY_MINMAX_def)
  then have "sinorder t = e # sinorder r"
    using splay_loop_seq [OF assms, of "\<lambda>_. -1" "[]" "[]"] by (simp add: SPLAY_MINMAX_def)
  then show "\<exists>t'. sinorder t' = sinorder t \<and> SPLAY_MIN_MAX t (-1) = (t', Some (hd (sinorder t)))"
    using assms m by (cases t) (simp_all add: SPLAY_MIN_MAX_def)
  obtain l e where m: "SPLAY_MINMAX 1 t = SN l e SL"
    using splay_loop_max [OF assms, of "[]"] by (auto simp: SPLAY_MINMAX_def)
  then have "sinorder t = sinorder l @ [e]"
    using splay_loop_seq [OF assms, of "\<lambda>_. 1" "[]" "[]"] by (simp add: SPLAY_MINMAX_def)
  then show "\<exists>t'. sinorder t' = sinorder t \<and> SPLAY_MIN_MAX t 1 = (t', Some (last (sinorder t)))"
    using assms m by (cases t) (simp_all add: SPLAY_MIN_MAX_def)
qed

section \<open>The two kinds of trees\<close>

lemma splay_insert_agrees:
  assumes "rb_inv_by key t" "sordered key u" "set (sinorder u) = set (inorder t)"
  shows "\<exists>t' u' r. RB_INSERT (cmp_by key) x t = Some (t', r) \<and> SPLAY_INSERT (cmp_by key) x u = (u', r) \<and>
    rb_inv_by key t' \<and> sordered key u' \<and> set (sinorder u') = set (inorder t')"
proof -
  obtain u' where u': "sordered key u'"
    "if \<exists>y \<in> set (sinorder u). key y = key x
     then set (sinorder u') = set (sinorder u) \<and>
       (\<exists>y \<in> set (sinorder u). key y = key x \<and> SPLAY_INSERT (cmp_by key) x u = (u', Some y))
     else set (sinorder u') = insert x (set (sinorder u)) \<and> SPLAY_INSERT (cmp_by key) x u = (u', None)"
    using SPLAY_INSERT_by [OF assms(2), of x] by blast
  show ?thesis
  proof (cases "\<exists>y \<in> set (inorder t). key y = key x")
    case True
    then obtain y where y: "y \<in> set (inorder t)" "key y = key x" "SPLAY_INSERT (cmp_by key) x u = (u', Some y)"
        "set (sinorder u') = set (inorder t)"
      using u'(2) assms(3) by auto
    then show ?thesis using rbn.ins_dup [OF assms(1) y(1,2)] assms(1) u'(1) by auto
  next
    case False
    then have "\<forall>y \<in> set (inorder t). key y \<noteq> key x" by blast
    from rbn.ins_new [OF assms(1) this] False u' assms(3) show ?thesis by fastforce
  qed
qed

text \<open>Trees with the same nodes list them in the same order, so what depends on the order agrees too.\<close>

lemma same_order:
  assumes "rb_inv_by key t" "sordered key u" "set (sinorder u) = set (inorder t)"
  shows "sinorder u = inorder t"
proof -
  have s: "sorted_wrt (<) (map key (inorder t))" "sorted_wrt (<) (map key (sinorder u))"
    using assms(1,2) by (simp_all add: rb_inv_by_def ordered_def sordered_def)
  have "map key (sinorder u) = map key (inorder t)"
    by (rule strict_sorted_equal [OF s]) (use assms(3) in simp)
  moreover have "inj_on key (set (sinorder u) \<union> set (inorder t))" using rbn.inv_inj [OF assms(1)] assms(3) by simp
  ultimately show ?thesis by (simp add: inj_on_map_eq_map)
qed

lemma splay_remove_agrees:
  assumes "rb_inv_by key t" "sordered key u" "set (sinorder u) = set (inorder t)"
  shows "case RB_REMOVE (cmp_by key) x t of None \<Rightarrow> x \<notin> set (sinorder u)
     | Some t' \<Rightarrow> \<exists>u'. SPLAY_REMOVE (cmp_by key) x u = (u', Some x) \<and> rb_inv_by key t' \<and> sordered key u' \<and>
         sinorder u' = inorder t'"
proof (cases "RB_REMOVE (cmp_by key) x t")
  case None
  then show ?thesis using rbn.rem_answer [OF assms(1), of x] assms(3) by simp
next
  case (Some t')
  then have t': "rb_inv_by key t'" "x \<in> set (inorder t)" "set (inorder t') = set (inorder t) - {x}"
    using rbn.rem_answer [OF assms(1), of x] by simp_all
  then obtain u' where "SPLAY_REMOVE (cmp_by key) x u = (u', Some x)" "sordered key u'" "set (sinorder u') = set (inorder t')"
    using SPLAY_REMOVE_by [OF assms(2), of x] assms(3) by auto
  then show ?thesis using same_order [OF t'(1)] t'(1) Some by simp
qed

lemma splay_ends_agree:
  assumes "sinorder u = inorder t"
  shows "\<exists>u'. SPLAY_MIN_MAX u (-1) = (u', RB_MIN t) \<and> sinorder u' = inorder t"
    and "\<exists>u'. SPLAY_MIN_MAX u 1 = (u', RB_MAX t) \<and> sinorder u' = inorder t"
proof -
  have e: "u = SL \<longleftrightarrow> t = Lf" using assms by (cases u; cases t) auto
  show "\<exists>u'. SPLAY_MIN_MAX u (-1) = (u', RB_MIN t) \<and> sinorder u' = inorder t"
    using SPLAY_MIN_MAX_ends(1) [of u] assms e by (cases "u = SL") (auto simp: SPLAY_MIN_MAX_def RB_MIN_hd)
  show "\<exists>u'. SPLAY_MIN_MAX u 1 = (u', RB_MAX t) \<and> sinorder u' = inorder t"
    using SPLAY_MIN_MAX_ends(2) [of u] assms e by (cases "u = SL") (auto simp: SPLAY_MIN_MAX_def RB_MAX_last)
qed

lemma splay_next_agrees:
  assumes "sordered key u" "sinorder u = inorder (plug fs (Nd c l x r))"
  shows "\<exists>u'. SPLAY_NEXT (cmp_by key) x u = (u', RB_NEXT fs r) \<and> sinorder u' = sinorder u"
  using SPLAY_NEXT_by [OF assms(1), of "lin fs @ inorder l" x "inorder r @ rin fs"] assms(2)
    RB_NEXT_PREV [of fs r, THEN conjunct1] by (simp add: inorder_plug)

section \<open>Properties\<close>

text \<open>
  C20: the red-black tree macros are a finite set of nodes with distinct keys: insertion of a
  new key, insertion of a key that is present, removal, search and minimum are those of the set,
  and the tree stays a red-black tree ordered by the key.
\<close>

theorem rb_tree_is_set:
  assumes "rb_inv_by key t"
  shows "(\<exists>t' r. RB_INSERT (cmp_by key) x t = Some (t', r) \<and> rb_inv_by key t' \<and>
      (case r of None \<Rightarrow> x \<notin> set (inorder t) \<and> set (inorder t') = insert x (set (inorder t))
       | Some y \<Rightarrow> y \<in> set (inorder t) \<and> key y = key x \<and> t' = t)) \<and>
    (case RB_REMOVE (cmp_by key) x t of None \<Rightarrow> x \<notin> set (inorder t)
     | Some t' \<Rightarrow> rb_inv_by key t' \<and> x \<in> set (inorder t) \<and> set (inorder t') = set (inorder t) - {x}) \<and>
    (case RB_FIND (cmp_by key) x t of None \<Rightarrow> \<forall>y \<in> set (inorder t). key y \<noteq> key x
     | Some y \<Rightarrow> y \<in> set (inorder t) \<and> key y = key x) \<and>
    (case RB_MIN t of None \<Rightarrow> set (inorder t) = {}
     | Some y \<Rightarrow> y \<in> set (inorder t) \<and> (\<forall>z \<in> set (inorder t). key y \<le> key z))"
  by (intro conjI rbn.ins_answer [OF assms] rbn.rem_answer [OF assms] rbn.fnd_answer [OF assms] rbn.mn_answer [OF assms])

theorem rb_tree_is_set_witness:
  "RB_INSERT (cmp_by id) (2::nat) (Nd BLACK Lf 1 Lf) = Some (Nd BLACK Lf 1 (Nd RED Lf 2 Lf), None) \<and>
   (\<exists>t'. RB_REMOVE (cmp_by id) (1::nat) (Nd BLACK Lf 1 Lf) = Some t' \<and> set (inorder t') = {})"
proof -
  have inv: "rb_inv_by id (Nd BLACK Lf (1::nat) Lf)" by (simp add: rb_inv_by_def is_rbt_def ordered_def)
  have "RB_INSERT (cmp_by id) (2::nat) (Nd BLACK Lf 1 Lf) = Some (Nd BLACK Lf 1 (Nd RED Lf 2 Lf), None)"
    by (simp add: RB_INSERT_def ins_fix_def)
  then show ?thesis using rb_tree_is_set [OF inv, of 1] by (auto split: option.splits)
qed

text \<open>
  C21: the splay tree macros and the red-black tree macros answer alike.  On trees with the same nodes, ordered
  by the same key, insertion, search, minimum and maximum give the same answer for every node, the
  successor of every node of the trees is the same, removal of a node of the trees leaves the same nodes, and all of
  them keep the order.  Only removal differs: the splay macro looks the node up by its key, so a node whose key
  is absent leaves the tree as it is and is answered with NULL, where the red-black macro has no such case.
\<close>

theorem splay_agrees_with_rb:
  assumes "rb_inv_by key t" "sordered key u" "set (sinorder u) = set (inorder t)"
  shows "(\<exists>t' u' r. RB_INSERT (cmp_by key) x t = Some (t', r) \<and> SPLAY_INSERT (cmp_by key) x u = (u', r) \<and>
      rb_inv_by key t' \<and> sordered key u' \<and> set (sinorder u') = set (inorder t')) \<and>
    (\<exists>u'. SPLAY_FIND (cmp_by key) x u = (u', RB_FIND (cmp_by key) x t) \<and> sinorder u' = inorder t) \<and>
    (\<exists>u'. SPLAY_MIN_MAX u (-1) = (u', RB_MIN t) \<and> sinorder u' = inorder t) \<and>
    (\<exists>u'. SPLAY_MIN_MAX u 1 = (u', RB_MAX t) \<and> sinorder u' = inorder t) \<and>
    (\<forall>fs c l r. t = plug fs (Nd c l x r) \<longrightarrow> (\<exists>u'. SPLAY_NEXT (cmp_by key) x u = (u', RB_NEXT fs r) \<and> sinorder u' = inorder t)) \<and>
    (case RB_REMOVE (cmp_by key) x t of
       None \<Rightarrow> x \<notin> set (sinorder u) \<and>
         ((\<forall>y \<in> set (sinorder u). key y \<noteq> key x) \<longrightarrow>
            (\<exists>u'. SPLAY_REMOVE (cmp_by key) x u = (u', None) \<and> sinorder u' = inorder t))
     | Some t' \<Rightarrow> \<exists>u'. SPLAY_REMOVE (cmp_by key) x u = (u', Some x) \<and> rb_inv_by key t' \<and> sordered key u' \<and>
         sinorder u' = inorder t')"
proof -
  have same: "sinorder u = inorder t" by (rule same_order [OF assms])
  have "\<exists>u'. SPLAY_FIND (cmp_by key) x u = (u', RB_FIND (cmp_by key) x t) \<and> sinorder u' = inorder t"
    using SPLAY_FIND_by [OF assms(2), of x] rbn.fnd_find [OF assms(1) refl, of x] same by auto
  moreover have "\<forall>fs c l r. t = plug fs (Nd c l x r) \<longrightarrow>
      (\<exists>u'. SPLAY_NEXT (cmp_by key) x u = (u', RB_NEXT fs r) \<and> sinorder u' = inorder t)"
    using splay_next_agrees [OF assms(2)] same by metis
  moreover have "case RB_REMOVE (cmp_by key) x t of
       None \<Rightarrow> x \<notin> set (sinorder u) \<and>
         ((\<forall>y \<in> set (sinorder u). key y \<noteq> key x) \<longrightarrow>
            (\<exists>u'. SPLAY_REMOVE (cmp_by key) x u = (u', None) \<and> sinorder u' = inorder t))
     | Some t' \<Rightarrow> \<exists>u'. SPLAY_REMOVE (cmp_by key) x u = (u', Some x) \<and> rb_inv_by key t' \<and> sordered key u' \<and>
         sinorder u' = inorder t'"
    using splay_remove_agrees [OF assms, of x] SPLAY_REMOVE_absent [OF assms(2), of x] same
    by (auto split: option.splits)
  ultimately show ?thesis using splay_insert_agrees [OF assms] splay_ends_agree [OF same] by (intro conjI)
qed

theorem splay_agrees_with_rb_witness:
  "(\<exists>t' u'. RB_REMOVE (cmp_by id) (2::nat) (Nd BLACK (Nd RED Lf 1 Lf) 2 Lf) = Some t' \<and>
    SPLAY_REMOVE (cmp_by id) 2 (SN SL 1 (SN SL 2 SL)) = (u', Some 2) \<and> sinorder u' = inorder t') \<and>
    (\<exists>u'. SPLAY_REMOVE (cmp_by id) 3 (SN SL 1 (SN SL (2::nat) SL)) = (u', None) \<and> sinorder u' = [1, 2])"
proof -
  have inv: "rb_inv_by id (Nd BLACK (Nd RED Lf (1::nat) Lf) 2 Lf)" "sordered id (SN SL (1::nat) (SN SL 2 SL))"
      "set (sinorder (SN SL (1::nat) (SN SL 2 SL))) = set (inorder (Nd BLACK (Nd RED Lf 1 Lf) 2 Lf))"
    by (auto simp: rb_inv_by_def is_rbt_def ordered_def sordered_def)
  note remove = splay_agrees_with_rb [OF inv, THEN conjunct2, THEN conjunct2, THEN conjunct2, THEN conjunct2, THEN conjunct2]
  show ?thesis using remove [of 2] remove [of 3]
    by (auto simp: RB_REMOVE_def cmp_by_def split: option.splits)
qed

end
