(* ===== verification/NTY_Queue.thy ===== *)
theory NTY_Queue
  imports Main "HOL-Library.Monad_Syntax"
begin

text \<open>
  The tail queues of nty_queue.h at the level of their pointers.  A cell is the place of a pointer
  to an element: the first pointer of a head or the next pointer of an element.  Elements and heads
  keep the address of such a cell, as \<open>tqe_prev\<close> and \<open>tqh_last\<close> do; since an entry and a head have the
  same layout, \<open>TAILQ_LAST\<close> reads a cell's owner as if it were a head.  The contract that
  every operation keeps is that of a list.
\<close>

section \<open>Cells\<close>

datatype 'e cell = HeadFirst nat | NextOf 'e

record 'e tailq =
  tqh_first :: "nat \<Rightarrow> 'e option"
  tqh_last :: "nat \<Rightarrow> 'e cell"
  tqe_next :: "'e \<Rightarrow> 'e option"
  tqe_prev :: "'e \<Rightarrow> 'e cell"

fun rd_cell :: "'e tailq \<Rightarrow> 'e cell \<Rightarrow> 'e option" where
  "rd_cell q (HeadFirst h) = tqh_first q h"
| "rd_cell q (NextOf e) = tqe_next q e"

fun wr_cell :: "'e cell \<Rightarrow> 'e option \<Rightarrow> 'e tailq \<Rightarrow> 'e tailq" where
  "wr_cell (HeadFirst h) v q = q\<lparr>tqh_first := (tqh_first q)(h := v)\<rparr>"
| "wr_cell (NextOf e) v q = q\<lparr>tqe_next := (tqe_next q)(e := v)\<rparr>"

text \<open>\<open>((struct headname *)c)->tqh_last\<close>: behind a next pointer lies the prev pointer.\<close>

fun last_at :: "'e tailq \<Rightarrow> 'e cell \<Rightarrow> 'e cell" where
  "last_at q (HeadFirst h) = tqh_last q h"
| "last_at q (NextOf e) = tqe_prev q e"

abbreviation set_prev :: "'e \<Rightarrow> 'e cell \<Rightarrow> 'e tailq \<Rightarrow> 'e tailq" where
  "set_prev e c q \<equiv> q\<lparr>tqe_prev := (tqe_prev q)(e := c)\<rparr>"

abbreviation set_last :: "nat \<Rightarrow> 'e cell \<Rightarrow> 'e tailq \<Rightarrow> 'e tailq" where
  "set_last h c q \<equiv> q\<lparr>tqh_last := (tqh_last q)(h := c)\<rparr>"

section \<open>Operations\<close>

definition TAILQ_INIT :: "nat \<Rightarrow> 'e tailq \<Rightarrow> 'e tailq" where
  "TAILQ_INIT h q = set_last h (HeadFirst h) (wr_cell (HeadFirst h) None q)"

definition TAILQ_EMPTY :: "nat \<Rightarrow> 'e tailq \<Rightarrow> bool" where
  "TAILQ_EMPTY h q \<longleftrightarrow> tqh_first q h = None"

definition TAILQ_FIRST :: "nat \<Rightarrow> 'e tailq \<Rightarrow> 'e option" where
  "TAILQ_FIRST h q = tqh_first q h"

definition TAILQ_NEXT :: "'e \<Rightarrow> 'e tailq \<Rightarrow> 'e option" where
  "TAILQ_NEXT e q = tqe_next q e"

definition TAILQ_LAST :: "nat \<Rightarrow> 'e tailq \<Rightarrow> 'e option" where
  "TAILQ_LAST h q = rd_cell q (last_at q (tqh_last q h))"

definition TAILQ_PREV :: "'e \<Rightarrow> 'e tailq \<Rightarrow> 'e option" where
  "TAILQ_PREV e q = rd_cell q (last_at q (tqe_prev q e))"

definition TAILQ_INSERT_HEAD :: "nat \<Rightarrow> 'e \<Rightarrow> 'e tailq \<Rightarrow> 'e tailq" where
  "TAILQ_INSERT_HEAD h e q =
     (let q = wr_cell (NextOf e) (tqh_first q h) q;
          q = (case tqe_next q e of
                 Some f \<Rightarrow> set_prev f (NextOf e) q
               | None \<Rightarrow> set_last h (NextOf e) q);
          q = wr_cell (HeadFirst h) (Some e) q
      in set_prev e (HeadFirst h) q)"

definition TAILQ_INSERT_TAIL :: "nat \<Rightarrow> 'e \<Rightarrow> 'e tailq \<Rightarrow> 'e tailq" where
  "TAILQ_INSERT_TAIL h e q =
     (let q = wr_cell (NextOf e) None q;
          q = set_prev e (tqh_last q h) q;
          q = wr_cell (tqh_last q h) (Some e) q
      in set_last h (NextOf e) q)"

definition TAILQ_INSERT_AFTER :: "nat \<Rightarrow> 'e \<Rightarrow> 'e \<Rightarrow> 'e tailq \<Rightarrow> 'e tailq" where
  "TAILQ_INSERT_AFTER h x e q =
     (let q = wr_cell (NextOf e) (tqe_next q x) q;
          q = (case tqe_next q e of
                 Some y \<Rightarrow> set_prev y (NextOf e) q
               | None \<Rightarrow> set_last h (NextOf e) q);
          q = wr_cell (NextOf x) (Some e) q
      in set_prev e (NextOf x) q)"

definition TAILQ_INSERT_BEFORE :: "'e \<Rightarrow> 'e \<Rightarrow> 'e tailq \<Rightarrow> 'e tailq" where
  "TAILQ_INSERT_BEFORE x e q =
     (let q = set_prev e (tqe_prev q x) q;
          q = wr_cell (NextOf e) (Some x) q;
          q = wr_cell (tqe_prev q x) (Some e) q
      in set_prev x (NextOf e) q)"

definition TAILQ_REMOVE :: "nat \<Rightarrow> 'e \<Rightarrow> 'e tailq \<Rightarrow> 'e tailq" where
  "TAILQ_REMOVE h e q =
     (let q = (case tqe_next q e of
                 Some y \<Rightarrow> set_prev y (tqe_prev q e) q
               | None \<Rightarrow> set_last h (tqe_prev q e) q)
      in wr_cell (tqe_prev q e) (tqe_next q e) q)"

definition TAILQ_CONCAT :: "nat \<Rightarrow> nat \<Rightarrow> 'e tailq \<Rightarrow> 'e tailq" where
  "TAILQ_CONCAT h1 h2 q =
     (case tqh_first q h2 of
        None \<Rightarrow> q
      | Some f \<Rightarrow>
          let q = wr_cell (tqh_last q h1) (tqh_first q h2) q;
              q = set_prev f (tqh_last q h1) q;
              q = set_last h1 (tqh_last q h2) q
          in TAILQ_INIT h2 q)"

definition TAILQ_SWAP :: "nat \<Rightarrow> nat \<Rightarrow> 'e tailq \<Rightarrow> 'e tailq" where
  "TAILQ_SWAP h1 h2 q =
     (let swap_first = tqh_first q h1;
          swap_last = tqh_last q h1;
          q = wr_cell (HeadFirst h1) (tqh_first q h2) q;
          q = set_last h1 (tqh_last q h2) q;
          q = wr_cell (HeadFirst h2) swap_first q;
          q = set_last h2 swap_last q;
          q = (case tqh_first q h1 of
                 Some f \<Rightarrow> set_prev f (HeadFirst h1) q
               | None \<Rightarrow> set_last h1 (HeadFirst h1) q)
      in case tqh_first q h2 of
           Some f \<Rightarrow> set_prev f (HeadFirst h2) q
         | None \<Rightarrow> set_last h2 (HeadFirst h2) q)"

text \<open>\<open>TAILQ_FOREACH\<close> and its reverse, for at most \<open>n\<close> elements: the elements they visit.\<close>

fun tailq_from :: "nat \<Rightarrow> 'e option \<Rightarrow> 'e tailq \<Rightarrow> 'e list" where
  "tailq_from n None q = []"
| "tailq_from 0 (Some e) q = []"
| "tailq_from (Suc n) (Some e) q = e # tailq_from n (TAILQ_NEXT e q) q"

definition TAILQ_FOREACH :: "nat \<Rightarrow> nat \<Rightarrow> 'e tailq \<Rightarrow> 'e list" where
  "TAILQ_FOREACH n h q = tailq_from n (TAILQ_FIRST h q) q"

fun tailq_back :: "nat \<Rightarrow> 'e option \<Rightarrow> 'e tailq \<Rightarrow> 'e list" where
  "tailq_back n None q = []"
| "tailq_back 0 (Some e) q = []"
| "tailq_back (Suc n) (Some e) q = e # tailq_back n (TAILQ_PREV e q) q"

definition TAILQ_FOREACH_REVERSE :: "nat \<Rightarrow> nat \<Rightarrow> 'e tailq \<Rightarrow> 'e list" where
  "TAILQ_FOREACH_REVERSE n h q = tailq_back n (TAILQ_LAST h q) q"

section \<open>Representation of a list\<close>

text \<open>The elements from cell \<open>c\<close> up to cell \<open>d\<close>, each of which points back to the cell before it.\<close>

fun qseg :: "'e tailq \<Rightarrow> 'e cell \<Rightarrow> 'e list \<Rightarrow> 'e cell \<Rightarrow> bool" where
  "qseg q c [] d \<longleftrightarrow> c = d"
| "qseg q c (x # xs) d \<longleftrightarrow> rd_cell q c = Some x \<and> tqe_prev q x = c \<and> qseg q (NextOf x) xs d"

definition tq_list :: "'e tailq \<Rightarrow> nat \<Rightarrow> 'e list \<Rightarrow> bool" where
  "tq_list q h xs \<longleftrightarrow> distinct xs \<and> qseg q (HeadFirst h) xs (tqh_last q h) \<and> rd_cell q (tqh_last q h) = None"

fun end_cell :: "'e cell \<Rightarrow> 'e list \<Rightarrow> 'e cell" where
  "end_cell c [] = c"
| "end_cell c (x # xs) = end_cell (NextOf x) xs"

lemma end_cell_snoc [simp]: "end_cell c (xs @ [x]) = NextOf x"
  by (induction xs arbitrary: c) simp_all

lemma end_cell_append: "end_cell c (xs @ ys) = end_cell (end_cell c xs) ys"
  by (induction xs arbitrary: c) simp_all

lemma end_cell_cases: "end_cell c xs = c \<and> xs = [] \<or> (\<exists>ys y. xs = ys @ [y] \<and> end_cell c xs = NextOf y)"
  by (cases xs rule: rev_cases) simp_all

lemma qseg_end: "qseg q c xs d \<Longrightarrow> d = end_cell c xs"
  by (induction xs arbitrary: c) auto

lemma qseg_append: "qseg q c (xs @ ys) d \<longleftrightarrow> qseg q c xs (end_cell c xs) \<and> qseg q (end_cell c xs) ys d"
  by (induction xs arbitrary: c) auto

lemma rd_wr [simp]: "rd_cell (wr_cell c v q) c' = (if c' = c then v else rd_cell q c')"
  by (cases c; cases c') auto

lemma rd_set [simp]: "rd_cell (q\<lparr>tqe_prev := f\<rparr>) c = rd_cell q c" "rd_cell (q\<lparr>tqh_last := g\<rparr>) c = rd_cell q c"
  by (cases c; simp)+

lemma wr_fields [simp]:
  "tqe_prev (wr_cell c v q) = tqe_prev q" "tqh_last (wr_cell c v q) = tqh_last q"
  by (cases c; simp)+

lemma first_rd: "tqh_first q h = rd_cell q (HeadFirst h)"
  by simp

lemma next_rd: "tqe_next q e = rd_cell q (NextOf e)"
  by simp

text \<open>A segment depends on the cells before its elements and on their prev pointers only.\<close>

lemma qseg_cong:
  assumes "qseg q c xs d" "xs \<noteq> [] \<Longrightarrow> rd_cell q' c = rd_cell q c"
    "\<And>x. x \<in> set xs \<Longrightarrow> NextOf x \<noteq> d \<Longrightarrow> rd_cell q' (NextOf x) = rd_cell q (NextOf x)"
    "\<And>x. x \<in> set xs \<Longrightarrow> tqe_prev q' x = tqe_prev q x" "distinct xs"
  shows "qseg q' c xs d"
  using assms
proof (induction xs arbitrary: c)
  case (Cons x xs)
  have "qseg q' (NextOf x) xs d"
  proof (rule Cons.IH)
    show "rd_cell q' (NextOf x) = rd_cell q (NextOf x)" if "xs \<noteq> []"
    proof (rule Cons.prems(3))
      have "d = end_cell (NextOf x) xs" using Cons.prems(1) qseg_end by fastforce
      then show "NextOf x \<noteq> d" using end_cell_cases [of "NextOf x" xs] that Cons.prems(5) by auto
    qed simp
  qed (use Cons.prems in auto)
  then show ?case using Cons.prems(1,2,4) by simp
qed simp

lemma tq_listD:
  assumes "tq_list q h xs"
  shows "distinct xs" "qseg q (HeadFirst h) xs (end_cell (HeadFirst h) xs)"
    "tqh_last q h = end_cell (HeadFirst h) xs" "rd_cell q (end_cell (HeadFirst h) xs) = None"
  using assms qseg_end unfolding tq_list_def by fastforce+

lemma tq_listI:
  "distinct xs \<Longrightarrow> qseg q (HeadFirst h) xs (end_cell (HeadFirst h) xs) \<Longrightarrow>
    tqh_last q h = end_cell (HeadFirst h) xs \<Longrightarrow> rd_cell q (end_cell (HeadFirst h) xs) = None \<Longrightarrow> tq_list q h xs"
  by (simp add: tq_list_def)

lemma tq_list_frame:
  assumes "tq_list q h xs" "rd_cell q' (HeadFirst h) = rd_cell q (HeadFirst h)" "tqh_last q' h = tqh_last q h"
    "\<And>x. x \<in> set xs \<Longrightarrow> rd_cell q' (NextOf x) = rd_cell q (NextOf x) \<and> tqe_prev q' x = tqe_prev q x"
  shows "tq_list q' h xs"
proof -
  note D = tq_listD [OF assms(1)]
  have "qseg q' (HeadFirst h) xs (end_cell (HeadFirst h) xs)"
    using assms(2,4) D(1) by (intro qseg_cong [OF D(2)]) simp_all
  moreover have "rd_cell q' (end_cell (HeadFirst h) xs) = rd_cell q (end_cell (HeadFirst h) xs)"
    using assms(2,4) end_cell_cases [of "HeadFirst h" xs] by auto
  ultimately show ?thesis using D assms(3) by (simp add: tq_list_def)
qed

text \<open>The cell between two parts of a list, and what lies behind it.\<close>

lemma end_cell_in: "end_cell (HeadFirst h) xs = NextOf e \<Longrightarrow> e \<in> set xs"
  using end_cell_cases [of "HeadFirst h" xs] by auto

lemma middle:
  assumes "tq_list q h (as @ bs)"
  shows "rd_cell q (end_cell (HeadFirst h) as) = (case bs of [] \<Rightarrow> None | b # _ \<Rightarrow> Some b)"
    "bs = b # cs \<Longrightarrow> tqe_prev q b = end_cell (HeadFirst h) as"
  using tq_listD [OF assms] by (auto simp: qseg_append split: list.splits)

text \<open>Linking an element in, and out, between two parts of a list.\<close>

text \<open>The elements behind a cell stay linked when another cell comes before them.\<close>

lemma relink_after:
  assumes seg: "qseg q c bs (end_cell c bs)" "rd_cell q (end_cell c bs) = None" and d: "distinct bs"
    and new: "rd_cell q' c' = (case bs of [] \<Rightarrow> None | b # _ \<Rightarrow> Some b)" "bs \<noteq> [] \<Longrightarrow> tqe_prev q' (hd bs) = c'"
    and old: "\<And>x. x \<in> set bs \<Longrightarrow> rd_cell q' (NextOf x) = rd_cell q (NextOf x)"
      "\<And>x. x \<in> set bs \<Longrightarrow> x \<notin> set (take 1 bs) \<Longrightarrow> tqe_prev q' x = tqe_prev q x"
  shows "qseg q' c' bs (end_cell c' bs)" "rd_cell q' (end_cell c' bs) = None"
proof -
  show "qseg q' c' bs (end_cell c' bs)"
  proof (cases bs)
    case (Cons b cs)
    have "qseg q (NextOf b) cs (end_cell (NextOf b) cs)" using seg(1) Cons by simp
    then have "qseg q' (NextOf b) cs (end_cell (NextOf b) cs)"
    proof (rule qseg_cong)
      show "tqe_prev q' x = tqe_prev q x" if "x \<in> set cs" for x
        using that d Cons by (intro old(2)) auto
    qed (use old(1) d Cons in auto)
    then show ?thesis using new Cons by simp
  qed simp
  show "rd_cell q' (end_cell c' bs) = None"
    using seg(2) new(1) old(1) by (cases bs rule: rev_cases) (simp_all add: end_cell_append)
qed

lemma unlink_before:
  assumes "qseg q (HeadFirst h) as m" "m = end_cell (HeadFirst h) as" "distinct as"
    and old: "\<And>c. c \<noteq> m \<Longrightarrow> (\<And>x. c = NextOf x \<Longrightarrow> x \<in> set as) \<Longrightarrow> rd_cell q' c = rd_cell q c"
      "\<And>x. x \<in> set as \<Longrightarrow> tqe_prev q' x = tqe_prev q x"
  shows "qseg q' (HeadFirst h) as m"
proof (rule qseg_cong [OF assms(1)])
  show "rd_cell q' (HeadFirst h) = rd_cell q (HeadFirst h)" if "as \<noteq> []"
    using that assms(2) end_cell_cases [of "HeadFirst h" as] by (intro old(1)) auto
  show "rd_cell q' (NextOf x) = rd_cell q (NextOf x)" if "x \<in> set as" "NextOf x \<noteq> m" for x
    using that by (intro old(1)) auto
qed (fact assms(3) | rule old(2), assumption)+

lemma link_in:
  assumes q: "tq_list q h (as @ bs)" and e: "e \<notin> set (as @ bs)"
    and new: "rd_cell q' (end_cell (HeadFirst h) as) = Some e" "tqe_prev q' e = end_cell (HeadFirst h) as"
      "rd_cell q' (NextOf e) = (case bs of [] \<Rightarrow> None | b # _ \<Rightarrow> Some b)"
      "bs \<noteq> [] \<Longrightarrow> tqe_prev q' (hd bs) = NextOf e"
      "tqh_last q' h = (if bs = [] then NextOf e else tqh_last q h)"
    and old: "\<And>c. c \<noteq> end_cell (HeadFirst h) as \<Longrightarrow> c \<noteq> NextOf e \<Longrightarrow> rd_cell q' c = rd_cell q c"
      "\<And>x. x \<noteq> e \<Longrightarrow> x \<notin> set (take 1 bs) \<Longrightarrow> tqe_prev q' x = tqe_prev q x"
  shows "tq_list q' h (as @ e # bs)"
proof -
  note D = tq_listD [OF q]
  let ?m = "end_cell (HeadFirst h) as"
  have m: "?m = NextOf x \<Longrightarrow> x \<in> set as" for x by (rule end_cell_in)
  have seg: "qseg q (HeadFirst h) as ?m" "qseg q ?m bs (end_cell ?m bs)" "rd_cell q (end_cell ?m bs) = None"
    using D(2,4) by (simp_all add: qseg_append end_cell_append)
  have dist: "distinct as" "distinct bs" "set as \<inter> set bs = {}" using D(1) by simp_all
  have b1: "qseg q' (HeadFirst h) as ?m"
    by (rule unlink_before [OF seg(1) refl dist(1)]) (use e dist(3) in \<open>auto intro!: old dest: in_set_takeD\<close>)
  have b2: "qseg q' (NextOf e) bs (end_cell (NextOf e) bs)" "rd_cell q' (end_cell (NextOf e) bs) = None"
  proof -
    have 1: "rd_cell q' (NextOf x) = rd_cell q (NextOf x)" if "x \<in> set bs" for x
      using that m [of x] dist(3) e by (intro old(1)) auto
    have 2: "tqe_prev q' x = tqe_prev q x" if "x \<in> set bs" "x \<notin> set (take 1 bs)" for x
      using that e by (intro old(2)) auto
    show "qseg q' (NextOf e) bs (end_cell (NextOf e) bs)"
      by (rule relink_after(1) [OF seg(2,3) dist(2)]) (fact new(3,4) 1 2 | assumption)+
    show "rd_cell q' (end_cell (NextOf e) bs) = None"
      by (rule relink_after(2) [OF seg(2,3) dist(2)]) (fact new(3,4) 1 2 | assumption)+
  qed
  have "tqh_last q' h = end_cell (NextOf e) bs"
    using new(5) D(3) by (cases bs rule: rev_cases) (simp_all add: end_cell_append)
  then show ?thesis using b1 b2 new(1,2) dist e
    by (intro tq_listI) (auto simp: qseg_append end_cell_append)
qed

lemma link_out:
  assumes q: "tq_list q h (as @ e # bs)"
    and new: "rd_cell q' (end_cell (HeadFirst h) as) = (case bs of [] \<Rightarrow> None | b # _ \<Rightarrow> Some b)"
      "bs \<noteq> [] \<Longrightarrow> tqe_prev q' (hd bs) = end_cell (HeadFirst h) as"
      "tqh_last q' h = (if bs = [] then end_cell (HeadFirst h) as else tqh_last q h)"
    and old: "\<And>c. c \<noteq> end_cell (HeadFirst h) as \<Longrightarrow> rd_cell q' c = rd_cell q c"
      "\<And>x. x \<notin> set (take 1 bs) \<Longrightarrow> tqe_prev q' x = tqe_prev q x"
  shows "tq_list q' h (as @ bs)"
proof -
  note D = tq_listD [OF q]
  let ?m = "end_cell (HeadFirst h) as"
  have m: "?m = NextOf x \<Longrightarrow> x \<in> set as" for x by (rule end_cell_in)
  have seg: "qseg q (HeadFirst h) as ?m" "qseg q (NextOf e) bs (end_cell (NextOf e) bs)" "rd_cell q (end_cell (NextOf e) bs) = None"
    using D(2,4) by (simp_all add: qseg_append end_cell_append)
  have dist: "distinct as" "distinct bs" "set as \<inter> set bs = {}" "e \<notin> set as" using D(1) by auto
  have b1: "qseg q' (HeadFirst h) as ?m"
    by (rule unlink_before [OF seg(1) refl dist(1)]) (use dist(3) in \<open>auto intro!: old dest: in_set_takeD\<close>)
  have b2: "qseg q' ?m bs (end_cell ?m bs)" "rd_cell q' (end_cell ?m bs) = None"
  proof -
    have 1: "rd_cell q' (NextOf x) = rd_cell q (NextOf x)" if "x \<in> set bs" for x
      using that m [of x] dist(3) by (intro old(1)) auto
    show "qseg q' ?m bs (end_cell ?m bs)"
      by (rule relink_after(1) [OF seg(2,3) dist(2)]) (fact new(1,2) 1 old(2) | rule old(2))+
    show "rd_cell q' (end_cell ?m bs) = None"
      by (rule relink_after(2) [OF seg(2,3) dist(2)]) (fact new(1,2) 1 old(2) | rule old(2))+
  qed
  have "tqh_last q' h = end_cell ?m bs"
    using new(3) D(3) by (cases bs rule: rev_cases) (simp_all add: end_cell_append)
  then show ?thesis using b1 b2 dist
    by (intro tq_listI) (auto simp: qseg_append end_cell_append)
qed

section \<open>The operations on lists\<close>

lemma TAILQ_INIT_list: "tq_list (TAILQ_INIT h q) h []"
  by (simp add: TAILQ_INIT_def tq_list_def)

lemma rd_cell_cases: "rd_cell q c = (case c of HeadFirst h \<Rightarrow> tqh_first q h | NextOf e \<Rightarrow> tqe_next q e)"
  by (cases c) simp_all

lemma insert_head_list:
  assumes q: "tq_list q h xs" and e: "e \<notin> set xs"
  shows "tq_list (TAILQ_INSERT_HEAD h e q) h (e # xs)"
proof -
  have q': "tq_list q h ([] @ xs)" "e \<notin> set ([] @ xs)" using q e by simp_all
  have "tq_list (TAILQ_INSERT_HEAD h e q) h ([] @ e # xs)"
  proof (rule link_in [OF q'])
  qed (use middle(1) [of q h "[]" xs] q e in
      \<open>auto simp: TAILQ_INSERT_HEAD_def Let_def rd_cell_cases split: list.splits cell.splits\<close>)
  then show ?thesis by simp
qed

lemma insert_tail_list:
  assumes q: "tq_list q h xs" and e: "e \<notin> set xs"
  shows "tq_list (TAILQ_INSERT_TAIL h e q) h (xs @ [e])"
proof -
  have q': "tq_list q h (xs @ [])" "e \<notin> set (xs @ [])" using q e by simp_all
  have m: "end_cell (HeadFirst h) xs \<noteq> NextOf e" using end_cell_in e by fastforce
  show ?thesis
  proof (rule link_in [OF q'])
  qed (use m tq_listD(3) [OF q] in \<open>simp_all add: TAILQ_INSERT_TAIL_def Let_def del: wr_cell.simps rd_cell.simps\<close>)
qed

lemma insert_after_list:
  assumes q: "tq_list q h (as @ x # bs)" and e: "e \<notin> set (as @ x # bs)"
  shows "tq_list (TAILQ_INSERT_AFTER h x e q) h (as @ x # e # bs)"
proof -
  have q': "tq_list q h ((as @ [x]) @ bs)" "e \<notin> set ((as @ [x]) @ bs)" using q e by simp_all
  have "tq_list (TAILQ_INSERT_AFTER h x e q) h ((as @ [x]) @ e # bs)"
  proof (rule link_in [OF q'])
  qed (use middle(1) [OF q'(1)] e in
      \<open>auto simp: TAILQ_INSERT_AFTER_def Let_def rd_cell_cases split: list.splits cell.splits\<close>)
  then show ?thesis by simp
qed

lemma insert_before_list:
  assumes q: "tq_list q h (as @ x # bs)" and e: "e \<notin> set (as @ x # bs)"
  shows "tq_list (TAILQ_INSERT_BEFORE x e q) h (as @ e # x # bs)"
proof -
  have p: "tqe_prev q x = end_cell (HeadFirst h) as" using middle(2) [OF q] by simp
  have m: "end_cell (HeadFirst h) as \<noteq> NextOf e" using end_cell_in e by fastforce
  show ?thesis
  proof (rule link_in [OF q e])
  qed (use m p e in \<open>simp_all add: TAILQ_INSERT_BEFORE_def Let_def del: wr_cell.simps rd_cell.simps\<close>)
qed

lemma remove_list:
  assumes q: "tq_list q h (as @ e # bs)"
  shows "tq_list (TAILQ_REMOVE h e q) h (as @ bs)"
proof -
  have p: "tqe_prev q e = end_cell (HeadFirst h) as" using middle(2) [OF q] by simp
  have n: "tqe_next q e = (case bs of [] \<Rightarrow> None | b # _ \<Rightarrow> Some b)"
    using middle(1) [of q h "as @ [e]" bs] q by simp
  have d: "e \<notin> set bs" using tq_listD(1) [OF q] by simp
  show ?thesis
  proof (rule link_out [OF q])
  qed (use p n d in \<open>simp_all add: TAILQ_REMOVE_def Let_def del: wr_cell.simps split: list.splits\<close>)
qed

lemma rehead_list:
  assumes q: "tq_list q h xs"
    and new: "tqh_first q' h' = tqh_first q h" "tqh_last q' h' = (if xs = [] then HeadFirst h' else tqh_last q h)"
      "xs \<noteq> [] \<Longrightarrow> tqe_prev q' (hd xs) = HeadFirst h'"
    and old: "\<And>x. x \<in> set xs \<Longrightarrow> tqe_next q' x = tqe_next q x"
      "\<And>x. x \<in> set (tl xs) \<Longrightarrow> tqe_prev q' x = tqe_prev q x"
  shows "tq_list q' h' xs"
proof (cases xs)
  case Nil
  then show ?thesis using tq_listD(4) [OF q] new by (simp add: tq_list_def)
next
  case (Cons x ys)
  have D: "distinct xs" "qseg q (NextOf x) ys (tqh_last q h)" "rd_cell q (tqh_last q h) = None"
    "tqh_first q h = Some x" "tqh_last q h = end_cell (NextOf x) ys"
    using tq_listD [OF q] Cons by simp_all
  have "qseg q' (NextOf x) ys (tqh_last q h)"
    using D(1) Cons old by (intro qseg_cong [OF D(2)]) simp_all
  moreover have "rd_cell q' (tqh_last q h) = None"
    using D(3,5) end_cell_cases [of "NextOf x" ys] Cons old(1) by auto
  ultimately show ?thesis using D new Cons by (simp add: tq_list_def)
qed

lemma swap_list:
  assumes "tq_list q h1 xs" "tq_list q h2 ys" "h1 \<noteq> h2" "set xs \<inter> set ys = {}"
  shows "tq_list (TAILQ_SWAP h1 h2 q) h1 ys \<and> tq_list (TAILQ_SWAP h1 h2 q) h2 xs"
proof -
  have f: "tqh_first q h1 = (case xs of [] \<Rightarrow> None | x # _ \<Rightarrow> Some x)"
    "tqh_first q h2 = (case ys of [] \<Rightarrow> None | y # _ \<Rightarrow> Some y)"
    using middle(1) [of q h1 "[]" xs] middle(1) [of q h2 "[]" ys] assms(1,2) by simp_all
  have d: "distinct xs" "distinct ys" using assms(1,2) by (simp_all add: tq_list_def)
  have "tq_list (TAILQ_SWAP h1 h2 q) h1 ys"
  proof (rule rehead_list [OF assms(2)])
  qed (use f d assms(3,4) in \<open>auto simp: TAILQ_SWAP_def Let_def split: list.splits\<close>)
  moreover have "tq_list (TAILQ_SWAP h1 h2 q) h2 xs"
  proof (rule rehead_list [OF assms(1)])
  qed (use f d assms(3,4) in \<open>auto simp: TAILQ_SWAP_def Let_def split: list.splits\<close>)
  ultimately show ?thesis ..
qed

lemma concat_list:
  assumes q1: "tq_list q h1 xs" and q2: "tq_list q h2 ys" and ne: "h1 \<noteq> h2" and dis: "set xs \<inter> set ys = {}"
  shows "tq_list (TAILQ_CONCAT h1 h2 q) h1 (xs @ ys) \<and> tq_list (TAILQ_CONCAT h1 h2 q) h2 []"
proof (cases ys)
  case Nil
  then show ?thesis using q1 q2 middle(1) [of q h2 "[]" ys] by (simp add: TAILQ_CONCAT_def)
next
  case (Cons y zs)
  note D1 = tq_listD [OF q1] and D2 = tq_listD [OF q2]
  let ?m = "end_cell (HeadFirst h1) xs"
  have y: "tqh_first q h2 = Some y" using D2(2) Cons by simp
  define q' where "q' = TAILQ_CONCAT h1 h2 q"
  have q': "q' = TAILQ_INIT h2 (set_last h1 (tqh_last q h2) (set_prev y ?m (wr_cell ?m (Some y) q)))"
    using y D1(3) by (simp add: q'_def TAILQ_CONCAT_def Let_def)
  have m2: "?m \<noteq> HeadFirst h2" using ne end_cell_cases [of "HeadFirst h1" xs] by auto
  have m: "?m = NextOf x \<Longrightarrow> x \<in> set xs" for x by (rule end_cell_in)
  have mz: "x \<in> set ys \<Longrightarrow> NextOf x \<noteq> ?m" for x using m dis by (metis disjoint_iff)
  have rd: "rd_cell q' c = (if c = HeadFirst h2 then None else if c = ?m then Some y else rd_cell q c)" for c
    by (simp add: q' TAILQ_INIT_def del: wr_cell.simps rd_cell.simps)
  have pv: "tqe_prev q' x = (if x = y then ?m else tqe_prev q x)" for x
    by (simp add: q' TAILQ_INIT_def del: wr_cell.simps)
  have la: "tqh_last q' h1 = end_cell (NextOf y) zs"
    using ne D2(3) Cons by (simp add: q' TAILQ_INIT_def del: wr_cell.simps)
  have b1: "qseg q' (HeadFirst h1) xs ?m"
    using D1(1) dis Cons ne end_cell_cases [of "HeadFirst h1" xs]
    by (intro qseg_cong [OF D1(2)]) (auto simp: rd pv simp del: rd_cell.simps)
  have seg: "qseg q (NextOf y) zs (end_cell (NextOf y) zs)" "distinct (y # zs)" using D2(1,2) Cons by simp_all
  have b2: "qseg q' (NextOf y) zs (end_cell (NextOf y) zs)"
    using seg(2) mz Cons by (intro qseg_cong [OF seg(1)]) (auto simp: rd pv simp del: rd_cell.simps)
  obtain z where z: "end_cell (NextOf y) zs = NextOf z" "z \<in> set ys"
    using end_cell_cases [of "NextOf y" zs] Cons by auto
  then have "rd_cell q (NextOf z) = None" using D2(4) Cons by simp
  moreover have "?m \<noteq> NextOf z" using mz [OF z(2)] by simp
  ultimately have "rd_cell q' (NextOf z) = None" by (auto simp: rd simp del: rd_cell.simps)
  then have "tq_list q' h1 (xs @ ys)"
    using b1 b2 la z(1) m2 D1(1) D2(1) dis Cons rd [of ?m] pv [of y]
    by (intro tq_listI) (auto simp: qseg_append end_cell_append simp del: rd_cell.simps)
  moreover have "tq_list q' h2 []" unfolding q' by (rule TAILQ_INIT_list)
  ultimately show ?thesis unfolding q'_def ..
qed

lemma last_list: "tq_list q h xs \<Longrightarrow> TAILQ_LAST h q = (if xs = [] then None else Some (last xs))"
proof (cases xs rule: rev_cases)
  case (snoc ys y)
  moreover assume "tq_list q h xs"
  ultimately show ?thesis using middle [of q h ys "[y]"] tq_listD(3) [of q h xs] by (simp add: TAILQ_LAST_def)
next
  case Nil
  moreover assume "tq_list q h xs"
  ultimately show ?thesis using tq_listD(3,4) [of q h xs] by (simp add: TAILQ_LAST_def)
qed

lemma prev_list:
  assumes "tq_list q h (as @ e # bs)"
  shows "TAILQ_PREV e q = (if as = [] then None else Some (last as))"
proof (cases as rule: rev_cases)
  case Nil
  then show ?thesis using middle(2) [OF assms] tq_listD(3,4) [OF assms] by (simp add: TAILQ_PREV_def)
next
  case (snoc ys y)
  then show ?thesis using middle [of q h ys "y # e # bs"] middle(2) [OF assms] assms by (simp add: TAILQ_PREV_def)
qed

lemma first_list: "tq_list q h xs \<Longrightarrow> TAILQ_FIRST h q = (if xs = [] then None else Some (hd xs))"
  using middle(1) [of q h "[]" xs] by (simp add: TAILQ_FIRST_def split: list.splits)

lemma next_list: "tq_list q h (as @ e # bs) \<Longrightarrow> TAILQ_NEXT e q = (if bs = [] then None else Some (hd bs))"
  using middle(1) [of q h "as @ [e]" bs] by (simp add: TAILQ_NEXT_def split: list.splits)

lemma from_list:
  assumes "tq_list q h (as @ bs)" "length bs \<le> n"
  shows "tailq_from n (if bs = [] then None else Some (hd bs)) q = bs"
  using assms
proof (induction bs arbitrary: as n)
  case (Cons b bs)
  then obtain k where k: "n = Suc k" by (cases n) auto
  have "tailq_from k (if bs = [] then None else Some (hd bs)) q = bs"
    using Cons.IH [of "as @ [b]" k] Cons.prems k by simp
  then show ?case using next_list [OF Cons.prems(1)] k by simp
qed simp

lemma back_list:
  assumes "tq_list q h (as @ bs)" "length as \<le> n"
  shows "tailq_back n (if as = [] then None else Some (last as)) q = rev as"
  using assms
proof (induction as arbitrary: bs n rule: rev_induct)
  case (snoc a as)
  then obtain k where k: "n = Suc k" by (cases n) auto
  have "tailq_back k (if as = [] then None else Some (last as)) q = rev as"
    using snoc.IH [of "a # bs" k] snoc.prems k by simp
  then show ?case using prev_list [of q h as a bs] snoc.prems k by simp
qed simp

section \<open>Properties\<close>

datatype 'e tq_op = OpHead 'e | OpTail 'e | OpAfter 'e 'e | OpBefore 'e 'e | OpRemove 'e

fun tq_run :: "nat \<Rightarrow> 'e tq_op list \<Rightarrow> 'e tailq \<Rightarrow> 'e tailq" where
  "tq_run h [] q = q"
| "tq_run h (OpHead e # ops) q = tq_run h ops (TAILQ_INSERT_HEAD h e q)"
| "tq_run h (OpTail e # ops) q = tq_run h ops (TAILQ_INSERT_TAIL h e q)"
| "tq_run h (OpAfter x e # ops) q = tq_run h ops (TAILQ_INSERT_AFTER h x e q)"
| "tq_run h (OpBefore x e # ops) q = tq_run h ops (TAILQ_INSERT_BEFORE x e q)"
| "tq_run h (OpRemove e # ops) q = tq_run h ops (TAILQ_REMOVE h e q)"

text \<open>The same on lists; an element may be inserted once, and removed when it is there.\<close>

fun list_run :: "'e tq_op list \<Rightarrow> 'e list \<Rightarrow> 'e list option" where
  "list_run [] xs = Some xs"
| "list_run (OpHead e # ops) xs = (if e \<in> set xs then None else list_run ops (e # xs))"
| "list_run (OpTail e # ops) xs = (if e \<in> set xs then None else list_run ops (xs @ [e]))"
| "list_run (OpAfter x e # ops) xs =
     (if e \<in> set xs \<or> x \<notin> set xs then None
      else list_run ops (takeWhile (\<lambda>y. y \<noteq> x) xs @ x # e # tl (dropWhile (\<lambda>y. y \<noteq> x) xs)))"
| "list_run (OpBefore x e # ops) xs =
     (if e \<in> set xs \<or> x \<notin> set xs then None
      else list_run ops (takeWhile (\<lambda>y. y \<noteq> x) xs @ e # x # tl (dropWhile (\<lambda>y. y \<noteq> x) xs)))"
| "list_run (OpRemove e # ops) xs = (if e \<notin> set xs then None else list_run ops (remove1 e xs))"

lemma split_at: "x \<in> set xs \<Longrightarrow> xs = takeWhile (\<lambda>y. y \<noteq> x) xs @ x # tl (dropWhile (\<lambda>y. y \<noteq> x) xs)"
  by (induction xs) auto

lemma remove1_split: "x \<in> set xs \<Longrightarrow> remove1 x xs = takeWhile (\<lambda>y. y \<noteq> x) xs @ tl (dropWhile (\<lambda>y. y \<noteq> x) xs)"
  by (induction xs) auto

lemma tq_run_list: "tq_list q h xs \<Longrightarrow> list_run ops xs = Some ys \<Longrightarrow> tq_list (tq_run h ops q) h ys"
proof (induction ops arbitrary: q xs)
  case (Cons op ops)
  have here: "\<exists>as bs. xs = as @ x # bs \<and> takeWhile (\<lambda>y. y \<noteq> x) xs = as \<and> tl (dropWhile (\<lambda>y. y \<noteq> x) xs) = bs"
    if "x \<in> set xs" for x using split_at [OF that] by blast
  show ?case
  proof (cases op)
    case (OpAfter x e)
    then have x: "x \<in> set xs" "e \<notin> set xs" using Cons.prems(2) by (auto split: if_splits)
    from here [OF x(1)] obtain as bs where p: "xs = as @ x # bs" "takeWhile (\<lambda>y. y \<noteq> x) xs = as"
      "tl (dropWhile (\<lambda>y. y \<noteq> x) xs) = bs" by blast
    have r: "list_run ops (as @ x # e # bs) = Some ys" using Cons.prems(2) x OpAfter unfolding p(2,3) [symmetric] by simp
    show ?thesis
      using insert_after_list [of q h as x bs e] Cons.prems(1) Cons.IH [OF _ r] p(1) x(2) OpAfter by simp
  next
    case (OpBefore x e)
    then have x: "x \<in> set xs" "e \<notin> set xs" using Cons.prems(2) by (auto split: if_splits)
    from here [OF x(1)] obtain as bs where p: "xs = as @ x # bs" "takeWhile (\<lambda>y. y \<noteq> x) xs = as"
      "tl (dropWhile (\<lambda>y. y \<noteq> x) xs) = bs" by blast
    have r: "list_run ops (as @ e # x # bs) = Some ys" using Cons.prems(2) x OpBefore unfolding p(2,3) [symmetric] by simp
    show ?thesis
      using insert_before_list [of q h as x bs e] Cons.prems(1) Cons.IH [OF _ r] p(1) x(2) OpBefore by simp
  next
    case (OpRemove e)
    then obtain as bs where p: "xs = as @ e # bs" "remove1 e xs = as @ bs" "list_run ops (remove1 e xs) = Some ys"
      using here [of e] remove1_split [of e xs] Cons.prems(2) by (auto split: if_splits)
    show ?thesis
      using remove_list [of q h as e bs] Cons.prems(1) Cons.IH [OF _ p(3)] p(1,2) OpRemove by simp
  qed (use Cons insert_head_list insert_tail_list in \<open>fastforce split: if_splits\<close>)+
qed simp

text \<open>
  C29: the tail queue macros implement a list.  After any sequence of insertions (at either end, before
  or after an element) and removals that a list without duplicates allows, on a queue that was just
  initialised, the two traversals visit the list and its reverse, and the queries for the first,
  last, next and previous element answer as the list does.
\<close>

theorem tailq_is_list:
  assumes "list_run ops [] = Some ys"
  shows "TAILQ_FOREACH (length ys) h (tq_run h ops (TAILQ_INIT h q)) = ys \<and>
    TAILQ_FOREACH_REVERSE (length ys) h (tq_run h ops (TAILQ_INIT h q)) = rev ys \<and>
    TAILQ_EMPTY h (tq_run h ops (TAILQ_INIT h q)) = (ys = []) \<and>
    (\<forall>as e bs. ys = as @ e # bs \<longrightarrow>
       TAILQ_NEXT e (tq_run h ops (TAILQ_INIT h q)) = (if bs = [] then None else Some (hd bs)) \<and>
       TAILQ_PREV e (tq_run h ops (TAILQ_INIT h q)) = (if as = [] then None else Some (last as)))"
proof -
  have rep: "tq_list (tq_run h ops (TAILQ_INIT h q)) h ys"
    using tq_run_list [OF TAILQ_INIT_list assms] .
  have "TAILQ_FOREACH (length ys) h (tq_run h ops (TAILQ_INIT h q)) = ys"
    using from_list [of _ h "[]" ys "length ys"] rep first_list [OF rep] by (simp add: TAILQ_FOREACH_def)
  moreover have "TAILQ_FOREACH_REVERSE (length ys) h (tq_run h ops (TAILQ_INIT h q)) = rev ys"
    using back_list [of _ h ys "[]" "length ys"] rep last_list [OF rep] by (simp add: TAILQ_FOREACH_REVERSE_def)
  moreover have "TAILQ_EMPTY h (tq_run h ops (TAILQ_INIT h q)) = (ys = [])"
    using first_list [OF rep] by (simp add: TAILQ_EMPTY_def TAILQ_FIRST_def)
  ultimately show ?thesis using next_list prev_list rep by fast
qed

definition blank_tailq :: "nat tailq" where
  "blank_tailq = \<lparr>tqh_first = (\<lambda>_. None), tqh_last = (\<lambda>_. NextOf 0), tqe_next = (\<lambda>_. Some 7), tqe_prev = (\<lambda>_. NextOf 7)\<rparr>"

theorem tailq_is_list_witness:
  "TAILQ_FOREACH 3 0 (tq_run 0 [OpTail 1, OpTail 2, OpHead 3, OpAfter 1 4, OpRemove 2] (TAILQ_INIT 0 blank_tailq)) = [3, 1, 4]"
  using tailq_is_list [of "[OpTail 1, OpTail 2, OpHead 3, OpAfter 1 4, OpRemove (2::nat)]" "[3, 1, 4]" 0 blank_tailq]
  by (simp add: numeral_3_eq_3)

text \<open>
  \<open>TAILQ_CONCAT\<close> moves the second list behind the first and empties the second queue; \<open>TAILQ_SWAP\<close>
  exchanges the lists of two queues.
\<close>

theorem tailq_concat_swap:
  assumes "tq_list q h1 xs" "tq_list q h2 ys" "h1 \<noteq> h2" "set xs \<inter> set ys = {}"
  shows "tq_list (TAILQ_CONCAT h1 h2 q) h1 (xs @ ys) \<and> tq_list (TAILQ_CONCAT h1 h2 q) h2 [] \<and>
    tq_list (TAILQ_SWAP h1 h2 q) h1 ys \<and> tq_list (TAILQ_SWAP h1 h2 q) h2 xs"
  using concat_list [OF assms] swap_list [OF assms] by blast

theorem tailq_concat_swap_witness:
  "\<exists>q :: nat tailq. tq_list (TAILQ_CONCAT 0 1 q) 0 [5, 6]"
proof -
  let ?q = "TAILQ_INSERT_TAIL 1 6 (TAILQ_INIT 1 (TAILQ_INSERT_TAIL 0 5 (TAILQ_INIT 0 blank_tailq)))"
  have "tq_list ?q 0 [5]" "tq_list ?q 1 [6]"
    by (simp_all add: tq_list_def TAILQ_INSERT_TAIL_def TAILQ_INIT_def Let_def)
  from tailq_concat_swap [OF this] show ?thesis by (intro exI [of _ ?q]) simp
qed

end
