(* ===== verification/NTY_Lists.thy ===== *)
theory NTY_Lists
  imports NTY_Queue
begin

text \<open>
  The other lists of nty_queue.h: SLIST (singly linked), STAILQ (singly linked with a pointer to the
  last cell) and LIST (doubly linked), at the level of their pointers and with the cells of NTY_Queue.
  All of them, and TAILQ, satisfy one contract, the locale \<open>head_list\<close>.  \<open>None\<close> is the
  dereference of a null pointer, or a search that does not end; TRASHIT is empty in this build.
\<close>

section \<open>Singly linked lists\<close>

record 'e slist =
  slh_first :: "nat \<Rightarrow> 'e option"
  sle_next :: "'e \<Rightarrow> 'e option"

fun rd_s :: "'e slist \<Rightarrow> 'e cell \<Rightarrow> 'e option" where
  "rd_s s (HeadFirst h) = slh_first s h"
| "rd_s s (NextOf e) = sle_next s e"

fun wr_s :: "'e cell \<Rightarrow> 'e option \<Rightarrow> 'e slist \<Rightarrow> 'e slist" where
  "wr_s (HeadFirst h) v s = s\<lparr>slh_first := (slh_first s)(h := v)\<rparr>"
| "wr_s (NextOf e) v s = s\<lparr>sle_next := (sle_next s)(e := v)\<rparr>"

definition SLIST_INIT :: "nat \<Rightarrow> 'e slist \<Rightarrow> 'e slist" where
  "SLIST_INIT h s = wr_s (HeadFirst h) None s"

definition SLIST_EMPTY :: "nat \<Rightarrow> 'e slist \<Rightarrow> bool" where
  "SLIST_EMPTY h s \<longleftrightarrow> slh_first s h = None"

definition SLIST_FIRST :: "nat \<Rightarrow> 'e slist \<Rightarrow> 'e option" where
  "SLIST_FIRST h s = slh_first s h"

definition SLIST_NEXT :: "'e \<Rightarrow> 'e slist \<Rightarrow> 'e option" where
  "SLIST_NEXT e s = sle_next s e"

definition SLIST_INSERT_AFTER :: "'e \<Rightarrow> 'e \<Rightarrow> 'e slist \<Rightarrow> 'e slist" where
  "SLIST_INSERT_AFTER x e s =
     (let s = wr_s (NextOf e) (sle_next s x) s
      in wr_s (NextOf x) (Some e) s)"

definition SLIST_INSERT_HEAD :: "nat \<Rightarrow> 'e \<Rightarrow> 'e slist \<Rightarrow> 'e slist" where
  "SLIST_INSERT_HEAD h e s =
     (let s = wr_s (NextOf e) (slh_first s h) s
      in wr_s (HeadFirst h) (Some e) s)"

definition SLIST_REMOVE_AFTER :: "'e \<Rightarrow> 'e slist \<Rightarrow> 'e slist option" where
  "SLIST_REMOVE_AFTER x s = do {
     y \<leftarrow> sle_next s x;
     Some (wr_s (NextOf x) (sle_next s y) s) }"

definition SLIST_REMOVE_HEAD :: "nat \<Rightarrow> 'e slist \<Rightarrow> 'e slist option" where
  "SLIST_REMOVE_HEAD h s = do {
     x \<leftarrow> slh_first s h;
     Some (wr_s (HeadFirst h) (sle_next s x) s) }"

text \<open>The search for the element before \<open>e\<close>, over the next pointers \<open>nx\<close>.\<close>

partial_function (option) element_before :: "('e \<Rightarrow> 'e option) \<Rightarrow> 'e \<Rightarrow> 'e option \<Rightarrow> 'e option" where
  "element_before nx e curelm = do {
     c \<leftarrow> curelm;
     if nx c = Some e then Some c else element_before nx e (nx c) }"

definition SLIST_REMOVE :: "nat \<Rightarrow> 'e \<Rightarrow> 'e slist \<Rightarrow> 'e slist option" where
  "SLIST_REMOVE h e s =
     (if slh_first s h = Some e then SLIST_REMOVE_HEAD h s
      else do {
        curelm \<leftarrow> element_before (sle_next s) e (slh_first s h);
        SLIST_REMOVE_AFTER curelm s })"

text \<open>The elements that a loop over next pointers visits, for at most \<open>n\<close> elements.\<close>

fun visit :: "('e \<Rightarrow> 'e option) \<Rightarrow> nat \<Rightarrow> 'e option \<Rightarrow> 'e list" where
  "visit nx n None = []"
| "visit nx 0 (Some e) = []"
| "visit nx (Suc n) (Some e) = e # visit nx n (nx e)"

definition SLIST_FOREACH :: "nat \<Rightarrow> nat \<Rightarrow> 'e slist \<Rightarrow> 'e list" where
  "SLIST_FOREACH n h s = visit (\<lambda>e. SLIST_NEXT e s) n (SLIST_FIRST h s)"

section \<open>Singly linked tail queues\<close>

record 'e stailq =
  stqh_first :: "nat \<Rightarrow> 'e option"
  stqh_last :: "nat \<Rightarrow> 'e cell"
  stqe_next :: "'e \<Rightarrow> 'e option"

fun rd_t :: "'e stailq \<Rightarrow> 'e cell \<Rightarrow> 'e option" where
  "rd_t s (HeadFirst h) = stqh_first s h"
| "rd_t s (NextOf e) = stqe_next s e"

fun wr_t :: "'e cell \<Rightarrow> 'e option \<Rightarrow> 'e stailq \<Rightarrow> 'e stailq" where
  "wr_t (HeadFirst h) v s = s\<lparr>stqh_first := (stqh_first s)(h := v)\<rparr>"
| "wr_t (NextOf e) v s = s\<lparr>stqe_next := (stqe_next s)(e := v)\<rparr>"

abbreviation set_stq_last :: "nat \<Rightarrow> 'e cell \<Rightarrow> 'e stailq \<Rightarrow> 'e stailq" where
  "set_stq_last h c s \<equiv> s\<lparr>stqh_last := (stqh_last s)(h := c)\<rparr>"

definition STAILQ_INIT :: "nat \<Rightarrow> 'e stailq \<Rightarrow> 'e stailq" where
  "STAILQ_INIT h s = set_stq_last h (HeadFirst h) (wr_t (HeadFirst h) None s)"

definition STAILQ_EMPTY :: "nat \<Rightarrow> 'e stailq \<Rightarrow> bool" where
  "STAILQ_EMPTY h s \<longleftrightarrow> stqh_first s h = None"

definition STAILQ_FIRST :: "nat \<Rightarrow> 'e stailq \<Rightarrow> 'e option" where
  "STAILQ_FIRST h s = stqh_first s h"

definition STAILQ_NEXT :: "'e \<Rightarrow> 'e stailq \<Rightarrow> 'e option" where
  "STAILQ_NEXT e s = stqe_next s e"

definition STAILQ_INSERT_AFTER :: "nat \<Rightarrow> 'e \<Rightarrow> 'e \<Rightarrow> 'e stailq \<Rightarrow> 'e stailq" where
  "STAILQ_INSERT_AFTER h x e s =
     (let s = wr_t (NextOf e) (stqe_next s x) s;
          s = (if stqe_next s e = None then set_stq_last h (NextOf e) s else s)
      in wr_t (NextOf x) (Some e) s)"

definition STAILQ_INSERT_HEAD :: "nat \<Rightarrow> 'e \<Rightarrow> 'e stailq \<Rightarrow> 'e stailq" where
  "STAILQ_INSERT_HEAD h e s =
     (let s = wr_t (NextOf e) (stqh_first s h) s;
          s = (if stqe_next s e = None then set_stq_last h (NextOf e) s else s)
      in wr_t (HeadFirst h) (Some e) s)"

definition STAILQ_INSERT_TAIL :: "nat \<Rightarrow> 'e \<Rightarrow> 'e stailq \<Rightarrow> 'e stailq" where
  "STAILQ_INSERT_TAIL h e s =
     (let s = wr_t (NextOf e) None s;
          s = wr_t (stqh_last s h) (Some e) s
      in set_stq_last h (NextOf e) s)"

text \<open>\<open>STAILQ_LAST\<close>: the owner of the last cell, when the queue is not empty; the head is no element.\<close>

definition STAILQ_LAST :: "nat \<Rightarrow> 'e stailq \<Rightarrow> 'e option option" where
  "STAILQ_LAST h s =
     (if STAILQ_EMPTY h s then Some None
      else (case stqh_last s h of NextOf e \<Rightarrow> Some (Some e) | HeadFirst _ \<Rightarrow> None))"

definition STAILQ_REMOVE_HEAD :: "nat \<Rightarrow> 'e stailq \<Rightarrow> 'e stailq option" where
  "STAILQ_REMOVE_HEAD h s = do {
     x \<leftarrow> stqh_first s h;
     let s = wr_t (HeadFirst h) (stqe_next s x) s;
     Some (if stqh_first s h = None then set_stq_last h (HeadFirst h) s else s) }"

definition STAILQ_REMOVE_AFTER :: "nat \<Rightarrow> 'e \<Rightarrow> 'e stailq \<Rightarrow> 'e stailq option" where
  "STAILQ_REMOVE_AFTER h x s = do {
     y \<leftarrow> stqe_next s x;
     let s = wr_t (NextOf x) (stqe_next s y) s;
     Some (if stqe_next s x = None then set_stq_last h (NextOf x) s else s) }"

definition STAILQ_REMOVE :: "nat \<Rightarrow> 'e \<Rightarrow> 'e stailq \<Rightarrow> 'e stailq option" where
  "STAILQ_REMOVE h e s =
     (if stqh_first s h = Some e then STAILQ_REMOVE_HEAD h s
      else do {
        curelm \<leftarrow> element_before (stqe_next s) e (stqh_first s h);
        STAILQ_REMOVE_AFTER h curelm s })"

definition STAILQ_CONCAT :: "nat \<Rightarrow> nat \<Rightarrow> 'e stailq \<Rightarrow> 'e stailq" where
  "STAILQ_CONCAT h1 h2 s =
     (if STAILQ_EMPTY h2 s then s
      else let s = wr_t (stqh_last s h1) (stqh_first s h2) s;
               s = set_stq_last h1 (stqh_last s h2) s
           in STAILQ_INIT h2 s)"

definition STAILQ_SWAP :: "nat \<Rightarrow> nat \<Rightarrow> 'e stailq \<Rightarrow> 'e stailq" where
  "STAILQ_SWAP h1 h2 s =
     (let swap_first = stqh_first s h1;
          swap_last = stqh_last s h1;
          s = wr_t (HeadFirst h1) (stqh_first s h2) s;
          s = set_stq_last h1 (stqh_last s h2) s;
          s = wr_t (HeadFirst h2) swap_first s;
          s = set_stq_last h2 swap_last s;
          s = (if STAILQ_EMPTY h1 s then set_stq_last h1 (HeadFirst h1) s else s)
      in if STAILQ_EMPTY h2 s then set_stq_last h2 (HeadFirst h2) s else s)"

definition STAILQ_FOREACH :: "nat \<Rightarrow> nat \<Rightarrow> 'e stailq \<Rightarrow> 'e list" where
  "STAILQ_FOREACH n h s = visit (\<lambda>e. STAILQ_NEXT e s) n (STAILQ_FIRST h s)"

section \<open>Doubly linked lists\<close>

record 'e dlist =
  lh_first :: "nat \<Rightarrow> 'e option"
  le_next :: "'e \<Rightarrow> 'e option"
  le_prev :: "'e \<Rightarrow> 'e cell"

fun rd_d :: "'e dlist \<Rightarrow> 'e cell \<Rightarrow> 'e option" where
  "rd_d s (HeadFirst h) = lh_first s h"
| "rd_d s (NextOf e) = le_next s e"

fun wr_d :: "'e cell \<Rightarrow> 'e option \<Rightarrow> 'e dlist \<Rightarrow> 'e dlist" where
  "wr_d (HeadFirst h) v s = s\<lparr>lh_first := (lh_first s)(h := v)\<rparr>"
| "wr_d (NextOf e) v s = s\<lparr>le_next := (le_next s)(e := v)\<rparr>"

abbreviation set_le_prev :: "'e \<Rightarrow> 'e cell \<Rightarrow> 'e dlist \<Rightarrow> 'e dlist" where
  "set_le_prev e c s \<equiv> s\<lparr>le_prev := (le_prev s)(e := c)\<rparr>"

definition LIST_INIT :: "nat \<Rightarrow> 'e dlist \<Rightarrow> 'e dlist" where
  "LIST_INIT h s = wr_d (HeadFirst h) None s"

definition LIST_EMPTY :: "nat \<Rightarrow> 'e dlist \<Rightarrow> bool" where
  "LIST_EMPTY h s \<longleftrightarrow> lh_first s h = None"

definition LIST_FIRST :: "nat \<Rightarrow> 'e dlist \<Rightarrow> 'e option" where
  "LIST_FIRST h s = lh_first s h"

definition LIST_NEXT :: "'e \<Rightarrow> 'e dlist \<Rightarrow> 'e option" where
  "LIST_NEXT e s = le_next s e"

definition LIST_INSERT_AFTER :: "'e \<Rightarrow> 'e \<Rightarrow> 'e dlist \<Rightarrow> 'e dlist" where
  "LIST_INSERT_AFTER x e s =
     (let s = wr_d (NextOf e) (le_next s x) s;
          s = (case le_next s e of Some _ \<Rightarrow>
                 (case le_next s x of Some y \<Rightarrow> set_le_prev y (NextOf e) s | None \<Rightarrow> s)
               | None \<Rightarrow> s);
          s = wr_d (NextOf x) (Some e) s
      in set_le_prev e (NextOf x) s)"

definition LIST_INSERT_BEFORE :: "'e \<Rightarrow> 'e \<Rightarrow> 'e dlist \<Rightarrow> 'e dlist" where
  "LIST_INSERT_BEFORE x e s =
     (let s = set_le_prev e (le_prev s x) s;
          s = wr_d (NextOf e) (Some x) s;
          s = wr_d (le_prev s x) (Some e) s
      in set_le_prev x (NextOf e) s)"

definition LIST_INSERT_HEAD :: "nat \<Rightarrow> 'e \<Rightarrow> 'e dlist \<Rightarrow> 'e dlist" where
  "LIST_INSERT_HEAD h e s =
     (let s = wr_d (NextOf e) (lh_first s h) s;
          s = (case le_next s e of Some _ \<Rightarrow>
                 (case lh_first s h of Some f \<Rightarrow> set_le_prev f (NextOf e) s | None \<Rightarrow> s)
               | None \<Rightarrow> s);
          s = wr_d (HeadFirst h) (Some e) s
      in set_le_prev e (HeadFirst h) s)"

definition LIST_REMOVE :: "'e \<Rightarrow> 'e dlist \<Rightarrow> 'e dlist" where
  "LIST_REMOVE e s =
     (let s = (case le_next s e of Some y \<Rightarrow> set_le_prev y (le_prev s e) s | None \<Rightarrow> s)
      in wr_d (le_prev s e) (le_next s e) s)"

definition LIST_SWAP :: "nat \<Rightarrow> nat \<Rightarrow> 'e dlist \<Rightarrow> 'e dlist" where
  "LIST_SWAP h1 h2 s =
     (let swap_tmp = lh_first s h1;
          s = wr_d (HeadFirst h1) (lh_first s h2) s;
          s = wr_d (HeadFirst h2) swap_tmp s;
          s = (case lh_first s h1 of Some f \<Rightarrow> set_le_prev f (HeadFirst h1) s | None \<Rightarrow> s)
      in case lh_first s h2 of Some f \<Rightarrow> set_le_prev f (HeadFirst h2) s | None \<Rightarrow> s)"

definition LIST_FOREACH :: "nat \<Rightarrow> nat \<Rightarrow> 'e dlist \<Rightarrow> 'e list" where
  "LIST_FOREACH n h s = visit (\<lambda>e. LIST_NEXT e s) n (LIST_FIRST h s)"

section \<open>Chains of cells\<close>

text \<open>\<open>r\<close> reads the cells: from cell \<open>c\<close> on, the elements of a list and then null.\<close>

fun chain_from :: "('e cell \<Rightarrow> 'e option) \<Rightarrow> 'e cell \<Rightarrow> 'e list \<Rightarrow> bool" where
  "chain_from r c [] \<longleftrightarrow> r c = None"
| "chain_from r c (x # xs) \<longleftrightarrow> r c = Some x \<and> chain_from r (NextOf x) xs"

text \<open>Every element points back to the cell before it.\<close>

fun back_links :: "('e \<Rightarrow> 'e cell) \<Rightarrow> 'e cell \<Rightarrow> 'e list \<Rightarrow> bool" where
  "back_links p c [] \<longleftrightarrow> True"
| "back_links p c (x # xs) \<longleftrightarrow> p x = c \<and> back_links p (NextOf x) xs"

lemma chain_cong:
  "chain_from r c xs \<Longrightarrow> r' c = r c \<Longrightarrow> (\<And>x. x \<in> set xs \<Longrightarrow> r' (NextOf x) = r (NextOf x)) \<Longrightarrow> chain_from r' c xs"
  by (induction xs arbitrary: c) auto

text \<open>A chain under another head cell.\<close>

lemma chain_rehead:
  assumes "chain_from r c xs" "r' d = r c" "\<And>x. x \<in> set xs \<Longrightarrow> r' (NextOf x) = r (NextOf x)"
  shows "chain_from r' d xs"
proof (cases xs)
  case (Cons x ys)
  have "chain_from r' (NextOf x) ys" by (rule chain_cong [of r]) (use assms Cons in auto)
  then show ?thesis using assms Cons by simp
qed (use assms in simp)

lemma cells_append: "chain_from r c (as @ bs) \<Longrightarrow> chain_from r (end_cell c as) bs"
  by (induction as arbitrary: c) auto

lemma chain_first: "chain_from r c xs \<Longrightarrow> r c = (case xs of [] \<Rightarrow> None | x # _ \<Rightarrow> Some x)"
  by (cases xs) auto

lemma end_cell_member: "end_cell c xs = d \<Longrightarrow> d = c \<or> (\<exists>x \<in> set xs. d = NextOf x)"
  by (induction xs arbitrary: c) auto

lemma chain_insert:
  assumes "chain_from r c (as @ bs)" "distinct (as @ bs)" "e \<notin> set (as @ bs)" "c \<notin> NextOf ` set (as @ bs)" "c \<noteq> NextOf e"
  shows "chain_from (r(NextOf e := r (end_cell c as), end_cell c as := Some e)) c (as @ e # bs)"
  using assms
proof (induction as arbitrary: c)
  case Nil
  have "chain_from (r(NextOf e := r c, c := Some e)) (NextOf e) bs"
  proof (cases bs)
    case (Cons b bs')
    then have "chain_from r (NextOf b) bs'" using Nil.prems(1) by simp
    then have "chain_from (r(NextOf e := r c, c := Some e)) (NextOf b) bs'"
      by (rule chain_cong) (use Nil.prems(3,4) Cons in auto)
    then show ?thesis using Nil.prems(1,5) Cons by (auto simp del: fun_upd_apply simp: fun_upd_same fun_upd_other)
  qed (use Nil.prems(1,5) in auto)
  then show ?case by (simp del: fun_upd_apply add: fun_upd_same)
next
  case (Cons a as)
  have "chain_from (r(NextOf e := r (end_cell (NextOf a) as), end_cell (NextOf a) as := Some e)) (NextOf a) (as @ e # bs)"
    by (rule Cons.IH) (use Cons.prems in auto)
  moreover have "end_cell (NextOf a) as \<noteq> c" using end_cell_member [of "NextOf a" as c] Cons.prems(4) by auto
  ultimately show ?case using Cons.prems(1,5) by (simp del: fun_upd_apply add: fun_upd_same fun_upd_other)
qed

lemma chain_remove:
  assumes "chain_from r c (as @ e # bs)" "distinct (as @ e # bs)" "c \<notin> NextOf ` set (as @ e # bs)"
  shows "chain_from (r(end_cell c as := r (NextOf e))) c (as @ bs)"
  using assms
proof (induction as arbitrary: c)
  case Nil
  show ?case
  proof (cases bs)
    case (Cons b bs')
    then have "chain_from r (NextOf b) bs'" using Nil.prems(1) by simp
    then have "chain_from (r(c := r (NextOf e))) (NextOf b) bs'"
      by (rule chain_cong) (use Nil.prems(3) Cons in auto)
    then show ?thesis using Nil.prems(1) Cons by (simp del: fun_upd_apply add: fun_upd_same)
  qed (use Nil.prems(1) in simp)
next
  case (Cons a as)
  have "chain_from (r(end_cell (NextOf a) as := r (NextOf e))) (NextOf a) (as @ bs)"
    by (rule Cons.IH) (use Cons.prems in auto)
  moreover have "end_cell (NextOf a) as \<noteq> c" using end_cell_member [of "NextOf a" as c] Cons.prems(3) by auto
  ultimately show ?case using Cons.prems(1) by (simp del: fun_upd_apply add: fun_upd_other)
qed

text \<open>One list behind another.\<close>

lemma chain_join:
  assumes "chain_from r c as" "chain_from r d bs" "distinct as" "set as \<inter> set bs = {}" "c \<notin> NextOf ` (set as \<union> set bs)"
  shows "chain_from (r(end_cell c as := r d)) c (as @ bs)"
  using assms
proof (induction as arbitrary: c)
  case Nil
  show ?case using Nil.prems by (auto intro!: chain_rehead [of r d bs])
next
  case (Cons a as)
  have "chain_from (r(end_cell (NextOf a) as := r d)) (NextOf a) (as @ bs)"
    by (rule Cons.IH) (use Cons.prems in auto)
  moreover have "end_cell (NextOf a) as \<noteq> c" using end_cell_member [of "NextOf a" as c] Cons.prems(5) by auto
  ultimately show ?case using Cons.prems(1) by (simp del: fun_upd_apply add: fun_upd_other)
qed

lemma back_links_cong: "back_links p c xs \<Longrightarrow> (\<And>x. x \<in> set xs \<Longrightarrow> p' x = p x) \<Longrightarrow> back_links p' c xs"
  by (induction xs arbitrary: c) auto

lemma back_links_append: "back_links p c (as @ bs) \<longleftrightarrow> back_links p c as \<and> back_links p (end_cell c as) bs"
  by (induction as arbitrary: c) auto

lemma visit_chain: "chain_from r c xs \<Longrightarrow> length xs \<le> n \<Longrightarrow> visit (\<lambda>e. r (NextOf e)) n (r c) = xs"
proof (induction xs arbitrary: c n)
  case (Cons x xs)
  then show ?case by (cases n) auto
qed simp

text \<open>The search ends at the element before; an element that is not in the list is sought beyond its end.\<close>

lemma element_before_chain:
  assumes "chain_from r (NextOf a) (as @ e # bs)" "distinct (a # as @ e # bs)"
  shows "element_before (\<lambda>x. r (NextOf x)) e (Some a) = Some (last (a # as))"
  using assms
proof (induction as arbitrary: a)
  case Nil
  then show ?case by (subst element_before.simps) simp
next
  case (Cons b as)
  then have "element_before (\<lambda>x. r (NextOf x)) e (Some b) = Some (last (b # as))" by simp
  then show ?case using Cons.prems by (subst element_before.simps) auto
qed

section \<open>Representation of a list by each family\<close>

definition slist_ok :: "'e slist \<Rightarrow> nat \<Rightarrow> 'e list \<Rightarrow> bool" where
  "slist_ok s h xs \<longleftrightarrow> distinct xs \<and> chain_from (rd_s s) (HeadFirst h) xs"

definition stailq_ok :: "'e stailq \<Rightarrow> nat \<Rightarrow> 'e list \<Rightarrow> bool" where
  "stailq_ok s h xs \<longleftrightarrow> distinct xs \<and> chain_from (rd_t s) (HeadFirst h) xs \<and> stqh_last s h = end_cell (HeadFirst h) xs"

definition dlist_ok :: "'e dlist \<Rightarrow> nat \<Rightarrow> 'e list \<Rightarrow> bool" where
  "dlist_ok s h xs \<longleftrightarrow> distinct xs \<and> chain_from (rd_d s) (HeadFirst h) xs \<and> back_links (le_prev s) (HeadFirst h) xs"

lemma rd_s_wr [simp]: "rd_s (wr_s c v s) = (rd_s s)(c := v)"
proof
  show "rd_s (wr_s c v s) d = ((rd_s s)(c := v)) d" for d by (cases c; cases d) simp_all
qed

lemma rd_t_wr [simp]: "rd_t (wr_t c v s) = (rd_t s)(c := v)"
proof
  show "rd_t (wr_t c v s) d = ((rd_t s)(c := v)) d" for d by (cases c; cases d) simp_all
qed

lemma rd_d_wr [simp]: "rd_d (wr_d c v s) = (rd_d s)(c := v)"
proof
  show "rd_d (wr_d c v s) d = ((rd_d s)(c := v)) d" for d by (cases c; cases d) simp_all
qed

lemma rd_last [simp]: "rd_t (s\<lparr>stqh_last := f\<rparr>) = rd_t s"
proof
  show "rd_t (s\<lparr>stqh_last := f\<rparr>) d = rd_t s d" for d by (cases d) simp_all
qed

lemma rd_prev [simp]: "rd_d (s\<lparr>le_prev := f\<rparr>) = rd_d s"
proof
  show "rd_d (s\<lparr>le_prev := f\<rparr>) d = rd_d s d" for d by (cases d) simp_all
qed

lemma last_wr [simp]: "stqh_last (wr_t c v s) = stqh_last s"
  by (cases c) simp_all

lemma prev_wr [simp]: "le_prev (wr_d c v s) = le_prev s"
  by (cases c) simp_all

lemma cells_rd:
  "slh_first s h = rd_s s (HeadFirst h)" "sle_next s e = rd_s s (NextOf e)"
  "stqh_first t h = rd_t t (HeadFirst h)" "stqe_next t e = rd_t t (NextOf e)"
  "lh_first d h = rd_d d (HeadFirst h)" "le_next d e = rd_d d (NextOf e)"
  by simp_all

lemma next_fun: "sle_next s = (\<lambda>x. rd_s s (NextOf x))" "stqe_next t = (\<lambda>x. rd_t t (NextOf x))"
  by (auto intro: ext)

text \<open>From here on a cell is read and written through \<open>rd_\<close> and \<open>wr_\<close> only.\<close>

declare rd_s.simps [simp del] wr_s.simps [simp del] rd_t.simps [simp del] wr_t.simps [simp del]
  rd_d.simps [simp del] wr_d.simps [simp del]

lemma chain_at: "chain_from r (HeadFirst h) (as @ bs) \<Longrightarrow> r (end_cell (HeadFirst h) as) = (case bs of [] \<Rightarrow> None | b # _ \<Rightarrow> Some b)"
  using cells_append chain_first by metis

text \<open>The two updates of an insertion and the one of a removal, on the chain of a head.\<close>

lemma head_insert:
  assumes "chain_from r (HeadFirst h) (as @ bs)" "distinct (as @ bs)" "e \<notin> set (as @ bs)"
  shows "chain_from (r(NextOf e := r (end_cell (HeadFirst h) as), end_cell (HeadFirst h) as := Some e)) (HeadFirst h) (as @ e # bs)"
  by (rule chain_insert [OF assms]) auto

lemma head_remove:
  assumes "chain_from r (HeadFirst h) (as @ e # bs)" "distinct (as @ e # bs)"
  shows "chain_from (r(end_cell (HeadFirst h) as := r (NextOf e))) (HeadFirst h) (as @ bs)"
  by (rule chain_remove [OF assms]) auto

lemma head_search:
  assumes "chain_from r (HeadFirst h) (as @ e # bs)" "distinct (as @ e # bs)"
  shows "if as = [] then r (HeadFirst h) = Some e
    else r (HeadFirst h) \<noteq> Some e \<and>
      element_before (\<lambda>x. r (NextOf x)) e (r (HeadFirst h)) = Some (last as) \<and> r (NextOf (last as)) = Some e"
proof (cases as)
  case (Cons a as')
  have "end_cell (HeadFirst h) as = NextOf (last as)"
    using Cons end_cell_snoc [of "HeadFirst h" "butlast as" "last as"] by (metis append_butlast_last_id list.distinct(1))
  then show ?thesis
    using assms Cons chain_at [of r h as "e # bs"] element_before_chain [of r a as' e bs] by auto
qed (use assms in simp)

section \<open>The contract\<close>

text \<open>
  What the four families promise for insertion at the head or behind an element and for removal:
  the representation \<open>ok\<close> follows the list, and the queries for the first and next element read it.
\<close>

locale head_list =
  fixes ok :: "'s \<Rightarrow> nat \<Rightarrow> 'e list \<Rightarrow> bool"
    and init :: "nat \<Rightarrow> 's \<Rightarrow> 's"
    and insert_head :: "nat \<Rightarrow> 'e \<Rightarrow> 's \<Rightarrow> 's"
    and insert_after :: "nat \<Rightarrow> 'e \<Rightarrow> 'e \<Rightarrow> 's \<Rightarrow> 's"
    and remove :: "nat \<Rightarrow> 'e \<Rightarrow> 's \<Rightarrow> 's option"
    and first_of :: "nat \<Rightarrow> 's \<Rightarrow> 'e option"
    and next_of :: "'e \<Rightarrow> 's \<Rightarrow> 'e option"
  assumes init_ok: "ok (init h s) h []"
    and head_ok: "ok s h xs \<Longrightarrow> e \<notin> set xs \<Longrightarrow> ok (insert_head h e s) h (e # xs)"
    and after_ok: "ok s h (as @ x # bs) \<Longrightarrow> e \<notin> set (as @ x # bs) \<Longrightarrow>
      ok (insert_after h x e s) h (as @ x # e # bs)"
    and remove_ok: "ok s h (as @ e # bs) \<Longrightarrow> \<exists>s'. remove h e s = Some s' \<and> ok s' h (as @ bs)"
    and first_ok: "ok s h xs \<Longrightarrow> first_of h s = (case xs of [] \<Rightarrow> None | x # _ \<Rightarrow> Some x)"
    and next_ok: "ok s h (as @ e # bs) \<Longrightarrow> next_of e s = (case bs of [] \<Rightarrow> None | b # _ \<Rightarrow> Some b)"

text \<open>Commands of the contract, run by a family and, as commands of \<open>list_run\<close>, by a list.\<close>

datatype 'e head_cmd = InsHead 'e | InsAfter 'e 'e | RemElm 'e

fun head_op :: "'e head_cmd \<Rightarrow> 'e tq_op" where
  "head_op (InsHead e) = OpHead e"
| "head_op (InsAfter x e) = OpAfter x e"
| "head_op (RemElm e) = OpRemove e"

fun head_run ::
  "('e \<Rightarrow> 's \<Rightarrow> 's) \<Rightarrow> ('e \<Rightarrow> 'e \<Rightarrow> 's \<Rightarrow> 's) \<Rightarrow> ('e \<Rightarrow> 's \<Rightarrow> 's option) \<Rightarrow> 'e head_cmd list \<Rightarrow> 's \<Rightarrow> 's option" where
  "head_run ih ia rm [] s = Some s"
| "head_run ih ia rm (InsHead e # cs) s = head_run ih ia rm cs (ih e s)"
| "head_run ih ia rm (InsAfter x e # cs) s = head_run ih ia rm cs (ia x e s)"
| "head_run ih ia rm (RemElm e # cs) s = do { s \<leftarrow> rm e s; head_run ih ia rm cs s }"

context head_list begin

lemma run_ok:
  "ok s h xs \<Longrightarrow> list_run (map head_op cs) xs = Some ys \<Longrightarrow>
    \<exists>s'. head_run (insert_head h) (insert_after h) (remove h) cs s = Some s' \<and> ok s' h ys"
proof (induction cs arbitrary: s xs)
  case (Cons c cs)
  show ?case
  proof (cases c)
    case (InsHead e)
    then show ?thesis using Cons.IH [OF head_ok] Cons.prems by (simp split: if_splits)
  next
    case (InsAfter x e)
    then have x: "x \<in> set xs" "e \<notin> set xs" using Cons.prems(2) by (auto split: if_splits)
    let ?as = "takeWhile (\<lambda>y. y \<noteq> x) xs" and ?bs = "tl (dropWhile (\<lambda>y. y \<noteq> x) xs)"
    have "ok s h (?as @ x # ?bs)" "e \<notin> set (?as @ x # ?bs)"
      using split_at [OF x(1)] Cons.prems(1) x(2) by simp_all
    from after_ok [OF this] show ?thesis using Cons.IH Cons.prems(2) x InsAfter by simp
  next
    case (RemElm e)
    then have e: "e \<in> set xs" using Cons.prems(2) by (auto split: if_splits)
    let ?as = "takeWhile (\<lambda>y. y \<noteq> e) xs" and ?bs = "tl (dropWhile (\<lambda>y. y \<noteq> e) xs)"
    have "ok s h (?as @ e # ?bs)" using split_at [OF e] Cons.prems(1) by simp
    from remove_ok [OF this] remove1_split [OF e] Cons.prems(2) e RemElm
    show ?thesis using Cons.IH by auto
  qed
qed simp

lemma visit_ok: "ok s h (as @ bs) \<Longrightarrow>
  visit (\<lambda>e. next_of e s) n (case bs of [] \<Rightarrow> None | b # _ \<Rightarrow> Some b) = take n bs"
proof (induction bs arbitrary: as n)
  case (Cons b bs)
  show ?case
  proof (cases n)
    case (Suc k)
    have "visit (\<lambda>e. next_of e s) k (case bs of [] \<Rightarrow> None | b # _ \<Rightarrow> Some b) = take k bs"
      using Cons.IH [of "as @ [b]" k] Cons.prems by simp
    then show ?thesis using next_ok [OF Cons.prems] Suc by simp
  qed simp
qed simp

lemma foreach_ok: "ok s h xs \<Longrightarrow> visit (\<lambda>e. next_of e s) n (first_of h s) = take n xs"
  using visit_ok [of s h "[]" xs n] first_ok by simp

lemma session_ok:
  assumes "list_run (map head_op cs) [] = Some ys"
  shows "\<exists>s'. head_run (insert_head h) (insert_after h) (remove h) cs (init h s) = Some s' \<and> ok s' h ys \<and>
      (\<forall>n. visit (\<lambda>e. next_of e s') n (first_of h s') = take n ys) \<and> (first_of h s' = None \<longleftrightarrow> ys = [])"
proof -
  obtain s' where s': "head_run (insert_head h) (insert_after h) (remove h) cs (init h s) = Some s'" "ok s' h ys"
    using run_ok [OF init_ok assms] by blast
  show ?thesis using s' foreach_ok [OF s'(2)] first_ok [OF s'(2)] by (intro exI [of _ s']) (auto split: list.splits)
qed

end

section \<open>The three families keep it\<close>

lemma SLIST_ops:
  "slist_ok (SLIST_INIT h s) h []"
  "slist_ok s h xs \<Longrightarrow> e \<notin> set xs \<Longrightarrow> slist_ok (SLIST_INSERT_HEAD h e s) h (e # xs)"
  "slist_ok s h (as @ x # bs) \<Longrightarrow> e \<notin> set (as @ x # bs) \<Longrightarrow> slist_ok (SLIST_INSERT_AFTER x e s) h (as @ x # e # bs)"
proof -
  show "slist_ok (SLIST_INIT h s) h []" by (simp add: slist_ok_def SLIST_INIT_def)
  show "slist_ok (SLIST_INSERT_HEAD h e s) h (e # xs)" if "slist_ok s h xs" "e \<notin> set xs"
    using that head_insert [of "rd_s s" h "[]" xs e] by (simp add: slist_ok_def SLIST_INSERT_HEAD_def cells_rd)
  show "slist_ok (SLIST_INSERT_AFTER x e s) h (as @ x # e # bs)" if "slist_ok s h (as @ x # bs)" "e \<notin> set (as @ x # bs)"
    using that head_insert [of "rd_s s" h "as @ [x]" bs e] by (auto simp: slist_ok_def SLIST_INSERT_AFTER_def cells_rd)
qed

lemma SLIST_REMOVE_ok:
  assumes "slist_ok s h (as @ e # bs)"
  shows "\<exists>s'. SLIST_REMOVE h e s = Some s' \<and> slist_ok s' h (as @ bs)"
proof -
  have c: "chain_from (rd_s s) (HeadFirst h) (as @ e # bs)" "distinct (as @ e # bs)"
    using assms by (simp_all add: slist_ok_def)
  have m: "as \<noteq> [] \<Longrightarrow> end_cell (HeadFirst h) as = NextOf (last as)"
    using end_cell_snoc [of "HeadFirst h" "butlast as" "last as"] by simp
  from head_search [OF c] head_remove [OF c] c(2) m show ?thesis
    by (cases "as = []")
      (auto simp: slist_ok_def SLIST_REMOVE_def SLIST_REMOVE_HEAD_def SLIST_REMOVE_AFTER_def cells_rd next_fun
        simp del: fun_upd_apply)
qed

lemma end_last: "as \<noteq> [] \<Longrightarrow> end_cell c as = NextOf (last as)"
  using end_cell_snoc [of c "butlast as" "last as"] by simp

lemma end_tail: "end_cell c (as @ e # bs) = (if bs = [] then NextOf e else NextOf (last bs))"
  using end_last [of "as @ e # bs" c] by simp

lemma STAILQ_ops:
  "stailq_ok (STAILQ_INIT h s) h []"
  "stailq_ok s h xs \<Longrightarrow> e \<notin> set xs \<Longrightarrow> stailq_ok (STAILQ_INSERT_HEAD h e s) h (e # xs)"
  "stailq_ok s h (as @ x # bs) \<Longrightarrow> e \<notin> set (as @ x # bs) \<Longrightarrow> stailq_ok (STAILQ_INSERT_AFTER h x e s) h (as @ x # e # bs)"
  "stailq_ok s h xs \<Longrightarrow> e \<notin> set xs \<Longrightarrow> stailq_ok (STAILQ_INSERT_TAIL h e s) h (xs @ [e])"
proof -
  show "stailq_ok (STAILQ_INIT h s) h []" by (simp add: stailq_ok_def STAILQ_INIT_def)
  show "stailq_ok (STAILQ_INSERT_HEAD h e s) h (e # xs)" if "stailq_ok s h xs" "e \<notin> set xs"
    using that head_insert [of "rd_t s" h "[]" xs e] chain_at [of "rd_t s" h "[]" xs]
    by (cases xs) (auto simp: stailq_ok_def STAILQ_INSERT_HEAD_def cells_rd)
  show "stailq_ok (STAILQ_INSERT_AFTER h x e s) h (as @ x # e # bs)" if "stailq_ok s h (as @ x # bs)" "e \<notin> set (as @ x # bs)"
    using that head_insert [of "rd_t s" h "as @ [x]" bs e] chain_at [of "rd_t s" h "as @ [x]" bs]
    by (cases bs) (auto simp: stailq_ok_def STAILQ_INSERT_AFTER_def cells_rd end_cell_append)
  show "stailq_ok (STAILQ_INSERT_TAIL h e s) h (xs @ [e])" if "stailq_ok s h xs" "e \<notin> set xs"
    using that head_insert [of "rd_t s" h xs "[]" e] chain_at [of "rd_t s" h xs "[]"]
    by (auto simp: stailq_ok_def STAILQ_INSERT_TAIL_def cells_rd fun_upd_same simp del: fun_upd_apply)
qed

lemma STAILQ_REMOVE_ok:
  assumes "stailq_ok s h (as @ e # bs)"
  shows "\<exists>s'. STAILQ_REMOVE h e s = Some s' \<and> stailq_ok s' h (as @ bs)"
proof -
  have c: "chain_from (rd_t s) (HeadFirst h) (as @ e # bs)" "distinct (as @ e # bs)"
    "stqh_last s h = end_cell (HeadFirst h) (as @ e # bs)"
    using assms by (simp_all add: stailq_ok_def)
  have e: "rd_t s (NextOf e) = (case bs of [] \<Rightarrow> None | b # _ \<Rightarrow> Some b)"
    using chain_at [of "rd_t s" h "as @ [e]" bs] c(1) by simp
  from head_search [OF c(1,2)] head_remove [OF c(1,2)] c(2,3) end_last [of as "HeadFirst h"] e show ?thesis
    by (cases "as = []"; cases bs)
      (auto simp: stailq_ok_def STAILQ_REMOVE_def STAILQ_REMOVE_HEAD_def STAILQ_REMOVE_AFTER_def cells_rd next_fun
        end_tail end_last simp del: fun_upd_apply simp add: fun_upd_same)
qed

lemma LIST_ops:
  "dlist_ok (LIST_INIT h s) h []"
  "dlist_ok s h xs \<Longrightarrow> e \<notin> set xs \<Longrightarrow> dlist_ok (LIST_INSERT_HEAD h e s) h (e # xs)"
  "dlist_ok s h (as @ x # bs) \<Longrightarrow> e \<notin> set (as @ x # bs) \<Longrightarrow> dlist_ok (LIST_INSERT_AFTER x e s) h (as @ x # e # bs)"
proof -
  show "dlist_ok (LIST_INIT h s) h []" by (simp add: dlist_ok_def LIST_INIT_def)
  show "dlist_ok (LIST_INSERT_HEAD h e s) h (e # xs)" if "dlist_ok s h xs" "e \<notin> set xs"
    using that head_insert [of "rd_d s" h "[]" xs e] chain_at [of "rd_d s" h "[]" xs]
    by (cases xs) (auto simp: dlist_ok_def LIST_INSERT_HEAD_def cells_rd intro: back_links_cong)
  show "dlist_ok (LIST_INSERT_AFTER x e s) h (as @ x # e # bs)" if "dlist_ok s h (as @ x # bs)" "e \<notin> set (as @ x # bs)"
    using that head_insert [of "rd_d s" h "as @ [x]" bs e] chain_at [of "rd_d s" h "as @ [x]" bs]
    by (cases bs) (auto simp: dlist_ok_def LIST_INSERT_AFTER_def cells_rd back_links_append intro: back_links_cong)
qed

lemma LIST_REMOVE_ok:
  assumes "dlist_ok s h (as @ e # bs)"
  shows "dlist_ok (LIST_REMOVE e s) h (as @ bs)"
proof -
  have c: "chain_from (rd_d s) (HeadFirst h) (as @ e # bs)" "distinct (as @ e # bs)"
    "back_links (le_prev s) (HeadFirst h) (as @ e # bs)"
    using assms by (simp_all add: dlist_ok_def)
  have e: "rd_d s (NextOf e) = (case bs of [] \<Rightarrow> None | b # _ \<Rightarrow> Some b)" "le_prev s e = end_cell (HeadFirst h) as"
    using chain_at [of "rd_d s" h "as @ [e]" bs] c(1,3) by (simp_all add: back_links_append)
  from head_remove [OF c(1,2)] c(2,3) e show ?thesis
    by (cases bs) (auto simp: dlist_ok_def LIST_REMOVE_def cells_rd back_links_append intro: back_links_cong)
qed

interpretation slist_list: head_list slist_ok SLIST_INIT SLIST_INSERT_HEAD "\<lambda>h. SLIST_INSERT_AFTER" SLIST_REMOVE
  SLIST_FIRST SLIST_NEXT
proof
  show "SLIST_FIRST h s = (case xs of [] \<Rightarrow> None | x # _ \<Rightarrow> Some x)" if "slist_ok s h xs" for s :: "'a slist" and h xs
    using that chain_first [of "rd_s s" "HeadFirst h" xs] by (simp add: slist_ok_def SLIST_FIRST_def cells_rd)
  show "SLIST_NEXT e s = (case bs of [] \<Rightarrow> None | b # _ \<Rightarrow> Some b)" if "slist_ok s h (as @ e # bs)"
    for s :: "'a slist" and h as e bs
    using that chain_at [of "rd_s s" h "as @ [e]" bs] by (simp add: slist_ok_def SLIST_NEXT_def cells_rd)
qed (rule SLIST_ops SLIST_REMOVE_ok; assumption)+

interpretation stailq_list: head_list stailq_ok STAILQ_INIT STAILQ_INSERT_HEAD STAILQ_INSERT_AFTER STAILQ_REMOVE
  STAILQ_FIRST STAILQ_NEXT
proof
  show "STAILQ_FIRST h s = (case xs of [] \<Rightarrow> None | x # _ \<Rightarrow> Some x)" if "stailq_ok s h xs" for s :: "'a stailq" and h xs
    using that chain_first [of "rd_t s" "HeadFirst h" xs] by (simp add: stailq_ok_def STAILQ_FIRST_def cells_rd)
  show "STAILQ_NEXT e s = (case bs of [] \<Rightarrow> None | b # _ \<Rightarrow> Some b)" if "stailq_ok s h (as @ e # bs)"
    for s :: "'a stailq" and h as e bs
    using that chain_at [of "rd_t s" h "as @ [e]" bs] by (simp add: stailq_ok_def STAILQ_NEXT_def cells_rd)
qed (rule STAILQ_ops STAILQ_REMOVE_ok; assumption)+

interpretation dlist_list: head_list dlist_ok LIST_INIT LIST_INSERT_HEAD "\<lambda>h. LIST_INSERT_AFTER"
  "\<lambda>h e s. Some (LIST_REMOVE e s)" LIST_FIRST LIST_NEXT
proof
  show "LIST_FIRST h s = (case xs of [] \<Rightarrow> None | x # _ \<Rightarrow> Some x)" if "dlist_ok s h xs" for s :: "'a dlist" and h xs
    using that chain_first [of "rd_d s" "HeadFirst h" xs] by (simp add: dlist_ok_def LIST_FIRST_def cells_rd)
  show "LIST_NEXT e s = (case bs of [] \<Rightarrow> None | b # _ \<Rightarrow> Some b)" if "dlist_ok s h (as @ e # bs)"
    for s :: "'a dlist" and h as e bs
    using that chain_at [of "rd_d s" h "as @ [e]" bs] by (simp add: dlist_ok_def LIST_NEXT_def cells_rd)
  show "\<exists>s'. Some (LIST_REMOVE e s) = Some s' \<and> dlist_ok s' h (as @ bs)" if "dlist_ok s h (as @ e # bs)"
    for s :: "'a dlist" and h as e bs
    using LIST_REMOVE_ok [OF that] by simp
qed (rule LIST_ops; assumption)+

interpretation tailq_list: head_list tq_list TAILQ_INIT TAILQ_INSERT_HEAD TAILQ_INSERT_AFTER
  "\<lambda>h e s. Some (TAILQ_REMOVE h e s)" TAILQ_FIRST TAILQ_NEXT
proof
  show "TAILQ_FIRST h s = (case xs of [] \<Rightarrow> None | x # _ \<Rightarrow> Some x)" if "tq_list s h xs" for s :: "'a tailq" and h xs
    using first_list [OF that] by (simp split: list.splits)
  show "TAILQ_NEXT e s = (case bs of [] \<Rightarrow> None | b # _ \<Rightarrow> Some b)" if "tq_list s h (as @ e # bs)"
    for s :: "'a tailq" and h as e bs
    using next_list [OF that] by (simp split: list.splits)
  show "\<exists>s'. Some (TAILQ_REMOVE h e s) = Some s' \<and> tq_list s' h (as @ bs)" if "tq_list s h (as @ e # bs)"
    for s :: "'a tailq" and h as e bs
    using remove_list [OF that] by simp
qed (rule TAILQ_INIT_list insert_head_list insert_after_list; assumption)+

section \<open>Properties\<close>

lemma STAILQ_LAST_ok: "stailq_ok s h xs \<Longrightarrow> STAILQ_LAST h s = Some (if xs = [] then None else Some (last xs))"
  using stailq_list.first_ok [of s h xs] end_last [of xs "HeadFirst h"]
  by (cases xs) (simp_all add: STAILQ_LAST_def STAILQ_EMPTY_def STAILQ_FIRST_def stailq_ok_def)

text \<open>
  C30: the four families of list macros agree.  After any sequence of insertions at the head or behind
  an element and removals that a list without duplicates allows, run on a list just initialised,
  none of them has followed a null pointer, their traversals visit the same elements, those of the
  list, and stop after the last one, they are empty at the same times, and the two tail queues name the last element.
\<close>

theorem queue_macros_agree:
  assumes "list_run (map head_op cs) [] = Some ys"
  shows "\<exists>s t d q.
    head_run (SLIST_INSERT_HEAD h) SLIST_INSERT_AFTER (SLIST_REMOVE h) cs (SLIST_INIT h s0) = Some s \<and>
    head_run (STAILQ_INSERT_HEAD h) (STAILQ_INSERT_AFTER h) (STAILQ_REMOVE h) cs (STAILQ_INIT h t0) = Some t \<and>
    head_run (LIST_INSERT_HEAD h) LIST_INSERT_AFTER (\<lambda>e s. Some (LIST_REMOVE e s)) cs (LIST_INIT h d0) = Some d \<and>
    head_run (TAILQ_INSERT_HEAD h) (TAILQ_INSERT_AFTER h) (\<lambda>e s. Some (TAILQ_REMOVE h e s)) cs (TAILQ_INIT h q0) = Some q \<and>
    (\<forall>n. SLIST_FOREACH n h s = take n ys \<and> STAILQ_FOREACH n h t = take n ys \<and>
      LIST_FOREACH n h d = take n ys \<and> TAILQ_FOREACH n h q = take n ys) \<and>
    (SLIST_EMPTY h s \<longleftrightarrow> ys = []) \<and> (STAILQ_EMPTY h t \<longleftrightarrow> ys = []) \<and>
    (LIST_EMPTY h d \<longleftrightarrow> ys = []) \<and> (TAILQ_EMPTY h q \<longleftrightarrow> ys = []) \<and>
    STAILQ_LAST h t = Some (if ys = [] then None else Some (last ys)) \<and>
    TAILQ_LAST h q = (if ys = [] then None else Some (last ys))"
proof -
  have f: "tailq_from n e q = visit (\<lambda>e. TAILQ_NEXT e q) n e" for n e and q :: "'a tailq"
    by (induction n e q rule: tailq_from.induct) simp_all
  obtain s where s: "head_run (SLIST_INSERT_HEAD h) SLIST_INSERT_AFTER (SLIST_REMOVE h) cs (SLIST_INIT h s0) = Some s"
      "\<forall>n. SLIST_FOREACH n h s = take n ys" "SLIST_EMPTY h s \<longleftrightarrow> ys = []"
    using slist_list.session_ok [OF assms, of h s0]
    by (auto simp: SLIST_FOREACH_def SLIST_EMPTY_def SLIST_FIRST_def)
  obtain t where t: "head_run (STAILQ_INSERT_HEAD h) (STAILQ_INSERT_AFTER h) (STAILQ_REMOVE h) cs (STAILQ_INIT h t0) = Some t"
      "stailq_ok t h ys" "\<forall>n. STAILQ_FOREACH n h t = take n ys" "STAILQ_EMPTY h t \<longleftrightarrow> ys = []"
    using stailq_list.session_ok [OF assms, of h t0]
    by (auto simp: STAILQ_FOREACH_def STAILQ_EMPTY_def STAILQ_FIRST_def)
  obtain d where d: "head_run (LIST_INSERT_HEAD h) LIST_INSERT_AFTER (\<lambda>e s. Some (LIST_REMOVE e s)) cs (LIST_INIT h d0) = Some d"
      "\<forall>n. LIST_FOREACH n h d = take n ys" "LIST_EMPTY h d \<longleftrightarrow> ys = []"
    using dlist_list.session_ok [OF assms, of h d0]
    by (auto simp: LIST_FOREACH_def LIST_EMPTY_def LIST_FIRST_def)
  obtain q where q: "head_run (TAILQ_INSERT_HEAD h) (TAILQ_INSERT_AFTER h) (\<lambda>e s. Some (TAILQ_REMOVE h e s)) cs
      (TAILQ_INIT h q0) = Some q" "tq_list q h ys" "\<forall>n. TAILQ_FOREACH n h q = take n ys" "TAILQ_EMPTY h q \<longleftrightarrow> ys = []"
    using tailq_list.session_ok [OF assms, of h q0] by (auto simp: TAILQ_FOREACH_def f TAILQ_EMPTY_def TAILQ_FIRST_def)
  show ?thesis
    using s t d q STAILQ_LAST_ok [OF t(2)] last_list [OF q(2)] by blast
qed

theorem queue_macros_agree_witness:
  "let h = 0; cs = [InsHead 1, InsAfter 1 2, InsHead 3, RemElm (2::nat)] in
   \<exists>s t d q.
    head_run (SLIST_INSERT_HEAD h) SLIST_INSERT_AFTER (SLIST_REMOVE h) cs
      (SLIST_INIT h \<lparr>slh_first = \<lambda>_. Some 9, sle_next = \<lambda>_. Some 9\<rparr>) = Some s \<and> SLIST_FOREACH 5 h s = [3, 1] \<and>
    head_run (STAILQ_INSERT_HEAD h) (STAILQ_INSERT_AFTER h) (STAILQ_REMOVE h) cs
      (STAILQ_INIT h \<lparr>stqh_first = \<lambda>_. Some 9, stqh_last = \<lambda>_. NextOf 9, stqe_next = \<lambda>_. Some 9\<rparr>) = Some t \<and>
      STAILQ_FOREACH 5 h t = [3, 1] \<and> STAILQ_LAST h t = Some (Some 1) \<and>
    head_run (LIST_INSERT_HEAD h) LIST_INSERT_AFTER (\<lambda>e s. Some (LIST_REMOVE e s)) cs
      (LIST_INIT h \<lparr>lh_first = \<lambda>_. Some 9, le_next = \<lambda>_. Some 9, le_prev = \<lambda>_. NextOf 9\<rparr>) = Some d \<and>
      LIST_FOREACH 5 h d = [3, 1] \<and>
    head_run (TAILQ_INSERT_HEAD h) (TAILQ_INSERT_AFTER h) (\<lambda>e s. Some (TAILQ_REMOVE h e s)) cs (TAILQ_INIT h blank_tailq) = Some q \<and>
      TAILQ_FOREACH 5 h q = [3, 1]"
proof -
  let ?cs = "[InsHead 1, InsAfter 1 2, InsHead 3, RemElm (2::nat)]"
  have r: "list_run (map head_op ?cs) [] = Some [3, 1]" by simp
  have n: "(if [3, 1 :: nat] = [] then None else Some (last [3, 1])) = Some 1" by simp
  have five: "take 5 [3, 1 :: nat] = [3, 1]" by simp
  obtain s t d q where r:
      "head_run (SLIST_INSERT_HEAD 0) SLIST_INSERT_AFTER (SLIST_REMOVE 0) ?cs
        (SLIST_INIT 0 \<lparr>slh_first = \<lambda>_. Some 9, sle_next = \<lambda>_. Some 9\<rparr>) = Some s"
      "head_run (STAILQ_INSERT_HEAD 0) (STAILQ_INSERT_AFTER 0) (STAILQ_REMOVE 0) ?cs
        (STAILQ_INIT 0 \<lparr>stqh_first = \<lambda>_. Some 9, stqh_last = \<lambda>_. NextOf 9, stqe_next = \<lambda>_. Some 9\<rparr>) = Some t"
      "head_run (LIST_INSERT_HEAD 0) LIST_INSERT_AFTER (\<lambda>e s. Some (LIST_REMOVE e s)) ?cs
        (LIST_INIT 0 \<lparr>lh_first = \<lambda>_. Some 9, le_next = \<lambda>_. Some 9, le_prev = \<lambda>_. NextOf 9\<rparr>) = Some d"
      "head_run (TAILQ_INSERT_HEAD 0) (TAILQ_INSERT_AFTER 0) (\<lambda>e s. Some (TAILQ_REMOVE 0 e s)) ?cs (TAILQ_INIT 0 blank_tailq) = Some q"
      "\<forall>n. SLIST_FOREACH n 0 s = take n [3, 1] \<and> STAILQ_FOREACH n 0 t = take n [3, 1] \<and>
        LIST_FOREACH n 0 d = take n [3, 1] \<and> TAILQ_FOREACH n 0 q = take n [3, 1]"
      "STAILQ_LAST 0 t = Some (Some 1)"
    using queue_macros_agree [OF r, of 0 "\<lparr>slh_first = \<lambda>_. Some 9, sle_next = \<lambda>_. Some 9\<rparr>"
        "\<lparr>stqh_first = \<lambda>_. Some 9, stqh_last = \<lambda>_. NextOf 9, stqe_next = \<lambda>_. Some 9\<rparr>"
        "\<lparr>lh_first = \<lambda>_. Some 9, le_next = \<lambda>_. Some 9, le_prev = \<lambda>_. NextOf 9\<rparr>" blank_tailq, unfolded n]
    by blast
  note five = r(5) [THEN spec, of 5, unfolded five]
  show ?thesis unfolding Let_def
    by (intro exI [of _ s] exI [of _ t] exI [of _ d] exI [of _ q] conjI r five [THEN conjunct1]
        five [THEN conjunct2, THEN conjunct1] five [THEN conjunct2, THEN conjunct2, THEN conjunct1]
        five [THEN conjunct2, THEN conjunct2, THEN conjunct2])
qed

text \<open>
  Beyond the contract: \<open>STAILQ_INSERT_TAIL\<close> (in \<open>STAILQ_ops\<close>), \<open>STAILQ_CONCAT\<close> and \<open>STAILQ_SWAP\<close> on two
  queues, \<open>LIST_INSERT_BEFORE\<close> and \<open>LIST_SWAP\<close>.
\<close>

theorem stailq_concat:
  assumes "stailq_ok s h1 xs" "stailq_ok s h2 ys" "h1 \<noteq> h2" "set xs \<inter> set ys = {}"
  shows "stailq_ok (STAILQ_CONCAT h1 h2 s) h1 (xs @ ys) \<and> stailq_ok (STAILQ_CONCAT h1 h2 s) h2 []"
proof (cases ys)
  case Nil
  then show ?thesis using assms stailq_list.first_ok [OF assms(2)]
    by (simp add: STAILQ_CONCAT_def STAILQ_EMPTY_def STAILQ_FIRST_def)
next
  case (Cons y zs)
  have c: "chain_from (rd_t s) (HeadFirst h1) xs" "chain_from (rd_t s) (HeadFirst h2) ys" "distinct xs" "distinct ys"
    "stqh_last s h1 = end_cell (HeadFirst h1) xs" "stqh_last s h2 = end_cell (HeadFirst h2) ys"
    using assms(1,2) by (simp_all add: stailq_ok_def)
  have ne: "stqh_first s h2 = Some y" using stailq_list.first_ok [OF assms(2)] Cons by (simp add: STAILQ_FIRST_def)
  let ?r = "(rd_t s)(end_cell (HeadFirst h1) xs := rd_t s (HeadFirst h2))"
  have "chain_from ?r (HeadFirst h1) (xs @ ys)"
    by (rule chain_join [OF c(1-3)]) (use assms(4) in auto)
  then have "chain_from (?r(HeadFirst h2 := None)) (HeadFirst h1) (xs @ ys)"
    by (rule chain_cong) (use assms(3) in auto)
  then show ?thesis
    using ne c assms(3,4) Cons
    by (auto simp: stailq_ok_def STAILQ_CONCAT_def STAILQ_EMPTY_def STAILQ_INIT_def cells_rd Let_def end_cell_append
      end_last fun_upd_same simp del: fun_upd_apply) (auto simp: end_tail end_last)
qed

theorem stailq_swap:
  assumes "stailq_ok s h1 xs" "stailq_ok s h2 ys" "h1 \<noteq> h2"
  shows "stailq_ok (STAILQ_SWAP h1 h2 s) h1 ys \<and> stailq_ok (STAILQ_SWAP h1 h2 s) h2 xs"
proof -
  have c: "chain_from (rd_t s) (HeadFirst h1) xs" "chain_from (rd_t s) (HeadFirst h2) ys" "distinct xs" "distinct ys"
    "stqh_last s h1 = end_cell (HeadFirst h1) xs" "stqh_last s h2 = end_cell (HeadFirst h2) ys"
    using assms(1,2) by (simp_all add: stailq_ok_def)
  have f: "rd_t s (HeadFirst h1) = (case xs of [] \<Rightarrow> None | x # _ \<Rightarrow> Some x)"
    "rd_t s (HeadFirst h2) = (case ys of [] \<Rightarrow> None | y # _ \<Rightarrow> Some y)"
    using c(1,2) by (simp_all add: chain_first)
  let ?r = "(rd_t s)(HeadFirst h1 := rd_t s (HeadFirst h2), HeadFirst h2 := rd_t s (HeadFirst h1))"
  have "chain_from ?r (HeadFirst h1) ys" by (rule chain_rehead [OF c(2)]) (use assms(3) in simp_all)
  moreover have "chain_from ?r (HeadFirst h2) xs" by (rule chain_rehead [OF c(1)]) simp_all
  ultimately show ?thesis
    using c(3-6) f assms(3)
    by (cases xs; cases ys) (simp_all add: stailq_ok_def STAILQ_SWAP_def STAILQ_EMPTY_def cells_rd Let_def)
qed

theorem list_insert_before:
  assumes "dlist_ok s h (as @ x # bs)" "e \<notin> set (as @ x # bs)"
  shows "dlist_ok (LIST_INSERT_BEFORE x e s) h (as @ e # x # bs)"
proof -
  have c: "chain_from (rd_d s) (HeadFirst h) (as @ x # bs)" "distinct (as @ x # bs)"
    "back_links (le_prev s) (HeadFirst h) (as @ x # bs)"
    using assms by (simp_all add: dlist_ok_def)
  have p: "le_prev s x = end_cell (HeadFirst h) as" "rd_d s (end_cell (HeadFirst h) as) = Some x"
    using c(3) chain_at [OF c(1)] by (simp_all add: back_links_append)
  from head_insert [OF c(1,2) assms(2)] c(2,3) p assms(2) show ?thesis
    by (auto simp: dlist_ok_def LIST_INSERT_BEFORE_def back_links_append Let_def intro: back_links_cong)
qed

theorem list_swap:
  assumes "dlist_ok s h1 xs" "dlist_ok s h2 ys" "h1 \<noteq> h2" "set xs \<inter> set ys = {}"
  shows "dlist_ok (LIST_SWAP h1 h2 s) h1 ys \<and> dlist_ok (LIST_SWAP h1 h2 s) h2 xs"
proof -
  have c: "chain_from (rd_d s) (HeadFirst h1) xs" "chain_from (rd_d s) (HeadFirst h2) ys" "distinct xs" "distinct ys"
    "back_links (le_prev s) (HeadFirst h1) xs" "back_links (le_prev s) (HeadFirst h2) ys"
    using assms(1,2) by (simp_all add: dlist_ok_def)
  have f: "rd_d s (HeadFirst h1) = (case xs of [] \<Rightarrow> None | x # _ \<Rightarrow> Some x)"
    "rd_d s (HeadFirst h2) = (case ys of [] \<Rightarrow> None | y # _ \<Rightarrow> Some y)"
    using c(1,2) by (simp_all add: chain_first)
  let ?r = "(rd_d s)(HeadFirst h1 := rd_d s (HeadFirst h2), HeadFirst h2 := rd_d s (HeadFirst h1))"
  have "chain_from ?r (HeadFirst h1) ys" by (rule chain_rehead [OF c(2)]) (use assms(3) in simp_all)
  moreover have "chain_from ?r (HeadFirst h2) xs" by (rule chain_rehead [OF c(1)]) simp_all
  ultimately show ?thesis
    using c(3-6) f assms(3,4)
    by (cases xs; cases ys)
      (auto simp: dlist_ok_def LIST_SWAP_def cells_rd Let_def intro: back_links_cong)
qed

end
