(* ===== verification/WS_Codec.thy ===== *)
theory WS_Codec
  imports "HOL-Library.Word" "HOL-Library.Monad_Syntax"
begin

unbundle bit_operations_syntax

text \<open>
  The frames of the websocket server, nty_websocket_server.c: the masking of a payload, the decoder
  and the encoder on the buffers of the server, and one turn of its reader.  A buffer is a list of
  bytes; an access beyond its end is undefined (\<open>None\<close>).  Bit fields and integers lie in memory as
  gcc lays them out on x86.
\<close>

section \<open>Buffers\<close>

type_synonym bytes = "8 word list"

definition MAX_BUFFER_LENGTH :: nat where "MAX_BUFFER_LENGTH = 1024"

definition get :: "bytes \<Rightarrow> nat \<Rightarrow> 8 word option" where
  "get xs i = (if i < length xs then Some (xs ! i) else None)"

text \<open>memcpy out of and into a buffer.\<close>

definition read_bytes :: "bytes \<Rightarrow> nat \<Rightarrow> nat \<Rightarrow> bytes option" where
  "read_bytes xs off n = (if off + n \<le> length xs then Some (take n (drop off xs)) else None)"

definition write_bytes :: "bytes \<Rightarrow> nat \<Rightarrow> bytes \<Rightarrow> bytes option" where
  "write_bytes xs off bs =
     (if off + length bs \<le> length xs
      then Some (take off xs @ bs @ drop (off + length bs) xs) else None)"

fun le_value :: "bytes \<Rightarrow> int" where
  "le_value [] = 0"
| "le_value (b # bs) = uint b + 256 * le_value bs"

fun le_bytes :: "nat \<Rightarrow> int \<Rightarrow> bytes" where
  "le_bytes 0 v = []"
| "le_bytes (Suc n) v = word_of_int v # le_bytes n (v div 256)"

section \<open>Masking\<close>

fun umask_loop :: "nat \<Rightarrow> nat \<Rightarrow> bytes \<Rightarrow> nat \<Rightarrow> bytes \<Rightarrow> bytes option" where
  "umask_loop i 0 data start mk = Some data"
| "umask_loop i (Suc n) data start mk = do {
     d \<leftarrow> get data (start + i);
     m \<leftarrow> get mk (i mod 4);
     umask_loop (Suc i) n (data[start + i := d XOR m]) start mk }"

definition umask :: "bytes \<Rightarrow> nat \<Rightarrow> int \<Rightarrow> bytes \<Rightarrow> bytes option" where
  "umask data start len mk = umask_loop 0 (nat len) data start mk"

section \<open>Frames\<close>

text \<open>\<open>nty_ophdr\<close>: the second byte holds seven bits of length and one of mask.\<close>

definition hdr_payload_length :: "8 word \<Rightarrow> 8 word" where
  "hdr_payload_length b = b AND 0x7F"

definition hdr_mask :: "8 word \<Rightarrow> 8 word" where
  "hdr_mask b = drop_bit 7 b"

definition make_ophdr :: "8 word \<Rightarrow> 8 word \<Rightarrow> 8 word \<Rightarrow> bytes" where
  "make_ophdr fin opcode payload_length = [push_bit 7 fin OR opcode, payload_length AND 0x7F]"

text \<open>
  The results are the stream after unmasking, the mask, the size stored in \<open>*ret\<close> and the offset of
  the returned pointer.
\<close>

definition decode_packet :: "bytes \<Rightarrow> (bytes \<times> bytes \<times> int \<times> nat) option" where
  "decode_packet stream = do {
     hdr \<leftarrow> get stream 1;
     (mk, size, start) \<leftarrow>
       (if hdr_mask hdr AND 0x7F = 126
        then do {
          len \<leftarrow> read_bytes stream 2 2;
          mk \<leftarrow> read_bytes stream 4 4;
          Some (mk, le_value len, 8) }
        else if hdr_mask hdr AND 0x7F = 127
        then do {
          len \<leftarrow> read_bytes stream 2 8;
          mk \<leftarrow> read_bytes stream 10 4;
          Some (mk, sint (word_of_int (le_value len) :: 32 word), 14) }
        else do {
          mk \<leftarrow> read_bytes stream 2 4;
          Some (mk, uint (hdr_payload_length hdr), 6) });
     stream \<leftarrow> umask stream start size mk;
     Some (stream, mk, size, start) }"

text \<open>\<open>encode_packet\<close>; the payload is read through a pointer into another buffer.\<close>

definition encode_packet :: "bytes \<Rightarrow> bytes \<Rightarrow> bytes \<Rightarrow> nat \<Rightarrow> int \<Rightarrow> (bytes \<times> int) option" where
  "encode_packet buffer mk stream start len = do {
     buffer \<leftarrow>
       (if len < 126 then write_bytes buffer 0 (make_ophdr 1 1 (word_of_int len))
        else if len < 0xffff
        then do {
          buffer \<leftarrow> write_bytes buffer 0 (make_ophdr 1 1 0);
          write_bytes buffer 2 (le_bytes 2 len @ mk @ replicate 8 0) }
        else do {
          buffer \<leftarrow> write_bytes buffer 0 (make_ophdr 1 1 0);
          write_bytes buffer 2 (le_bytes 8 len @ mk @ replicate 8 0) });
     if len < 0 then None
     else do {
       payload \<leftarrow> read_bytes stream start (nat len);
       buffer \<leftarrow> write_bytes buffer 2 payload;
       Some (buffer, len + 2) } }"

text \<open>
  One turn of \<open>server_reader\<close> with \<open>data\<close> received: what it hands to \<open>nty_send\<close>.  The received text is
  printed with \<open>%s\<close>, which needs a zero behind it.
\<close>

definition reader_turn_ws :: "bytes \<Rightarrow> bytes option" where
  "reader_turn_ws data = do {
     stream \<leftarrow> write_bytes (replicate MAX_BUFFER_LENGTH 0) 0 data;
     (stream, mk, ret, start) \<leftarrow> decode_packet stream;
     if 0 \<notin> set (drop start stream) then None
     else do {
       (buffer, n) \<leftarrow> encode_packet (replicate (MAX_BUFFER_LENGTH + 14) 0) mk stream start ret;
       read_bytes buffer 0 (nat n) } }"

section \<open>Lemmas\<close>

lemma hdr_mask_bit: "hdr_mask b = 0 \<or> hdr_mask b = 1"
proof -
  have "uint (hdr_mask b) = uint b div 128" by (simp add: hdr_mask_def drop_bit_eq_div uint_div)
  moreover have "x div 128 = 0 \<or> x div 128 = 1" if "0 \<le> x" "x < 256" for x :: int using that by presburger
  ultimately have "uint (hdr_mask b) = 0 \<or> uint (hdr_mask b) = 1"
    using uint_bounded [of b] uint_ge_0 [of b] by simp
  then show ?thesis by (auto simp: word_uint_eq_iff)
qed

lemma umask_loop_spec:
  assumes "start + i + n \<le> length data" "length mk = 4"
  shows "umask_loop i n data start mk =
    Some (take (start + i) data @ map (\<lambda>j. data ! (start + j) XOR mk ! (j mod 4)) [i..<i + n] @
          drop (start + i + n) data)"
  using assms
proof (induction n arbitrary: i data)
  case 0
  then show ?case by simp
next
  case (Suc n)
  let ?d = "data[start + i := data ! (start + i) XOR mk ! (i mod 4)]"
  have lt: "start + i < length data" using Suc.prems by simp
  have "umask_loop i (Suc n) data start mk = umask_loop (Suc i) n ?d start mk"
    using Suc.prems lt by (simp add: get_def)
  also have "\<dots> = Some (take (start + Suc i) ?d @ map (\<lambda>j. ?d ! (start + j) XOR mk ! (j mod 4)) [Suc i..<Suc i + n] @
          drop (start + Suc i + n) ?d)"
    using Suc.IH [of "Suc i" ?d] Suc.prems by simp
  also have "take (start + Suc i) ?d = take (start + i) data @ [data ! (start + i) XOR mk ! (i mod 4)]"
    using lt by (simp add: take_Suc_conv_app_nth)
  also have "map (\<lambda>j. ?d ! (start + j) XOR mk ! (j mod 4)) [Suc i..<Suc i + n] =
      map (\<lambda>j. data ! (start + j) XOR mk ! (j mod 4)) [Suc i..<Suc i + n]"
    by (rule map_cong) auto
  also have "drop (start + Suc i + n) ?d = drop (start + i + Suc n) data" by simp
  also have "[Suc i..<Suc i + n] = [Suc i..<i + Suc n]" by simp
  finally show ?case by (simp add: upt_conv_Cons del: upt_Suc)
qed

text \<open>Unmasking what was masked with the same key.\<close>

definition masked :: "bytes \<Rightarrow> bytes \<Rightarrow> bytes" where
  "masked mk payload = map (\<lambda>j. payload ! j XOR mk ! (j mod 4)) [0..<length payload]"

lemma length_masked [simp]: "length (masked mk payload) = length payload"
  by (simp add: masked_def)

lemma masked_masked: "masked mk (masked mk payload) = payload"
  by (rule nth_equalityI) (simp_all add: masked_def xor.assoc)

lemma umask_masked:
  assumes "length mk = 4"
  shows "umask (front @ body @ rest) (length front) (int (length body)) mk = Some (front @ masked mk body @ rest)"
proof -
  have "map (\<lambda>j. (front @ body @ rest) ! (length front + j) XOR mk ! (j mod 4)) [0..<0 + length body] = masked mk body"
    by (auto simp: masked_def nth_append)
  then show ?thesis using umask_loop_spec [of "length front" 0 "length body" "front @ body @ rest" mk] assms
    by (simp add: umask_def)
qed

lemma decode_start:
  assumes "decode_packet s = Some (s', m, sz, start)"
  shows "start = 6 \<and> sz = uint (s ! 1 AND 0x7F) \<and> m = take 4 (drop 2 s)"
proof -
  have "hdr_mask b AND 0x7F \<noteq> 126" "hdr_mask b AND 0x7F \<noteq> 127" for b
    using hdr_mask_bit [of b] by auto
  then show ?thesis using assms
    by (auto simp: decode_packet_def get_def read_bytes_def hdr_payload_length_def split: if_splits Option.bind_splits)
qed

section \<open>Properties\<close>

text \<open>A masked frame as a client sends it, for payloads whose length fits the header.\<close>

definition client_frame :: "bytes \<Rightarrow> bytes \<Rightarrow> bytes" where
  "client_frame mk payload = [0x81, 0x80 OR of_nat (length payload)] @ mk @ masked mk payload"

lemma and_127: "w AND 0x7F = (w mod 128 :: 8 word)"
proof -
  have "w AND 0x7F = take_bit 7 w" by (simp add: take_bit_eq_mask mask_eq_exp_minus_1)
  also have "\<dots> = w mod 128" by (simp add: take_bit_eq_mod)
  finally show ?thesis .
qed

lemma small_byte:
  assumes "n < 126"
  shows "(0x80 OR of_nat n) AND 0x7F = (of_nat n :: 8 word)" "of_nat n AND 0x7F = (of_nat n :: 8 word)"
proof -
  have "uint (of_nat n :: 8 word) = int n" using assms by (simp add: uint_nat unsigned_of_nat take_bit_nat_eq_self)
  have "of_nat n AND 0x7F = (of_nat n :: 8 word)"
    using assms \<open>uint (of_nat n :: 8 word) = int n\<close> by (simp add: and_127 word_uint_eq_iff uint_mod)
  then show "(0x80 OR of_nat n) AND 0x7F = (of_nat n :: 8 word)" "of_nat n AND 0x7F = (of_nat n :: 8 word)"
    by (simp_all add: bit.conj_disj_distrib2)
qed

lemma write_zeros:
  "length bs \<le> n \<Longrightarrow> write_bytes (replicate n 0) 0 bs = Some (bs @ replicate (n - length bs) 0)"
  by (simp add: write_bytes_def)

lemma read_write:
  assumes "write_bytes xs 2 bs = Some ys"
  shows "take (2 + length bs) ys = take 2 xs @ bs"
  using assms by (auto simp: write_bytes_def numeral_2_eq_2 split: if_splits)

lemma decode_client_frame:
  assumes mk: "length mk = 4" and n: "length payload < 126"
  shows "decode_packet (client_frame mk payload @ rest) =
    Some ([0x81, 0x80 OR of_nat (length payload)] @ mk @ payload @ rest, mk, int (length payload), 6)"
proof -
  let ?b = "0x80 OR of_nat (length payload) :: 8 word"
  let ?s = "client_frame mk payload @ rest"
  have b: "get ?s 1 = Some ?b" by (simp add: get_def client_frame_def)
  have k: "hdr_mask ?b AND 0x7F \<noteq> 126" "hdr_mask ?b AND 0x7F \<noteq> 127" using hdr_mask_bit [of ?b] by auto
  have m: "read_bytes ?s 2 4 = Some mk" using mk by (simp add: read_bytes_def client_frame_def)
  have "uint (of_nat (length payload) :: 8 word) = int (length payload)"
    using n by (simp add: uint_nat unsigned_of_nat take_bit_nat_eq_self)
  then have len: "uint (hdr_payload_length ?b) = int (length payload)"
    using small_byte(1) [OF n] by (simp add: hdr_payload_length_def)
  have u: "umask ?s 6 (int (length payload)) mk = Some ([0x81, ?b] @ mk @ payload @ rest)"
    using umask_masked [OF mk, of "[0x81, ?b] @ mk" "masked mk payload" rest] mk
    by (simp add: client_frame_def masked_masked)
  show ?thesis using b k m len u by (simp add: decode_packet_def)
qed

lemma encode_short:
  assumes n: "length payload < 126"
  shows "encode_packet (replicate 1038 0) mk (front @ payload @ rest) (length front) (int (length payload)) =
    Some (([0x81, of_nat (length payload)] @ payload) @ replicate (1036 - length payload) 0, int (length payload) + 2)"
proof -
  have h: "make_ophdr 1 1 (of_nat (length payload)) = [0x81, of_nat (length payload)]"
    using small_byte(2) [OF n] by (simp add: make_ophdr_def)
  have "write_bytes (replicate 1038 0) 0 [0x81, of_nat (length payload)] =
      Some ([0x81, of_nat (length payload)] @ replicate 1036 0)" using write_zeros [of "[0x81, of_nat (length payload)]" 1038] by simp
  moreover have "write_bytes ([0x81, of_nat (length payload)] @ replicate 1036 0) 2 payload =
      Some (([0x81, of_nat (length payload)] @ payload) @ replicate (1036 - length payload) 0)"
    using n by (simp add: write_bytes_def)
  ultimately show ?thesis using n by (simp add: encode_packet_def h read_bytes_def)
qed

text \<open>
  C31: the server echoes every frame that fits the short header: a masked frame of a client with a
  payload of less than 126 bytes is answered by an unmasked text frame with this payload.
\<close>

theorem ws_echo:
  assumes "length mk = 4" "length payload < 126"
  shows "reader_turn_ws (client_frame mk payload) = Some ([0x81, of_nat (length payload)] @ payload)"
proof -
  let ?rest = "replicate (1018 - length payload) 0 :: bytes"
  have s: "write_bytes (replicate MAX_BUFFER_LENGTH 0) 0 (client_frame mk payload) = Some (client_frame mk payload @ ?rest)"
    using write_zeros [of "client_frame mk payload" MAX_BUFFER_LENGTH] assms
    by (simp add: client_frame_def MAX_BUFFER_LENGTH_def)
  have z: "0 \<in> set (drop 6 ([0x81, 0x80 OR of_nat (length payload)] @ mk @ payload @ ?rest))" using assms by simp
  have e: "encode_packet (replicate 1038 0) mk ([0x81, 0x80 OR of_nat (length payload)] @ mk @ payload @ ?rest) 6 (int (length payload)) =
    Some (([0x81, of_nat (length payload)] @ payload) @ replicate (1036 - length payload) 0, int (length payload) + 2)"
    using encode_short [OF assms(2), of mk "[0x81, 0x80 OR of_nat (length payload)] @ mk" ?rest] assms(1) by simp
  have n: "nat (int (length payload) + 2) = length payload + 2" by simp
  show ?thesis using s z e decode_client_frame [OF assms, of ?rest]
    by (simp add: reader_turn_ws_def MAX_BUFFER_LENGTH_def read_bytes_def n)
qed

theorem ws_echo_witness:
  "reader_turn_ws ([0x81, 0x82, 1, 2, 3, 4] @ [0x49, 0x6B]) = Some [0x81, 2, 0x48, 0x69]"
  using ws_echo [of "[1, 2, 3, 4]" "[0x48, 0x69]"] by (simp add: client_frame_def masked_def)

lemma decode_defined:
  assumes "133 \<le> length s"
  shows "\<exists>s' m sz start. decode_packet s = Some (s', m, sz, start)"
proof -
  have k: "hdr_mask (s ! 1) AND 0x7F \<noteq> 126" "hdr_mask (s ! 1) AND 0x7F \<noteq> 127" using hdr_mask_bit [of "s ! 1"] by auto
  have "unat (hdr_payload_length (s ! 1)) < 128"
    by (simp add: hdr_payload_length_def and_127 unat_mod)
  then have "umask s 6 (uint (hdr_payload_length (s ! 1))) (take 4 (drop 2 s)) \<noteq> None"
    using umask_loop_spec [of 6 0 "nat (uint (hdr_payload_length (s ! 1)))" s "take 4 (drop 2 s)"] assms
    by (simp add: umask_def)
  then show ?thesis using k assms by (auto simp: decode_packet_def get_def read_bytes_def)
qed

text \<open>
  C32: longer frames are lost in both directions.  The decoder compares the one-bit field \<open>mask\<close> with
  126 and 127, so it reads the extended length as the first bytes of the mask and takes 126 or 127
  bytes; the encoder writes a length of zero and then covers the extended header by the payload.
\<close>

theorem ws_long_frames:
  assumes "length mk = 4" "126 \<le> length payload" "length payload < 0xffff" "length payload + 2 \<le> length buffer" "16 \<le> length buffer"
    "decode_packet ([0x81, 0xFE, hi, lo] @ mk @ masked mk payload @ rest) = Some (s', m, sz, start)"
  shows "m = [hi, lo, mk ! 0, mk ! 1] \<and> sz = 126 \<and> start = 6 \<and>
    (\<exists>b. encode_packet buffer mk payload 0 (int (length payload)) = Some (b, int (length payload) + 2) \<and>
      take (length payload + 2) b = [0x81, 0] @ payload)"
proof -
  have d: "start = 6" "sz = 126" "m = [hi, lo, mk ! 0, mk ! 1]"
  proof -
    obtain a b c d where "mk = [a, b, c, d]" using assms(1) by (auto simp: numeral_eq_Suc length_Suc_conv)
    then show "start = 6" "sz = 126" "m = [hi, lo, mk ! 0, mk ! 1]" using decode_start [OF assms(6)] by simp_all
  qed
  have h: "make_ophdr 1 1 0 = [0x81, 0]" by (simp add: make_ophdr_def)
  have le: "length (le_bytes n v) = n" for n v by (induction n arbitrary: v) simp_all
  obtain b0 where b0: "write_bytes buffer 0 [0x81, 0] = Some b0" "take 2 b0 = [0x81, 0]" "length b0 = length buffer"
    using assms(5) by (simp add: write_bytes_def)
  obtain b1 where b1: "write_bytes b0 2 (le_bytes 2 (int (length payload)) @ mk @ replicate 8 0) = Some b1"
      "take 2 b1 = [0x81, 0]" "length b1 = length buffer"
    using b0(2,3) assms(1,5) by (simp add: write_bytes_def le)
  obtain b2 where b2: "write_bytes b1 2 payload = Some b2"
    using b1(3) assms(4) by (simp add: write_bytes_def)
  have "encode_packet buffer mk payload 0 (int (length payload)) = Some (b2, int (length payload) + 2)"
    using b0(1) b1(1) b2 assms(2,3) by (simp add: encode_packet_def h read_bytes_def)
  then show ?thesis using d read_write [OF b2] b1(2) by (simp add: add.commute)
qed

theorem ws_long_frames_witness:
  "\<exists>b. encode_packet (replicate 200 0) [1, 2, 3, 4] (replicate 150 7) 0 150 = Some (b, 152) \<and>
    take 152 b = [0x81, 0] @ replicate 150 7"
proof -
  let ?mk = "[1, 2, 3, 4] :: bytes" and ?p = "replicate 150 7 :: bytes"
  have "133 \<le> length ([0x81, 0xFE, 0, 150] @ ?mk @ masked ?mk ?p @ [])" by simp
  from decode_defined [OF this] obtain s' m sz start where
    d: "decode_packet ([0x81, 0xFE, 0, 150] @ ?mk @ masked ?mk ?p @ []) = Some (s', m, sz, start)" by blast
  show ?thesis using ws_long_frames [OF _ _ _ _ _ d, of "replicate 200 0"] by simp
qed

end
