(* ===== verification/WS_Handshake.thy ===== *)
theory WS_Handshake
  imports WS_Codec "HOL-Library.Sublist"
begin

text \<open>
  The opening handshake of nty_websocket_server.c: the lines of the request, and the answer to the
  line with the key.  SHA1 and the base64 filter of OpenSSL are parameters; \<open>base64_encode\<close>, which copies
  what the filter has written, is code of the repository.  The request is the one read of at most 1024 bytes, over what
  the buffer on the stack held before, up to its first zero.
\<close>

section \<open>Operations\<close>

definition GUID :: string where "GUID = ''258EAFA5-E914-47DA-95CA-C5AB0DC85B11''"
definition KEY :: string where "KEY = ''Sec-WebSocket-Key''"
definition LINEBUF :: nat where "LINEBUF = 128"

abbreviation CR :: char where "CR \<equiv> CHR 0x0D"
abbreviation LF :: char where "LF \<equiv> CHR 0x0A"

text \<open>
  \<open>readline\<close> from \<open>level\<close> on: the text that is left, the places left in \<open>linebuf\<close> and what was stored.
\<close>

fun readline :: "string \<Rightarrow> int \<Rightarrow> nat \<Rightarrow> string \<Rightarrow> (int \<times> string) option" where
  "readline [] level room acc = Some (-1, acc)"
| "readline (c # cs) level room acc =
     (if c = CR \<and> take 1 cs = [LF] then Some (level + 2, acc)
      else if room = 0 then None
      else readline cs (level + 1) (room - 1) (acc @ [c]))"

text \<open>\<open>strlen\<close> of the digest, a string of bytes that may hold zeros.\<close>

definition c_bytes :: "bytes \<Rightarrow> bytes" where
  "c_bytes bs = takeWhile (\<lambda>b. b \<noteq> 0) bs"

definition accept_reply :: "string \<Rightarrow> string" where
  "accept_reply sec_accept =
     ''HTTP/1.1 101 Switching Protocols'' @ [CR, LF] @ ''Upgrade: websocket'' @ [CR, LF] @
     ''Connection: Upgrade'' @ [CR, LF] @ ''Sec-WebSocket-Accept: '' @ sec_accept @ [CR, LF] @ [CR, LF]"

text \<open>
  \<open>base64_encode\<close> into an array of \<open>n\<close> bytes, as a string: the last byte of what the filter has written, a line end, is
  overwritten by the zero.  When the filter has written nothing the zero goes before the array.
\<close>

definition base64_encode :: "(bytes \<Rightarrow> string) \<Rightarrow> bytes \<Rightarrow> nat \<Rightarrow> string option" where
  "base64_encode bio in_str n =
     (let mem = bio in_str
      in if length mem > n \<or> mem = [] then None
         else Some (takeWhile (\<lambda>c. c \<noteq> CHR 0x00) (butlast mem)))"

definition SEC_ACCEPT :: nat where "SEC_ACCEPT = 32"

text \<open>
  The loop of \<open>handshake\<close>; the result is what is written to the client, if anything.  A line that
  fills \<open>linebuf\<close> is no string, and after the last line the condition reads \<open>buffer[-1]\<close>.
\<close>

partial_function (option) handshake_loop ::
  "(string \<Rightarrow> bytes) \<Rightarrow> (bytes \<Rightarrow> string) \<Rightarrow> string \<Rightarrow> int \<Rightarrow> string option option" where
  "handshake_loop sha1 bio buffer level = do {
     r \<leftarrow> readline (drop (nat level) buffer) level LINEBUF [];
     if length (snd r) \<ge> LINEBUF then None
     else if sublist KEY (snd r)
     then (if length (snd r) + length GUID \<ge> LINEBUF then None
           else do {
             sec_accept \<leftarrow> base64_encode bio (c_bytes (sha1 (drop 19 (snd r @ GUID)))) SEC_ACCEPT;
             if length (accept_reply sec_accept) \<ge> MAX_BUFFER_LENGTH then None
             else Some (Some (accept_reply sec_accept)) })
     else if fst r = -1 then None
     else if take 2 (drop (nat (fst r)) buffer) = [CR, LF] then Some None
     else handshake_loop sha1 bio buffer (fst r) }"


section \<open>Lemmas\<close>

lemma readline_line:
  assumes "CR \<notin> set line" "length line \<le> room"
  shows "readline (line @ [CR, LF] @ rest) level room acc = Some (level + int (length line) + 2, acc @ line)"
  using assms
proof (induction line arbitrary: level room acc)
  case (Cons c line)
  then show ?case by (cases room) (auto simp: algebra_simps)
qed simp

lemma readline_long:
  "CR \<notin> set line \<Longrightarrow> room < length line \<Longrightarrow> readline (line @ rest) level room acc = None"
proof (induction line arbitrary: level room acc)
  case (Cons c line)
  then show ?case by (cases room) auto
qed simp

lemma readline_open:
  "CR \<notin> set line \<Longrightarrow> length line \<le> room \<Longrightarrow> readline line level room acc = Some (-1, acc @ line)"
proof (induction line arbitrary: level room acc)
  case (Cons c line)
  then show ?case by (cases room) auto
qed simp









section \<open>Properties\<close>




text \<open>
  a first line of more than 128 bytes overruns the line buffer, and a line with the key that
  leaves no room for the GUID overruns it in strcat; a request that ends without an empty line and
  without a key makes the loop read before the buffer.
\<close>

theorem ws_handshake_overflow:
  assumes "CR \<notin> set l" "l \<noteq> []"
  shows "(LINEBUF < length l \<longrightarrow> handshake_loop sha1 bio (l @ rest) 0 = None) \<and>
    (sublist KEY l \<and> LINEBUF \<le> length l + length GUID \<longrightarrow> handshake_loop sha1 bio (l @ [CR, LF] @ rest) 0 = None) \<and>
    (\<not> sublist KEY l \<longrightarrow> handshake_loop sha1 bio l 0 = None)"
proof -
  have over: "handshake_loop sha1 bio b 0 = None" if "readline b 0 LINEBUF [] = None" for b
    using that by (simp add: handshake_loop.simps [of _ _ _ 0])
  have start: "handshake_loop sha1 bio b 0 = None" if "readline b 0 LINEBUF [] = Some (n, x)"
      "LINEBUF \<le> length x \<or> (sublist KEY x \<and> LINEBUF \<le> length x + length GUID) \<or> (\<not> sublist KEY x \<and> n = -1)" for b n x
    using that by (auto simp: handshake_loop.simps [of _ _ _ 0])
  have "handshake_loop sha1 bio (l @ [CR, LF] @ rest) 0 = None" if "sublist KEY l" "LINEBUF \<le> length l + length GUID"
    using that readline_line [OF assms(1), of LINEBUF rest 0 "[]"] readline_long [OF assms(1), of LINEBUF "[CR, LF] @ rest" 0 "[]"]
    by (cases "length l \<le> LINEBUF") (auto intro: over start)
  moreover have "handshake_loop sha1 bio l 0 = None" if "\<not> sublist KEY l"
    using that readline_open [OF assms(1), of LINEBUF 0 "[]"] readline_long [OF assms(1), of LINEBUF "[]" 0 "[]"]
    by (cases "length l \<le> LINEBUF") (auto intro: over start)
  moreover have "handshake_loop sha1 bio (l @ rest) 0 = None" if "LINEBUF < length l"
    using that readline_long [OF assms(1), of LINEBUF rest 0 "[]"] by (auto intro: over)
  ultimately show ?thesis by blast
qed

theorem ws_handshake_overflow_witness:
  "handshake_loop (\<lambda>s. []) (\<lambda>bs. []) ''GET / HTTP/1.1'' 0 = None"
  using ws_handshake_overflow [of "''GET / HTTP/1.1''"] by (simp add: KEY_def sublist_code)

end
