(* ===== verification/RX_Reactor.thy ===== *)
theory RX_Reactor
  imports "HOL-Library.Monad_Syntax" Main
begin

text \<open>
  The HTTP reactor of 2.1.2-reactor/c-reactor/reactor.c: the table of connections, the registration,
  the callbacks and the dispatch of events; and the epoll server of 2.1.1-select-poll-epoll/server.c.
  What the kernel answers is an argument; an access outside the table or a buffer is undefined
  (\<open>None\<close>).
\<close>

section \<open>State of the reactor\<close>

definition RBUF :: nat where "RBUF = 1024"

datatype rcallback = AcceptCb | RecvCb | SendCb
datatype interest = In | Out
datatype received = Received string | RecvFailed

record rconn =
  rc_fd :: int
  rc_rbuffer :: string
  rc_rlength :: int
  rc_wbuffer :: string
  rc_wlength :: int
  rc_recv :: "rcallback option" \<comment> \<open>the union \<open>recv_t\<close>\<close>
  rc_send :: "rcallback option"

record reactor =
  rx_conns :: "rconn list" \<comment> \<open>\<open>connection_list\<close>, 1024 places\<close>
  rx_interest :: "int \<Rightarrow> interest option"
  rx_open :: "int set"
  rx_sent :: "(int \<times> string) list"

definition get_conn :: "int \<Rightarrow> reactor \<Rightarrow> rconn option" where
  "get_conn fd s = (if 0 \<le> fd \<and> fd < int (length (rx_conns s)) then Some (rx_conns s ! nat fd) else None)"

definition put_conn :: "int \<Rightarrow> rconn \<Rightarrow> reactor \<Rightarrow> reactor" where
  "put_conn fd c s = s\<lparr>rx_conns := (rx_conns s)[nat fd := c]\<rparr>"

section \<open>The response\<close>

abbreviation CRLF :: string where "CRLF \<equiv> [CHR 0x0D, CHR 0x0A]"

definition http_head :: string where
  "http_head = ''HTTP/1.1 200 OK'' @ CRLF @ ''Content-Type: text/html'' @ CRLF @ ''Content-Length: 95'' @ CRLF @ CRLF"

definition http_body :: string where
  "http_body = ''<html><head><title>Hello, Reactor!</title></head><body><h1>Hello, Reactor!</h1></body></html>'' @ CRLF"

definition http_response :: "rconn \<Rightarrow> rconn option" where
  "http_response c =
     (let text = http_head @ http_body
      in if length text + 1 \<le> length (rc_wbuffer c)
         then Some (c\<lparr>rc_wbuffer := text @ CHR 0x00 # drop (length text + 1) (rc_wbuffer c), rc_wlength := int (length text)\<rparr>)
         else None)"

section \<open>Callbacks\<close>

definition reactor_set_event :: "int \<Rightarrow> interest \<Rightarrow> bool \<Rightarrow> reactor \<Rightarrow> reactor" where
  "reactor_set_event fd event flag s =
     (if flag
      then (if rx_interest s fd = None then s\<lparr>rx_interest := (rx_interest s)(fd \<mapsto> event)\<rparr> else s)
      else (if rx_interest s fd = None then s else s\<lparr>rx_interest := (rx_interest s)(fd \<mapsto> event)\<rparr>))"

definition reactor_accept_cb :: "int \<Rightarrow> reactor \<Rightarrow> (reactor \<times> int) option" where
  "reactor_accept_cb clientfd s =
     (if clientfd < 0 then Some (s, -1)
      else do {
        let s = reactor_set_event clientfd In True (s\<lparr>rx_open := insert clientfd (rx_open s)\<rparr>);
        _ \<leftarrow> get_conn clientfd s;
        let c = \<lparr>rc_fd = clientfd, rc_rbuffer = replicate RBUF (CHR 0x00), rc_rlength = 0,
                 rc_wbuffer = replicate RBUF (CHR 0x00), rc_wlength = 0, rc_recv = Some RecvCb, rc_send = Some SendCb\<rparr>;
        Some (put_conn clientfd c s, clientfd) })"

definition reactor_recv_cb :: "int \<Rightarrow> received \<Rightarrow> reactor \<Rightarrow> (reactor \<times> int) option" where
  "reactor_recv_cb fd r s = do {
     c \<leftarrow> get_conn fd s;
     let index = rc_rlength c;
     if index < 0 \<or> int RBUF < index then None
     else do {
       let bytes = (case r of Received bs \<Rightarrow> take (RBUF - nat index) bs | RecvFailed \<Rightarrow> []);
       let count = (case r of Received bs \<Rightarrow> int (length bytes) | RecvFailed \<Rightarrow> -1);
       if count = 0
       then Some (s\<lparr>rx_interest := (rx_interest s)(fd := None), rx_open := rx_open s - {fd}\<rparr>, -1)
       else do {
         let c = c\<lparr>rc_rbuffer := take (nat index) (rc_rbuffer c) @ bytes @ drop (nat index + length bytes) (rc_rbuffer c),
                   rc_rlength := index + count\<rparr>;
         let s = reactor_set_event fd Out False s;
         c \<leftarrow> http_response c;
         Some (put_conn fd c s, count) } } }"

definition reactor_send_cb :: "int \<Rightarrow> nat \<Rightarrow> reactor \<Rightarrow> (reactor \<times> int) option" where
  "reactor_send_cb fd room s = do {
     c \<leftarrow> get_conn fd s;
     let index = rc_wlength c;
     if index < 0 \<or> int (length (rc_wbuffer c)) < index then None
     else do {
       let bytes = take (min room (nat index)) (rc_wbuffer c);
       let s = s\<lparr>rx_sent := rx_sent s @ [(fd, bytes)]\<rparr>;
       Some (reactor_set_event fd In False s, int (length bytes)) } }"

text \<open>An event as epoll reports it, with what the calls it leads to will answer.\<close>

datatype revent = Readable int int received | Writable int nat

fun reactor_event :: "revent \<Rightarrow> reactor \<Rightarrow> reactor option" where
  "reactor_event (Readable fd client r) s = do {
     c \<leftarrow> get_conn fd s;
     cb \<leftarrow> rc_recv c;
     (case cb of
        AcceptCb \<Rightarrow> map_option fst (reactor_accept_cb client s)
      | RecvCb \<Rightarrow> map_option fst (reactor_recv_cb fd r s)
      | SendCb \<Rightarrow> None) }"
| "reactor_event (Writable fd room) s = do {
     c \<leftarrow> get_conn fd s;
     cb \<leftarrow> rc_send c;
     if cb = SendCb then map_option fst (reactor_send_cb fd room s) else None }"

fun reactor_events :: "revent list \<Rightarrow> reactor \<Rightarrow> reactor option" where
  "reactor_events [] s = Some s"
| "reactor_events (e # es) s = do { s \<leftarrow> reactor_event e s; reactor_events es s }"

definition zero_conn :: rconn where
  "zero_conn = \<lparr>rc_fd = 0, rc_rbuffer = replicate RBUF (CHR 0x00), rc_rlength = 0,
     rc_wbuffer = replicate RBUF (CHR 0x00), rc_wlength = 0, rc_recv = None, rc_send = None\<rparr>"

text \<open>\<open>main\<close> up to its loop, for the descriptor that socket returned.\<close>

definition reactor_start :: "int \<Rightarrow> reactor option" where
  "reactor_start listen_fd = do {
     let s = \<lparr>rx_conns = replicate 1024 zero_conn, rx_interest = Map.empty, rx_open = {listen_fd}, rx_sent = []\<rparr>;
     c \<leftarrow> get_conn listen_fd s;
     Some (reactor_set_event listen_fd In True (put_conn listen_fd (c\<lparr>rc_fd := listen_fd, rc_recv := Some AcceptCb\<rparr>) s)) }"

section \<open>The epoll server\<close>

record eserver =
  es_open :: "int set"
  es_interest :: "int set"
  es_echoed :: "(int \<times> string) list"

text \<open>
  The loop over the reported events from index \<open>i\<close> on; an event is a descriptor, whether EPOLLIN is set,
  what accept would answer and what recv would answer.  A failed recv makes the length of the send the
  largest number of its type.
\<close>

fun serve_events :: "int \<Rightarrow> nat \<Rightarrow> (int \<times> bool \<times> int \<times> received) list \<Rightarrow> eserver \<Rightarrow> eserver option" where
  "serve_events sockfd i [] s = Some s"
| "serve_events sockfd i ((connfd, inp, clientfd, r) # evs) s =
     (if sockfd = connfd
      then serve_events sockfd (Suc i) evs
        (if clientfd < 0 then s
         else s\<lparr>es_open := insert clientfd (es_open s), es_interest := insert clientfd (es_interest s)\<rparr>)
      else if inp
      then (case r of
              RecvFailed \<Rightarrow> None
            | Received bytes \<Rightarrow>
                if take 128 bytes = []
                then Some (s\<lparr>es_interest := es_interest s - {connfd}, es_open := es_open s - {int i}\<rparr>)
                else serve_events sockfd (Suc i) evs (s\<lparr>es_echoed := es_echoed s @ [(connfd, take 128 bytes)]\<rparr>))
      else serve_events sockfd (Suc i) evs s)"

section \<open>Lemmas\<close>

lemma http_body_length: "length http_body = 95"
  by (simp add: http_body_def)

lemma http_text_length: "length (http_head @ http_body) < RBUF"
  by (simp add: http_body_def http_head_def RBUF_def)

abbreviation page :: string where "page \<equiv> http_head @ http_body"

text \<open>A connection from which \<open>n\<close> bytes were received, registered for input.\<close>

definition client_ready :: "int \<Rightarrow> nat \<Rightarrow> reactor \<Rightarrow> bool" where
  "client_ready fd n s \<longleftrightarrow>
     0 \<le> fd \<and> fd < 1024 \<and> length (rx_conns s) = 1024 \<and> rx_interest s fd = Some In \<and> n \<le> RBUF \<and>
     (\<exists>c. rx_conns s ! nat fd = c \<and> rc_rlength c = int n \<and> length (rc_rbuffer c) = RBUF \<and>
        length (rc_wbuffer c) = RBUF \<and> rc_recv c = Some RecvCb \<and> rc_send c = Some SendCb)"

lemma get_put_conn [simp]:
  "0 \<le> fd \<Longrightarrow> fd < int (length (rx_conns s)) \<Longrightarrow> get_conn fd (put_conn fd c s) = Some c"
  by (simp add: get_conn_def put_conn_def nat_less_iff)

lemma set_event_fields [simp]:
  "rx_conns (reactor_set_event fd e f s) = rx_conns s" "rx_sent (reactor_set_event fd e f s) = rx_sent s"
  "rx_open (reactor_set_event fd e f s) = rx_open s"
  by (simp_all add: reactor_set_event_def)

lemma put_conn_fields [simp]:
  "rx_interest (put_conn fd c s) = rx_interest s" "rx_sent (put_conn fd c s) = rx_sent s"
  "rx_open (put_conn fd c s) = rx_open s" "length (rx_conns (put_conn fd c s)) = length (rx_conns s)"
  by (simp_all add: put_conn_def)

definition full_page :: "rconn \<Rightarrow> rconn" where
  "full_page c = c\<lparr>rc_wbuffer := page @ CHR 0x00 # drop (length page + 1) (rc_wbuffer c), rc_wlength := int (length page)\<rparr>"

lemma http_response_page:
  "length (rc_wbuffer c) = RBUF \<Longrightarrow> http_response c = Some (full_page c)"
  using http_text_length by (simp add: http_response_def full_page_def Let_def)

lemma recv_round:
  assumes "client_ready fd n s" "chunk \<noteq> []" "n + length chunk \<le> RBUF"
  shows "\<exists>c. reactor_event (Readable fd x (Received chunk)) s =
      Some (put_conn fd (full_page c) (reactor_set_event fd Out False s)) \<and>
    rc_rlength c = int (n + length chunk) \<and> length (rc_rbuffer c) = RBUF \<and> length (rc_wbuffer c) = RBUF \<and>
    rc_recv c = Some RecvCb \<and> rc_send c = Some SendCb"
proof -
  let ?c = "rx_conns s ! nat fd"
  let ?d = "?c\<lparr>rc_rbuffer := take n (rc_rbuffer ?c) @ chunk @ drop (n + length chunk) (rc_rbuffer ?c),
              rc_rlength := int n + int (length chunk)\<rparr>"
  have c: "get_conn fd s = Some ?c" "rc_rlength ?c = int n" "length (rc_rbuffer ?c) = RBUF" "length (rc_wbuffer ?c) = RBUF"
    "rc_recv ?c = Some RecvCb" "rc_send ?c = Some SendCb"
    using assms(1) by (auto simp: client_ready_def get_conn_def)
  have "http_response ?d = Some (full_page ?d)" using c(4) by (intro http_response_page) simp
  then have "reactor_event (Readable fd x (Received chunk)) s =
      Some (put_conn fd (full_page ?d) (reactor_set_event fd Out False s))"
    using c assms(2,3) by (simp add: reactor_recv_cb_def Let_def)
  then show ?thesis using c assms(3) by (intro exI [of _ ?d]) simp
qed

lemma send_round:
  assumes "0 \<le> fd" "fd < int (length (rx_conns s))" "rx_conns s ! nat fd = full_page c"
    "rc_send c = Some SendCb" "length page \<le> room"
  shows "reactor_event (Writable fd room) s =
    Some (reactor_set_event fd In False (s\<lparr>rx_sent := rx_sent s @ [(fd, page)]\<rparr>))"
proof -
  have g: "get_conn fd s = Some (full_page c)" using assms(1-3) by (simp add: get_conn_def)
  have p: "rc_send (full_page c) = Some SendCb" "rc_wlength (full_page c) = int (length page)"
    "take (min room (length page)) (rc_wbuffer (full_page c)) = page" "int (length page) \<le> int (length (rc_wbuffer (full_page c)))"
    using assms(4,5) by (simp_all add: full_page_def min_def)
  show ?thesis using g p by (simp add: reactor_send_cb_def Let_def del: length_append append_assoc)
qed

definition round :: "int \<Rightarrow> string \<Rightarrow> revent list" where
  "round fd chunk = [Readable fd 0 (Received chunk), Writable fd RBUF]"

lemma one_round:
  assumes "client_ready fd n s" "chunk \<noteq> []" "n + length chunk \<le> RBUF"
  shows "\<exists>s'. reactor_events (round fd chunk) s = Some s' \<and> client_ready fd (n + length chunk) s' \<and>
    rx_sent s' = rx_sent s @ [(fd, page)] \<and> rx_open s' = rx_open s"
proof -
  obtain c where c: "reactor_event (Readable fd 0 (Received chunk)) s =
      Some (put_conn fd (full_page c) (reactor_set_event fd Out False s))"
    "rc_rlength c = int (n + length chunk)" "length (rc_rbuffer c) = RBUF" "length (rc_wbuffer c) = RBUF"
    "rc_recv c = Some RecvCb" "rc_send c = Some SendCb" using recv_round [OF assms] by blast
  let ?s = "put_conn fd (full_page c) (reactor_set_event fd Out False s)"
  have fd: "0 \<le> fd" "fd < int (length (rx_conns ?s))" "nat fd < length (rx_conns s)" "length (rx_conns s) = 1024"
      "rx_interest s fd = Some In"
    using assms(1) by (auto simp: client_ready_def)
  have at: "rx_conns ?s ! nat fd = full_page c" using fd(3) by (simp add: put_conn_def)
  let ?t = "reactor_set_event fd In False (?s\<lparr>rx_sent := rx_sent ?s @ [(fd, page)]\<rparr>)"
  have "reactor_event (Writable fd RBUF) ?s = Some ?t"
    using send_round [OF fd(1,2) at c(6)] http_text_length by simp
  then have "reactor_events (round fd chunk) s = Some ?t"
    using c(1) by (simp add: round_def del: reactor_event.simps)
  moreover have "rx_interest ?t fd = Some In" using fd(5) by (simp add: reactor_set_event_def put_conn_def)
  moreover have "rc_rlength (full_page c) = int (n + length chunk)" "length (rc_rbuffer (full_page c)) = RBUF"
      "length (rc_wbuffer (full_page c)) = RBUF" "rc_recv (full_page c) = Some RecvCb" "rc_send (full_page c) = Some SendCb"
    using c http_text_length by (simp_all add: full_page_def)
  then have "client_ready fd (n + length chunk) ?t"
    using at fd assms calculation(2) by (simp add: client_ready_def)
  ultimately show ?thesis by (intro exI [of _ ?t]) simp
qed

lemma reactor_events_append:
  "reactor_events (es @ fs) s = (case reactor_events es s of None \<Rightarrow> None | Some s' \<Rightarrow> reactor_events fs s')"
  by (induction es s rule: reactor_events.induct) (auto split: Option.bind_split option.split)

section \<open>Properties\<close>

text \<open>
  C34: the reactor answers every chunk of data with the page as long as the chunks of a connection add
  up to at most 1024 bytes; since the length received is never set back, the data that arrives after
  1024 bytes finds no room, looks like the end of the stream and closes the connection unanswered.
\<close>

theorem reactor_session:
  assumes "client_ready fd n s" "\<forall>chunk \<in> set chunks. chunk \<noteq> []" "n + sum_list (map length chunks) \<le> RBUF"
  shows "\<exists>s'. reactor_events (concat (map (round fd) chunks)) s = Some s' \<and>
    rx_sent s' = rx_sent s @ replicate (length chunks) (fd, page) \<and>
    client_ready fd (n + sum_list (map length chunks)) s' \<and>
    (n + sum_list (map length chunks) = RBUF \<longrightarrow> (\<forall>x more. \<exists>s''. reactor_event (Readable fd x (Received more)) s' = Some s'' \<and>
       fd \<notin> rx_open s'' \<and> rx_interest s'' fd = None \<and> rx_sent s'' = rx_sent s'))"
  using assms
proof (induction chunks arbitrary: n s)
  case Nil
  have "\<exists>s''. reactor_event (Readable fd x (Received more)) s = Some s'' \<and>
       fd \<notin> rx_open s'' \<and> rx_interest s'' fd = None \<and> rx_sent s'' = rx_sent s" if "n = RBUF" for x more
    using Nil.prems(1) that by (auto simp: client_ready_def get_conn_def reactor_recv_cb_def Let_def)
  then show ?case using Nil.prems(1) by simp
next
  case (Cons chunk chunks)
  obtain s1 where s1: "reactor_events (round fd chunk) s = Some s1" "client_ready fd (n + length chunk) s1"
    "rx_sent s1 = rx_sent s @ [(fd, page)]" using one_round [OF Cons.prems(1), of chunk] Cons.prems(2,3) by auto
  have "reactor_events (concat (map (round fd) (chunk # chunks))) s = reactor_events (concat (map (round fd) chunks)) s1"
    using s1(1) by (simp add: reactor_events_append)
  then show ?case using Cons.IH [OF s1(2)] Cons.prems(2,3) s1(3) by (simp add: add.assoc)
qed

theorem reactor_session_witness:
  "\<exists>s0 s1. reactor_start 3 = Some s0 \<and> reactor_events (Readable 3 5 RecvFailed # round 5 ''GET'') s0 = Some s1 \<and>
    rx_sent s1 = [(5, page)]"
proof -
  obtain s0 where s0: "reactor_start 3 = Some s0" "get_conn 3 s0 = Some (zero_conn\<lparr>rc_fd := 3, rc_recv := Some AcceptCb\<rparr>)"
      "length (rx_conns s0) = 1024" "rx_interest s0 = [3 \<mapsto> In]" "rx_sent s0 = []"
    by (simp add: reactor_start_def get_conn_def put_conn_def reactor_set_event_def zero_conn_def)
  obtain s2 where s2: "reactor_event (Readable 3 5 RecvFailed) s0 = Some s2" "client_ready 5 0 s2" "rx_sent s2 = []"
    using s0 by (simp add: reactor_accept_cb_def reactor_set_event_def Let_def get_conn_def put_conn_def client_ready_def)
  obtain s1 where s1: "reactor_events (round 5 ''GET'') s2 = Some s1" "rx_sent s1 = [(5, page)]"
    using reactor_session [OF s2(2), of "[''GET'']"] s2(3) by (auto simp: RBUF_def)
  have "reactor_events (Readable 3 5 RecvFailed # round 5 ''GET'') s0 = Some s1"
    using s2(1) s1(1) by (simp del: reactor_event.simps)
  then show ?thesis using s0(1) s1(2) by blast
qed

text \<open>
  when a client of the epoll server disconnects, the server closes the descriptor whose number is
  the index of the event, keeps the one of the client open, and leaves the events after it alone.
\<close>

theorem server_closes_index:
  assumes "\<forall>e \<in> set before. \<exists>fd bytes. e = (fd, True, -1, Received bytes) \<and> fd \<noteq> sockfd \<and> bytes \<noteq> []"
    "fd \<noteq> sockfd" "fd \<in> es_open s" "fd \<noteq> int (length before)"
  shows "\<exists>s'. serve_events sockfd 0 (before @ (fd, True, x, Received []) # after) s = Some s' \<and>
    es_open s' = es_open s - {int (length before)} \<and> fd \<in> es_open s' \<and> fd \<notin> es_interest s' \<and>
    length (es_echoed s') = length (es_echoed s) + length before"
proof -
  have "\<exists>s'. serve_events sockfd i (before @ (fd, True, x, Received []) # after) s = Some s' \<and>
    es_open s' = es_open s - {int (i + length before)} \<and> fd \<notin> es_interest s' \<and>
    length (es_echoed s') = length (es_echoed s) + length before" for i
    using assms(1)
  proof (induction before arbitrary: i s)
    case Nil
    then show ?case using assms(2) by simp
  next
    case (Cons e before)
    then obtain g bytes where e: "e = (g, True, -1, Received bytes)" "g \<noteq> sockfd" "bytes \<noteq> []" by auto
    from Cons.IH [of "Suc i" "s\<lparr>es_echoed := es_echoed s @ [(g, take 128 bytes)]\<rparr>"] Cons.prems
    show ?case using e by simp
  qed
  from this [of 0] show ?thesis using assms(3,4) by fastforce
qed

theorem server_closes_index_witness:
  "\<exists>s'. serve_events 3 0 [(5, True, -1, Received ''a''), (6, True, 0, Received []), (7, True, 0, Received ''b'')]
      \<lparr>es_open = {0, 1, 2, 3, 5, 6, 7}, es_interest = {3, 5, 6, 7}, es_echoed = []\<rparr> = Some s' \<and>
    1 \<notin> es_open s' \<and> 6 \<in> es_open s'"
  using server_closes_index [of "[(5, True, -1, Received ''a'')]" 3 6
      "\<lparr>es_open = {0, 1, 2, 3, 5, 6, 7}, es_interest = {3, 5, 6, 7}, es_echoed = []\<rparr>" 0 "[(7, True, 0, Received ''b'')]"]
  by auto

end
