(* ===== verification/HD_Httpd.thy ===== *)
theory HD_Httpd
  imports C_Sums "HOL-Library.Monad_Syntax" "HOL-Library.Word"
begin

text \<open>
  The multi-process web server ntyco_httpd.c: the shared memory with its counters and its accept
  lock, the load comparisons, the reader of one client, and the accepting processes as an
  interleaving of steps, one step per access to the shared memory.
\<close>

section \<open>Shared memory\<close>

definition TOTALFDS :: nat where "TOTALFDS = 16"

record shm =
  totalfds :: "int list" \<comment> \<open>\<open>TOTALFDS\<close> places\<close>
  cpu_lb :: "int list"
  accept_mtx :: int
  behind :: int \<comment> \<open>the four bytes behind the structure, in its page\<close>

text \<open>
  \<open>lock; cmpxchg\<close> on \<open>accept_mtx\<close>: the previous value; the new one is stored when it was \<open>old\<close>.  The operands are of type
  unsigned long and the instruction has no size, so that with size 4 it exchanges eight bytes.
\<close>

definition mtx_quad :: "shm \<Rightarrow> int" where
  "mtx_quad m = accept_mtx m mod 2 ^ 32 + 2 ^ 32 * (behind m mod 2 ^ 32)"

definition as_int :: "int \<Rightarrow> int" where
  "as_int x = sint (word_of_int x :: 32 word)"

definition cmpxchg :: "int \<Rightarrow> int \<Rightarrow> shm \<Rightarrow> shm \<times> int" where
  "cmpxchg old new m =
     (if mtx_quad m = old
      then (m\<lparr>accept_mtx := as_int new, behind := as_int (new div 2 ^ 32)\<rparr>, mtx_quad m)
      else (m, mtx_quad m))"

definition lock_shm :: "shm \<Rightarrow> shm \<times> int" where
  "lock_shm m = (let (m, prev) = cmpxchg 0 1 m in (m, as_int prev))"

definition unlock_shm :: "shm \<Rightarrow> shm" where
  "unlock_shm m = m\<lparr>accept_mtx := 0\<rparr>"

definition atomic_add :: "nat \<Rightarrow> int \<Rightarrow> shm \<Rightarrow> shm" where
  "atomic_add j v m = m\<lparr>totalfds := (totalfds m)[j := totalfds m ! j + v]\<rparr>"

definition atomic_sub :: "nat \<Rightarrow> int \<Rightarrow> shm \<Rightarrow> shm" where
  "atomic_sub j v m = m\<lparr>totalfds := (totalfds m)[j := totalfds m ! j - v]\<rparr>"

definition INC_COUNTFD :: "nat \<Rightarrow> nat \<Rightarrow> shm \<Rightarrow> shm" where
  "INC_COUNTFD self_id cpu_size m = atomic_add (self_id mod cpu_size) 1 m"

definition DEC_COUNTFD :: "nat \<Rightarrow> nat \<Rightarrow> shm \<Rightarrow> shm" where
  "DEC_COUNTFD self_id cpu_size m = atomic_sub (self_id mod cpu_size) 1 m"

text \<open>The pages of a new segment are zero.\<close>

definition init_shmvalue :: shm where
  "init_shmvalue = \<lparr>totalfds = replicate TOTALFDS 0, cpu_lb = replicate TOTALFDS 0, accept_mtx = 0, behind = 0\<rparr>"

section \<open>Load comparisons\<close>

definition get_countfd :: "nat \<Rightarrow> nat \<Rightarrow> shm \<Rightarrow> int" where
  "get_countfd self_id cpu_size m = totalfds m ! (self_id mod cpu_size)"

definition max_countfd :: "nat \<Rightarrow> shm \<Rightarrow> int" where
  "max_countfd cpu_size m =
     foldl (\<lambda>count i. if count < totalfds m ! i then totalfds m ! i else count) (-1) [0..<cpu_size]"

text \<open>The start value \<open>0xffffffff\<close> as an int.\<close>

definition min_start :: int where
  "min_start = sint (0xffffffff :: 32 word)"

definition min_countfd :: "nat \<Rightarrow> shm \<Rightarrow> int" where
  "min_countfd cpu_size m =
     foldl (\<lambda>count i. if count > totalfds m ! i then totalfds m ! i else count) min_start [0..<cpu_size]"

text \<open>Division of C, which rounds towards zero.\<close>

definition c_div :: "int \<Rightarrow> int \<Rightarrow> int" where
  "c_div a b = sgn a * sgn b * (\<bar>a\<bar> div \<bar>b\<bar>)"

definition compare_out_countfd :: "nat \<Rightarrow> nat \<Rightarrow> shm \<Rightarrow> int" where
  "compare_out_countfd self_id cpu_size m =
     (let current = get_countfd self_id cpu_size m; mn = min_countfd cpu_size m
      in if c_div (current * 7) 8 > mn then 1 else 0)"

definition compare_in_countfd :: "nat \<Rightarrow> nat \<Rightarrow> shm \<Rightarrow> int" where
  "compare_in_countfd self_id cpu_size m =
     (let current = get_countfd self_id cpu_size m; mx = max_countfd cpu_size m
      in if c_div (current * 8) 7 < mx then 1 else 0)"

definition lock_accept :: "nat \<Rightarrow> nat \<Rightarrow> shm \<Rightarrow> shm" where
  "lock_accept self_id cpu_size m =
     (let m = m\<lparr>cpu_lb := (cpu_lb m)[self_id mod cpu_size := 1]\<rparr>;
          count = foldl (\<lambda>count i. if count > totalfds m ! i then totalfds m ! i else count) min_start [0..<cpu_size]
      in foldl (\<lambda>m i. if count = totalfds m ! i then m\<lparr>cpu_lb := (cpu_lb m)[i := 3]\<rparr> else m) m [0..<cpu_size])"

definition read_accept :: "nat \<Rightarrow> nat \<Rightarrow> shm \<Rightarrow> int" where
  "read_accept self_id cpu_size m = cpu_lb m ! (self_id mod cpu_size)"

definition write_accept :: "nat \<Rightarrow> nat \<Rightarrow> int \<Rightarrow> shm \<Rightarrow> shm" where
  "write_accept self_id cpu_size state m = m\<lparr>cpu_lb := (cpu_lb m)[self_id mod cpu_size := state]\<rparr>"

section \<open>The reader of one client\<close>

record client =
  cl_fd :: int
  cl_open :: bool
  cl_pages :: nat \<comment> \<open>the pages that were sent to it\<close>

definition EAGAIN :: int where "EAGAIN = 11"

text \<open>
  One turn of \<open>accept_request\<close> on an answer of \<open>nty_recv\<close> and its errno.  The answer is stored in a \<open>size_t\<close>, so that -1 is
  greater than 0 and the branches for errors are never reached.  Closing a client counts it out and ends the coroutine.
\<close>

definition accept_turn :: "nat \<Rightarrow> nat \<Rightarrow> int \<Rightarrow> int \<Rightarrow> client \<Rightarrow> shm \<Rightarrow> client \<times> shm" where
  "accept_turn self_id cpu_size ret errno c m =
     (let numchars = (word_of_int ret :: 64 word)
      in if numchars > 0 then (c\<lparr>cl_pages := Suc (cl_pages c)\<rparr>, m)
         else if numchars = 0 then (c\<lparr>cl_open := False\<rparr>, DEC_COUNTFD self_id cpu_size m)
         else if numchars = -1
         then (if errno = EAGAIN then (c, m) else (c\<lparr>cl_open := False\<rparr>, DEC_COUNTFD self_id cpu_size m))
         else (c, m))"

text \<open>\<open>accept_request\<close> on a list of answers.\<close>

fun accept_request :: "nat \<Rightarrow> nat \<Rightarrow> (int \<times> int) list \<Rightarrow> client \<Rightarrow> shm \<Rightarrow> client \<times> shm" where
  "accept_request self_id cpu_size [] c m = (c, m)"
| "accept_request self_id cpu_size ((ret, errno) # rs) c m =
     (let (c, m) = accept_turn self_id cpu_size ret errno c m
      in if cl_open c then accept_request self_id cpu_size rs c m else (c, m))"

section \<open>The accepting processes\<close>

datatype apc = ATry | AAccept | AUnlock int | ACount int | AExit

record aproc =
  ap_id :: nat
  ap_pc :: apc
  ap_clients :: "client list" \<comment> \<open>of the coroutines that it has created\<close>

record httpd =
  hd_shm :: shm
  hd_procs :: "aproc list"

definition set_proc :: "nat \<Rightarrow> aproc \<Rightarrow> httpd \<Rightarrow> httpd" where
  "set_proc i p s = s\<lparr>hd_procs := (hd_procs s)[i := p]\<rparr>"

text \<open>
  One step of \<open>server\<close> in process \<open>i\<close>; \<open>clientfd\<close> is what accept answers.  After the client is counted in, its coroutine is
  created.
\<close>

fun server_step :: "nat \<Rightarrow> int \<Rightarrow> aproc \<Rightarrow> shm \<Rightarrow> aproc \<times> shm" where
  "server_step cpu clientfd p m =
     (case ap_pc p of
        ATry \<Rightarrow> (let (m, r) = lock_shm m in (if r \<noteq> 0 then p else p\<lparr>ap_pc := AAccept\<rparr>, m))
      | AAccept \<Rightarrow> (p\<lparr>ap_pc := AUnlock clientfd\<rparr>, m)
      | AUnlock fd \<Rightarrow> (p\<lparr>ap_pc := (if fd < 0 then AExit else ACount fd)\<rparr>, unlock_shm m)
      | ACount fd \<Rightarrow>
          (p\<lparr>ap_pc := ATry, ap_clients := ap_clients p @ [\<lparr>cl_fd = fd, cl_open = True, cl_pages = 0\<rparr>]\<rparr>,
           INC_COUNTFD (ap_id p) cpu m)
      | AExit \<Rightarrow> (p, m))"

text \<open>One turn of the coroutine of client \<open>k\<close> of a process.\<close>

definition client_turn :: "nat \<Rightarrow> nat \<Rightarrow> int \<Rightarrow> int \<Rightarrow> aproc \<Rightarrow> shm \<Rightarrow> aproc \<times> shm" where
  "client_turn cpu k ret errno p m =
     (let (c, m) = accept_turn (ap_id p) cpu ret errno (ap_clients p ! k) m
      in (p\<lparr>ap_clients := (ap_clients p)[k := c]\<rparr>, m))"

text \<open>The system: the server of a process goes on, or the coroutine of one of its open clients gets an answer.\<close>

datatype hact = Serve nat int | Recv nat nat int int

fun httpd_act :: "nat \<Rightarrow> hact \<Rightarrow> httpd \<Rightarrow> httpd option" where
  "httpd_act cpu (Serve i clientfd) s =
     (if i < length (hd_procs s)
      then let (p, m) = server_step cpu clientfd (hd_procs s ! i) (hd_shm s) in Some ((set_proc i p s)\<lparr>hd_shm := m\<rparr>)
      else None)"
| "httpd_act cpu (Recv i k ret errno) s =
     (if i < length (hd_procs s) \<and> k < length (ap_clients (hd_procs s ! i)) \<and> cl_open (ap_clients (hd_procs s ! i) ! k)
      then let (p, m) = client_turn cpu k ret errno (hd_procs s ! i) (hd_shm s) in Some ((set_proc i p s)\<lparr>hd_shm := m\<rparr>)
      else None)"

fun httpd_run :: "nat \<Rightarrow> hact list \<Rightarrow> httpd \<Rightarrow> httpd option" where
  "httpd_run cpu [] s = Some s"
| "httpd_run cpu (a # as) s = do { s \<leftarrow> httpd_act cpu a s; httpd_run cpu as s }"

inductive httpd_step :: "nat \<Rightarrow> httpd \<Rightarrow> httpd \<Rightarrow> bool" for cpu where
  "httpd_act cpu a s = Some s' \<Longrightarrow> httpd_step cpu s s'"

inductive_cases httpd_stepE: "httpd_step cpu s s'"

definition httpd_start :: "nat list \<Rightarrow> httpd" where
  "httpd_start ids = \<lparr>hd_shm = init_shmvalue, hd_procs = map (\<lambda>i. \<lparr>ap_id = i, ap_pc = ATry, ap_clients = []\<rparr>) ids\<rparr>"

section \<open>The invariant\<close>

definition holds :: "aproc \<Rightarrow> bool" where
  "holds p \<longleftrightarrow> ap_pc p = AAccept \<or> (\<exists>fd. ap_pc p = AUnlock fd)"

text \<open>The open clients of a process.\<close>

definition open_clients :: "aproc \<Rightarrow> nat" where
  "open_clients p = length (filter cl_open (ap_clients p))"

definition counted :: "nat \<Rightarrow> nat \<Rightarrow> aproc \<Rightarrow> int" where
  "counted cpu j p = (if ap_id p mod cpu = j then int (open_clients p) else 0)"

definition httpd_inv :: "nat \<Rightarrow> httpd \<Rightarrow> bool" where
  "httpd_inv cpu s \<longleftrightarrow> 0 < cpu \<and> cpu \<le> TOTALFDS \<and> length (totalfds (hd_shm s)) = TOTALFDS \<and>
     behind (hd_shm s) = 0 \<and> accept_mtx (hd_shm s) = sum_list (map (\<lambda>p. of_bool (holds p)) (hd_procs s)) \<and> accept_mtx (hd_shm s) \<le> 1 \<and>
     (\<forall>j < cpu. totalfds (hd_shm s) ! j = sum_list (map (counted cpu j) (hd_procs s)))"

lemma two_holders:
  fixes xs :: "aproc list"
  assumes "i < j" "j < length xs" "holds (xs ! i)" "holds (xs ! j)"
  shows "2 \<le> (sum_list (map (\<lambda>p. of_bool (holds p)) xs) :: int)"
proof -
  let ?f = "\<lambda>p. of_bool (holds p) :: int"
  have d: "xs = take j xs @ drop j xs" by simp
  have "1 \<le> sum_list (map ?f (take j xs))" using sum_list_ge [of "take j xs" ?f i] assms by simp
  moreover have "1 \<le> sum_list (map ?f (drop j xs))" using sum_list_ge [of "drop j xs" ?f 0] assms by simp
  ultimately show ?thesis by (subst d) (simp only: map_append sum_list_append)
qed

lemma counted_simps [simp]:
  "counted cpu j \<lparr>ap_id = x, ap_pc = pc, ap_clients = []\<rparr> = 0"
  "counted cpu j (p\<lparr>ap_pc := pc\<rparr>) = counted cpu j p"
  by (simp_all add: counted_def open_clients_def)

lemma as_int_small [simp]: "as_int 0 = 0" "as_int 1 = 1"
  by (simp_all add: as_int_def)

text \<open>The lock as long as the bytes behind it are zero.\<close>

lemma lock_shm_simps:
  "behind m = 0 \<Longrightarrow> accept_mtx m = 0 \<Longrightarrow> lock_shm m = (m\<lparr>accept_mtx := 1, behind := 0\<rparr>, 0)"
  "behind m = 0 \<Longrightarrow> accept_mtx m = 1 \<Longrightarrow> lock_shm m = (m, 1)"
  by (simp_all add: lock_shm_def cmpxchg_def mtx_quad_def)

lemma httpd_inv_start: "0 < cpu \<Longrightarrow> cpu \<le> TOTALFDS \<Longrightarrow> httpd_inv cpu (httpd_start ids)"
  by (simp add: httpd_inv_def httpd_start_def init_shmvalue_def holds_def TOTALFDS_def comp_def)

text \<open>What a process changes, and what the invariant asks of it.\<close>

lemma httpd_inv_change:
  assumes inv: "httpd_inv cpu s" and i: "i < length (hd_procs s)"
    and len: "length (totalfds m) = TOTALFDS" "behind m = 0"
    and mtx: "accept_mtx m = accept_mtx (hd_shm s) - of_bool (holds (hd_procs s ! i)) + of_bool (holds p)" "accept_mtx m \<le> 1"
    and fds: "\<And>j. j < cpu \<Longrightarrow> totalfds m ! j = totalfds (hd_shm s) ! j - counted cpu j (hd_procs s ! i) + counted cpu j p"
  shows "httpd_inv cpu ((set_proc i p s)\<lparr>hd_shm := m\<rparr>)"
  using assms by (simp add: httpd_inv_def set_proc_def sum_list_update_int)

lemma server_step_inv:
  assumes inv: "httpd_inv cpu s" and i: "i < length (hd_procs s)"
    and step: "server_step cpu clientfd (hd_procs s ! i) (hd_shm s) = (p, m)"
  shows "httpd_inv cpu ((set_proc i p s)\<lparr>hd_shm := m\<rparr>)"
proof -
  let ?p = "hd_procs s ! i" and ?m = "hd_shm s"
  have len: "length (totalfds ?m) = TOTALFDS" "accept_mtx ?m \<le> 1" "0 < cpu" "cpu \<le> TOTALFDS" "behind ?m = 0"
    using inv by (simp_all add: httpd_inv_def)
  have "0 \<le> accept_mtx ?m" using inv by (auto simp: httpd_inv_def intro!: sum_list_nonneg)
  then have bit: "accept_mtx ?m = 0 \<or> accept_mtx ?m = 1" using len(2) by arith
  have one: "accept_mtx ?m = 1" if "holds ?p"
    using sum_list_ge [of "hd_procs s" "\<lambda>p. of_bool (holds p)" i] i that inv len(2) by (simp add: httpd_inv_def)
  show ?thesis
  proof (cases "ap_pc ?p")
    case ATry
    then show ?thesis using step len bit
      by (intro httpd_inv_change [OF inv i])
        (auto simp: lock_shm_simps holds_def split: if_splits prod.splits)
  next
    case AAccept
    then show ?thesis using step len
      by (intro httpd_inv_change [OF inv i]) (auto simp: holds_def)
  next
    case (AUnlock fd)
    then have "holds ?p" by (simp add: holds_def)
    then have "accept_mtx ?m = 1" by (rule one)
    then show ?thesis using step len AUnlock
      by (intro httpd_inv_change [OF inv i]) (auto simp: holds_def unlock_shm_def split: if_splits)
  next
    case (ACount fd)
    have "ap_id ?p mod cpu < TOTALFDS" using len(3,4) mod_less_divisor [of cpu "ap_id ?p"] by linarith
    then show ?thesis using step len ACount
      by (intro httpd_inv_change [OF inv i])
        (auto simp: holds_def INC_COUNTFD_def atomic_add_def counted_def open_clients_def nth_list_update)
  next
    case AExit
    then show ?thesis using step len by (intro httpd_inv_change [OF inv i]) auto
  qed
qed

lemma open_update:
  "k < length cs \<Longrightarrow> cl_open (cs ! k) \<Longrightarrow>
   int (length (filter cl_open (cs[k := c]))) = int (length (filter cl_open cs)) - (if cl_open c then 0 else 1)"
proof (induction cs arbitrary: k)
  case (Cons a cs)
  then show ?case using Cons.IH [of "k - 1"] by (cases k) auto
qed simp

text \<open>A turn of a client: a page or nothing, and the count is kept; or it is closed and counted out.\<close>

lemma httpd_client_turn_inv:
  assumes inv: "httpd_inv cpu s" and i: "i < length (hd_procs s)"
    and k: "k < length (ap_clients (hd_procs s ! i))" "cl_open (ap_clients (hd_procs s ! i) ! k)"
    and turn: "client_turn cpu k ret errno (hd_procs s ! i) (hd_shm s) = (p, m)"
  shows "httpd_inv cpu ((set_proc i p s)\<lparr>hd_shm := m\<rparr>)"
proof -
  let ?p = "hd_procs s ! i" and ?m = "hd_shm s"
  have len: "length (totalfds ?m) = TOTALFDS" "accept_mtx ?m \<le> 1" "0 < cpu" "cpu \<le> TOTALFDS" "behind ?m = 0"
    using inv by (simp_all add: httpd_inv_def)
  obtain c where c: "accept_turn (ap_id ?p) cpu ret errno (ap_clients ?p ! k) ?m = (c, m)"
      "p = ?p\<lparr>ap_clients := (ap_clients ?p)[k := c]\<rparr>"
    using turn by (auto simp: client_turn_def split: prod.splits)
  have m: "cl_open c \<and> m = ?m \<or> \<not> cl_open c \<and> m = DEC_COUNTFD (ap_id ?p) cpu ?m"
    using c(1) k(2) by (auto simp: accept_turn_def Let_def split: if_splits)
  have open_p: "int (open_clients p) = int (open_clients ?p) - (if cl_open c then 0 else 1)"
    using open_update [OF k, of c] c(2) by (simp add: open_clients_def)
  have "ap_id ?p mod cpu < TOTALFDS" using len(3,4) mod_less_divisor [of cpu "ap_id ?p"] by linarith
  then show ?thesis using len c(2) m open_p
    by (intro httpd_inv_change [OF inv i])
      (auto simp: holds_def DEC_COUNTFD_def atomic_sub_def counted_def nth_list_update)
qed

lemma httpd_act_inv: "httpd_inv cpu s \<Longrightarrow> httpd_act cpu a s = Some s' \<Longrightarrow> httpd_inv cpu s'"
  by (cases a) (auto split: if_splits prod.splits dest: server_step_inv httpd_client_turn_inv)

lemma httpd_reach_inv:
  assumes "(httpd_step cpu)\<^sup>*\<^sup>* (httpd_start ids) s" "0 < cpu" "cpu \<le> TOTALFDS"
  shows "httpd_inv cpu s"
  using assms(1)
  by (induction rule: rtranclp_induct) (auto intro: httpd_inv_start assms(2,3) elim!: httpd_stepE dest: httpd_act_inv)

lemma httpd_run_reach: "httpd_run cpu as s = Some s' \<Longrightarrow> (httpd_step cpu)\<^sup>*\<^sup>* s s'"
proof (induction as arbitrary: s)
  case (Cons a as)
  then obtain s1 where "httpd_act cpu a s = Some s1" "httpd_run cpu as s1 = Some s'" by (auto split: Option.bind_splits)
  then show ?case using Cons.IH [of s1] by (meson converse_rtranclp_into_rtranclp httpd_step.intros)
qed simp

section \<open>Properties\<close>

text \<open>
  C35: under every interleaving of the processes and of the coroutines of their clients at most one process is between taking and
  releasing the accept lock, and the counter of each core is the number of clients that the processes of this
  core have created a coroutine for and that \<open>accept_request\<close> has not closed: every close counts the client out
  once, and an error of recv, which is answered with the page, does not.
\<close>

theorem httpd_exclusive_and_counted:
  assumes "(httpd_step cpu)\<^sup>*\<^sup>* (httpd_start ids) s" "0 < cpu" "cpu \<le> TOTALFDS"
  shows "(\<forall>i j. i < j \<and> j < length (hd_procs s) \<longrightarrow> \<not> (holds (hd_procs s ! i) \<and> holds (hd_procs s ! j))) \<and>
    (\<forall>j < cpu. totalfds (hd_shm s) ! j =
       (\<Sum>p \<leftarrow> hd_procs s. if ap_id p mod cpu = j then int (length (filter cl_open (ap_clients p))) else 0))"
proof -
  have inv: "httpd_inv cpu s" by (rule httpd_reach_inv [OF assms])
  have "\<not> (holds (hd_procs s ! i) \<and> holds (hd_procs s ! j))" if "i < j" "j < length (hd_procs s)" for i j
    using two_holders [OF that] inv by (auto simp: httpd_inv_def)
  moreover have "\<forall>j < cpu. totalfds (hd_shm s) ! j =
       (\<Sum>p \<leftarrow> hd_procs s. if ap_id p mod cpu = j then int (length (filter cl_open (ap_clients p))) else 0)"
    using inv unfolding httpd_inv_def counted_def [abs_def] open_clients_def by simp
  ultimately show ?thesis by blast
qed

text \<open>
  Process 100 accepts two clients while process 101 finds the lock taken; the first client gets a page, an error and closes;
  process 101 accepts one and is about to release the lock again.
\<close>

definition busy_day :: "hact list" where
  "busy_day = [Serve 0 0, Serve 1 0, Serve 0 7, Serve 0 0, Serve 0 0, Serve 0 0, Serve 0 8, Serve 0 0, Serve 0 0,
     Recv 0 0 20 0, Recv 0 0 (-1) 104, Recv 0 0 0 0, Serve 1 0, Serve 1 9, Serve 1 0, Serve 1 0, Serve 1 0]"

theorem httpd_exclusive_and_counted_witness:
  "\<exists>s. httpd_run 4 busy_day (httpd_start [100, 101]) = Some s \<and> totalfds (hd_shm s) ! 0 = 1 \<and> totalfds (hd_shm s) ! 1 = 1 \<and>
    holds (hd_procs s ! 1) \<and> \<not> holds (hd_procs s ! 0)"
proof -
  let ?c = "\<lambda>fd b n. \<lparr>cl_fd = fd, cl_open = b, cl_pages = n\<rparr>"
  obtain m where s: "httpd_run 4 busy_day (httpd_start [100, 101]) =
      Some \<lparr>hd_shm = m, hd_procs = [\<lparr>ap_id = 100, ap_pc = ATry, ap_clients = [?c 7 False 2, ?c 8 True 0]\<rparr>,
        \<lparr>ap_id = 101, ap_pc = AAccept, ap_clients = [?c 9 True 0]\<rparr>]\<rparr>" (is "_ = Some ?s")
    by (simp add: busy_day_def httpd_start_def lock_shm_def cmpxchg_def mtx_quad_def unlock_shm_def set_proc_def INC_COUNTFD_def
        DEC_COUNTFD_def atomic_add_def atomic_sub_def init_shmvalue_def client_turn_def accept_turn_def word_gt_0)
  have "(httpd_step 4)\<^sup>*\<^sup>* (httpd_start [100, 101]) ?s" by (rule httpd_run_reach [OF s])
  note end_of_day = httpd_exclusive_and_counted [OF this]
  have "\<not> (holds (hd_procs ?s ! 0) \<and> holds (hd_procs ?s ! 1))"
    using end_of_day [THEN conjunct1, rule_format, of 0 1] by (simp add: TOTALFDS_def)
  then show ?thesis using s end_of_day [THEN conjunct2, rule_format, of 0] end_of_day [THEN conjunct2, rule_format, of 1]
    by (simp add: TOTALFDS_def holds_def)
qed

text \<open>
  the minimum over the counters starts from \<open>0xffffffff\<close>, which is -1 as an int, so that it is
  always -1: every process finds itself overloaded, and \<open>lock_accept\<close> marks the own core and never
  wakes another one.
\<close>

theorem httpd_minimum_stuck:
  assumes "\<forall>j < cpu. 0 \<le> totalfds m ! j" "0 < cpu"
  shows "min_countfd cpu m = -1 \<and> compare_out_countfd self cpu m = 1 \<and>
    lock_accept self cpu m = m\<lparr>cpu_lb := (cpu_lb m)[self mod cpu := 1]\<rparr>"
proof -
  have start: "min_start = -1" by (simp add: min_start_def)
  have least: "foldl (\<lambda>count i. if count > g i then g i else count) (-1) xs = -1"
    if "\<forall>j \<in> set xs. 0 \<le> g j" for g :: "nat \<Rightarrow> int" and xs
    using that by (induction xs) auto
  from least [of "[0..<cpu]" "\<lambda>i. totalfds m ! i"] have mn: "foldl (\<lambda>count i. if count > totalfds m ! i then totalfds m ! i else count) (-1) [0..<cpu] = -1"
    using assms(1) by simp
  have "0 \<le> totalfds m ! (self mod cpu)" using assms by simp
  then have "0 \<le> c_div (get_countfd self cpu m * 7) 8" by (simp add: c_div_def get_countfd_def sgn_if)
  then have out: "compare_out_countfd self cpu m = 1"
    using mn start by (simp add: compare_out_countfd_def min_countfd_def Let_def)
  have keep: "foldl (\<lambda>m i. if -1 = totalfds m ! i then m\<lparr>cpu_lb := (cpu_lb m)[i := 3]\<rparr> else m) m' xs = m'"
    if "\<forall>j \<in> set xs. 0 \<le> totalfds m' ! j" for m' xs
    using that by (induction xs) auto
  let ?m = "m\<lparr>cpu_lb := (cpu_lb m)[self mod cpu := 1]\<rparr>"
  have "foldl (\<lambda>count i. if count > totalfds ?m ! i then totalfds ?m ! i else count) (-1) [0..<cpu] = -1"
    using least [of "[0..<cpu]" "\<lambda>i. totalfds ?m ! i"] assms(1) by simp
  then have "lock_accept self cpu m = ?m"
    using keep [of "[0..<cpu]" ?m] assms(1) unfolding lock_accept_def Let_def start by simp
  then show ?thesis using out mn start by (simp add: min_countfd_def)
qed

theorem httpd_minimum_stuck_witness:
  "min_countfd 2 (init_shmvalue\<lparr>totalfds := [5, 3]\<rparr>) = -1"
  using httpd_minimum_stuck [of 2 "init_shmvalue\<lparr>totalfds := [5, 3]\<rparr>" 0] by (simp add: less_Suc_eq numeral_2_eq_2)

text \<open>An error of the client is answered with the page, for as long as it lasts.\<close>

theorem accept_request_error:
  assumes "cl_open c"
  shows "accept_request self cpu (replicate n (-1, e)) c m = (c\<lparr>cl_pages := cl_pages c + n\<rparr>, m)"
  using assms
proof (induction n arbitrary: c)
  case (Suc n)
  have "(0 :: 64 word) < word_of_int (-1)" by (simp add: word_gt_0)
  then show ?case using Suc by (simp add: accept_turn_def Let_def)
qed simp

end
