(* ===== verification/HE_Epoll.thy ===== *)
theory HE_Epoll
  imports HD_Httpd C_Decimal
begin

text \<open>
  The web server nty_http_epoll.c: processes that share the listening socket, the accept lock and the
  counters of HD_Httpd, each with an epoll loop of its own.  The model is one process: its interest
  list with one-shot registrations, the events it is handed, and the system calls it makes.  What the
  other processes do to the shared memory is a function of each event.
\<close>

unbundle bit_operations_syntax

section \<open>The page\<close>

definition html_page :: string where
  \<open>html_page =
     ''<!DOCTYPE html> '' @
     ''<html> '' @
     ''<head> '' @
     ''<title>Welcome to nginx!</title> '' @
     ''<style> '' @
     ''    body { '' @
     ''        width: 35em;'' @
     ''        margin: 0 auto;'' @
     ''        font-family: Tahoma, Verdana, Arial, sans-serif;'' @
     ''    }'' @
     ''</style>'' @
     ''</head>'' @
     ''<body>'' @
     ''<h1>Welcome to nginx!</h1>'' @
     ''<p>If you see this page, the nginx web server is successfully installed and'' @
     ''working. Further configuration is required.</p>'' @
     ''<p>For online documentation and support please refer to'' @
     ''<a href="http://nginx.org/">nginx.org</a>.<br/>'' @
     ''Commercial support is available at'' @
     ''<a href="http://nginx.com/">nginx.com</a>.</p>'' @
     ''<p><em>Thank you for using nginx.</em></p>'' @
     ''</body>'' @
     ''</html>''\<close>

abbreviation CRLF :: string where "CRLF \<equiv> [CHR 0x0D, CHR 0x0A]"

definition page_response :: string where
  "page_response = ''HTTP/1.0 200 OK'' @ CRLF @ ''Server: ntyco_httpd/0.1.0'' @ CRLF @ ''Content-Type: text/html'' @ CRLF @
     ''Content-Length: '' @ dec_nat (length html_page) @ CRLF @ CRLF @ html_page"

section \<open>The interest list\<close>

definition EP_IN :: "32 word" where "EP_IN = 0x1"
definition EP_OUT :: "32 word" where "EP_OUT = 0x4"
definition EP_ERR :: "32 word" where "EP_ERR = 0x8"
definition EP_HUP :: "32 word" where "EP_HUP = 0x10"
definition EP_RDHUP :: "32 word" where "EP_RDHUP = 0x2000"
definition EP_ONESHOT :: "32 word" where "EP_ONESHOT = 0x40000000"
definition EP_ET :: "32 word" where "EP_ET = 0x80000000"

lemmas ep_bits = EP_IN_def EP_OUT_def EP_ERR_def EP_HUP_def EP_RDHUP_def EP_ONESHOT_def EP_ET_def

record interest =
  in_mask :: "32 word"
  in_armed :: bool \<comment> \<open>false after a one-shot report\<close>

datatype syscall = SAccept int | SRecv int int | SSend int string | SClose int

record hep =
  hp_interest :: "int \<rightharpoonup> interest"
  hp_open :: "int set"
  hp_calls :: "syscall list"
  hp_shm :: shm

text \<open>An event that epoll_wait reports, with the answer of the accept, recv or send that it leads to.\<close>

record happening =
  ev_fd :: int
  ev_events :: "32 word"
  ev_ret :: int
  ev_errno :: int
  ev_others :: "shm \<Rightarrow> shm" \<comment> \<open>what other processes do to the shared memory before\<close>

definition ECONNRESET :: int where "ECONNRESET = 104"
definition ECONNABORTED :: int where "ECONNABORTED = 103"

datatype ep_op = CtlAdd | CtlMod | CtlDel

fun ep_ctl :: "ep_op \<Rightarrow> int \<Rightarrow> 32 word \<Rightarrow> hep \<Rightarrow> hep" where
  "ep_ctl CtlAdd fd m s =
     (if fd \<in> hp_open s \<and> hp_interest s fd = None
      then s\<lparr>hp_interest := (hp_interest s)(fd \<mapsto> \<lparr>in_mask = m, in_armed = True\<rparr>)\<rparr> else s)"
| "ep_ctl CtlMod fd m s =
     (if hp_interest s fd \<noteq> None
      then s\<lparr>hp_interest := (hp_interest s)(fd \<mapsto> \<lparr>in_mask = m, in_armed = True\<rparr>)\<rparr> else s)"
| "ep_ctl CtlDel fd m s = s\<lparr>hp_interest := (hp_interest s)(fd := None)\<rparr>"

definition call :: "syscall \<Rightarrow> hep \<Rightarrow> hep" where
  "call c s = s\<lparr>hp_calls := hp_calls s @ [c]\<rparr>"

text \<open>The kernel drops a closed descriptor from the interest list.\<close>

definition close_ep :: "int \<Rightarrow> hep \<Rightarrow> hep" where
  "close_ep fd s = (call (SClose fd) s)\<lparr>hp_open := hp_open s - {fd}, hp_interest := (hp_interest s)(fd := None)\<rparr>"

definition count_down :: "nat \<Rightarrow> nat \<Rightarrow> hep \<Rightarrow> hep" where
  "count_down self cpu s = s\<lparr>hp_shm := DEC_COUNTFD self cpu (hp_shm s)\<rparr>"

section \<open>The server\<close>

definition accept_request_ep :: "nat \<Rightarrow> nat \<Rightarrow> int \<Rightarrow> happening \<Rightarrow> hep \<Rightarrow> hep" where
  "accept_request_ep self cpu client e s =
     (let numchars = (word_of_int (ev_ret e) :: 64 word);
          s = call (SRecv client (ev_ret e)) s;
          gone = count_down self cpu (ep_ctl CtlDel client (EP_IN OR EP_ET) (close_ep client s))
      in if numchars = -1 then if ev_errno e = ECONNRESET then gone else s
         else if numchars = 0 then gone else s)"

text \<open>\<open>headers\<close> sends the response once, whatever the kernel takes of it.\<close>

definition serve_file_ep :: "int \<Rightarrow> happening \<Rightarrow> hep \<Rightarrow> hep" where
  "serve_file_ep client e s = call (SSend client (take (nat (ev_ret e)) page_response)) s"

text \<open>One event of the loop; False is the return from \<open>server\<close>, which ends the process.\<close>

definition event_turn :: "nat \<Rightarrow> nat \<Rightarrow> int \<Rightarrow> happening \<Rightarrow> hep \<Rightarrow> bool \<times> hep" where
  "event_turn self cpu fd e s =
     (let sockfd = ev_fd e;
          s = s\<lparr>hp_shm := ev_others e (hp_shm s)\<rparr>
      in if sockfd = fd then
           let (m, r) = lock_shm (hp_shm s); s = s\<lparr>hp_shm := m\<rparr>
           in if r \<noteq> 0 then (True, s)
              else let clientfd = ev_ret e;
                       s = call (SAccept clientfd) s;
                       s = (if 0 \<le> clientfd then s\<lparr>hp_open := insert clientfd (hp_open s)\<rparr> else s);
                       s = s\<lparr>hp_shm := unlock_shm (hp_shm s)\<rparr>
                   in if clientfd < 0 then (ev_errno e = EAGAIN, s)
                      else let s = s\<lparr>hp_shm := INC_COUNTFD self cpu (hp_shm s)\<rparr>
                           in (True, ep_ctl CtlAdd clientfd (EP_IN OR EP_ET OR EP_ONESHOT) s)
         else if ev_events e AND EP_IN \<noteq> 0 then
           let s = accept_request_ep self cpu sockfd e s
           in (True, ep_ctl CtlMod sockfd (EP_OUT OR EP_ET OR EP_ONESHOT) s)
         else if ev_events e AND EP_OUT \<noteq> 0 then
           let s = serve_file_ep sockfd e s;
               s = ep_ctl CtlMod sockfd (EP_IN OR EP_HUP OR EP_RDHUP OR EP_ERR) s
           in (True, count_down self cpu s)
         else if ev_events e AND (EP_HUP OR EP_RDHUP OR EP_ERR) \<noteq> 0 then
           let s = close_ep sockfd s;
               s = ep_ctl CtlDel sockfd (EP_IN OR EP_ET OR EP_ONESHOT) s
           in (True, count_down self cpu s)
         else (True, s))"

text \<open>epoll_wait disarms the one-shot registrations that it reports.\<close>

definition disarm :: "int list \<Rightarrow> hep \<Rightarrow> hep" where
  "disarm fds s = s\<lparr>hp_interest := \<lambda>fd. case hp_interest s fd of None \<Rightarrow> None
     | Some r \<Rightarrow> Some (if fd \<in> set fds \<and> in_mask r AND EP_ONESHOT \<noteq> 0 then r\<lparr>in_armed := False\<rparr> else r)\<rparr>"

text \<open>
  What the kernel may report: armed registrations, each once, with events asked for, and errors and
  hang-ups in any case.
\<close>

definition allowed :: "32 word \<Rightarrow> 32 word" where
  "allowed m = (m AND (EP_IN OR EP_OUT OR EP_RDHUP)) OR EP_ERR OR EP_HUP"

definition reported :: "hep \<Rightarrow> happening list \<Rightarrow> bool" where
  "reported s es \<longleftrightarrow> distinct (map ev_fd es) \<and>
     (\<forall>e \<in> set es. \<exists>r. hp_interest s (ev_fd e) = Some r \<and> in_armed r \<and> ev_events e AND NOT (allowed (in_mask r)) = 0)"

text \<open>
  The loop of one process as steps on its state and the events still to be handled; \<open>None\<close> is a
  process that has returned.  Accept answers a descriptor that is not open.
\<close>

inductive server_loop ::
  "nat \<Rightarrow> nat \<Rightarrow> int \<Rightarrow> hep \<times> happening list option \<Rightarrow> hep \<times> happening list option \<Rightarrow> bool" for self cpu fd where
  wait: "reported s es \<Longrightarrow> server_loop self cpu fd (s, Some []) (disarm (map ev_fd es) s, Some es)"
| turn: "ev_ret e \<notin> hp_open s \<or> ev_fd e \<noteq> fd \<Longrightarrow>
    (\<forall>m. length (totalfds (ev_others e m)) = length (totalfds m) \<and>
       totalfds (ev_others e m) ! (self mod cpu) = totalfds m ! (self mod cpu)) \<Longrightarrow>
    event_turn self cpu fd e s = (go, s') \<Longrightarrow>
    server_loop self cpu fd (s, Some (e # es)) (s', if go then Some es else None)"

definition server_start :: "int \<Rightarrow> shm \<Rightarrow> hep" where
  "server_start fd m = \<lparr>hp_interest = [fd \<mapsto> \<lparr>in_mask = EP_IN, in_armed = True\<rparr>], hp_open = {fd}, hp_calls = [], hp_shm = m\<rparr>"

section \<open>The protocol of a client\<close>

datatype phase = Gone | Reading | Writing

fun client_next :: "int \<Rightarrow> phase \<Rightarrow> syscall \<Rightarrow> phase option" where
  "client_next c p (SAccept d) = (if d \<noteq> c then Some p else if p = Gone then Some Reading else None)"
| "client_next c p (SRecv d r) = (if d \<noteq> c then Some p else if p = Reading then Some Writing else None)"
| "client_next c p (SSend d bs) = (if d \<noteq> c then Some p else if p = Writing then Some Reading else None)"
| "client_next c p (SClose d) = (if d \<noteq> c then Some p else if p \<noteq> Gone then Some Gone else None)"

definition protocol :: "int \<Rightarrow> syscall list \<Rightarrow> phase option" where
  "protocol c calls = foldl (\<lambda>p x. Option.bind p (\<lambda>p. client_next c p x)) (Some Gone) calls"

lemma protocol_Nil [simp]: "protocol c [] = Some Gone"
  by (simp add: protocol_def)

lemma protocol_append [simp]:
  "protocol c (calls @ xs) = foldl (\<lambda>p x. Option.bind p (\<lambda>p. client_next c p x)) (protocol c calls) xs"
  by (simp add: protocol_def)

definition pages_sent :: "syscall list \<Rightarrow> nat" where
  "pages_sent calls = length (filter (\<lambda>x. case x of SSend _ _ \<Rightarrow> True | _ \<Rightarrow> False) calls)"

lemma pages_simps [simp]:
  "pages_sent [] = 0" "pages_sent (SAccept c # calls) = pages_sent calls" "pages_sent (SRecv c r # calls) = pages_sent calls"
  "pages_sent (SSend c bs # calls) = Suc (pages_sent calls)" "pages_sent (SClose c # calls) = pages_sent calls"
  "pages_sent (calls @ calls') = pages_sent calls + pages_sent calls'"
  by (simp_all add: pages_sent_def)

section \<open>The invariant\<close>

definition read_mask :: "32 word" where "read_mask = EP_IN OR EP_ET OR EP_ONESHOT"
definition write_mask :: "32 word" where "write_mask = EP_OUT OR EP_ET OR EP_ONESHOT"
definition keep_mask :: "32 word" where "keep_mask = EP_IN OR EP_HUP OR EP_RDHUP OR EP_ERR"

fun mask_ok :: "phase \<Rightarrow> 32 word \<Rightarrow> bool" where
  "mask_ok Gone m \<longleftrightarrow> False"
| "mask_ok Reading m \<longleftrightarrow> m = read_mask \<or> m = keep_mask"
| "mask_ok Writing m \<longleftrightarrow> m = write_mask"

definition client_ok :: "hep \<Rightarrow> int \<Rightarrow> bool" where
  "client_ok s c \<longleftrightarrow> (\<exists>p. protocol c (hp_calls s) = Some p \<and>
     (case hp_interest s c of None \<Rightarrow> p = Gone \<and> c \<notin> hp_open s | Some r \<Rightarrow> c \<in> hp_open s \<and> mask_ok p (in_mask r)))"

definition pending_ok :: "hep \<Rightarrow> happening list \<Rightarrow> bool" where
  "pending_ok s es \<longleftrightarrow> distinct (map ev_fd es) \<and>
     (\<forall>e \<in> set es. \<exists>r. hp_interest s (ev_fd e) = Some r \<and> ev_events e AND NOT (allowed (in_mask r)) = 0)"

definition counter_ok :: "nat \<Rightarrow> int \<Rightarrow> int \<Rightarrow> hep \<Rightarrow> bool" where
  "counter_ok j base fd s \<longleftrightarrow> length (totalfds (hp_shm s)) = TOTALFDS \<and> finite (hp_open s) \<and>
     totalfds (hp_shm s) ! j = base + int (card (hp_open s - {fd})) - int (pages_sent (hp_calls s))"

definition ep_inv :: "nat \<Rightarrow> int \<Rightarrow> int \<Rightarrow> hep \<Rightarrow> happening list \<Rightarrow> bool" where
  "ep_inv j base fd s es \<longleftrightarrow> 0 \<le> fd \<and> fd \<in> hp_open s \<and> hp_interest s fd = Some \<lparr>in_mask = EP_IN, in_armed = True\<rparr> \<and>
     (\<forall>c \<ge> 0. c \<noteq> fd \<longrightarrow> client_ok s c) \<and> (\<forall>c < 0. c \<notin> hp_open s \<and> hp_interest s c = None) \<and>
     pending_ok s es \<and> counter_ok j base fd s"

text \<open>An event that was not asked for and is no error is not reported.\<close>

lemma not_reported:
  fixes ev m b :: "32 word"
  assumes "ev AND NOT m = 0" "m AND b = 0"
  shows "ev AND b = 0"
proof (rule bit_word_eqI)
  fix n
  assume "n < LENGTH(32)"
  have "\<not> bit (ev AND NOT m) n" "\<not> bit (m AND b) n" using assms by simp_all
  then show "bit (ev AND b) n = bit 0 n" using \<open>n < LENGTH(32)\<close> by (auto simp: bit_simps)
qed

lemma masks_deaf:
  "allowed write_mask AND EP_IN = 0" "allowed read_mask AND EP_OUT = 0" "allowed keep_mask AND EP_OUT = 0"
  "EP_IN AND EP_ONESHOT = 0"
  by (simp_all add: allowed_def write_mask_def read_mask_def keep_mask_def ep_bits)

lemma in_event:
  assumes "mask_ok p m" "ev AND NOT (allowed m) = 0" "ev AND EP_IN \<noteq> 0"
  shows "p = Reading"
  using assms not_reported [OF assms(2), of EP_IN] masks_deaf by (cases p) auto

lemma out_event:
  assumes "mask_ok p m" "ev AND NOT (allowed m) = 0" "ev AND EP_OUT \<noteq> 0"
  shows "p = Writing"
  using assms not_reported [OF assms(2), of EP_OUT] masks_deaf by (cases p) auto

lemma client_ok_cong:
  "hp_interest s' c = hp_interest s c \<Longrightarrow> (c \<in> hp_open s' \<longleftrightarrow> c \<in> hp_open s) \<Longrightarrow>
    protocol c (hp_calls s') = protocol c (hp_calls s) \<Longrightarrow> client_ok s' c \<longleftrightarrow> client_ok s c"
  by (auto simp: client_ok_def split: option.splits)

text \<open>What handling an event of a client may change.\<close>

lemma inv_client:
  assumes inv: "ep_inv j base fd s (e # es)" and c: "ev_fd e = c" "c \<noteq> fd"
    and same: "\<And>d. d \<noteq> c \<Longrightarrow> hp_interest s' d = hp_interest s d \<and> (d \<in> hp_open s' \<longleftrightarrow> d \<in> hp_open s) \<and>
      protocol d (hp_calls s') = protocol d (hp_calls s)"
    and own: "client_ok s' c" and cnt: "counter_ok j base fd s'"
  shows "ep_inv j base fd s' es"
proof -
  have "hp_interest s c \<noteq> None" using inv c(1) by (auto simp: ep_inv_def pending_ok_def)
  then have "0 \<le> c" using inv not_le [of 0 c] by (auto simp: ep_inv_def)
  have pend: "pending_ok s' es" using inv same c(1) by (auto simp: ep_inv_def pending_ok_def image_iff)
  have all: "client_ok s' d" if "0 \<le> d" "d \<noteq> fd" for d
    using inv same [of d] that own client_ok_cong [of s' d s] by (cases "d = c") (auto simp: ep_inv_def)
  have "fd \<noteq> c" using c(2) by simp
  with same [of fd] have "fd \<in> hp_open s'" "hp_interest s' fd = Some \<lparr>in_mask = EP_IN, in_armed = True\<rparr>"
    using inv by (simp_all add: ep_inv_def)
  moreover have "d \<notin> hp_open s' \<and> hp_interest s' d = None" if "d < 0" for d
    using same [of d] that \<open>0 \<le> c\<close> inv by (simp add: ep_inv_def)
  ultimately show ?thesis using inv all pend cnt by (simp add: ep_inv_def)
qed

lemma call_simps [simp]:
  "hp_interest (call x s) = hp_interest s" "hp_open (call x s) = hp_open s" "hp_shm (call x s) = hp_shm s"
  "hp_calls (call x s) = hp_calls s @ [x]"
  by (simp_all add: call_def)

lemma close_simps [simp]:
  "hp_interest (close_ep c s) = (hp_interest s)(c := None)" "hp_open (close_ep c s) = hp_open s - {c}"
  "hp_shm (close_ep c s) = hp_shm s" "hp_calls (close_ep c s) = hp_calls s @ [SClose c]"
  by (simp_all add: close_ep_def)

lemma count_simps [simp]:
  "hp_interest (count_down self cpu s) = hp_interest s" "hp_open (count_down self cpu s) = hp_open s"
  "hp_calls (count_down self cpu s) = hp_calls s" "hp_shm (count_down self cpu s) = DEC_COUNTFD self cpu (hp_shm s)"
  by (simp_all add: count_down_def)

lemma ctl_simps [simp]:
  "hp_open (ep_ctl f c m s) = hp_open s" "hp_calls (ep_ctl f c m s) = hp_calls s" "hp_shm (ep_ctl f c m s) = hp_shm s"
  "d \<noteq> c \<Longrightarrow> hp_interest (ep_ctl f c m s) d = hp_interest s d"
  by (cases f; simp)+

lemma counter_down:
  assumes "counter_ok j base fd s" "j = self mod cpu" "j < TOTALFDS"
    and "totalfds (hp_shm s') = totalfds (DEC_COUNTFD self cpu (hp_shm s))" "finite (hp_open s')"
    "int (card (hp_open s' - {fd})) - int (pages_sent (hp_calls s')) = int (card (hp_open s - {fd})) - int (pages_sent (hp_calls s)) - 1"
  shows "counter_ok j base fd s'"
  using assms by (simp add: counter_ok_def DEC_COUNTFD_def atomic_sub_def)

lemma card_closed:
  assumes "finite A" "c \<in> A" "c \<noteq> fd"
  shows "int (card (A - {c} - {fd})) = int (card (A - {fd})) - 1"
proof -
  have "A - {c} - {fd} = (A - {fd}) - {c}" by auto
  moreover have "0 < card (A - {fd})" using assms by (auto simp: card_gt_0_iff)
  ultimately show ?thesis using assms by simp
qed

lemma numchars_answers:
  "accept_request_ep self cpu c e s =
     (let s1 = call (SRecv c (ev_ret e)) s
      in if word_of_int (ev_ret e) = (-1 :: 64 word) \<and> ev_errno e = ECONNRESET \<or> word_of_int (ev_ret e) = (0 :: 64 word)
         then count_down self cpu (ep_ctl CtlDel c (EP_IN OR EP_ET) (close_ep c s1)) else s1)"
  by (simp add: accept_request_ep_def Let_def)

lemma client_turn_inv:
  assumes inv: "ep_inv j base fd s (e # es)" and j: "j = self mod cpu" "j < TOTALFDS" and c: "ev_fd e = c" "c \<noteq> fd"
    and others: "\<And>m. length (totalfds (ev_others e m)) = length (totalfds m) \<and> totalfds (ev_others e m) ! j = totalfds m ! j"
    and turn: "event_turn self cpu fd e s = (go, s')"
  shows "ep_inv j base fd s' es \<and> go"
proof -
  define s0 where "s0 = s\<lparr>hp_shm := ev_others e (hp_shm s)\<rparr>"
  have inv0: "ep_inv j base fd s0 (e # es)"
    using inv others client_ok_cong [of s0 _ s] by (auto simp: s0_def ep_inv_def pending_ok_def counter_ok_def)
  obtain r where r: "hp_interest s0 c = Some r" "ev_events e AND NOT (allowed (in_mask r)) = 0"
    using inv0 c(1) by (auto simp: ep_inv_def pending_ok_def)
  then have "0 \<le> c" using inv0 not_le [of 0 c] by (auto simp: ep_inv_def)
  with inv0 c(2) r obtain p where p: "protocol c (hp_calls s0) = Some p" "mask_ok p (in_mask r)" "c \<in> hp_open s0"
    by (fastforce simp: ep_inv_def client_ok_def)
  have cnt: "counter_ok j base fd s0" "finite (hp_open s0)" using inv0 by (simp_all add: ep_inv_def counter_ok_def)
  note card = card_closed [OF cnt(2) p(3) c(2)]
  note down = counter_down [OF cnt(1) j]
  consider (In) "ev_events e AND EP_IN \<noteq> 0" | (Out) "ev_events e AND EP_IN = 0" "ev_events e AND EP_OUT \<noteq> 0"
    | (Hup) "ev_events e AND EP_IN = 0" "ev_events e AND EP_OUT = 0" "ev_events e AND (EP_HUP OR EP_RDHUP OR EP_ERR) \<noteq> 0"
    | (No) "ev_events e AND EP_IN = 0" "ev_events e AND EP_OUT = 0" "ev_events e AND (EP_HUP OR EP_RDHUP OR EP_ERR) = 0"
    by blast
  then show ?thesis
  proof cases
    case In
    have pr: "p = Reading" by (rule in_event [OF p(2) r(2) In])
    let ?s1 = "call (SRecv c (ev_ret e)) s0"
    let ?gone = "count_down self cpu (ep_ctl CtlDel c (EP_IN OR EP_ET) (close_ep c ?s1))"
    have go: go and s': "s' = ep_ctl CtlMod c write_mask ?s1 \<or> s' = ep_ctl CtlMod c write_mask ?gone"
      using turn In c by (auto simp: event_turn_def Let_def s0_def numchars_answers write_mask_def split: if_splits)
    from s' have "ep_inv j base fd s' es"
    proof
      assume s': "s' = ep_ctl CtlMod c write_mask ?s1"
      show ?thesis
        by (rule inv_client [OF inv0 c]) (use s' p pr r(1) cnt in \<open>auto simp: client_ok_def counter_ok_def\<close>)
    next
      assume s': "s' = ep_ctl CtlMod c write_mask ?gone"
      show ?thesis
        by (rule inv_client [OF inv0 c]) (use s' p pr cnt card in \<open>auto simp: client_ok_def intro!: down\<close>)
    qed
    then show ?thesis using go by simp
  next
    case Out
    have pr: "p = Writing" by (rule out_event [OF p(2) r(2) Out(2)])
    have s': go "s' = count_down self cpu (ep_ctl CtlMod c keep_mask (serve_file_ep c e s0))"
      using turn Out c by (auto simp: event_turn_def Let_def s0_def keep_mask_def)
    have "ep_inv j base fd s' es"
      by (rule inv_client [OF inv0 c])
        (use s'(2) p pr r(1) cnt in \<open>auto simp: client_ok_def serve_file_ep_def intro!: down\<close>)
    then show ?thesis using s'(1) by simp
  next
    case Hup
    have s': go "s' = count_down self cpu (ep_ctl CtlDel c read_mask (close_ep c s0))"
      using turn Hup c by (auto simp: event_turn_def Let_def s0_def read_mask_def)
    have "p \<noteq> Gone" using p(2) by auto
    then have "ep_inv j base fd s' es"
      by (intro inv_client [OF inv0 c])
        (use s'(2) p cnt card in \<open>auto simp: client_ok_def intro!: down\<close>)
    then show ?thesis using s'(1) by simp
  next
    case No
    have s': go "s' = s0" using turn No c by (auto simp: event_turn_def Let_def s0_def)
    have "ep_inv j base fd s' es"
      by (rule inv_client [OF inv0 c]) (use s'(2) p r(1) cnt in \<open>auto simp: client_ok_def\<close>)
    then show ?thesis using s'(1) by simp
  qed
qed

lemma accept_turn_inv:
  assumes inv: "ep_inv j base fd s (e # es)" and j: "j = self mod cpu" "j < TOTALFDS" and c: "ev_fd e = fd" "ev_ret e \<notin> hp_open s"
    and others: "\<And>m. length (totalfds (ev_others e m)) = length (totalfds m) \<and> totalfds (ev_others e m) ! j = totalfds m ! j"
    and turn: "event_turn self cpu fd e s = (go, s')"
  shows "ep_inv j base fd s' es"
proof -
  have pend: "pending_ok s es" using inv by (simp add: ep_inv_def pending_ok_def)
  have free: "hp_interest s (ev_ret e) = None"
  proof (rule ccontr)
    assume "hp_interest s (ev_ret e) \<noteq> None"
    then have "0 \<le> ev_ret e" "ev_ret e \<noteq> fd" using inv not_le [of 0 "ev_ret e"] c(2) by (auto simp: ep_inv_def)
    then show False using inv c(2) \<open>hp_interest s (ev_ret e) \<noteq> None\<close> by (auto simp: ep_inv_def client_ok_def)
  qed
  obtain m r where m: "lock_shm (ev_others e (hp_shm s)) = (m, r)" by fastforce
  have tot: "totalfds m = totalfds (ev_others e (hp_shm s))"
    using m by (auto simp: lock_shm_def cmpxchg_def split: if_splits)
  define s1 where "s1 = call (SAccept (ev_ret e)) (s\<lparr>hp_shm := unlock_shm m\<rparr>)"
  define s2 where "s2 = ep_ctl CtlAdd (ev_ret e) read_mask
    (s1\<lparr>hp_open := insert (ev_ret e) (hp_open s), hp_shm := INC_COUNTFD self cpu (unlock_shm m)\<rparr>)"
  have cases: "s' = s\<lparr>hp_shm := m\<rparr> \<or> s' = s1 \<and> ev_ret e < 0 \<or> s' = s2 \<and> 0 \<le> ev_ret e"
    using turn c(1) m by (auto simp: event_turn_def Let_def s1_def s2_def read_mask_def call_def split: if_splits)
  have cnt: "counter_ok j base fd (s\<lparr>hp_shm := m\<rparr>)" "counter_ok j base fd s1"
    using inv others tot by (simp_all add: ep_inv_def counter_ok_def s1_def unlock_shm_def)
  have stay: "ep_inv j base fd t es" if "hp_interest t = hp_interest s" "hp_open t = hp_open s"
    "\<And>d. 0 \<le> d \<Longrightarrow> protocol d (hp_calls t) = protocol d (hp_calls s)" "counter_ok j base fd t" for t
    using inv pend that client_ok_cong [of t _ s] by (auto simp: ep_inv_def pending_ok_def)
  from cases show ?thesis
  proof (elim disjE conjE)
    assume "s' = s\<lparr>hp_shm := m\<rparr>"
    then show ?thesis using cnt(1) by (intro stay) auto
  next
    assume "s' = s1" "ev_ret e < 0"
    then show ?thesis using cnt(2) by (intro stay) (auto simp: s1_def)
  next
    assume s': "s' = s2" "0 \<le> ev_ret e"
    have ne: "ev_ret e \<noteq> fd" using inv c(2) by (auto simp: ep_inv_def)
    have f: "hp_interest s2 = (hp_interest s)(ev_ret e \<mapsto> \<lparr>in_mask = read_mask, in_armed = True\<rparr>)"
      "hp_open s2 = insert (ev_ret e) (hp_open s)" "hp_calls s2 = hp_calls s @ [SAccept (ev_ret e)]"
      "totalfds (hp_shm s2) = totalfds (atomic_add j 1 (hp_shm s1))"
      using free j by (simp_all add: s2_def s1_def INC_COUNTFD_def atomic_add_def unlock_shm_def)
    from ne have "client_ok s (ev_ret e)" using inv s'(2) by (simp add: ep_inv_def)
    then have "protocol (ev_ret e) (hp_calls s) = Some Gone" using free by (auto simp: client_ok_def)
    then have new: "client_ok s2 (ev_ret e)" using free by (auto simp: client_ok_def f)
    have old: "client_ok s2 d \<longleftrightarrow> client_ok s d" if "d \<noteq> ev_ret e" for d
      using that by (intro client_ok_cong) (auto simp: f)
    have "hp_open s2 - {fd} = insert (ev_ret e) (hp_open s - {fd})" using ne by (auto simp: s2_def)
    then have "counter_ok j base fd s2"
      using cnt(2) c(2) j by (simp add: counter_ok_def f atomic_add_def s1_def)
    moreover have "pending_ok s2 es"
      using pend free by (auto simp: pending_ok_def f)
    moreover have "client_ok s2 d" if "0 \<le> d" "d \<noteq> fd" for d
      using that inv new old [of d] by (cases "d = ev_ret e") (auto simp: ep_inv_def)
    moreover have "fd \<in> hp_open s2" "hp_interest s2 fd = Some \<lparr>in_mask = EP_IN, in_armed = True\<rparr>" "0 \<le> fd"
      using inv ne by (simp_all add: ep_inv_def f)
    moreover have "d \<notin> hp_open s2 \<and> hp_interest s2 d = None" if "d < 0" for d
      using inv that s'(2) by (simp add: ep_inv_def f)
    ultimately show ?thesis using s'(1) by (simp add: ep_inv_def)
  qed
qed

lemma wait_inv:
  assumes inv: "ep_inv j base fd s []" and es: "reported s es"
  shows "ep_inv j base fd (disarm (map ev_fd es) s) es"
proof -
  let ?s = "disarm (map ev_fd es) s"
  have f: "hp_open ?s = hp_open s" "hp_calls ?s = hp_calls s" "hp_shm ?s = hp_shm s" by (simp_all add: disarm_def)
  have i: "map_option in_mask (hp_interest ?s d) = map_option in_mask (hp_interest s d)" for d
    by (simp add: disarm_def split: option.splits)
  have "client_ok ?s d \<longleftrightarrow> client_ok s d" for d
    using i [of d] by (auto simp: client_ok_def f split: option.splits)
  moreover have "pending_ok ?s es" unfolding pending_ok_def
  proof (intro conjI ballI)
    fix e assume "e \<in> set es"
    then obtain r where "hp_interest s (ev_fd e) = Some r" "ev_events e AND NOT (allowed (in_mask r)) = 0"
      using es by (auto simp: reported_def)
    then show "\<exists>r. hp_interest ?s (ev_fd e) = Some r \<and> ev_events e AND NOT (allowed (in_mask r)) = 0"
      using i [of "ev_fd e"] by auto
  qed (use es in \<open>simp add: reported_def\<close>)
  moreover have "hp_interest ?s fd = Some \<lparr>in_mask = EP_IN, in_armed = True\<rparr>"
    using inv masks_deaf by (simp add: ep_inv_def disarm_def)
  moreover have "hp_interest ?s d = None" if "d < 0" for d using inv that by (simp add: ep_inv_def disarm_def)
  ultimately show ?thesis using inv by (simp add: ep_inv_def counter_ok_def f)
qed

lemma loop_inv:
  assumes "(server_loop self cpu fd)\<^sup>*\<^sup>* (server_start fd m, Some []) (s, p)"
    and "0 \<le> fd" "self mod cpu < TOTALFDS" "length (totalfds m) = TOTALFDS"
  shows "ep_inv (self mod cpu) (totalfds m ! (self mod cpu)) fd s (case p of None \<Rightarrow> [] | Some es \<Rightarrow> es)"
  using assms(1)
proof (induction "(s, p)" arbitrary: s p rule: rtranclp_induct)
  case base
  then show ?case using assms(2-4)
    by (auto simp: server_start_def ep_inv_def client_ok_def pending_ok_def counter_ok_def)
next
  case (step y)
  from step(2) show ?case
  proof (cases rule: server_loop.cases)
    case (wait s0 es)
    then show ?thesis using step(3) [of s0 "Some []"] wait_inv by simp
  next
    case (turn e s0 go es)
    have inv: "ep_inv (self mod cpu) (totalfds m ! (self mod cpu)) fd s0 (e # es)"
      using step(3) [of s0 "Some (e # es)"] turn(1) by simp
    have "ep_inv (self mod cpu) (totalfds m ! (self mod cpu)) fd s es"
    proof (cases "ev_fd e = fd")
      case True
      then show ?thesis using accept_turn_inv [OF inv refl assms(3) True] turn by blast
    next
      case False
      then show ?thesis using client_turn_inv [OF inv refl assms(3) refl False] turn by blast
    qed
    then show ?thesis using turn(2) by (cases es) (auto simp: ep_inv_def pending_ok_def)
  qed
qed

text \<open>Batches of events under the contract of the kernel, as a function.\<close>

fun handle_batch :: "nat \<Rightarrow> nat \<Rightarrow> int \<Rightarrow> happening list \<Rightarrow> hep \<Rightarrow> hep option" where
  "handle_batch self cpu fd [] s = Some s"
| "handle_batch self cpu fd (e # es) s =
     (if ev_fd e = fd \<and> ev_ret e \<in> hp_open s then None
      else case event_turn self cpu fd e s of (go, s) \<Rightarrow> if go then handle_batch self cpu fd es s else None)"

fun handle_batches :: "nat \<Rightarrow> nat \<Rightarrow> int \<Rightarrow> happening list list \<Rightarrow> hep \<Rightarrow> hep option" where
  "handle_batches self cpu fd [] s = Some s"
| "handle_batches self cpu fd (es # ess) s =
     (if reported s es
      then Option.bind (handle_batch self cpu fd es (disarm (map ev_fd es) s)) (handle_batches self cpu fd ess)
      else None)"

lemma batch_reach:
  "handle_batch self cpu fd es s = Some s' \<Longrightarrow> \<forall>e \<in> set es. ev_others e = id \<Longrightarrow>
    (server_loop self cpu fd)\<^sup>*\<^sup>* (s, Some es) (s', Some [])"
proof (induction es arbitrary: s)
  case (Cons e es)
  then obtain s1 where s1: "event_turn self cpu fd e s = (True, s1)" "handle_batch self cpu fd es s1 = Some s'"
    "ev_fd e = fd \<longrightarrow> ev_ret e \<notin> hp_open s" by (auto split: if_splits prod.splits)
  then have "server_loop self cpu fd (s, Some (e # es)) (s1, Some es)"
    using server_loop.turn [of e s fd self cpu True s1 es] Cons.prems(2) by auto
  then show ?case using Cons.IH [OF s1(2)] Cons.prems(2) by (simp add: converse_rtranclp_into_rtranclp)
qed simp

lemma batches_reach:
  "handle_batches self cpu fd ess s = Some s' \<Longrightarrow> \<forall>es \<in> set ess. \<forall>e \<in> set es. ev_others e = id \<Longrightarrow>
    (server_loop self cpu fd)\<^sup>*\<^sup>* (s, Some []) (s', Some [])"
proof (induction ess arbitrary: s)
  case (Cons es ess)
  then obtain s1 where s1: "reported s es" "handle_batch self cpu fd es (disarm (map ev_fd es) s) = Some s1"
    "handle_batches self cpu fd ess s1 = Some s'" by (auto split: if_splits Option.bind_splits)
  have "(server_loop self cpu fd)\<^sup>*\<^sup>* (disarm (map ev_fd es) s, Some es) (s1, Some [])"
    by (rule batch_reach [OF s1(2)]) (use Cons.prems(2) in auto)
  moreover have "(server_loop self cpu fd)\<^sup>*\<^sup>* (s1, Some []) (s', Some [])"
    using Cons.IH [OF s1(3)] Cons.prems(2) by simp
  ultimately show ?case
    using server_loop.wait [OF s1(1), of self cpu fd] by (meson converse_rtranclp_into_rtranclp rtranclp_trans)
qed simp

section \<open>Properties\<close>

text \<open>
  C13: whatever the kernel reports and the other processes do to the shared memory, the system calls that a
  process makes on a client follow its protocol: after accept they alternate between recv and send, with one
  page for each recv, and after close there is none.  The clients that are open are those the
  process has accepted and not closed, and each of them is registered, so none is forgotten.
\<close>

theorem epoll_http_protocol:
  assumes "(server_loop self cpu fd)\<^sup>*\<^sup>* (server_start fd m, Some []) (s, p)"
    and "0 \<le> fd" "self mod cpu < TOTALFDS" "length (totalfds m) = TOTALFDS"
  shows "\<forall>c \<ge> 0. c \<noteq> fd \<longrightarrow> (\<exists>ph. protocol c (hp_calls s) = Some ph \<and> (c \<in> hp_open s \<longleftrightarrow> ph \<noteq> Gone) \<and>
    (hp_interest s c \<noteq> None \<longleftrightarrow> c \<in> hp_open s))"
proof (intro allI impI)
  fix c :: int
  assume "0 \<le> c" "c \<noteq> fd"
  then have "client_ok s c" using loop_inv [OF assms] by (simp add: ep_inv_def)
  then obtain ph where "protocol c (hp_calls s) = Some ph" "case hp_interest s c of None \<Rightarrow> ph = Gone \<and> c \<notin> hp_open s
      | Some r \<Rightarrow> c \<in> hp_open s \<and> mask_ok ph (in_mask r)" by (auto simp: client_ok_def)
  then show "\<exists>ph. protocol c (hp_calls s) = Some ph \<and> (c \<in> hp_open s \<longleftrightarrow> ph \<noteq> Gone) \<and>
      (hp_interest s c \<noteq> None \<longleftrightarrow> c \<in> hp_open s)"
    by (cases ph) (auto split: option.splits)
qed

text \<open>A client is accepted, asks twice, and leaves, on the process 0 of one core.\<close>

definition visit_twice :: "happening list list" where
  "visit_twice = (let h = \<lambda>c v r. [\<lparr>ev_fd = c, ev_events = v, ev_ret = r, ev_errno = 0, ev_others = id\<rparr>]
     in [h 3 EP_IN 5, h 5 EP_IN 80, h 5 EP_OUT 700, h 5 EP_IN 80, h 5 EP_OUT 700, h 5 (EP_IN OR EP_RDHUP) 0])"

definition after_visit :: hep where
  "after_visit = \<lparr>hp_interest = [3 \<mapsto> \<lparr>in_mask = EP_IN, in_armed = True\<rparr>], hp_open = {3},
     hp_calls = [SAccept 5, SRecv 5 80, SSend 5 (take 700 page_response), SRecv 5 80,
       SSend 5 (take 700 page_response), SRecv 5 0, SClose 5],
     hp_shm = init_shmvalue\<lparr>totalfds := (totalfds init_shmvalue)[0 := -2]\<rparr>\<rparr>"

lemma visit_reach: "(server_loop 0 1 3)\<^sup>*\<^sup>* (server_start 3 init_shmvalue, Some []) (after_visit, Some [])"
proof (rule batches_reach)
  show "\<forall>es \<in> set visit_twice. \<forall>e \<in> set es. ev_others e = id" by (simp add: visit_twice_def)
  show "handle_batches 0 1 3 visit_twice (server_start 3 init_shmvalue) = Some after_visit"
    apply (simp add: visit_twice_def after_visit_def server_start_def reported_def event_turn_def accept_request_ep_def serve_file_ep_def
        call_def close_ep_def count_down_def disarm_def allowed_def ep_bits lock_shm_def unlock_shm_def cmpxchg_def mtx_quad_def
        INC_COUNTFD_def DEC_COUNTFD_def atomic_add_def atomic_sub_def init_shmvalue_def TOTALFDS_def)
    apply (rule ext)
    subgoal for x by (cases "x = 3"; cases "x = 5") (simp_all add: ep_bits)
    done
qed

theorem epoll_http_protocol_witness: "protocol 5 (hp_calls after_visit) = Some Gone"
proof -
  have "5 \<notin> hp_open after_visit" by (simp add: after_visit_def)
  then show ?thesis using epoll_http_protocol [OF visit_reach, rule_format, of 5]
    by (auto simp: TOTALFDS_def init_shmvalue_def)
qed

text \<open>
  C38: the counter of a core does not count its clients.  After any run it has changed by the number of open
  clients less the number of pages sent, because a page is counted down like a farewell: a client
  that asks twice and leaves lowers it by two.
\<close>

theorem epoll_http_counter:
  assumes "(server_loop self cpu fd)\<^sup>*\<^sup>* (server_start fd m, Some []) (s, p)"
    and "0 \<le> fd" "self mod cpu < TOTALFDS" "length (totalfds m) = TOTALFDS"
  shows "totalfds (hp_shm s) ! (self mod cpu) =
    totalfds m ! (self mod cpu) + int (card (hp_open s - {fd})) - int (pages_sent (hp_calls s))"
  using loop_inv [OF assms] by (simp add: ep_inv_def counter_ok_def)

theorem epoll_http_counter_witness: "totalfds (hp_shm after_visit) ! 0 = -2"
proof -
  have "card (hp_open after_visit - {3}) = 0" "pages_sent (hp_calls after_visit) = 2" by (simp_all add: after_visit_def)
  then show ?thesis using epoll_http_counter [OF visit_reach] by (simp add: TOTALFDS_def init_shmvalue_def)
qed

text \<open>The response fits the buffer of 1024 bytes that it is built in.\<close>

theorem page_response_fits: "length page_response < 1024"
  by (simp add: page_response_def html_page_def dec_nat.simps)

text \<open>
  a connection that the client gave up before accept (ECONNABORTED), or a lack of descriptors, ends
  the process and leaves its clients unserved: the branches for these errors fall through to the return.
\<close>

theorem failed_accept_ends_process:
  assumes "ev_fd e = fd" "mtx_quad (ev_others e (hp_shm s)) = 0" "ev_ret e < 0" "ev_errno e \<noteq> EAGAIN"
    and "\<forall>m. length (totalfds (ev_others e m)) = length (totalfds m) \<and>
       totalfds (ev_others e m) ! (self mod cpu) = totalfds m ! (self mod cpu)" "fd \<in> hp_open s" "\<forall>c \<in> hp_open s. 0 \<le> c"
  shows "\<exists>s'. server_loop self cpu fd (s, Some (e # es)) (s', None) \<and> hp_open s' = hp_open s \<and>
    hp_interest s' = hp_interest s \<and> \<not> (\<exists>x. server_loop self cpu fd (s', None) x)"
proof -
  obtain s' where s': "event_turn self cpu fd e s = (False, s')" "hp_open s' = hp_open s" "hp_interest s' = hp_interest s"
    using assms(1-4) by (simp add: event_turn_def Let_def lock_shm_def cmpxchg_def)
  have "ev_ret e \<notin> hp_open s" using assms(3,7) by auto
  then have "server_loop self cpu fd (s, Some (e # es)) (s', None)"
    using server_loop.turn [of e s fd self cpu False s' es] s'(1) assms(5) by simp
  then show ?thesis using s'(2,3) by (auto elim: server_loop.cases)
qed

theorem failed_accept_ends_process_witness:
  "\<exists>s'. server_loop 0 1 3 (server_start 3 init_shmvalue,
      Some [\<lparr>ev_fd = 3, ev_events = EP_IN, ev_ret = -1, ev_errno = ECONNABORTED, ev_others = id\<rparr>]) (s', None)"
  using failed_accept_ends_process [of "\<lparr>ev_fd = 3, ev_events = EP_IN, ev_ret = -1, ev_errno = ECONNABORTED, ev_others = id\<rparr>"
    3 "server_start 3 init_shmvalue" 0 1 "[]"]
  by (auto simp: server_start_def init_shmvalue_def mtx_quad_def ECONNABORTED_def EAGAIN_def)

end
