(* ===== verification/MC_Server.thy ===== *)
theory MC_Server
  imports C_Sums "HOL-Library.Word"
begin

text \<open>
  The servers over several processes nty_server_mulcore.c and nty_http_server_mulcore.c: the shared
  counter of clients, the reader of one client, and the accept lock.  \<open>cmpxchg\<close> gives its assembler
  operands of type unsigned long and no size, so that with size 4 it exchanges eight bytes: at \<open>total\<close>
  the counter and the lock behind it, at the lock the lock and half of the time behind it.  The model keeps
  these bytes.
\<close>

unbundle bit_operations_syntax

section \<open>The shared memory\<close>

record mshm =
  total :: "32 word"
  accept_lock :: "32 word" \<comment> \<open>\<open>lock\<close> in nty_server_mulcore.c\<close>
  tv_sec :: "64 word"
  tv_usec :: "64 word"

abbreviation wide :: "32 word \<Rightarrow> 64 word" where "wide \<equiv> ucast"
abbreviation narrow :: "64 word \<Rightarrow> 32 word" where "narrow \<equiv> ucast"
abbreviation long :: "32 word \<Rightarrow> 64 word" where "long \<equiv> scast" \<comment> \<open>an int as a long\<close>

definition join_words :: "32 word \<Rightarrow> 32 word \<Rightarrow> 64 word" where
  "join_words lo hi = wide lo OR push_bit 32 (wide hi)"

definition low_half :: "64 word \<Rightarrow> 32 word" where "low_half q = narrow q"
definition high_half :: "64 word \<Rightarrow> 32 word" where "high_half q = narrow (drop_bit 32 q)"

text \<open>\<open>lock; cmpxchg\<close> with a register of eight bytes: the new memory, and the previous value in rax.\<close>

definition cmpxchg_quad :: "64 word \<Rightarrow> 64 word \<Rightarrow> 64 word \<Rightarrow> 64 word \<times> 64 word" where
  "cmpxchg_quad mem old new = (if mem = old then (new, old) else (mem, mem))"

definition cmpxchg_total :: "64 word \<Rightarrow> 64 word \<Rightarrow> mshm \<Rightarrow> mshm \<times> 32 word" where
  "cmpxchg_total old new m =
     (let (q, prev) = cmpxchg_quad (join_words (total m) (accept_lock m)) old new
      in (m\<lparr>total := low_half q, accept_lock := high_half q\<rparr>, low_half prev))"

definition cmpxchg_lock :: "64 word \<Rightarrow> 64 word \<Rightarrow> mshm \<Rightarrow> mshm \<times> 32 word" where
  "cmpxchg_lock old new m =
     (let (q, prev) = cmpxchg_quad (join_words (accept_lock m) (low_half (tv_sec m))) old new
      in (m\<lparr>accept_lock := low_half q, tv_sec := join_words (high_half q) (high_half (tv_sec m))\<rparr>, low_half prev))"

definition lock_accept_mutex :: "mshm \<Rightarrow> mshm \<times> 32 word" where
  "lock_accept_mutex m = cmpxchg_lock 0 1 m"

definition unlock_accept_mutex :: "mshm \<Rightarrow> mshm \<times> 32 word" where
  "unlock_accept_mutex m = cmpxchg_lock 1 0 m"

text \<open>The page of the segment is zero; then the time is stored.\<close>

definition init_shm_mul :: "64 word \<Rightarrow> 64 word \<Rightarrow> mshm" where
  "init_shm_mul sec usec = \<lparr>total = 0, accept_lock = 0, tv_sec = sec, tv_usec = usec\<rparr>"

section \<open>One client\<close>

definition mul_reply :: string where
  "mul_reply = ''HTTP/1.0 200 OK'' @ [CHR 0x0D, CHR 0x0A] @ ''Server: ntyco'' @ [CHR 0x0D, CHR 0x0A] @
     ''Content-Type: text/html'' @ [CHR 0x0D, CHR 0x0A] @ [CHR 0x0D, CHR 0x0A] @
     ''<html><h1> coroutine --> ntyco<h1></html>''"

text \<open>
  \<open>server_reader\<close> on the answers of nty_recv and nty_send: what it sends, and whether it has closed
  the client, after which it calls \<open>sub_shmvalue\<close>.
\<close>

fun server_reader_mul :: "(int \<times> int) list \<Rightarrow> string list \<times> bool" where
  "server_reader_mul [] = ([], False)"
| "server_reader_mul ((r, sr) # ans) =
     (if r > 0 then
        if sr = -1 then ([mul_reply], True)
        else (case server_reader_mul ans of (sent, closed) \<Rightarrow> (mul_reply # sent, closed))
      else if r = 0 then ([], True)
      else server_reader_mul ans)"

section \<open>The processes\<close>

text \<open>
  \<open>add_shmvalue\<close> and \<open>sub_shmvalue\<close> between their accesses to the shared memory: before the load, before
  the exchange, before the load of the result.  \<open>up\<close> distinguishes the two.
\<close>

datatype mpc = MIdle | MLoad bool | MCas bool "32 word" | MRead bool

record mproc =
  mp_pc :: mpc
  mp_clients :: nat \<comment> \<open>its readers\<close>
  mp_value :: "32 word" \<comment> \<open>what its last call returned\<close>

record mserver =
  ms_shm :: mshm
  ms_procs :: "mproc list"

definition changed :: "bool \<Rightarrow> 32 word \<Rightarrow> 32 word" where
  "changed up v = (if up then v + 1 else v - 1)"

fun shmvalue_step :: "mproc \<Rightarrow> mshm \<Rightarrow> mproc \<times> mshm" where
  "shmvalue_step p m =
     (case mp_pc p of
        MIdle \<Rightarrow> (p, m)
      | MLoad up \<Rightarrow> (p\<lparr>mp_pc := MCas up (total m)\<rparr>, m)
      | MCas up v \<Rightarrow>
          (let (m, ret) = cmpxchg_total (long v) (long (changed up v)) m
           in (p\<lparr>mp_pc := (if ret \<noteq> v then MLoad up else MRead up)\<rparr>, m))
      | MRead up \<Rightarrow> (p\<lparr>mp_pc := MIdle, mp_value := total m\<rparr>, m))"

declare shmvalue_step.simps [simp del]

definition put_proc :: "nat \<Rightarrow> mproc \<times> mshm \<Rightarrow> mserver \<Rightarrow> mserver" where
  "put_proc i pm s = s\<lparr>ms_procs := (ms_procs s)[i := fst pm], ms_shm := snd pm\<rparr>"

definition run_proc :: "nat \<Rightarrow> mserver \<Rightarrow> mserver" where
  "run_proc i s = put_proc i (shmvalue_step (ms_procs s ! i) (ms_shm s)) s"

text \<open>
  A step of the system: a process accepts a client and starts \<open>add_shmvalue\<close>, ends a reader and starts
  \<open>sub_shmvalue\<close>, or goes on with its call.  There are fewer descriptors than an int can count.
\<close>

inductive mul_step :: "mserver \<Rightarrow> mserver \<Rightarrow> bool" where
  accept: "i < length (ms_procs s) \<Longrightarrow> ms_procs s ! i = p \<Longrightarrow> mp_pc p = MIdle \<Longrightarrow>
    (\<Sum>p \<leftarrow> ms_procs s. int (mp_clients p)) + 1 + int (length (ms_procs s)) < 2 ^ 31 \<Longrightarrow>
    mul_step s (put_proc i (p\<lparr>mp_pc := MLoad True, mp_clients := Suc (mp_clients p)\<rparr>, ms_shm s) s)"
| hang_up: "i < length (ms_procs s) \<Longrightarrow> ms_procs s ! i = p \<Longrightarrow> mp_pc p = MIdle \<Longrightarrow> mp_clients p = Suc n \<Longrightarrow>
    mul_step s (put_proc i (p\<lparr>mp_pc := MLoad False, mp_clients := n\<rparr>, ms_shm s) s)"
| go_on: "i < length (ms_procs s) \<Longrightarrow> mul_step s (run_proc i s)"

definition mul_start :: "nat \<Rightarrow> 64 word \<Rightarrow> 64 word \<Rightarrow> mserver" where
  "mul_start n sec usec =
     \<lparr>ms_shm = init_shm_mul sec usec, ms_procs = replicate n \<lparr>mp_pc = MIdle, mp_clients = 0, mp_value = 0\<rparr>\<rparr>"

section \<open>Exchanges of eight bytes\<close>

lemma halves [simp]:
  "low_half (join_words lo hi) = lo" "high_half (join_words lo hi) = hi" "join_words (low_half q) (high_half q) = q"
proof -
  show "low_half (join_words lo hi) = lo"
    by (rule bit_word_eqI) (simp add: low_half_def join_words_def bit_simps)
  show "high_half (join_words lo hi) = hi"
    by (rule bit_word_eqI) (auto simp: high_half_def join_words_def bit_simps dest: bit_imp_le_length)
  show "join_words (low_half q) (high_half q) = q"
    by (rule bit_word_eqI) (auto simp: low_half_def high_half_def join_words_def bit_simps dest: bit_imp_le_length)
qed

text \<open>The counter and the word behind it form the counter as a long, the lock being its sign.\<close>

definition counter_long :: "mshm \<Rightarrow> bool" where
  "counter_long m \<longleftrightarrow> join_words (total m) (accept_lock m) = long (total m)"

lemma low_scast [simp]: "low_half (long v) = v"
  by (rule bit_word_eqI) (simp add: low_half_def bit_simps)

lemma cmpxchg_counts:
  assumes "counter_long m"
  shows "cmpxchg_total (long v) (long w) m =
    (if total m = v then (m\<lparr>total := w, accept_lock := high_half (long w)\<rparr>, v) else (m, total m))"
proof -
  have "long (total m) = long v \<longleftrightarrow> total m = v" using low_scast by metis
  moreover have "high_half (long (total m)) = accept_lock m"
    using assms halves(2) by (metis counter_long_def)
  ultimately show ?thesis using assms by (simp add: cmpxchg_total_def cmpxchg_quad_def counter_long_def)
qed

lemma counter_long_put: "counter_long (m\<lparr>total := w, accept_lock := high_half (long w)\<rparr>)"
  using halves(3) [of "long w"] by (simp add: counter_long_def)

section \<open>The invariant\<close>

text \<open>What a process contributes to the counter: its readers, and the change it has yet to make.\<close>

definition contribution :: "mproc \<Rightarrow> int" where
  "contribution p = int (mp_clients p) +
     (case mp_pc p of MLoad up \<Rightarrow> if up then -1 else 1 | MCas up _ \<Rightarrow> if up then -1 else 1 | _ \<Rightarrow> 0)"

definition no_overflow :: "mproc \<Rightarrow> bool" where
  "no_overflow p \<longleftrightarrow> (case mp_pc p of MCas up v \<Rightarrow> sint (changed up v) = sint v + (if up then 1 else -1) | _ \<Rightarrow> True)"

definition proc_ok :: "mproc \<Rightarrow> bool" where
  "proc_ok p \<longleftrightarrow> 0 \<le> contribution p \<and> (case mp_pc p of
     MCas up v \<Rightarrow> if up then 0 \<le> sint v \<and> sint v < 2 ^ 31 - 1 else 1 \<le> sint v | _ \<Rightarrow> True)"

definition mul_inv :: "mserver \<Rightarrow> bool" where
  "mul_inv s \<longleftrightarrow> counter_long (ms_shm s) \<and> sint (total (ms_shm s)) = (\<Sum>p \<leftarrow> ms_procs s. contribution p) \<and>
     (\<Sum>p \<leftarrow> ms_procs s. int (mp_clients p)) + int (length (ms_procs s)) < 2 ^ 31 \<and> (\<forall>p \<in> set (ms_procs s). proc_ok p)"

lemma changed_sint:
  "0 \<le> sint v \<Longrightarrow> sint v < 2 ^ 31 - 1 \<Longrightarrow> sint (changed True v) = sint v + 1"
  "1 \<le> sint v \<Longrightarrow> sint (changed False v) = sint v - 1"
proof -
  have b: "sint v < 2 ^ 31" using sint_lt [of v] by simp
  show "sint (changed True v) = sint v + 1" if "0 \<le> sint v" "sint v < 2 ^ 31 - 1"
    using that by (simp add: changed_def sint_word_add signed_take_bit_int_eq_self)
  show "sint (changed False v) = sint v - 1" if "1 \<le> sint v"
    using that b by (simp add: changed_def sint_word_diff signed_take_bit_int_eq_self)
qed

lemma proc_no_overflow: "proc_ok p \<Longrightarrow> no_overflow p"
  using changed_sint by (auto simp: proc_ok_def no_overflow_def split: mpc.splits if_splits)

lemma mul_inv_change:
  assumes inv: "mul_inv s" and i: "i < length (ms_procs s)" and m: "counter_long m" "proc_ok p"
    and cnt: "sint (total m) = sint (total (ms_shm s)) - contribution (ms_procs s ! i) + contribution p"
    and room: "(\<Sum>p \<leftarrow> ms_procs s. int (mp_clients p)) - int (mp_clients (ms_procs s ! i)) + int (mp_clients p) +
      int (length (ms_procs s)) < 2 ^ 31"
  shows "mul_inv (put_proc i (p, m) s)"
proof -
  have "\<forall>q \<in> set ((ms_procs s)[i := p]). proc_ok q"
    using inv m(2) set_update_subset_insert [of "ms_procs s" i p] by (auto simp: mul_inv_def)
  then show ?thesis using inv i m(1) cnt room by (simp add: mul_inv_def put_proc_def sum_list_update_int)
qed

lemma mul_bounds:
  assumes inv: "mul_inv s" and i: "i < length (ms_procs s)"
  shows "contribution (ms_procs s ! i) \<le> sint (total (ms_shm s))"
    "sint (total (ms_shm s)) + (int (mp_clients (ms_procs s ! i)) + 1 - contribution (ms_procs s ! i)) < 2 ^ 31"
proof -
  let ?ps = "ms_procs s"
  have ok: "\<And>p. p \<in> set ?ps \<Longrightarrow> 0 \<le> contribution p" using inv by (simp add: mul_inv_def proc_ok_def)
  show "contribution (?ps ! i) \<le> sint (total (ms_shm s))"
    using sum_list_ge [OF ok i] inv by (simp add: mul_inv_def)
  let ?h = "\<lambda>p. int (mp_clients p) + 1 - contribution p"
  have "0 \<le> ?h p" for p by (auto simp: contribution_def split: mpc.splits)
  then have "?h (?ps ! i) \<le> sum_list (map ?h ?ps)" by (intro sum_list_ge i) simp
  also have "\<dots> = (\<Sum>p \<leftarrow> ?ps. int (mp_clients p)) + int (length ?ps) - (\<Sum>p \<leftarrow> ?ps. contribution p)"
    by (induction ?ps) (simp_all add: sum_list_addf sum_list_subtractf sum_list_triv)
  finally show "sint (total (ms_shm s)) + ?h (?ps ! i) < 2 ^ 31" using inv by (simp add: mul_inv_def)
qed

lemma run_proc_inv:
  assumes inv: "mul_inv s" and i: "i < length (ms_procs s)"
  shows "mul_inv (run_proc i s)"
proof -
  let ?p = "ms_procs s ! i" and ?m = "ms_shm s"
  have ok: "proc_ok ?p" "counter_long ?m" using inv i by (simp_all add: mul_inv_def)
  have room: "(\<Sum>p \<leftarrow> ms_procs s. int (mp_clients p)) + int (length (ms_procs s)) < 2 ^ 31"
    using inv by (simp add: mul_inv_def)
  note change = mul_inv_change [OF inv i] and bounds = mul_bounds [OF inv i]
  show ?thesis
  proof (cases "mp_pc ?p")
    case MIdle
    then have "run_proc i s = put_proc i (?p, ?m) s" by (simp add: run_proc_def shmvalue_step.simps)
    then show ?thesis using change [OF ok(2,1)] room by simp
  next
    case (MLoad up)
    then have r: "run_proc i s = put_proc i (?p\<lparr>mp_pc := MCas up (total ?m)\<rparr>, ?m) s"
      by (simp add: run_proc_def shmvalue_step.simps)
    have "0 \<le> contribution ?p" using ok(1) by (simp add: proc_ok_def)
    then show ?thesis unfolding r using ok room MLoad bounds
      by (intro change) (auto simp: contribution_def proc_ok_def)
  next
    case (MCas up v)
    define m' where "m' = ?m\<lparr>total := changed up v, accept_lock := high_half (long (changed up v))\<rparr>"
    have r: "run_proc i s = (if total ?m = v then put_proc i (?p\<lparr>mp_pc := MRead up\<rparr>, m') s
        else put_proc i (?p\<lparr>mp_pc := MLoad up\<rparr>, ?m) s)"
      using MCas cmpxchg_counts [OF ok(2)] by (simp add: run_proc_def shmvalue_step.simps m'_def)
    show ?thesis
    proof (cases "total ?m = v")
      case True
      have "no_overflow ?p" using ok(1) by (rule proc_no_overflow)
      then have "sint (total m') = sint (total ?m) + (if up then 1 else -1)"
        using MCas True by (simp add: no_overflow_def m'_def)
      moreover have "counter_long m'" unfolding m'_def by (rule counter_long_put)
      ultimately show ?thesis unfolding r using True MCas room
        by (auto simp: contribution_def proc_ok_def intro!: change)
    next
      case False
      then show ?thesis unfolding r using ok room MCas
        by (auto simp: contribution_def proc_ok_def intro!: change)
    qed
  next
    case (MRead up)
    then have r: "run_proc i s = put_proc i (?p\<lparr>mp_pc := MIdle, mp_value := total ?m\<rparr>, ?m) s"
      by (simp add: run_proc_def shmvalue_step.simps)
    show ?thesis unfolding r using ok room MRead
      by (intro change) (auto simp: contribution_def proc_ok_def)
  qed
qed

lemma mul_step_inv: "mul_step s s' \<Longrightarrow> mul_inv s \<Longrightarrow> mul_inv s'"
proof (induction rule: mul_step.induct)
  case (accept i s p)
  then show ?case by (intro mul_inv_change) (auto simp: mul_inv_def contribution_def proc_ok_def)
next
  case (hang_up i s p n)
  then show ?case by (intro mul_inv_change) (auto simp: mul_inv_def contribution_def proc_ok_def)
next
  case (go_on i s)
  then show ?case by (intro run_proc_inv)
qed

lemma mul_reach_inv:
  assumes "mul_step\<^sup>*\<^sup>* (mul_start n sec usec) s" "n < 2 ^ 31"
  shows "mul_inv s"
  using assms(1)
proof (induction rule: rtranclp_induct)
  case base
  have "join_words 0 0 = long 0" by (simp add: join_words_def)
  then show ?case using assms(2)
    by (simp add: mul_inv_def mul_start_def init_shm_mul_def counter_long_def contribution_def proc_ok_def sum_list_triv sum_list_replicate)
qed (rule mul_step_inv)

text \<open>A process that runs alone: the exchange fails at most once.\<close>

lemma run_proc_pc:
  assumes inv: "mul_inv s" and i: "i < length (ms_procs s)"
  shows "length (ms_procs (run_proc i s)) = length (ms_procs s)"
    "mp_pc (ms_procs s ! i) = MLoad up \<Longrightarrow> mp_pc (ms_procs (run_proc i s) ! i) = MCas up (total (ms_shm s)) \<and>
       total (ms_shm (run_proc i s)) = total (ms_shm s)"
    "mp_pc (ms_procs s ! i) = MCas up v \<Longrightarrow>
       mp_pc (ms_procs (run_proc i s) ! i) = (if total (ms_shm s) = v then MRead up else MLoad up)"
    "mp_pc (ms_procs s ! i) = MRead up \<Longrightarrow> mp_pc (ms_procs (run_proc i s) ! i) = MIdle"
  using i cmpxchg_counts [of "ms_shm s"] inv
  by (simp_all add: run_proc_def put_proc_def shmvalue_step.simps mul_inv_def)

lemma alone_returns:
  assumes "mul_inv s" "i < length (ms_procs s)"
  shows "\<exists>k \<le> 4. mp_pc (ms_procs ((run_proc i ^^ k) s) ! i) = MIdle"
proof -
  let ?pc = "\<lambda>s. mp_pc (ms_procs s ! i)"
  have step: "mul_inv (run_proc i t) \<and> i < length (ms_procs (run_proc i t))" if "mul_inv t" "i < length (ms_procs t)" for t
    using run_proc_inv [OF that] run_proc_pc(1) [OF that] that(2) by simp
  have read: "\<exists>k \<le> 1. ?pc ((run_proc i ^^ k) t) = MIdle" if "mul_inv t" "i < length (ms_procs t)" "?pc t = MRead up" for t up
    using run_proc_pc(4) [OF that] by (intro exI [of _ 1]) simp
  have cas: "\<exists>k \<le> 2. ?pc ((run_proc i ^^ k) t) = MIdle"
    if t: "mul_inv t" "i < length (ms_procs t)" "?pc t = MCas up (total (ms_shm t))" for t up
  proof -
    have "?pc (run_proc i t) = MRead up" using run_proc_pc(3) [OF t] by simp
    then obtain k where "k \<le> 1" "?pc ((run_proc i ^^ k) (run_proc i t)) = MIdle"
      using read step [OF t(1,2)] by blast
    then show ?thesis by (intro exI [of _ "Suc k"]) (simp add: funpow_swap1)
  qed
  have load: "\<exists>k \<le> 3. ?pc ((run_proc i ^^ k) t) = MIdle"
    if t: "mul_inv t" "i < length (ms_procs t)" "?pc t = MLoad up" for t up
  proof -
    have "?pc (run_proc i t) = MCas up (total (ms_shm (run_proc i t)))" using run_proc_pc(2) [OF t] by simp
    then obtain k where "k \<le> 2" "?pc ((run_proc i ^^ k) (run_proc i t)) = MIdle"
      using cas step [OF t(1,2)] by blast
    then show ?thesis by (intro exI [of _ "Suc k"]) (simp add: funpow_swap1)
  qed
  show ?thesis
  proof (cases "?pc s")
    case MIdle
    then show ?thesis by (intro exI [of _ 0]) simp
  next
    case (MLoad up)
    then show ?thesis using load [OF assms] by (meson le_trans numeral_le_iff semiring_norm)
  next
    case (MRead up)
    then show ?thesis using read [OF assms] by (meson le_trans one_le_numeral)
  next
    case (MCas up v)
    show ?thesis
    proof (cases "total (ms_shm s) = v")
      case True
      then obtain k where "k \<le> 2" "?pc ((run_proc i ^^ k) s) = MIdle" using cas [OF assms] MCas by blast
      then show ?thesis by (intro exI [of _ k]) simp
    next
      case False
      then have "?pc (run_proc i s) = MLoad up" using run_proc_pc(3) [OF assms MCas] by simp
      then obtain k where "k \<le> 3" "?pc ((run_proc i ^^ k) (run_proc i s)) = MIdle"
        using load step [OF assms] by blast
      then show ?thesis by (intro exI [of _ "Suc k"]) (simp add: funpow_swap1)
    qed
  qed
qed

section \<open>Properties\<close>

text \<open>
  C12: the counter of clients is exact although the exchange is twice as wide as the counter.  Under every
  interleaving of the processes it differs from the number of readers only by calls under way, no
  addition or subtraction overflows, and a process that runs alone finishes its call within four
  steps, wherever the others stopped.
\<close>

theorem mul_counter_exact:
  assumes "mul_step\<^sup>*\<^sup>* (mul_start n sec usec) s" "n < 2 ^ 31"
  shows "sint (total (ms_shm s)) = (\<Sum>p \<leftarrow> ms_procs s. contribution p) \<and>
    ((\<forall>p \<in> set (ms_procs s). mp_pc p = MIdle) \<longrightarrow> sint (total (ms_shm s)) = (\<Sum>p \<leftarrow> ms_procs s. int (mp_clients p))) \<and>
    (\<forall>p \<in> set (ms_procs s). no_overflow p) \<and>
    (\<forall>i < length (ms_procs s). \<exists>k \<le> 4. mp_pc (ms_procs ((run_proc i ^^ k) s) ! i) = MIdle)"
proof -
  have inv: "mul_inv s" by (rule mul_reach_inv [OF assms])
  then have sum: "sint (total (ms_shm s)) = (\<Sum>p \<leftarrow> ms_procs s. contribution p)"
    and ok: "\<forall>p \<in> set (ms_procs s). no_overflow p"
    by (auto simp: mul_inv_def proc_no_overflow)
  have "(\<Sum>p \<leftarrow> ms_procs s. contribution p) = (\<Sum>p \<leftarrow> ms_procs s. int (mp_clients p))"
    if "\<forall>p \<in> set (ms_procs s). mp_pc p = MIdle"
    using that by (intro arg_cong [of _ _ sum_list] map_cong) (auto simp: contribution_def)
  then show ?thesis using sum ok alone_returns [OF inv] by auto
qed

text \<open>Two processes count a client each; the exchange of the second fails once.\<close>

lemma procs_length [simp]: "length (ms_procs (run_proc i s)) = length (ms_procs s)"
  "length (ms_procs (put_proc i pm s)) = length (ms_procs s)"
  by (simp_all add: run_proc_def put_proc_def)

lemma go_on_reach: "mul_step\<^sup>*\<^sup>* a s \<Longrightarrow> i < length (ms_procs s) \<Longrightarrow> mul_step\<^sup>*\<^sup>* a (run_proc i s)"
  by (erule rtranclp.rtrancl_into_rtrancl, rule mul_step.go_on)

definition two_accepted :: mserver where
  "two_accepted = \<lparr>ms_shm = init_shm_mul 1700000000 0,
     ms_procs = [\<lparr>mp_pc = MLoad True, mp_clients = 1, mp_value = 0\<rparr>, \<lparr>mp_pc = MLoad True, mp_clients = 1, mp_value = 0\<rparr>]\<rparr>"

lemma two_accepted_reach: "mul_step\<^sup>*\<^sup>* (mul_start 2 1700000000 0) two_accepted"
proof -
  let ?a = "put_proc 0 (\<lparr>mp_pc = MLoad True, mp_clients = 1, mp_value = 0\<rparr>, init_shm_mul 1700000000 0) (mul_start 2 1700000000 0)"
  have "mul_step (mul_start 2 1700000000 0) ?a"
    using mul_step.accept [of 0 "mul_start 2 1700000000 0", OF _ refl] by (simp add: mul_start_def numeral_2_eq_2)
  moreover have "mul_step ?a two_accepted"
    using mul_step.accept [of 1 ?a, OF _ refl]
    by (simp add: mul_start_def numeral_2_eq_2 put_proc_def two_accepted_def)
  ultimately show ?thesis by simp
qed

definition two_counted :: mserver where
  "two_counted = foldl (\<lambda>s i. run_proc i s) two_accepted [0, 1, 0, 1, 0, 1, 1, 1]"

theorem mul_counter_exact_witness: "sint (total (ms_shm two_counted)) = 2"
proof -
  have "mul_step\<^sup>*\<^sup>* (mul_start 2 1700000000 0) two_counted"
    unfolding two_counted_def foldl.simps
    by (intro go_on_reach two_accepted_reach) (simp_all add: two_accepted_def)
  moreover have "ms_procs two_counted =
      [\<lparr>mp_pc = MIdle, mp_clients = 1, mp_value = 1\<rparr>, \<lparr>mp_pc = MIdle, mp_clients = 1, mp_value = 2\<rparr>]"
    by (simp add: two_counted_def two_accepted_def run_proc_def put_proc_def shmvalue_step.simps init_shm_mul_def
      cmpxchg_total_def cmpxchg_quad_def join_words_def low_half_def high_half_def changed_def)
  ultimately show ?thesis using mul_counter_exact [of 2 1700000000 0 two_counted] by simp
qed

text \<open>
  \<open>add_shmvalue\<close> returns what it reads after the exchange: two calls may return the same value, and no
  call the one between, so that the report of each thousandth client can be missed.
\<close>

theorem both_return_two:
  "map mp_value (ms_procs (foldl (\<lambda>s i. run_proc i s) two_accepted [0, 1, 0, 1, 1, 1, 0, 1])) = [2, 2]"
  by (simp add: two_accepted_def run_proc_def put_proc_def shmvalue_step.simps init_shm_mul_def
      cmpxchg_total_def cmpxchg_quad_def join_words_def low_half_def high_half_def changed_def)

text \<open>
  the accept lock of nty_http_server_mulcore.c locks nothing.  The exchange compares the lock and the
  low half of the seconds behind it with 0, so with a clock that is not at 0 it stores nothing, and the
  truncated answer 0 says that the lock was taken: two calls in a row both succeed.
\<close>

theorem accept_lock_void:
  assumes "accept_lock m = 0" "low_half (tv_sec m) \<noteq> 0"
  shows "lock_accept_mutex m = (m, 0) \<and> snd (lock_accept_mutex (fst (lock_accept_mutex m))) = 0 \<and>
    unlock_accept_mutex m = (m, 0)"
proof -
  have q: "join_words (accept_lock m) (low_half (tv_sec m)) \<noteq> v" if "high_half v = 0" for v
    using that assms(2) halves(2) by metis
  have "high_half 0 = 0" "high_half 1 = 0" by (simp_all add: high_half_def)
  then have "cmpxchg_lock v w m = (m, 0)" if "v = 0 \<or> v = 1" for v w
    using q [of v] that assms(1) by (auto simp: cmpxchg_lock_def cmpxchg_quad_def)
  then show ?thesis by (simp add: lock_accept_mutex_def unlock_accept_mutex_def)
qed

theorem accept_lock_void_witness:
  "snd (lock_accept_mutex (fst (lock_accept_mutex (init_shm_mul 1700000000 0)))) = 0"
  using accept_lock_void [of "init_shm_mul 1700000000 0"] by (simp add: init_shm_mul_def low_half_def)

end
