(* ===== verification/HT_Http.thy ===== *)
theory HT_Http
  imports Main "HOL-Library.Monad_Syntax"
begin

text \<open>
  The HTTP server nty_http_server.c: reading a line, the request line, the path, the answer.  The
  socket is the bytes that the client sends and that have not been read, whether it closes its side after them, and
  the bytes that were given to nty_send; how many bytes the first recv takes, what lay on the stack before, and the
  file system are arguments.  A recv waits for data or for the close of the client: if there will be neither, it
  does not return, and with it the request.  CGI is disabled in the source (\<open>cgi = 0\<close>), so its functions are never
  called.
\<close>

section \<open>State\<close>

record conn =
  h_in :: "char list"
  h_out :: "char list"
  h_open :: bool
  h_eof :: bool \<comment> \<open>the client closes after what it sends\<close>

text \<open>What becomes of a request: it waits for the client for ever, or the function returns.\<close>

datatype reply = Waits | Returns conn

record fsys =
  fs_stat :: "string \<Rightarrow> bool option" \<comment> \<open>whether it is a directory, if it exists\<close>
  fs_open :: "string \<Rightarrow> char list option" \<comment> \<open>what fopen gives to read\<close>

abbreviation LF :: char where "LF \<equiv> CHR 0x0A"
abbreviation CR :: char where "CR \<equiv> CHR 0x0D"

text \<open>
  \<open>isspace\<close> of glibc in the C locale.  The macro passes a \<open>char\<close>, so a negative number for a byte from 128 on; the
  tables of glibc are defined there, and no such character is a space.
\<close>

definition ISspace :: "char \<Rightarrow> bool" where
  "ISspace c \<longleftrightarrow> of_char c = (32 :: nat) \<or> (9 \<le> (of_char c :: nat) \<and> of_char c \<le> (13 :: nat))"

definition to_lower :: "char \<Rightarrow> char" where
  "to_lower c = (if 65 \<le> (of_char c :: nat) \<and> of_char c \<le> (90 :: nat) then char_of (of_char c + 32 :: nat) else c)"

text \<open>\<open>strcasecmp(a, b) == 0\<close>\<close>

definition same_nocase :: "string \<Rightarrow> string \<Rightarrow> bool" where
  "same_nocase a b \<longleftrightarrow> map to_lower a = map to_lower b"

text \<open>The string that starts at the front of an array.\<close>

definition cstring :: "char list \<Rightarrow> string" where
  "cstring buf = takeWhile (\<lambda>c. c \<noteq> CHR 0x00) buf"

definition hsend :: "string \<Rightarrow> conn \<Rightarrow> conn" where
  "hsend msg s = s\<lparr>h_out := h_out s @ msg\<rparr>"

section \<open>Reading a line\<close>

text \<open>
  The loop of \<open>get_line\<close> with room for \<open>r\<close> characters: what it stores and what is left to read.  \<open>e\<close> says whether
  the stream ends: then a recv at its end gives nothing, which ends the line; otherwise it never returns (\<open>None\<close>).
  After a carriage return the next character is looked at with \<open>MSG_PEEK\<close>, which waits in the same way.
\<close>

fun line_loop :: "bool \<Rightarrow> nat \<Rightarrow> char list \<Rightarrow> (char list \<times> char list) option" where
  "line_loop e 0 inp = Some ([], inp)"
| "line_loop e (Suc r) [] = (if e then Some ([], []) else None)"
| "line_loop e (Suc r) (c # inp) =
     (if c = CR then (case inp of
                        [] \<Rightarrow> if e then Some ([LF], []) else None
                      | d # tail \<Rightarrow> Some ([LF], if d = LF then tail else inp))
      else if c = LF then Some ([LF], inp)
      else map_option (\<lambda>(l, rest). (c # l, rest)) (line_loop e r inp))"

definition get_line :: "nat \<Rightarrow> conn \<Rightarrow> (conn \<times> char list) option" where
  "get_line n s = map_option (\<lambda>(l, rest). (s\<lparr>h_in := rest\<rparr>, l)) (line_loop (h_eof s) (n - 1) (h_in s))"

section \<open>The answers\<close>

abbreviation CRLF :: string where "CRLF \<equiv> [CR, LF]"

definition SERVER_STRING :: string where
  "SERVER_STRING = ''Server: ntyco_httpd/0.1.0'' @ CRLF"

definition headers :: "conn \<Rightarrow> conn" where
  "headers s =
     hsend CRLF (hsend (''Content-Type: text/html'' @ CRLF) (hsend SERVER_STRING (hsend (''HTTP/1.0 200 OK'' @ CRLF) s)))"

definition not_found :: "conn \<Rightarrow> conn" where
  "not_found s =
     (let s = hsend (''HTTP/1.0 404 NOT FOUND'' @ CRLF) s;
          s = hsend SERVER_STRING s;
          s = hsend (''Content-Type: text/html'' @ CRLF) s;
          s = hsend CRLF s;
          s = hsend (''<HTML><TITLE>Not Found</TITLE>'' @ CRLF) s;
          s = hsend (''<BODY><P>The server could not fulfill'' @ CRLF) s;
          s = hsend (''your request because the resource specified'' @ CRLF) s;
          s = hsend (''is unavailable or nonexistent.'' @ CRLF) s
      in hsend (''</BODY></HTML>'' @ CRLF) s)"

definition unimplemented :: "conn \<Rightarrow> conn" where
  "unimplemented s =
     (let s = hsend (''HTTP/1.0 501 Method Not Implemented'' @ CRLF) s;
          s = hsend SERVER_STRING s;
          s = hsend (''Content-Type: text/html'' @ CRLF) s;
          s = hsend CRLF s;
          s = hsend (''<HTML><HEAD><TITLE>Method Not Implemented'' @ CRLF) s;
          s = hsend (''</TITLE></HEAD>'' @ CRLF) s;
          s = hsend (''<BODY><P>HTTP request method not supported.'' @ CRLF) s
      in hsend (''</BODY></HTML>'' @ CRLF) s)"

text \<open>
  \<open>fgets\<close> with room for \<open>n\<close> characters: what it stores, what is left, and whether it met the end of the
  file.
\<close>

fun fgets :: "nat \<Rightarrow> char list \<Rightarrow> char list \<times> char list \<times> bool" where
  "fgets 0 data = ([], data, False)"
| "fgets (Suc n) [] = ([], [], True)"
| "fgets (Suc n) (c # data) =
     (if c = LF then ([c], data, False)
      else let (l, rest, eof) = fgets n data in (c # l, rest, eof))"

lemma fgets_parts: "fgets n data = (l, rest, eof) \<Longrightarrow> l @ rest = data \<and> (0 < n \<and> \<not> eof \<longrightarrow> l \<noteq> [])"
  by (induction n data arbitrary: l rest eof rule: fgets.induct) (auto split: if_splits prod.splits)

text \<open>\<open>cat\<close>: the piece during which \<open>fgets\<close> meets the end of the file is not sent.\<close>

function cat :: "char list \<Rightarrow> conn \<Rightarrow> conn" where
  "cat data s =
     (case fgets 1023 data of (l, rest, eof) \<Rightarrow> if eof then s else cat rest (hsend (cstring l) s))"
  by pat_completeness auto
termination
proof (relation "measure (\<lambda>(data, s). length data)", goal_cases)
  case (2 data s l q rest eof)
  then have "fgets 1023 data = (l, rest, eof)" "\<not> eof" by simp_all
  from fgets_parts [OF this(1)] this(2) have "l @ rest = data" "l \<noteq> []" by simp_all
  then show ?case by auto
qed simp

declare cat.simps [simp del]

text \<open>\<open>serve_file\<close>: closing a file that was not opened is undefined.\<close>

definition serve_file :: "fsys \<Rightarrow> string \<Rightarrow> conn \<Rightarrow> conn option" where
  "serve_file fs path s =
     (case fs_open fs path of
        None \<Rightarrow> None
      | Some data \<Rightarrow> Some (cat data (headers s)))"

section \<open>The request\<close>

definition METHOD_SIZE :: nat where "METHOD_SIZE = 255"
definition URL_SIZE :: nat where "URL_SIZE = 255"

text \<open>Storing into a local array: beyond its end it is undefined.\<close>

definition store :: "nat \<Rightarrow> char \<Rightarrow> char list \<Rightarrow> char list option" where
  "store i c a = (if i < length a then Some (a[i := c]) else None)"

text \<open>
  The loops of \<open>accept_request\<close>; the last argument is the rest of the buffer, and reading beyond its end is undefined.
  \<open>i\<close> is the index in \<open>method\<close> or \<open>url\<close>, \<open>j\<close> the index in the buffer, \<open>n\<close> the number of
  bytes received.  The loop for the method does not look at \<open>n\<close>.
\<close>

fun method_loop :: "nat \<Rightarrow> char list \<Rightarrow> char list \<Rightarrow> (nat \<times> char list) option" where
  "method_loop i method [] = None"
| "method_loop i method (c # buf) =
     (if \<not> ISspace c \<and> i < METHOD_SIZE - 1
      then do { method \<leftarrow> store i c method; method_loop (Suc i) method buf }
      else Some (i, method))"

fun skip_loop :: "nat \<Rightarrow> nat \<Rightarrow> char list \<Rightarrow> (nat \<times> char list) option" where
  "skip_loop n j [] = None"
| "skip_loop n j (c # buf) = (if ISspace c \<and> j < n then skip_loop n (Suc j) buf else Some (j, c # buf))"

fun url_loop :: "nat \<Rightarrow> nat \<Rightarrow> nat \<Rightarrow> char list \<Rightarrow> char list \<Rightarrow> (nat \<times> char list) option" where
  "url_loop n i j url [] = None"
| "url_loop n i j url (c # buf) =
     (if \<not> ISspace c \<and> i < URL_SIZE - 1 \<and> j < n
      then do { url \<leftarrow> store i c url; url_loop n (Suc i) (Suc j) url buf }
      else Some (i, url))"

text \<open>
  Reading the rest of the headers, \<open>while ((numchars > 0) && strcmp("\n", buf))\<close>; \<open>None\<close> when one of the lines
  never ends.
\<close>

lemma line_loop_parts: "line_loop e n inp = Some (l, rest) \<Longrightarrow> length rest + length l \<le> length inp"
  by (induction e n inp arbitrary: l rest rule: line_loop.induct) (force split: if_splits list.splits)+

function drain :: "nat \<Rightarrow> char list \<Rightarrow> conn \<Rightarrow> conn option" where
  "drain n buf s =
     (if 0 < n \<and> cstring buf \<noteq> [LF]
      then (case get_line 1024 s of None \<Rightarrow> None | Some (s, l) \<Rightarrow> drain (length l) l s)
      else Some s)"
  by pat_completeness auto
termination
proof (relation "measure (\<lambda>(n, buf, s). 2 * length (h_in s) + (if 0 < n then 1 else 0))", goal_cases)
  case (2 n buf s p s' l)
  then obtain rest where "line_loop (h_eof s) 1023 (h_in s) = Some (l, rest)" "h_in s' = rest"
    by (auto simp: get_line_def)
  with line_loop_parts [OF this(1)] 2(1) show ?case by (cases l) auto
qed simp

declare drain.simps [simp del]

definition PATH_SIZE :: nat where "PATH_SIZE = 512"

text \<open>Appending to \<open>path\<close>, whose last byte is the terminating zero.\<close>

definition path_append :: "string \<Rightarrow> string \<Rightarrow> string option" where
  "path_append path t = (if length path + length t < PATH_SIZE then Some (path @ t) else None)"

text \<open>The path for a URL, before the look at the file system.\<close>

definition path_of :: "string \<Rightarrow> string option" where
  "path_of url = do {
     path \<leftarrow> path_append ''htdocs'' url;
     if last path = CHR ''/'' then path_append path ''index.html'' else Some path }"

text \<open>
  \<open>accept_request\<close>.  \<open>got\<close> is the result of the first recv (\<open>None\<close> is -1, which becomes the largest
  \<open>size_t\<close>), \<open>junk\<close> what the stack held before where the arrays \<open>buf\<close>, \<open>method\<close> and \<open>url\<close> are.  \<open>None\<close> is undefined
  behaviour.
\<close>

definition accept_request_http :: "fsys \<Rightarrow> nat option \<Rightarrow> (nat \<Rightarrow> char) \<Rightarrow> conn \<Rightarrow> reply option" where
  "accept_request_http fs got junk s = do {
     let k = (case got of None \<Rightarrow> 0 | Some k \<Rightarrow> k);
     let numchars = (case got of None \<Rightarrow> 2 ^ 64 - 1 | Some k \<Rightarrow> k);
     let buf = take k (h_in s) @ map junk [k..<1024];
     let s = s\<lparr>h_in := drop k (h_in s)\<rparr>;
     (i, method) \<leftarrow> method_loop 0 (map junk [1024..<1024 + METHOD_SIZE]) buf;
     method \<leftarrow> store i CHR 0x00 method;
     let method = cstring method;
     if \<not> same_nocase method ''GET'' \<and> \<not> same_nocase method ''POST'' then Some (Returns (unimplemented s))
     else do {
       (j, rest) \<leftarrow> skip_loop numchars i (drop i buf);
       (i, url) \<leftarrow> url_loop numchars 0 j (map junk [1024 + METHOD_SIZE..<1024 + METHOD_SIZE + URL_SIZE]) rest;
       url \<leftarrow> store i CHR 0x00 url;
       let url = cstring url;
       let url = (if same_nocase method ''GET'' then takeWhile (\<lambda>c. c \<noteq> CHR ''?'') url else url);
       path \<leftarrow> path_of url;
       case fs_stat fs path of
         None \<Rightarrow> (case drain numchars buf s of
                   None \<Rightarrow> Some Waits
                 | Some s \<Rightarrow> Some (Returns ((not_found s)\<lparr>h_open := False\<rparr>)))
       | Some dir \<Rightarrow> do {
           path \<leftarrow> (if dir then path_append path ''/index.html'' else Some path);
           s \<leftarrow> serve_file fs path s;
           Some (Returns (s\<lparr>h_open := False\<rparr>)) } } }"

section \<open>Lemmas\<close>

lemma hsend_simps [simp]:
  "h_in (hsend m s) = h_in s" "h_out (hsend m s) = h_out s @ m" "h_open (hsend m s) = h_open s"
  by (simp_all add: hsend_def)

text \<open>A text with every line end written as a line feed.\<close>

fun normal :: "char list \<Rightarrow> char list" where
  "normal [] = []"
| "normal [c] = [if c = CR then LF else c]"
| "normal (c # d # cs) = (if c = CR then LF # (if d = LF then normal cs else normal (d # cs)) else c # normal (d # cs))"

lemma normal_Cons:
  "normal (c # cs) = (if c = CR then LF # normal (if cs \<noteq> [] \<and> hd cs = LF then tl cs else cs) else c # normal cs)"
  by (cases cs) auto

lemma normal_Nil [simp]: "normal cs = [] \<longleftrightarrow> cs = []"
  by (cases cs) (auto simp: normal_Cons simp del: normal.simps(2,3))

lemma line_loop_normal:
  "line_loop e n inp = Some (l, rest) \<Longrightarrow> l @ normal rest = normal inp \<and> length l \<le> n \<and> LF \<notin> set (butlast l) \<and>
    (0 < n \<longrightarrow> (l = [] \<longleftrightarrow> inp = [])) \<and> (0 < n \<and> l = [] \<longrightarrow> e) \<and>
    (l = [] \<or> last l = LF \<or> length l = n \<or> rest = [] \<and> e)"
proof (induction e n inp arbitrary: l rest rule: line_loop.induct)
  case (3 e r c inp)
  show ?case
  proof (cases "c = CR \<or> c = LF")
    case True
    then show ?thesis using 3(2)
      by (auto simp: normal_Cons simp del: normal.simps(2,3) split: list.splits if_splits)
  next
    case False
    then obtain l' where l: "line_loop e r inp = Some (l', rest)" "l = c # l'" using 3(2) by auto
    then show ?thesis using 3(1) [OF _ _ l(1)] False by (auto simp: normal_Cons simp del: normal.simps(2,3))
  qed
qed (auto split: if_splits)

lemma line_loop_eof: "\<exists>l rest. line_loop True n inp = Some (l, rest)"
proof (induction True n inp rule: line_loop.induct)
  case (3 r c inp)
  then show ?case by (cases "c = CR"; cases "c = LF") (auto split: list.splits)
qed auto

text \<open>A line whose end is there, and a stream whose lines are all complete.\<close>

lemma line_loop_line:
  "CR \<notin> set l \<Longrightarrow> LF \<notin> set l \<Longrightarrow> length l < n \<Longrightarrow> line_loop e n (l @ CRLF @ tail) = Some (l @ [LF], tail)"
proof (induction l arbitrary: n)
  case Nil
  then show ?case by (cases n) auto
next
  case (Cons c l)
  then show ?case by (cases n) auto
qed

definition in_lines :: "char list list \<Rightarrow> char list" where
  "in_lines ls = concat (map (\<lambda>l. l @ CRLF) ls)"

definition header_line :: "char list \<Rightarrow> bool" where
  "header_line l \<longleftrightarrow> l \<noteq> [] \<and> CR \<notin> set l \<and> LF \<notin> set l \<and> length l < 1023"

lemma fgets_spec:
  "fgets n data = (l, rest, eof) \<Longrightarrow> data = l @ rest \<and> (eof \<longrightarrow> rest = [] \<and> LF \<notin> set l \<and> length l < n) \<and>
    (\<not> eof \<longrightarrow> (l \<noteq> [] \<and> last l = LF) \<or> length l = n)"
  by (induction n data arbitrary: l rest eof rule: fgets.induct) (force split: if_splits prod.splits)+

lemma cstring_id: "CHR 0x00 \<notin> set m \<Longrightarrow> cstring m = m"
  by (auto simp: cstring_def takeWhile_eq_all_conv)

lemma cat_keeps:
  "CHR 0x00 \<notin> set data \<Longrightarrow> \<exists>kept lost. data = kept @ lost \<and> h_out (cat data s) = h_out s @ kept \<and> LF \<notin> set lost \<and>
    length lost < 1023 \<and> (kept = [] \<or> last kept = LF \<or> 1023 \<le> length kept) \<and> h_in (cat data s) = h_in s \<and> h_open (cat data s) = h_open s"
proof (induction data s rule: cat.induct)
  case (1 data s)
  obtain l rest eof where f: "fgets 1023 data = (l, rest, eof)" by (cases "fgets 1023 data") auto
  note sp = fgets_spec [OF f]
  show ?case
  proof (cases eof)
    case True
    then have "cat data s = s" using f by (simp add: cat.simps)
    then show ?thesis using sp True by (intro exI [of _ "[]"] exI [of _ data]) auto
  next
    case False
    then have run: "cat data s = cat rest (hsend l s)" using f 1(2) sp by (simp add: cat.simps cstring_id)
    have "CHR 0x00 \<notin> set rest" using 1(2) sp by auto
    from 1(1) [OF f [symmetric] refl False this] obtain kept lost where k: "rest = kept @ lost"
        "h_out (cat rest (hsend (cstring l) s)) = h_out (hsend (cstring l) s) @ kept" "LF \<notin> set lost" "length lost < 1023"
        "kept = [] \<or> last kept = LF \<or> 1023 \<le> length kept" "h_in (cat rest (hsend (cstring l) s)) = h_in s"
        "h_open (cat rest (hsend (cstring l) s)) = h_open s"
      by auto
    have "cstring l = l" using 1(2) sp by (intro cstring_id) auto
    moreover have "l @ kept = [] \<or> last (l @ kept) = LF \<or> 1023 \<le> length (l @ kept)"
      using k(5) sp False by (cases "kept = []") auto
    ultimately show ?thesis using k(1-4,6,7) run sp by (intro exI [of _ "l @ kept"] exI [of _ lost]) simp
  qed
qed

lemma cat_text:
  assumes "CHR 0x00 \<notin> set data" "data = [] \<or> last data = LF"
  shows "h_out (cat data s) = h_out s @ data"
proof -
  obtain kept lost where k: "data = kept @ lost" "h_out (cat data s) = h_out s @ kept" "LF \<notin> set lost"
    using cat_keeps [OF assms(1)] by blast
  have "lost = []" using assms(2) k(1,3) last_in_set [of lost] by (cases "lost = []") auto
  then show ?thesis using k(1,2) by simp
qed

lemma cat_frame: "h_in (cat data s) = h_in s" "h_open (cat data s) = h_open s"
  by (induction data s rule: cat.induct) (subst cat.simps, simp split: prod.splits)+

text \<open>The loops on a buffer whose end they do not reach.\<close>

lemma store_ok: "i < length a \<Longrightarrow> store i c a = Some (a[i := c])"
  by (simp add: store_def)

lemma method_loop_word:
  "\<forall>c \<in> set w. \<not> ISspace c \<Longrightarrow> i + length w \<le> 254 \<Longrightarrow> ISspace b \<Longrightarrow> length meth = 255 \<Longrightarrow>
   \<exists>m. (method_loop i meth (w @ b # rest) = Some (i + length w, m)) \<and> take (i + length w) m = take i meth @ w \<and> length m = 255"
proof (induction w arbitrary: i meth)
  case (Cons c w)
  have "\<exists>m. method_loop (Suc i) (meth[i := c]) (w @ b # rest) = Some (Suc i + length w, m) \<and>
      take (Suc i + length w) m = take (Suc i) (meth[i := c]) @ w \<and> length m = 255"
    by (rule Cons.IH) (use Cons.prems in auto)
  then show ?case using Cons.prems by (auto simp: METHOD_SIZE_def store_ok take_Suc_conv_app_nth)
qed (simp add: METHOD_SIZE_def)




lemma url_loop_word:
  "\<forall>c \<in> set w. \<not> ISspace c \<Longrightarrow> i + length w \<le> 254 \<Longrightarrow> ISspace b \<Longrightarrow> j + length w < n \<Longrightarrow> length url = 255 \<Longrightarrow>
   \<exists>u. url_loop n i j url (w @ b # rest) = Some (i + length w, u) \<and> take (i + length w) u = take i url @ w \<and> length u = 255"
proof (induction w arbitrary: i j url)
  case (Cons c w)
  have "\<exists>u. url_loop n (Suc i) (Suc j) (url[i := c]) (w @ b # rest) = Some (Suc i + length w, u) \<and>
      take (Suc i + length w) u = take (Suc i) (url[i := c]) @ w \<and> length u = 255"
    by (rule Cons.IH) (use Cons.prems in auto)
  then show ?case using Cons.prems by (auto simp: URL_SIZE_def store_ok take_Suc_conv_app_nth)
qed (simp add: URL_SIZE_def)

lemma stored_string:
  assumes "take n m = w" "n < length m" "CHR 0x00 \<notin> set w"
  shows "cstring (m[n := CHR 0x00]) = w"
proof -
  have "m[n := CHR 0x00] = w @ CHR 0x00 # drop (Suc n) m"
    using assms(1,2) by (simp add: upd_conv_take_nth_drop)
  then show ?thesis using assms(3) by (simp add: cstring_def takeWhile_tail) (metis takeWhile_append2 takeWhile.simps(2) append_Nil2)
qed


lemma path_of_fits:
  assumes "length url \<le> 254"
  obtains path where "path_of url = Some path" "path_append path ''/index.html'' = Some (path @ ''/index.html'')"
    "path = ''htdocs'' @ url @ (if last (''htdocs'' @ url) = CHR ''/'' then ''index.html'' else [])"
  using assms that by (auto simp: path_of_def path_append_def PATH_SIZE_def split: if_splits)

lemma answers_simps [simp]:
  "h_in (headers s) = h_in s" "h_open (headers s) = h_open s"
  "h_out (headers s) = h_out s @ ''HTTP/1.0 200 OK'' @ CRLF @ SERVER_STRING @ ''Content-Type: text/html'' @ CRLF @ CRLF"
  "h_open (not_found s) = h_open s" "h_open (unimplemented s) = h_open s" "h_in (unimplemented s) = h_in s"
  by (simp_all add: headers_def not_found_def unimplemented_def Let_def)

definition not_found_page :: string where
  "not_found_page = h_out (not_found \<lparr>h_in = [], h_out = [], h_open = True, h_eof = True\<rparr>)"

lemma not_found_out: "h_out (not_found s) = h_out s @ not_found_page" "h_in (not_found s) = h_in s"
  by (simp_all add: not_found_page_def not_found_def Let_def)

lemma drain_out: "drain n buf s = Some s' \<Longrightarrow> h_out s' = h_out s"
proof (induction n buf s rule: drain.induct)
  case (1 n buf s)
  show ?case
  proof (cases "0 < n \<and> cstring buf \<noteq> [LF]")
    case True
    then obtain s1 l where g: "get_line 1024 s = Some (s1, l)" "drain (length l) l s1 = Some s'"
      using 1(2) by (auto simp: drain.simps [of n] split: option.splits)
    then show ?thesis using 1(1) [OF True g(1) refl g(2)] by (auto simp: get_line_def)
  next
    case False
    then have "drain n buf s = Some s" by (subst drain.simps) (rule if_not_P)
    then show ?thesis using 1(2) by simp
  qed
qed

text \<open>Whether the headers are ever read: to the end of the stream, up to a blank line, or the next line is waited for.\<close>

lemma drain_eof: "h_eof s \<Longrightarrow> drain n buf s \<noteq> None"
proof (induction n buf s rule: drain.induct)
  case (1 n buf s)
  obtain l rest where "line_loop (h_eof s) 1023 (h_in s) = Some (l, rest)" using line_loop_eof [of 1023 "h_in s"] 1(2) by auto
  then have g: "get_line 1024 s = Some (s\<lparr>h_in := rest\<rparr>, l)" by (simp add: get_line_def)
  show ?case
  proof (cases "0 < n \<and> cstring buf \<noteq> [LF]")
    case True
    have "drain (length l) l (s\<lparr>h_in := rest\<rparr>) \<noteq> None" by (rule 1(1) [OF True g refl]) (use 1(2) in simp)
    then show ?thesis using g by (simp add: drain.simps [of n])
  qed (auto simp: drain.simps)
qed

lemma get_header_line:
  assumes "header_line l \<or> l = []" "h_in s = l @ CRLF @ tail"
  shows "get_line 1024 s = Some (s\<lparr>h_in := tail\<rparr>, l @ [LF])"
  using line_loop_line [of l 1023 "h_eof s" tail] assms by (auto simp: get_line_def header_line_def)

lemma drain_step:
  assumes "0 < n" "cstring buf \<noteq> [LF]" "header_line l" "h_in s = l @ CRLF @ tail"
  shows "drain n buf s = drain (Suc (length l)) (l @ [LF]) (s\<lparr>h_in := tail\<rparr>)" "cstring (l @ [LF]) \<noteq> [LF]"
proof -
  show "drain n buf s = drain (Suc (length l)) (l @ [LF]) (s\<lparr>h_in := tail\<rparr>)"
    using assms get_header_line [of l s tail] by (simp add: drain.simps [of n])
  obtain c cs where "l = c # cs" "c \<noteq> LF" using assms(3) by (cases l) (auto simp: header_line_def)
  then show "cstring (l @ [LF]) \<noteq> [LF]" by (simp add: cstring_def)
qed

lemma drain_blank:
  "\<forall>l \<in> set ls. header_line l \<Longrightarrow> h_in s = in_lines ls @ CRLF @ tail \<Longrightarrow> 0 < n \<Longrightarrow> cstring buf \<noteq> [LF] \<Longrightarrow>
   drain n buf s = Some (s\<lparr>h_in := tail\<rparr>)"
proof (induction ls arbitrary: n buf s)
  case Nil
  then have "get_line 1024 s = Some (s\<lparr>h_in := tail\<rparr>, [LF])" using get_header_line [of "[]" s tail] by (simp add: in_lines_def)
  moreover have "cstring [LF] = [LF]" by (simp add: cstring_def)
  ultimately show ?case using Nil.prems(3,4) by (simp add: drain.simps)
next
  case (Cons l ls)
  have h: "header_line l" "h_in s = l @ CRLF @ (in_lines ls @ CRLF @ tail)" using Cons.prems(1,2) by (simp_all add: in_lines_def)
  show ?case using drain_step [OF Cons.prems(3,4) h] Cons.IH [of "s\<lparr>h_in := in_lines ls @ CRLF @ tail\<rparr>"] Cons.prems(1) by simp
qed

lemma drain_waits:
  "\<forall>l \<in> set ls. header_line l \<Longrightarrow> h_in s = in_lines ls \<Longrightarrow> \<not> h_eof s \<Longrightarrow> 0 < n \<Longrightarrow> cstring buf \<noteq> [LF] \<Longrightarrow> drain n buf s = None"
proof (induction ls arbitrary: n buf s)
  case Nil
  then have "get_line 1024 s = None" by (simp add: get_line_def in_lines_def eval_nat_numeral)
  then show ?case using Nil.prems(4,5) by (simp add: drain.simps)
next
  case (Cons l ls)
  have h: "header_line l" "h_in s = l @ CRLF @ in_lines ls" using Cons.prems(1,2) by (simp_all add: in_lines_def)
  show ?case using drain_step [OF Cons.prems(4,5) h] Cons.IH [of "s\<lparr>h_in := in_lines ls\<rparr>"] Cons.prems(1,3) by simp
qed

lemma ISspace_simps [simp]: "ISspace CHR '' ''" "\<not> ISspace CHR ''G''" "\<not> ISspace CHR ''E''" "\<not> ISspace CHR ''T''"
  by (simp_all add: ISspace_def)


text \<open>What the server makes of a request line: the method, and with the method GET the rest.\<close>

lemma method_word:
  assumes "\<forall>c \<in> set w. \<not> ISspace c \<and> c \<noteq> CHR 0x00" "length w \<le> 254" "ISspace b"
  shows "\<exists>m. (method_loop 0 (map junk [1024..<1024 + METHOD_SIZE]) (w @ b # rest) = Some (length w, m)) \<and>
    store (length w) CHR 0x00 m = Some (m[length w := CHR 0x00]) \<and> cstring (m[length w := CHR 0x00]) = w"
proof -
  obtain m where m: "method_loop 0 (map junk [1024..<1024 + METHOD_SIZE]) (w @ b # rest) = Some (length w, m)"
      "take (length w) m = w" "length m = 255"
    using method_loop_word [of w 0 b "map junk [1024..<1024 + METHOD_SIZE]" rest] assms by (auto simp: METHOD_SIZE_def)
  have "length w < length m" using m(3) assms(2) by simp
  moreover have "CHR 0x00 \<notin> set w" using assms(1) by blast
  ultimately show ?thesis using m store_ok stored_string by blast
qed

lemma url_word:
  assumes "\<forall>c \<in> set u. \<not> ISspace c \<and> c \<noteq> CHR 0x00" "length u \<le> 254" "ISspace b" "j + length u < n" "length url = 255"
  shows "\<exists>v. url_loop n 0 j url (u @ b # rest) = Some (length u, v) \<and>
    store (length u) CHR 0x00 v = Some (v[length u := CHR 0x00]) \<and> cstring (v[length u := CHR 0x00]) = u"
proof -
  obtain v where v: "url_loop n 0 j url (u @ b # rest) = Some (length u, v)" "take (length u) v = u" "length v = 255"
    using url_loop_word [of u 0 b j n url rest] assms by auto
  have "length u < length v" using v(3) assms(2) by simp
  moreover have "CHR 0x00 \<notin> set u" using assms(1) by blast
  ultimately show ?thesis using v store_ok stored_string by blast
qed

lemma get_request:
  assumes inp: "h_in s = ''GET '' @ u @ '' '' @ hdrs" and u: "u \<noteq> []" "\<forall>c \<in> set u. \<not> ISspace c \<and> c \<noteq> CHR 0x00" "length u \<le> 254"
    and k: "5 + length u \<le> k"
  shows "\<exists>rest. accept_request_http fs (Some k) junk s = do {
     path \<leftarrow> path_of (takeWhile (\<lambda>c. c \<noteq> CHR ''?'') u);
     case fs_stat fs path of
       None \<Rightarrow> (case drain k (''GET '' @ rest) (s\<lparr>h_in := drop k (h_in s)\<rparr>) of
                 None \<Rightarrow> Some Waits
               | Some s1 \<Rightarrow> Some (Returns ((not_found s1)\<lparr>h_open := False\<rparr>)))
     | Some dir \<Rightarrow> do {
         path \<leftarrow> (if dir then path_append path ''/index.html'' else Some path);
         s1 \<leftarrow> serve_file fs path (s\<lparr>h_in := drop k (h_in s)\<rparr>);
         Some (Returns (s1\<lparr>h_open := False\<rparr>)) } }"
proof -
  obtain rest where buf: "take k (h_in s) @ map junk [k..<1024] = ''GET'' @ CHR '' '' # u @ CHR '' '' # rest"
  proof
    have "take k ((''GET '' @ u @ '' '') @ hdrs) = (''GET '' @ u @ '' '') @ take (k - (5 + length u)) hdrs"
      using k by (subst take_append) (simp add: numeral_eq_Suc)
    then have "take k (h_in s) = ''GET '' @ u @ '' '' @ take (k - (5 + length u)) hdrs" by (simp add: inp)
    then show "take k (h_in s) @ map junk [k..<1024] = ''GET'' @ CHR '' '' # u @ CHR '' '' # (take (k - (5 + length u)) hdrs @ map junk [k..<1024])"
      by simp
  qed
  define B where "B = take k (h_in s) @ map junk [k..<1024]"
  define R where "R = CHR '' '' # u @ CHR '' '' # rest"
  have B: "B = ''GET'' @ R" unfolding B_def R_def by (rule buf)
  obtain m where m: "method_loop 0 (map junk [1024..<1024 + METHOD_SIZE]) B = Some (length ''GET'', m)"
      "store (length ''GET'') CHR 0x00 m = Some (m[length ''GET'' := CHR 0x00])" "cstring (m[length ''GET'' := CHR 0x00]) = ''GET''"
    using method_word [of "''GET''" "CHR '' ''" junk "u @ CHR '' '' # rest"] unfolding B R_def by auto
  have d: "drop (length ''GET'') B = R" unfolding B by simp
  have "\<not> ISspace (hd u)" using u(1,2) by simp
  then have sk: "skip_loop k (length ''GET'') R = Some (4, tl R)" unfolding R_def
    using u(1) k by (cases u) auto
  have "4 + length u < k" using k by simp
  then obtain v where v: "url_loop k 0 4 (map junk [1024 + METHOD_SIZE..<1024 + METHOD_SIZE + URL_SIZE]) (tl R) = Some (length u, v)"
      "store (length u) CHR 0x00 v = Some (v[length u := CHR 0x00])" "cstring (v[length u := CHR 0x00]) = u"
    using url_word [OF u(2,3) ISspace_simps(1), of 4 k "map junk [1024 + METHOD_SIZE..<1024 + METHOD_SIZE + URL_SIZE]" rest]
    unfolding R_def list.sel by (auto simp: URL_SIZE_def)
  have g: "same_nocase ''GET'' ''GET''" by (simp add: same_nocase_def)
  have "B = ''GET '' @ tl R" unfolding B R_def by simp
  then show ?thesis
    unfolding accept_request_http_def option.case Let_def B_def [symmetric] m bind.bind_lunit d sk prod.case v
    by (intro exI [of _ "tl R"]) (simp only: g simp_thms if_True if_False not_True_eq_False)
qed

lemma request_not_blank: "cstring (''GET '' @ rest) \<noteq> [LF]"
  by (simp add: cstring_def)

section \<open>Properties\<close>

text \<open>
  \<open>get_line\<close> reads one line and normalises its end: what it returns, put in front of what is left,
  is the same text up to the form of the line ends; it holds at most one less than the size of the buffer, a
  line feed can only be its last character, and it stops early only at a line end or at the end of the stream.  It
  returns whenever the client closes.
\<close>

theorem get_line_normalises:
  assumes "1 < n"
  shows "(h_eof s \<longrightarrow> get_line n s \<noteq> None) \<and> (\<forall>s' l. get_line n s = Some (s', l) \<longrightarrow>
    l @ normal (h_in s') = normal (h_in s) \<and> length l < n \<and> LF \<notin> set (butlast l) \<and>
    (l = [] \<longleftrightarrow> h_in s = []) \<and> (l = [] \<or> last l = LF \<or> length l = n - 1 \<or> h_in s' = [] \<and> h_eof s))"
proof (intro conjI allI impI)
  show "get_line n s \<noteq> None" if "h_eof s" using line_loop_eof [of "n - 1" "h_in s"] that by (auto simp: get_line_def)
next
  fix s' l
  assume "get_line n s = Some (s', l)"
  then obtain rest where l: "line_loop (h_eof s) (n - 1) (h_in s) = Some (l, rest)" "h_in s' = rest"
    by (auto simp: get_line_def)
  note normal = line_loop_normal [OF l(1)]
  show "l @ normal (h_in s') = normal (h_in s)" "LF \<notin> set (butlast l)" "l = [] \<longleftrightarrow> h_in s = []"
    "l = [] \<or> last l = LF \<or> length l = n - 1 \<or> h_in s' = [] \<and> h_eof s"
    using normal assms l(2) by auto
  show "length l < n" using normal [THEN conjunct2, THEN conjunct1] assms by linarith
qed

theorem get_line_normalises_witness:
  "get_line 8 \<lparr>h_in = ''Host'' @ CRLF @ ''x'', h_out = [], h_open = True, h_eof = False\<rparr> =
      Some (\<lparr>h_in = ''x'', h_out = [], h_open = True, h_eof = False\<rparr>, ''Host'' @ [LF]) \<and>
    (''Host'' @ [LF]) @ normal ''x'' = normal (''Host'' @ CRLF @ ''x'')"
proof -
  have l: "get_line 8 \<lparr>h_in = ''Host'' @ CRLF @ ''x'', h_out = [], h_open = True, h_eof = False\<rparr> =
      Some (\<lparr>h_in = ''x'', h_out = [], h_open = True, h_eof = False\<rparr>, ''Host'' @ [LF])"
    by (simp add: get_line_def eval_nat_numeral)
  from get_line_normalises [of 8, THEN conjunct2, rule_format, OF _ this] l show ?thesis by simp
qed

text \<open>
  \<open>cat\<close> sends a text file, one that ends in a line feed, as it is; of any other file without zero bytes the piece
  after the last line end (or after the last full buffer) is not sent, and a short file of one line without its
  end gives an empty page.
\<close>

theorem cat_loses_last_line:
  assumes "CHR 0x00 \<notin> set data"
  shows "(data = [] \<or> last data = LF \<longrightarrow> h_out (cat data s) = h_out s @ data) \<and>
    (LF \<notin> set data \<and> length data < 1023 \<longrightarrow> h_out (cat data s) = h_out s) \<and>
    (\<exists>kept lost. data = kept @ lost \<and> h_out (cat data s) = h_out s @ kept \<and> LF \<notin> set lost \<and> length lost < 1023)"
proof -
  obtain kept lost where k: "data = kept @ lost" "h_out (cat data s) = h_out s @ kept" "LF \<notin> set lost" "length lost < 1023"
      "kept = [] \<or> last kept = LF \<or> 1023 \<le> length kept" using cat_keeps [OF assms] by blast
  have "h_out (cat data s) = h_out s" if "LF \<notin> set data" "length data < 1023"
  proof (cases "kept = []")
    case False
    then have "last kept \<in> set data" "length kept \<le> length data" using k(1) by simp_all
    then show ?thesis using False that k(5) by auto
  qed (use k(2) in simp)
  with k(1-4) show ?thesis using cat_text [OF assms] by blast
qed

theorem cat_loses_last_line_witness:
  "h_out (cat ''hello'' \<lparr>h_in = [], h_out = [], h_open = True, h_eof = True\<rparr>) = [] \<and>
   h_out (cat (''hello'' @ [LF]) \<lparr>h_in = [], h_out = [], h_open = True, h_eof = True\<rparr>) = ''hello'' @ [LF]"
  using cat_loses_last_line [of "''hello''" "\<lparr>h_in = [], h_out = [], h_open = True, h_eof = True\<rparr>", THEN conjunct2, THEN conjunct1]
    cat_loses_last_line [of "''hello'' @ [LF]" "\<lparr>h_in = [], h_out = [], h_open = True, h_eof = True\<rparr>", THEN conjunct1] by simp

definition ok_head :: string where
  "ok_head = ''HTTP/1.0 200 OK'' @ CRLF @ SERVER_STRING @ ''Content-Type: text/html'' @ CRLF @ CRLF"

text \<open>
  C36: the answer to a GET.  When the first recv takes the request line, the path is the URL up to a question
  mark behind \<open>htdocs\<close>, with \<open>index.html\<close> behind a trailing slash, taken as it is, dots included.  For a directory its
  \<open>index.html\<close> is sent, otherwise the file,
  behind the header and as it is if it is a text file; then the connection is closed.  A file that exists
  and cannot be opened ends in undefined behaviour.  For a path that does not exist the server first reads on in
  the stream: it answers with the page for 404 and closes if the client closes its side, or if what the first
  recv left goes on with header lines and a blank line, of which nothing more is read; but if the client keeps the connection
  open and the first recv left only complete header lines, or nothing, as for a request that fits into one recv, it never answers.
\<close>

theorem http_get_answers:
  assumes "h_in s = ''GET '' @ u @ '' '' @ hdrs" "u \<noteq> []" "\<forall>c \<in> set u. \<not> ISspace c \<and> c \<noteq> CHR 0x00" "length u \<le> 254"
    "5 + length u \<le> k" "k \<le> length (h_in s)" "k \<le> 1024"
    "url = takeWhile (\<lambda>c. c \<noteq> CHR ''?'') u"
    "path = ''htdocs'' @ url @ (if last (''htdocs'' @ url) = CHR ''/'' then ''index.html'' else [])"
  shows "case fs_stat fs path of
      None \<Rightarrow>
        (h_eof s \<longrightarrow> (\<exists>s'. accept_request_http fs (Some k) junk s = Some (Returns s') \<and>
           h_out s' = h_out s @ not_found_page \<and> \<not> h_open s')) \<and>
        (\<forall>ls tail. drop k (h_in s) = in_lines ls @ CRLF @ tail \<and> (\<forall>l \<in> set ls. header_line l) \<longrightarrow>
           (\<exists>s'. accept_request_http fs (Some k) junk s = Some (Returns s') \<and>
              h_out s' = h_out s @ not_found_page \<and> \<not> h_open s' \<and> h_in s' = tail)) \<and>
        (\<forall>ls. drop k (h_in s) = in_lines ls \<and> (\<forall>l \<in> set ls. header_line l) \<and> \<not> h_eof s \<longrightarrow>
           accept_request_http fs (Some k) junk s = Some Waits)
    | Some dir \<Rightarrow> (case fs_open fs (if dir then path @ ''/index.html'' else path) of
          None \<Rightarrow> accept_request_http fs (Some k) junk s = None
        | Some data \<Rightarrow> CHR 0x00 \<notin> set data \<and> (data = [] \<or> last data = LF) \<longrightarrow>
            (\<exists>s'. accept_request_http fs (Some k) junk s = Some (Returns s') \<and>
               h_out s' = h_out s @ ok_head @ data \<and> \<not> h_open s' \<and> h_in s' = drop k (h_in s)))"
proof -
  have "length url \<le> 254" using assms(4,8) length_takeWhile_le [of "\<lambda>c. c \<noteq> CHR ''?''" u] by simp
  then have p: "path_of url = Some path" "path_append path ''/index.html'' = Some (path @ ''/index.html'')"
    using path_of_fits [of url] assms(9) by metis+
  obtain rest where run: "accept_request_http fs (Some k) junk s =
     (case fs_stat fs path of
       None \<Rightarrow> (case drain k (''GET '' @ rest) (s\<lparr>h_in := drop k (h_in s)\<rparr>) of
                 None \<Rightarrow> Some Waits
               | Some s1 \<Rightarrow> Some (Returns ((not_found s1)\<lparr>h_open := False\<rparr>)))
     | Some dir \<Rightarrow> do {
         path \<leftarrow> (if dir then path_append path ''/index.html'' else Some path);
         s1 \<leftarrow> serve_file fs path (s\<lparr>h_in := drop k (h_in s)\<rparr>);
         Some (Returns (s1\<lparr>h_open := False\<rparr>)) })"
    using get_request [OF assms(1-5), of fs junk] unfolding assms(8) [symmetric] p(1) bind.bind_lunit by blast
  have k: "0 < k" using assms(5) by simp
  let ?d = "drain k (''GET '' @ rest) (s\<lparr>h_in := drop k (h_in s)\<rparr>)"
  note blank = request_not_blank [of rest]
  show ?thesis
  proof (cases "fs_stat fs path")
    case None
    have "\<exists>s1. ?d = Some s1" if "h_eof s"
      using drain_eof [of "s\<lparr>h_in := drop k (h_in s)\<rparr>" k "''GET '' @ rest"] that by auto
    moreover have "?d = Some (s\<lparr>h_in := tail\<rparr>)"
      if "drop k (h_in s) = in_lines ls @ CRLF @ tail" "\<forall>l \<in> set ls. header_line l" for ls tail
      using drain_blank [OF that(2) _ k blank, of "s\<lparr>h_in := drop k (h_in s)\<rparr>" tail] that(1) by simp
    moreover have "?d = None" if "drop k (h_in s) = in_lines ls" "\<forall>l \<in> set ls. header_line l" "\<not> h_eof s" for ls
      using drain_waits [OF that(2) _ _ k blank, of "s\<lparr>h_in := drop k (h_in s)\<rparr>"] that(1,3) by simp
    ultimately show ?thesis unfolding run None option.case
      by (intro conjI allI impI) (fastforce simp: not_found_out dest: drain_out)+
  next
    case (Some dir)
    then show ?thesis
      by (cases "fs_open fs (if dir then path @ ''/index.html'' else path)")
        (auto simp: run p(2) serve_file_def cat_text cat_frame ok_head_def split: if_splits)
  qed
qed

definition one_page :: fsys where
  "one_page = \<lparr>fs_stat = [''htdocs/index.html'' \<mapsto> False], fs_open = [''htdocs/index.html'' \<mapsto> ''hi'' @ [LF]]\<rparr>"

theorem http_get_answers_witness:
  "(\<exists>s'. accept_request_http one_page (Some 16) (\<lambda>_. CHR 0x00)
      \<lparr>h_in = ''GET '' @ ''/?q'' @ '' '' @ ''HTTP/1.0'', h_out = [], h_open = True, h_eof = False\<rparr> = Some (Returns s') \<and>
    h_out s' = ok_head @ ''hi'' @ [LF] \<and> \<not> h_open s') \<and>
   accept_request_http one_page (Some 17) (\<lambda>_. CHR 0x00)
      \<lparr>h_in = ''GET '' @ ''/a'' @ '' '' @ ''HTTP/1.0'' @ CRLF, h_out = [], h_open = True, h_eof = False\<rparr> = Some Waits"
proof
  let ?s = "\<lparr>h_in = ''GET '' @ ''/?q'' @ '' '' @ ''HTTP/1.0'', h_out = [], h_open = True, h_eof = False\<rparr>"
  have u: "\<forall>c \<in> set ''/?q''. \<not> ISspace c \<and> c \<noteq> CHR 0x00" by (simp add: ISspace_def)
  have p: "''/'' = takeWhile (\<lambda>c. c \<noteq> CHR ''?'') ''/?q''"
    "''htdocs/index.html'' = ''htdocs'' @ ''/'' @ (if last (''htdocs'' @ ''/'') = CHR ''/'' then ''index.html'' else [])"
    by simp_all
  have "h_in ?s = ''GET '' @ ''/?q'' @ '' '' @ ''HTTP/1.0''" by simp
  from http_get_answers [OF this _ u _ _ _ _ p, of 16 one_page "\<lambda>_. CHR 0x00"]
  show "\<exists>s'. accept_request_http one_page (Some 16) (\<lambda>_. CHR 0x00) ?s = Some (Returns s') \<and>
      h_out s' = ok_head @ ''hi'' @ [LF] \<and> \<not> h_open s'"
    by (auto simp: one_page_def)
next
  let ?s = "\<lparr>h_in = ''GET '' @ ''/a'' @ '' '' @ ''HTTP/1.0'' @ CRLF, h_out = [], h_open = True, h_eof = False\<rparr>"
  have u: "\<forall>c \<in> set ''/a''. \<not> ISspace c \<and> c \<noteq> CHR 0x00" by (simp add: ISspace_def)
  have p: "''/a'' = takeWhile (\<lambda>c. c \<noteq> CHR ''?'') ''/a''"
    "''htdocs/a'' = ''htdocs'' @ ''/a'' @ (if last (''htdocs'' @ ''/a'') = CHR ''/'' then ''index.html'' else [])"
    by simp_all
  have "h_in ?s = ''GET '' @ ''/a'' @ '' '' @ ''HTTP/1.0'' @ CRLF" by simp
  note answer = http_get_answers [OF this _ u _ _ _ _ p, of 17 one_page "\<lambda>_. CHR 0x00"]
  have "drop 17 (h_in ?s) = in_lines []" by (simp add: in_lines_def)
  with answer show "accept_request_http one_page (Some 17) (\<lambda>_. CHR 0x00) ?s = Some Waits"
    by (simp add: one_page_def del: append.simps) (metis empty_iff empty_set)
qed



text \<open>
  a request with another method than GET and POST gets the page for 501, and its connection is never
  closed: \<open>accept_request\<close> returns before it reaches nty_close.
\<close>

theorem http_unimplemented_leaks:
  assumes "h_in s = w @ b # hdrs" "\<forall>c \<in> set w. \<not> ISspace c \<and> c \<noteq> CHR 0x00" "length w \<le> 254" "ISspace b" "length w < k"
    "\<not> same_nocase w ''GET''" "\<not> same_nocase w ''POST''"
  shows "\<exists>s'. accept_request_http fs (Some k) junk s = Some (Returns s') \<and> h_open s' = h_open s \<and>
    h_out s' = h_out s @ h_out (unimplemented \<lparr>h_in = [], h_out = [], h_open = True, h_eof = True\<rparr>)"
proof -
  have b: "take k (h_in s) @ map junk [k..<1024] = w @ b # (take (k - Suc (length w)) hdrs @ map junk [k..<1024])"
    using assms(1,5) by (simp add: take_Cons')
  obtain m where m: "method_loop 0 (map junk [1024..<1024 + METHOD_SIZE]) (take k (h_in s) @ map junk [k..<1024]) = Some (length w, m)"
      "store (length w) CHR 0x00 m = Some (m[length w := CHR 0x00])" "cstring (m[length w := CHR 0x00]) = w"
    unfolding b using method_word [OF assms(2-4)] by blast
  have "accept_request_http fs (Some k) junk s = Some (Returns (unimplemented (s\<lparr>h_in := drop k (h_in s)\<rparr>)))"
    unfolding accept_request_http_def option.case Let_def m bind.bind_lunit prod.case using assms(6,7) by simp
  then show ?thesis by (simp add: unimplemented_def Let_def)
qed

theorem http_unimplemented_leaks_witness:
  "\<exists>s'. accept_request_http one_page (Some 6) (\<lambda>_. CHR 0x00)
    \<lparr>h_in = ''HEAD /'', h_out = [], h_open = True, h_eof = False\<rparr> = Some (Returns s') \<and> h_open s'"
proof -
  let ?s = "\<lparr>h_in = ''HEAD /'', h_out = [], h_open = True, h_eof = False\<rparr>"
  have h: "h_in ?s = ''HEAD'' @ CHR '' '' # ''/''" by simp
  have w: "\<forall>c \<in> set ''HEAD''. \<not> ISspace c \<and> c \<noteq> CHR 0x00" by (simp add: ISspace_def)
  have n: "\<not> same_nocase ''HEAD'' ''GET''" "\<not> same_nocase ''HEAD'' ''POST''"
    by (simp_all add: same_nocase_def to_lower_def)
  from http_unimplemented_leaks [OF h w _ _ _ n, of 6 one_page "\<lambda>_. CHR 0x00"] show ?thesis by auto
qed

end
