(* ===== verification/NB_Bench.thy ===== *)
theory NB_Bench
  imports HT_Http C_Decimal "HOL-Library.Sublist"
begin

text \<open>
  The load generator nty_bench.c: its options, the parsing of the URL and the request it builds, a round of
  requests on the answers of connect, send and recv, and the sum over its processes.  Leaving an array
  is \<open>None\<close>.  The last part runs it against the HTTP server of HT_Http.
\<close>

section \<open>Arrays of characters\<close>

definition MAXHOSTNAMELEN :: nat where "MAXHOSTNAMELEN = 64" \<comment> \<open>sys/param.h\<close>
definition REQUEST_SIZE :: nat where "REQUEST_SIZE = 2048"
definition TMP_SIZE :: nat where "TMP_SIZE = 10"
definition RESPONSE_SIZE :: nat where "RESPONSE_SIZE = 1500"

abbreviation NUL :: char where "NUL \<equiv> CHR 0x00"

text \<open>\<open>strncpy(a, src, n)\<close> into a cleared array of \<open>cap\<close> characters, with at least \<open>n\<close> in the source.\<close>

definition strncpy :: "nat \<Rightarrow> string \<Rightarrow> nat \<Rightarrow> char list option" where
  "strncpy cap src n = (if n \<le> cap then Some (take n src @ replicate (cap - n) NUL) else None)"

text \<open>The string in an array, whose end must lie inside.\<close>

definition str_of :: "char list \<Rightarrow> string option" where
  "str_of a = (if NUL \<in> set a then Some (cstring a) else None)"

definition is_digit :: "char \<Rightarrow> bool" where
  "is_digit c \<longleftrightarrow> 48 \<le> (of_char c :: nat) \<and> of_char c \<le> (57 :: nat)"

fun digits_from :: "nat \<Rightarrow> char list \<Rightarrow> nat option" where
  "digits_from n [] = None"
| "digits_from n (c # cs) = (if is_digit c then digits_from (10 * n + (of_char c - 48)) cs else Some n)"

text \<open>\<open>atoi\<close>, undefined beyond the end of the array and beyond an int.\<close>

definition c_atoi :: "char list \<Rightarrow> int option" where
  "c_atoi a =
     (let s = dropWhile ISspace a
      in do {
           n \<leftarrow> (if take 1 s = ''-'' then map_option (\<lambda>n. - int n) (digits_from 0 (tl s))
                else map_option int (digits_from 0 (if take 1 s = ''+'' then tl s else s)));
           if - (2 ^ 31) \<le> n \<and> n < 2 ^ 31 then Some n else None })"

text \<open>\<open>strstr\<close> as an index.\<close>

fun strstr :: "string \<Rightarrow> string \<Rightarrow> nat option" where
  "strstr [] pat = (if pat = [] then Some 0 else None)"
| "strstr (c # cs) pat = (if prefix pat (c # cs) then Some 0 else map_option Suc (strstr cs pat))"

section \<open>The request\<close>

datatype http_method = METHOD_GET | METHOD_HEAD | METHOD_OPTIONS | METHOD_TRACE

fun method_name :: "http_method \<Rightarrow> string" where
  "method_name METHOD_GET = ''GET''"
| "method_name METHOD_HEAD = ''HEAD''"
| "method_name METHOD_OPTIONS = ''OPTIONS''"
| "method_name METHOD_TRACE = ''TRACE''"

record bench_conf =
  b_method :: http_method
  b_http10 :: int
  b_force_reload :: bool
  b_proxyhost :: "string option"
  b_proxyport :: int
  b_host :: string

definition adjust_version :: "bench_conf \<Rightarrow> int" where
  "adjust_version b =
     (let v = b_http10 b;
          v = (if b_force_reload b \<and> b_proxyhost b \<noteq> None \<and> v < 1 then 1 else v);
          v = (if b_method b = METHOD_HEAD \<and> v < 1 then 1 else v);
          v = (if b_method b = METHOD_OPTIONS \<and> v < 2 then 2 else v)
      in if b_method b = METHOD_TRACE \<and> v < 2 then 2 else v)"

text \<open>Host and port of the URL behind \<open>://\<close>, in the arrays \<open>host\<close> and \<open>tmp\<close>.\<close>

definition url_host :: "string \<Rightarrow> bench_conf \<Rightarrow> bench_conf option" where
  "url_host rest b =
     (let auth = takeWhile (\<lambda>c. c \<noteq> CHR ''/'') rest
      in if CHR '':'' \<in> set auth then do {
           host \<leftarrow> strncpy MAXHOSTNAMELEN rest (length (takeWhile (\<lambda>c. c \<noteq> CHR '':'') rest));
           let port = tl (dropWhile (\<lambda>c. c \<noteq> CHR '':'') auth);
           tmp \<leftarrow> strncpy TMP_SIZE port (length port);
           proxyport \<leftarrow> c_atoi tmp;
           host \<leftarrow> str_of host;
           Some (b\<lparr>b_host := host, b_proxyport := (if proxyport = 0 then 80 else proxyport)\<rparr>) }
         else do {
           host \<leftarrow> strncpy MAXHOSTNAMELEN rest (length auth);
           host \<leftarrow> str_of host;
           Some (b\<lparr>b_host := host\<rparr>) })"

text \<open>What \<open>strcat\<close> appends behind the target of the request.\<close>

definition request_tail :: "bench_conf \<Rightarrow> string" where
  "request_tail b =
     (if b_http10 b = 1 then '' HTTP/1.0'' else if b_http10 b = 2 then '' HTTP/1.1'' else []) @ CRLF @
     (if b_http10 b > 0 then ''User-Agent: WebBench 1.5'' @ CRLF else []) @
     (if b_proxyhost b = None \<and> b_http10 b > 0 then ''Host: '' @ b_host b @ CRLF else []) @
     (if b_force_reload b \<and> b_proxyhost b \<noteq> None then ''Pragma: no-cache'' @ CRLF else []) @
     (if b_http10 b > 1 then ''Connection: close'' @ CRLF else []) @
     (if b_http10 b > 0 then CRLF else [])"

text \<open>\<open>Inl\<close> is the exit with a code; the request must fit its array, which it only grows in.\<close>

definition build_request :: "string \<Rightarrow> bench_conf \<Rightarrow> (nat + string \<times> bench_conf) option" where
  "build_request url b =
     (let b = b\<lparr>b_http10 := adjust_version b, b_host := []\<rparr>
      in case strstr url ''://'' of
           None \<Rightarrow> Some (Inl 2)
         | Some k \<Rightarrow>
             if length url > 1500 then Some (Inl 2)
             else if b_proxyhost b = None \<and> \<not> same_nocase (take 7 url) ''http://'' then Some (Inl 2)
             else let rest = drop (k + 3) url
                  in if CHR ''/'' \<notin> set rest then Some (Inl 2)
                     else do {
                       (target, b) \<leftarrow> (if b_proxyhost b = None
                         then do { b \<leftarrow> url_host rest b; Some (dropWhile (\<lambda>c. c \<noteq> CHR ''/'') rest, b) }
                         else Some (url, b));
                       let request = method_name (b_method b) @ '' '' @ target @ request_tail b;
                       if length request < REQUEST_SIZE then Some (Inr (request, b)) else None })"

section \<open>A round of requests\<close>

text \<open>
  \<open>recv_buffer\<close> on the answers of nty_recv: \<open>None\<close> an error, an empty text the end.  It asks for 1024 bytes each time,
  wherever it is in the buffer.  Without an end among the answers it does not return.
\<close>

fun recv_buffer :: "nat \<Rightarrow> string option list \<Rightarrow> string \<Rightarrow> (string \<times> int) option" where
  "recv_buffer cap [] acc = None"
| "recv_buffer cap (None # as) acc = Some (acc, if acc = [] then -1 else 1)"
| "recv_buffer cap (Some bs # as) acc =
     (if bs = [] then Some (acc, if acc = [] then 0 else 1)
      else if length acc + length bs > cap then None
      else recv_buffer cap as (acc @ bs))"

text \<open>\<open>testok\<close> writes through the result of \<open>strchr\<close>, which is null when there is no line end.\<close>

definition testok :: "char list \<Rightarrow> bool option" where
  "testok buf =
     (case dropWhile (\<lambda>c. c \<noteq> LF \<and> c \<noteq> NUL) buf of
        c # _ \<Rightarrow> if c = LF then Some (sublist ''200 OK'' (takeWhile (\<lambda>c. c \<noteq> LF) buf)) else None
      | [] \<Rightarrow> None)"

datatype bround = NoSocket | Sent int "string option list"

record bcounts =
  speed :: nat
  failed :: nat
  bytes :: nat

definition one_request :: "string \<Rightarrow> bround \<Rightarrow> bcounts \<Rightarrow> bcounts option" where
  "one_request req r c =
     (case r of
        NoSocket \<Rightarrow> Some (c\<lparr>failed := failed c + 1\<rparr>)
      | Sent n as \<Rightarrow>
          if int (length req) \<noteq> n then Some (c\<lparr>failed := failed c + 1\<rparr>)
          else do {
            (got, ret) \<leftarrow> recv_buffer RESPONSE_SIZE as [];
            if ret < 0 then Some (c\<lparr>failed := failed c + 1\<rparr>)
            else do {
              ok \<leftarrow> testok (got @ replicate (RESPONSE_SIZE - length got) NUL);
              let c = (if ok then c\<lparr>speed := speed c + 1\<rparr> else c\<lparr>failed := failed c + 1\<rparr>);
              Some (c\<lparr>bytes := bytes c + length got\<rparr>) } })"

fun httprequest_commit :: "string \<Rightarrow> bround list \<Rightarrow> bcounts \<Rightarrow> bcounts option" where
  "httprequest_commit req [] c = Some c"
| "httprequest_commit req (r # rs) c = do { c \<leftarrow> one_request req r c; httprequest_commit req rs c }"

text \<open>\<open>send_buffer\<close> on the answers of nty_send.\<close>

fun send_buffer :: "int list \<Rightarrow> int \<Rightarrow> int \<Rightarrow> int" where
  "send_buffer [] idx len = idx"
| "send_buffer (count # cs) idx len =
     (if idx < len then if count < 0 then idx else send_buffer cs (idx + count) len else idx)"

section \<open>Options\<close>

text \<open>The numbers of processes, requests and sockets, for positive arguments.\<close>

definition bench_numbers :: "nat \<Rightarrow> nat \<Rightarrow> nat \<Rightarrow> nat \<times> nat \<times> nat" where
  "bench_numbers clients nreqs sockets =
     (let clients = (if clients = 0 then 1 else clients);
          clients = (if clients > 10 then 10 else clients);
          nreqs = (if nreqs < 1000 then 1000 else nreqs);
          sockets = (if sockets mod clients \<noteq> 0 then sockets div clients * clients else sockets)
      in (clients, nreqs, sockets))"

text \<open>Each process starts \<open>sockets / clients\<close> coroutines of \<open>nreqs / sockets\<close> rounds.\<close>

definition bench_rounds :: "nat \<Rightarrow> nat \<Rightarrow> nat \<Rightarrow> nat" where
  "bench_rounds clients nreqs sockets =
     (case bench_numbers clients nreqs sockets of (c, n, s) \<Rightarrow> c * (s div c * (n div s)))"

text \<open>\<open>--proxy host:port\<close>: \<open>Inl\<close> is the return of 2 from main.\<close>

definition proxy_option :: "string \<Rightarrow> int \<Rightarrow> (nat + string \<times> int) option" where
  "proxy_option arg port =
     (if CHR '':'' \<notin> set arg then Some (Inr (arg, port))
      else let host = rev (tl (dropWhile (\<lambda>c. c \<noteq> CHR '':'') (rev arg)));
               num = rev (takeWhile (\<lambda>c. c \<noteq> CHR '':'') (rev arg))
           in if host = [] then Some (Inl 2)
              else if num = [] then Some (Inl 2)
              else do { n \<leftarrow> c_atoi (num @ [NUL]); Some (Inr (host, n)) })"

text \<open>What the parent adds up from the pipe, one line for each process.\<close>

fun bench_sum :: "nat \<Rightarrow> (nat \<times> nat \<times> nat) list \<Rightarrow> bcounts \<Rightarrow> bcounts" where
  "bench_sum clients [] c = c"
| "bench_sum clients ((i, j, k) # ls) c =
     (let c = \<lparr>speed = speed c + i, failed = failed c + j, bytes = bytes c + k\<rparr>
      in if clients - 1 = 0 then c else bench_sum (clients - 1) ls c)"

section \<open>Lemmas\<close>

lemma digit_chars: "is_digit (digit k)" "of_char (digit k) - (48 :: nat) = k mod 10" "\<not> ISspace (digit k)"
  "digit k \<noteq> CHR ''-''" "digit k \<noteq> CHR ''+''" "digit k \<noteq> CHR ''/''" "digit k \<noteq> CHR '':''" "digit k \<noteq> NUL"
proof -
  have d: "of_char (digit k) = (48 :: nat) + k mod 10" by (rule of_char_digit)
  have b: "k mod 10 < 10" by simp
  show "is_digit (digit k)" "of_char (digit k) - (48 :: nat) = k mod 10" "\<not> ISspace (digit k)"
    using d b by (simp_all add: is_digit_def ISspace_def)
  have "digit k \<noteq> c" if "of_char c < (48 :: nat) \<or> (57 :: nat) < of_char c" for c
    using that d b by auto
  then show "digit k \<noteq> CHR ''-''" "digit k \<noteq> CHR ''+''" "digit k \<noteq> CHR ''/''" "digit k \<noteq> CHR '':''" "digit k \<noteq> NUL"
    by simp_all
qed

lemma digits_from_all: "\<forall>c \<in> set ds. is_digit c \<Longrightarrow>
  digits_from n (ds @ NUL # rest) = Some (foldl (\<lambda>n c. 10 * n + (of_char c - 48)) n ds)"
  by (induction ds arbitrary: n) (simp_all add: is_digit_def)

lemma dec_nat_front: "\<exists>k ds. dec_nat n = digit k # ds"
proof -
  have "dec_nat n \<noteq> []" by (simp add: dec_nat.simps [of n])
  then show ?thesis using dec_nat_digits [of "hd (dec_nat n)" n] by (cases "dec_nat n") auto
qed

lemma atoi_dec_nat:
  assumes "n < 2 ^ 31" "0 < k"
  shows "c_atoi (dec_nat n @ replicate k NUL) = Some (int n)"
proof -
  obtain d ds where f: "dec_nat n = digit d # ds" using dec_nat_front by blast
  have "\<forall>c \<in> set (dec_nat n). is_digit c" using dec_nat_digits digit_chars(1) by blast
  then have "digits_from 0 (dec_nat n @ replicate k NUL) = Some n"
    using digits_from_all [of "dec_nat n" 0 "replicate (k - 1) NUL"] undec_dec_nat [of n] assms(2)
    by (cases k) (simp_all add: undec_def)
  then show ?thesis using assms(1) f digit_chars(3-5) [of d] by (simp add: c_atoi_def Let_def)
qed

lemma cstring_pad: "NUL \<notin> set xs \<Longrightarrow> cstring (xs @ replicate k NUL) = xs"
  by (induction xs) (cases k, auto simp: cstring_def)

lemma str_of_pad: "NUL \<notin> set h \<Longrightarrow> length h < n \<Longrightarrow> str_of (h @ replicate (n - length h) NUL) = Some h"
  by (simp add: str_of_def cstring_pad)

lemma url_host_port:
  assumes "\<forall>c \<in> set h. c \<noteq> CHR ''/'' \<and> c \<noteq> CHR '':'' \<and> c \<noteq> NUL" "length h < MAXHOSTNAMELEN" "0 < p" "p < 10 ^ 9"
  shows "url_host (h @ CHR '':'' # dec_nat p @ CHR ''/'' # path) b = Some (b\<lparr>b_host := h, b_proxyport := int p\<rparr>)"
proof -
  have dec: "c \<noteq> CHR ''/''" if "c \<in> set (dec_nat p)" for c using dec_nat_digits [OF that] digit_chars(6) by metis
  then have auth: "takeWhile (\<lambda>c. c \<noteq> CHR ''/'') (h @ CHR '':'' # dec_nat p @ CHR ''/'' # path) = h @ CHR '':'' # dec_nat p"
    using assms(1) by (simp add: takeWhile_append)
  have host: "takeWhile (\<lambda>c. c \<noteq> CHR '':'') (h @ CHR '':'' # r) = h" "dropWhile (\<lambda>c. c \<noteq> CHR '':'') (h @ CHR '':'' # r) = CHR '':'' # r"
    for r using assms(1) by (simp_all add: takeWhile_append dropWhile_append)
  have len: "length (dec_nat p) \<le> 9" using dec_nat_length [OF assms(4)] by simp
  then have num: "c_atoi (dec_nat p @ replicate (TMP_SIZE - length (dec_nat p)) NUL) = Some (int p)"
    using assms(4) by (intro atoi_dec_nat) (simp_all add: TMP_SIZE_def)
  have "str_of (h @ replicate (MAXHOSTNAMELEN - length h) NUL) = Some h" using assms(1,2) by (intro str_of_pad) auto
  then show ?thesis
    using len num assms(2,3) by (simp add: url_host_def Let_def auth host strncpy_def TMP_SIZE_def)
qed

lemma strstr_http: "strstr (''http://'' @ x) ''://'' = Some 4"
  by simp

lemma build_http:
  assumes "b_proxyhost b = None" "length rest \<le> 1493" "CHR ''/'' \<in> set rest"
  shows "build_request (''http://'' @ rest) b = do {
    b \<leftarrow> url_host rest (b\<lparr>b_http10 := adjust_version b, b_host := []\<rparr>);
    let request = method_name (b_method b) @ '' '' @ dropWhile (\<lambda>c. c \<noteq> CHR ''/'') rest @ request_tail b;
    if length request < REQUEST_SIZE then Some (Inr (request, b)) else None }"
proof -
  have "same_nocase (take 7 (''http://'' @ rest)) ''http://''" by (simp add: same_nocase_def)
  moreover have "drop (4 + 3) (''http://'' @ rest) = rest" by simp
  ultimately show ?thesis
    using assms unfolding build_request_def Let_def strstr_http option.case
    by (cases "url_host rest (b\<lparr>b_http10 := adjust_version b, b_host := []\<rparr>)") simp_all
qed

lemma build_http_result:
  assumes "b_proxyhost b = None" "length rest \<le> 1493" "CHR ''/'' \<in> set rest"
    "url_host rest (b\<lparr>b_http10 := adjust_version b, b_host := []\<rparr>) = Some b'"
    "req = method_name (b_method b') @ '' '' @ dropWhile (\<lambda>c. c \<noteq> CHR ''/'') rest @ request_tail b'"
    "length req < REQUEST_SIZE"
  shows "build_request (''http://'' @ rest) b = Some (Inr (req, b'))"
  unfolding build_http [OF assms(1-3)] assms(4) Let_def bind.bind_lunit assms(5) [symmetric] using assms(6) by simp

lemma url_host_plain:
  assumes "\<forall>c \<in> set h. c \<noteq> CHR ''/'' \<and> c \<noteq> CHR '':'' \<and> c \<noteq> NUL" "length h < MAXHOSTNAMELEN"
  shows "url_host (h @ CHR ''/'' # path) b = Some (b\<lparr>b_host := h\<rparr>)"
proof -
  have auth: "takeWhile (\<lambda>c. c \<noteq> CHR ''/'') (h @ CHR ''/'' # path) = h" "CHR '':'' \<notin> set h"
    using assms(1) by (auto simp: takeWhile_append)
  have "str_of (h @ replicate (MAXHOSTNAMELEN - length h) NUL) = Some h" using assms by (intro str_of_pad) auto
  then show ?thesis using auth(2) assms(2) by (simp add: url_host_def Let_def auth strncpy_def)
qed

lemma build_http_exit:
  assumes "b_proxyhost b = None" "\<not> (length rest \<le> 1493 \<and> CHR ''/'' \<in> set rest)"
  shows "build_request (''http://'' @ rest) b = Some (Inl 2)"
proof -
  have "same_nocase (take 7 (''http://'' @ rest)) ''http://''" by (simp add: same_nocase_def)
  moreover have "drop (4 + 3) (''http://'' @ rest) = rest" by simp
  ultimately show ?thesis
    using assms unfolding build_request_def Let_def strstr_http option.case by simp
qed

lemma digits_bound:
  "length ds \<le> k \<Longrightarrow> \<exists>m. digits_from n (ds @ NUL # rest) = Some m \<and> m < (n + 1) * 10 ^ k"
proof (induction ds arbitrary: n k)
  case (Cons c ds)
  then obtain j where j: "k = Suc j" "length ds \<le> j" by (cases k) auto
  show ?case
  proof (cases "is_digit c")
    case True
    then have "of_char c - (48 :: nat) \<le> 9" by (auto simp: is_digit_def)
    then have "10 * n + (of_char c - 48) + 1 \<le> (n + 1) * (10 :: nat)" by simp
    then have "(10 * n + (of_char c - 48) + 1) * 10 ^ j \<le> (n + 1) * (10 :: nat) ^ k"
      unfolding j(1) power_Suc by (metis mult.assoc mult_le_mono1)
    then show ?thesis using Cons.IH [OF j(2), of "10 * n + (of_char c - 48)"] True by fastforce
  next
    case False
    have "n < (n + 1) * 10 ^ k" using mult_le_mono2 [of 1 "10 ^ k" "n + 1"] by simp
    then show ?thesis using False by simp
  qed
next
  case Nil
  have "n < (n + 1) * 10 ^ k" using mult_le_mono2 [of 1 "10 ^ k" "n + 1"] by simp
  then show ?case by (simp add: is_digit_def)
qed

lemma c_atoi_short:
  assumes "length ds < 10" "ds @ replicate k NUL = a" "0 < k"
  shows "c_atoi a \<noteq> None"
proof -
  obtain es where es: "dropWhile ISspace a = es @ NUL # replicate (k - 1) NUL" "length es < 10"
  proof -
    have "a = ds @ NUL # replicate (k - 1) NUL" using assms(2,3) by (cases k) auto
    moreover have "\<not> ISspace NUL" by (simp add: ISspace_def)
    ultimately have "dropWhile ISspace a = dropWhile ISspace ds @ NUL # replicate (k - 1) NUL"
      by (simp add: dropWhile_append3)
    moreover have "length (dropWhile ISspace ds) < 10" using length_dropWhile_le [of ISspace ds] assms(1) by linarith
    ultimately show thesis by (rule that)
  qed
  have some: "\<exists>m. digits_from 0 (fs @ NUL # replicate (k - 1) NUL) = Some m \<and> m < 10 ^ 9" if "length fs < 10" for fs
    using digits_bound [of fs 9 0] that by simp
  show ?thesis using some [of es] some [of "tl es"] es by (cases es) (auto simp: c_atoi_def Let_def)
qed

lemma url_host_defined:
  assumes rest: "NUL \<notin> set rest" and auth: "auth = takeWhile (\<lambda>c. c \<noteq> CHR ''/'') rest"
    and host: "length (takeWhile (\<lambda>c. c \<noteq> CHR '':'') auth) < MAXHOSTNAMELEN"
    and port: "length (tl (dropWhile (\<lambda>c. c \<noteq> CHR '':'') auth)) < TMP_SIZE"
  shows "\<exists>b'. url_host rest b = Some b' \<and> length (b_host b') < MAXHOSTNAMELEN \<and> b_method b' = b_method b"
proof -
  have host_str: "str_of (take n rest @ replicate (MAXHOSTNAMELEN - n) NUL) = Some (take n rest)"
    if "n < MAXHOSTNAMELEN" "n \<le> length rest" for n
  proof -
    have "NUL \<notin> set (take n rest)" using rest by (auto dest: in_set_takeD)
    then show ?thesis using str_of_pad [of "take n rest" MAXHOSTNAMELEN] that by simp
  qed
  show ?thesis
  proof (cases "CHR '':'' \<in> set auth")
    case True
    let ?n = "length (takeWhile (\<lambda>c. c \<noteq> CHR '':'') rest)" and ?p = "tl (dropWhile (\<lambda>c. c \<noteq> CHR '':'') auth)"
    have "rest = auth @ dropWhile (\<lambda>c. c \<noteq> CHR ''/'') rest" using auth by simp
    moreover have "takeWhile (\<lambda>c. c \<noteq> CHR '':'') (auth @ ys) = takeWhile (\<lambda>c. c \<noteq> CHR '':'') auth" for ys
      using True by (simp add: takeWhile_append1 [of "CHR '':''"])
    ultimately have "takeWhile (\<lambda>c. c \<noteq> CHR '':'') rest = takeWhile (\<lambda>c. c \<noteq> CHR '':'') auth"
      by (elim ssubst)
    then have n: "?n < MAXHOSTNAMELEN" "?n \<le> length rest"
      using host by (simp, intro length_takeWhile_le)
    have "c_atoi (?p @ replicate (TMP_SIZE - length ?p) NUL) \<noteq> None"
      by (rule c_atoi_short [OF _ refl]) (use port in \<open>simp_all add: TMP_SIZE_def\<close>)
    then obtain x where "c_atoi (?p @ replicate (TMP_SIZE - length ?p) NUL) = Some x" by blast
    then show ?thesis
      unfolding url_host_def Let_def auth [symmetric] using True port n host_str [OF n] by (simp add: strncpy_def)
  next
    case False
    then have "takeWhile (\<lambda>c. c \<noteq> CHR '':'') auth = auth" by (intro takeWhile_eq_all_conv [THEN iffD2]) auto
    with host have n: "length auth < MAXHOSTNAMELEN" by (elim subst)
    have le: "length auth \<le> length rest" unfolding auth by (rule length_takeWhile_le)
    then show ?thesis
      unfolding url_host_def Let_def auth [symmetric] using False n host_str [OF n le] auth by (simp add: strncpy_def takeWhile_eq_take [symmetric])
  qed
qed

lemma recv_buffer_all:
  "[] \<notin> set cs \<Longrightarrow> recv_buffer cap (map Some cs @ [Some []]) acc =
    (if cs \<noteq> [] \<and> cap < length acc + length (concat cs) then None
     else Some (acc @ concat cs, if acc = [] \<and> cs = [] then 0 else 1))"
  by (induction cs arbitrary: acc) auto

lemma testok_ok: "testok (ok_head @ rest) = Some True"
proof -
  have "sublist ''200 OK'' (''HTTP/1.0 '' @ ''200 OK'' @ [CR])" by (rule sublist_appendI)
  then show ?thesis by (simp add: testok_def ok_head_def)
qed

lemma no_answer: "one_request req (Sent (int (length req)) [Some []]) c = None"
proof -
  have "testok (replicate n NUL) = None" for n by (cases n) (simp_all add: testok_def)
  then show ?thesis by (simp add: one_request_def)
qed

section \<open>Properties\<close>

definition bench_request :: "string \<Rightarrow> string \<Rightarrow> string" where
  "bench_request h path = ''GET /'' @ path @ '' HTTP/1.0'' @ CRLF @ ''User-Agent: WebBench 1.5'' @ CRLF @ ''Host: '' @ h @ CRLF @ CRLF"

lemma build_http_port:
  assumes "\<forall>c \<in> set h. c \<noteq> CHR ''/'' \<and> c \<noteq> CHR '':'' \<and> c \<noteq> NUL" "length h < MAXHOSTNAMELEN" "0 < p" "p < 10 ^ 9"
    "length path \<le> 1400" "b_proxyhost b = None" "b_method b = METHOD_GET" "b_http10 b = 1"
  shows "build_request (''http://'' @ h @ '':'' @ dec_nat p @ ''/'' @ path) b =
    Some (Inr (bench_request h path, b\<lparr>b_host := h, b_proxyport := int p\<rparr>))"
proof -
  let ?rest = "h @ CHR '':'' # dec_nat p @ CHR ''/'' # path"
  have v: "adjust_version b = 1" using assms(6-8) by (simp add: adjust_version_def)
  have len: "length (dec_nat p) \<le> 9" using dec_nat_length [OF assms(4)] by simp
  then have fits: "length ?rest \<le> 1493" using assms(2,5) by (simp add: MAXHOSTNAMELEN_def)
  have dec: "c \<noteq> CHR ''/''" if "c \<in> set (dec_nat p)" for c using dec_nat_digits [OF that] digit_chars(6) by metis
  then have target: "dropWhile (\<lambda>c. c \<noteq> CHR ''/'') ?rest = ''/'' @ path"
    using assms(1) by (simp add: dropWhile_append)
  let ?b = "b\<lparr>b_http10 := 1, b_host := h, b_proxyport := int p\<rparr>"
  have "build_request (''http://'' @ ?rest) b = Some (Inr (bench_request h path, ?b))"
  proof (rule build_http_result [OF assms(6) fits])
    show "bench_request h path = method_name (b_method ?b) @ '' '' @ dropWhile (\<lambda>c. c \<noteq> CHR ''/'') ?rest @ request_tail ?b"
      unfolding target using assms(6,7) by (simp add: request_tail_def bench_request_def)
    show "url_host ?rest (b\<lparr>b_http10 := adjust_version b, b_host := []\<rparr>) = Some ?b"
      unfolding v using url_host_port [OF assms(1-4), of path "b\<lparr>b_http10 := 1, b_host := []\<rparr>"] by simp
  qed (use assms(2,5) in \<open>simp_all add: bench_request_def REQUEST_SIZE_def MAXHOSTNAMELEN_def\<close>)
  then show ?thesis using assms(8) by simp
qed

lemma build_http_plain:
  assumes "\<forall>c \<in> set h. c \<noteq> CHR ''/'' \<and> c \<noteq> CHR '':'' \<and> c \<noteq> NUL" "length h < MAXHOSTNAMELEN"
    "length path \<le> 1400" "b_proxyhost b = None" "b_method b = METHOD_GET" "b_http10 b = 1"
  shows "build_request (''http://'' @ h @ ''/'' @ path) b = Some (Inr (bench_request h path, b\<lparr>b_host := h\<rparr>))"
proof -
  let ?rest = "h @ CHR ''/'' # path" and ?b = "b\<lparr>b_http10 := 1, b_host := h\<rparr>"
  have v: "adjust_version b = 1" using assms(4-6) by (simp add: adjust_version_def)
  have fits: "length ?rest \<le> 1493" using assms(2,3) by (simp add: MAXHOSTNAMELEN_def)
  have target: "dropWhile (\<lambda>c. c \<noteq> CHR ''/'') ?rest = ''/'' @ path"
    using assms(1) by (simp add: dropWhile_append)
  have "build_request (''http://'' @ ?rest) b = Some (Inr (bench_request h path, ?b))"
  proof (rule build_http_result [OF assms(4) fits])
    show "bench_request h path = method_name (b_method ?b) @ '' '' @ dropWhile (\<lambda>c. c \<noteq> CHR ''/'') ?rest @ request_tail ?b"
      unfolding target using assms(4,5) by (simp add: request_tail_def bench_request_def)
    show "url_host ?rest (b\<lparr>b_http10 := adjust_version b, b_host := []\<rparr>) = Some ?b"
      unfolding v using url_host_plain [OF assms(1,2), of path "b\<lparr>b_http10 := 1, b_host := []\<rparr>"] by simp
  qed (use assms(2,3) in \<open>simp_all add: bench_request_def REQUEST_SIZE_def MAXHOSTNAMELEN_def\<close>)
  then show ?thesis using assms(6) by simp
qed

text \<open>
  C40: parsing undoes printing.  For a URL made of a host of less than 64 characters, a port and a path,
  the generator finds exactly these, stays inside its arrays, and builds the request for the path.
\<close>

theorem bench_request_roundtrip:
  assumes "\<forall>c \<in> set h. c \<noteq> CHR ''/'' \<and> c \<noteq> CHR '':'' \<and> c \<noteq> NUL" "length h < MAXHOSTNAMELEN" "0 < p" "p < 10 ^ 9"
    "length path \<le> 1400" "b_proxyhost b = None" "b_method b = METHOD_GET" "b_http10 b = 1"
  shows "build_request (''http://'' @ h @ '':'' @ dec_nat p @ ''/'' @ path) b =
      Some (Inr (bench_request h path, b\<lparr>b_host := h, b_proxyport := int p\<rparr>)) \<and>
    build_request (''http://'' @ h @ ''/'' @ path) b = Some (Inr (bench_request h path, b\<lparr>b_host := h\<rparr>))"
  using build_http_port [OF assms] build_http_plain [OF assms(1,2,5-8)] ..

theorem bench_request_roundtrip_witness:
  "build_request (''http://'' @ ''localhost'' @ '':'' @ dec_nat 8080 @ ''/'' @ ''a.html'') \<lparr>b_method = METHOD_GET, b_http10 = 1,
      b_force_reload = False, b_proxyhost = None, b_proxyport = 80, b_host = []\<rparr> =
    Some (Inr (bench_request ''localhost'' ''a.html'', \<lparr>b_method = METHOD_GET, b_http10 = 1, b_force_reload = False,
      b_proxyhost = None, b_proxyport = 8080, b_host = ''localhost''\<rparr>))"
proof -
  have h: "\<forall>c \<in> set ''localhost''. c \<noteq> CHR ''/'' \<and> c \<noteq> CHR '':'' \<and> c \<noteq> NUL" "length ''localhost'' < MAXHOSTNAMELEN"
    "(0 :: nat) < 8080" "(8080 :: nat) < 10 ^ 9" "length ''a.html'' \<le> 1400"
    by (simp_all add: MAXHOSTNAMELEN_def)
  let ?b = "\<lparr>b_method = METHOD_GET, b_http10 = 1, b_force_reload = False, b_proxyhost = None, b_proxyport = 80, b_host = []\<rparr>"
  have upd: "?b\<lparr>b_host := ''localhost'', b_proxyport := int 8080\<rparr> =
      \<lparr>b_method = METHOD_GET, b_http10 = 1, b_force_reload = False, b_proxyhost = None, b_proxyport = 8080, b_host = ''localhost''\<rparr>"
    by simp
  have "build_request (''http://'' @ ''localhost'' @ '':'' @ dec_nat 8080 @ ''/'' @ ''a.html'') ?b =
      Some (Inr (bench_request ''localhost'' ''a.html'', ?b\<lparr>b_host := ''localhost'', b_proxyport := int 8080\<rparr>))"
    by (rule bench_request_roundtrip [OF h, THEN conjunct1]) (rule bench_conf.select_convs)+
  then show ?thesis unfolding upd .
qed

text \<open>
  The two halves of the property below: the server's answer to a request for an existing text file,
  and the generator's round over an answer that starts with the status line of a success.
\<close>

lemma page_served:
  assumes path: "\<forall>c \<in> set path. \<not> ISspace c \<and> c \<noteq> NUL \<and> c \<noteq> CHR ''?''" "path \<noteq> []" "last path \<noteq> CHR ''/''" "length path \<le> 253"
    and page: "fs_stat fs (''htdocs/'' @ path) = Some False" "fs_open fs (''htdocs/'' @ path) = Some data"
    and r: "req = ''GET '' @ (CHR ''/'' # path) @ '' '' @ hdrs" and len: "5 + length (CHR ''/'' # path) \<le> length req"
  shows "accept_request_http fs (Some (length req)) junk \<lparr>h_in = req, h_out = [], h_open = True, h_eof = e\<rparr> =
    Some (Returns (cat data (headers \<lparr>h_in = [], h_out = [], h_open = True, h_eof = e\<rparr>)\<lparr>h_open := False\<rparr>))"
proof -
  let ?s = "\<lparr>h_in = req, h_out = [], h_open = True, h_eof = e\<rparr>"
  have u: "\<forall>c \<in> set (CHR ''/'' # path). \<not> ISspace c \<and> c \<noteq> NUL" using path(1) by (simp add: ISspace_def)
  have url: "takeWhile (\<lambda>c. c \<noteq> CHR ''?'') path = path"
    using path(1) by (intro takeWhile_eq_all_conv [THEN iffD2]) auto
  obtain pth where "path_of (CHR ''/'' # path) = Some pth"
    "pth = ''htdocs'' @ (CHR ''/'' # path) @ (if last (''htdocs'' @ (CHR ''/'' # path)) = CHR ''/'' then ''index.html'' else [])"
    by (rule path_of_fits [of "CHR ''/'' # path"]) (use path(4) in simp_all)
  then have p: "path_of (CHR ''/'' # path) = Some (''htdocs/'' @ path)" using path(2,3) by simp
  obtain rest where "accept_request_http fs (Some (length req)) junk ?s = do {
     pth \<leftarrow> path_of (takeWhile (\<lambda>c. c \<noteq> CHR ''?'') (CHR ''/'' # path));
     case fs_stat fs pth of
       None \<Rightarrow> (case drain (length req) (''GET '' @ rest) (?s\<lparr>h_in := drop (length req) (h_in ?s)\<rparr>) of
                 None \<Rightarrow> Some Waits
               | Some s1 \<Rightarrow> Some (Returns ((not_found s1)\<lparr>h_open := False\<rparr>)))
     | Some dir \<Rightarrow> do {
         pth \<leftarrow> (if dir then path_append pth ''/index.html'' else Some pth);
         s1 \<leftarrow> serve_file fs pth (?s\<lparr>h_in := drop (length req) (h_in ?s)\<rparr>);
         Some (Returns (s1\<lparr>h_open := False\<rparr>)) } }"
    using get_request [of ?s "CHR ''/'' # path" hdrs "length req" fs junk] r u path(4) len by auto
  then show ?thesis using p page by (simp add: url serve_file_def)
qed

lemma one_request_page:
  assumes "concat cs = ok_head @ data" "[] \<notin> set cs"
  shows "one_request req (Sent (int (length req)) (map Some cs @ [Some []])) c =
    (if length ok_head + length data \<le> RESPONSE_SIZE
     then Some (c\<lparr>speed := speed c + 1, bytes := bytes c + length ok_head + length data\<rparr>) else None)"
proof -
  have "cs \<noteq> []" using assms(1) by (auto simp: ok_head_def)
  with recv_buffer_all [of cs RESPONSE_SIZE "[]"] assms
  have recv: "recv_buffer RESPONSE_SIZE (map Some cs @ [Some []]) [] =
      (if length ok_head + length data \<le> RESPONSE_SIZE then Some (ok_head @ data, 1) else None)"
    by auto
  show ?thesis by (simp add: one_request_def recv testok_ok add.assoc)
qed

text \<open>
  C11: the load generator against the HTTP server of the same directory.  Given the URL of a text file, the
  server answers the request that is built with the file; the generator counts the round as a success with all
  its bytes, in whatever pieces they arrive, when header and file have at most 1500 bytes, and writes
  beyond its buffer when they have more.
\<close>

theorem bench_meets_server:
  assumes "\<forall>c \<in> set h. c \<noteq> CHR ''/'' \<and> c \<noteq> CHR '':'' \<and> c \<noteq> NUL" "length h < MAXHOSTNAMELEN" "0 < p" "p < 10 ^ 9"
    and path: "\<forall>c \<in> set path. \<not> ISspace c \<and> c \<noteq> NUL \<and> c \<noteq> CHR ''?''" "path \<noteq> []" "last path \<noteq> CHR ''/''" "length path \<le> 253"
    and b: "b_proxyhost b = None" "b_method b = METHOD_GET" "b_http10 b = 1"
    and page: "fs_stat fs (''htdocs/'' @ path) = Some False" "fs_open fs (''htdocs/'' @ path) = Some data"
      "NUL \<notin> set data" "data = [] \<or> last data = LF"
  shows "\<exists>req b' s. build_request (''http://'' @ h @ '':'' @ dec_nat p @ ''/'' @ path) b = Some (Inr (req, b')) \<and>
    b_host b' = h \<and> b_proxyport b' = int p \<and> length req \<le> 1024 \<and>
    accept_request_http fs (Some (length req)) junk \<lparr>h_in = req, h_out = [], h_open = True, h_eof = e\<rparr> = Some (Returns s) \<and> \<not> h_open s \<and>
    (\<forall>cs c. concat cs = h_out s \<and> [] \<notin> set cs \<longrightarrow>
       one_request req (Sent (int (length req)) (map Some cs @ [Some []])) c =
         (if length ok_head + length data \<le> RESPONSE_SIZE
          then Some (c\<lparr>speed := speed c + 1, bytes := bytes c + length ok_head + length data\<rparr>) else None))"
proof -
  define req where "req = bench_request h path"
  define s where "s = cat data (headers \<lparr>h_in = [], h_out = [], h_open = True, h_eof = e\<rparr>)\<lparr>h_open := False\<rparr>"
  have build: "build_request (''http://'' @ h @ '':'' @ dec_nat p @ ''/'' @ path) b =
      Some (Inr (req, b\<lparr>b_host := h, b_proxyport := int p\<rparr>))"
    unfolding req_def using build_http_port [OF assms(1-4) _ b] path(4) by simp
  let ?hdrs = "''HTTP/1.0'' @ CRLF @ ''User-Agent: WebBench 1.5'' @ CRLF @ ''Host: '' @ h @ CRLF @ CRLF"
  have r: "req = ''GET '' @ (CHR ''/'' # path) @ '' '' @ ?hdrs" by (simp add: req_def bench_request_def)
  have len: "length req \<le> 1024" "5 + length (CHR ''/'' # path) \<le> length req"
    using assms(2) path(4) by (simp_all add: r MAXHOSTNAMELEN_def)
  have run: "accept_request_http fs (Some (length req)) junk \<lparr>h_in = req, h_out = [], h_open = True, h_eof = e\<rparr> = Some (Returns s)"
    unfolding s_def by (rule page_served [OF path page(1,2) r len(2)])
  have out: "h_out s = ok_head @ data" using cat_text [OF page(3,4)] by (simp add: s_def ok_head_def)
  show ?thesis
    by (intro exI [of _ req] exI [of _ "b\<lparr>b_host := h, b_proxyport := int p\<rparr>"] exI [of _ s])
      (use build run len out one_request_page in \<open>simp add: s_def\<close>)
qed

definition greeting_site :: fsys where
  "greeting_site = \<lparr>fs_stat = [''htdocs/a'' \<mapsto> False], fs_open = [''htdocs/a'' \<mapsto> ''hi'' @ [LF]]\<rparr>"

theorem bench_meets_server_witness:
  "\<exists>req b' s. build_request (''http://'' @ ''h'' @ '':'' @ dec_nat 80 @ ''/'' @ ''a'')
      \<lparr>b_method = METHOD_GET, b_http10 = 1, b_force_reload = False, b_proxyhost = None, b_proxyport = 80, b_host = []\<rparr> =
      Some (Inr (req, b')) \<and>
    accept_request_http greeting_site (Some (length req)) (\<lambda>_. NUL) \<lparr>h_in = req, h_out = [], h_open = True, h_eof = False\<rparr> = Some (Returns s) \<and>
    one_request req (Sent (int (length req)) (map Some [h_out s] @ [Some []])) \<lparr>speed = 0, failed = 0, bytes = 0\<rparr> =
      Some \<lparr>speed = 1, failed = 0, bytes = length ok_head + 3\<rparr>"
proof -
  have h: "\<forall>c \<in> set ''h''. c \<noteq> CHR ''/'' \<and> c \<noteq> CHR '':'' \<and> c \<noteq> NUL" "length ''h'' < MAXHOSTNAMELEN" "(0 :: nat) < 80" "(80 :: nat) < 10 ^ 9"
    "\<forall>c \<in> set ''a''. \<not> ISspace c \<and> c \<noteq> NUL \<and> c \<noteq> CHR ''?''" "''a'' \<noteq> []" "last ''a'' \<noteq> CHR ''/''" "length ''a'' \<le> 253"
    by (simp_all add: MAXHOSTNAMELEN_def ISspace_def)
  let ?b = "\<lparr>b_method = METHOD_GET, b_http10 = 1, b_force_reload = False, b_proxyhost = None, b_proxyport = 80, b_host = []\<rparr>"
  have "fs_stat greeting_site (''htdocs/'' @ ''a'') = Some False" "fs_open greeting_site (''htdocs/'' @ ''a'') = Some (''hi'' @ [LF])"
    "NUL \<notin> set (''hi'' @ [LF])" "''hi'' @ [LF] = [] \<or> last (''hi'' @ [LF]) = LF"
    by (simp_all add: greeting_site_def)
  note site = this
  have b: "b_proxyhost ?b = None" "b_method ?b = METHOD_GET" "b_http10 ?b = 1" by simp_all
  from bench_meets_server [OF h b site, of "\<lambda>_. NUL" False]
  obtain req b' s where r: "build_request (''http://'' @ ''h'' @ '':'' @ dec_nat 80 @ ''/'' @ ''a'') ?b = Some (Inr (req, b'))"
    "accept_request_http greeting_site (Some (length req)) (\<lambda>_. NUL) \<lparr>h_in = req, h_out = [], h_open = True, h_eof = False\<rparr> = Some (Returns s)"
    "\<And>cs c. concat cs = h_out s \<Longrightarrow> [] \<notin> set cs \<Longrightarrow> one_request req (Sent (int (length req)) (map Some cs @ [Some []])) c =
         (if length ok_head + length (''hi'' @ [LF]) \<le> RESPONSE_SIZE
          then Some (c\<lparr>speed := speed c + 1, bytes := bytes c + length ok_head + length (''hi'' @ [LF])\<rparr>) else None)"
    by blast
  have ne: "h_out s \<noteq> []"
  proof
    assume "h_out s = []"
    then show False using r(3) [of "[]" "\<lparr>speed = 0, failed = 0, bytes = 0\<rparr>"] no_answer [of req]
      by (simp add: ok_head_def SERVER_STRING_def RESPONSE_SIZE_def)
  qed
  have "length ok_head + length (''hi'' @ [LF]) \<le> RESPONSE_SIZE" by (simp add: ok_head_def SERVER_STRING_def RESPONSE_SIZE_def)
  then have "one_request req (Sent (int (length req)) (map Some [h_out s] @ [Some []])) \<lparr>speed = 0, failed = 0, bytes = 0\<rparr> =
      Some \<lparr>speed = 1, failed = 0, bytes = length ok_head + 3\<rparr>"
    using r(3) [of "[h_out s]" "\<lparr>speed = 0, failed = 0, bytes = 0\<rparr>"] ne by simp
  then show ?thesis using r(1,2) by blast
qed

text \<open>
  Building a request is defined, and fits its array, for every URL whose host has less than 64 characters and
  whose port has less than 10, whatever the method, the version and the other options.
\<close>

theorem build_request_defined:
  assumes b: "b_proxyhost b = None" and rest: "NUL \<notin> set rest"
    and auth: "auth = takeWhile (\<lambda>c. c \<noteq> CHR ''/'') rest"
    and host: "length (takeWhile (\<lambda>c. c \<noteq> CHR '':'') auth) < MAXHOSTNAMELEN"
    and port: "length (tl (dropWhile (\<lambda>c. c \<noteq> CHR '':'') auth)) < TMP_SIZE"
  shows "build_request (''http://'' @ rest) b \<noteq> None"
proof -
  let ?b = "b\<lparr>b_http10 := adjust_version b, b_host := []\<rparr>"
  obtain b' where b': "url_host rest ?b = Some b'" "length (b_host b') < MAXHOSTNAMELEN" "b_method b' = b_method b"
    using url_host_defined [OF rest auth host port, of ?b] by auto
  have "length (method_name (b_method b)) \<le> 7" by (cases "b_method b") simp_all
  moreover have "length (request_tail b') < 200"
    using b'(2) by (simp add: request_tail_def MAXHOSTNAMELEN_def)
  moreover have "length (dropWhile (\<lambda>c. c \<noteq> CHR ''/'') rest) \<le> length rest" by (rule length_dropWhile_le)
  ultimately have "length rest \<le> 1493 \<Longrightarrow> length (method_name (b_method b') @ '' '' @ dropWhile (\<lambda>c. c \<noteq> CHR ''/'') rest @ request_tail b') < REQUEST_SIZE"
    using b'(3) by (simp add: REQUEST_SIZE_def)
  then show ?thesis
    using build_http_result [OF b _ _ b'(1) refl] build_http_exit [OF b, of rest] by (cases "length rest \<le> 1493 \<and> CHR ''/'' \<in> set rest") auto
qed

text \<open>A server that closes the connection without an answer ends the generator: \<open>testok\<close> writes through null.\<close>

theorem empty_answer_crashes: "httprequest_commit req (Sent (int (length req)) [Some []] # rs) c = None"
  by (simp add: no_answer)

text \<open>Every round is counted once, as a success or as a failure; there are no more rounds than requests.\<close>

theorem rounds_counted:
  "httprequest_commit req rs c = Some c' \<Longrightarrow> speed c' + failed c' = speed c + failed c + length rs"
proof (induction rs arbitrary: c)
  case (Cons r rs)
  then obtain c1 where c1: "one_request req r c = Some c1" "httprequest_commit req rs c1 = Some c'"
    by (auto split: Option.bind_splits)
  have "speed c1 + failed c1 = speed c + failed c + 1"
    using c1(1) by (auto simp: one_request_def split: bround.splits if_splits Option.bind_splits prod.splits)
  then show ?case using Cons.IH [OF c1(2)] by simp
qed simp

theorem rounds_bounded: "bench_rounds clients nreqs sockets \<le> (if nreqs < 1000 then 1000 else nreqs)"
proof -
  obtain c n s where b: "bench_numbers clients nreqs sockets = (c, n, s)" by (cases "bench_numbers clients nreqs sockets")
  have n: "n = (if nreqs < 1000 then 1000 else nreqs)" using b by (auto simp: bench_numbers_def Let_def)
  have "c * (s div c * (n div s)) = c * (s div c) * (n div s)" by simp
  also have "\<dots> \<le> s * (n div s)" by (intro mult_le_mono1) (metis div_times_less_eq_dividend mult.commute)
  also have "\<dots> \<le> n" by (metis div_times_less_eq_dividend mult.commute)
  finally show ?thesis using b n by (simp add: bench_rounds_def)
qed

end
