(* ===== verification/NS_Echo.thy ===== *)
theory NS_Echo
  imports NTY_Socket_Props
begin

text \<open>
  The echo servers of the samples: the reader of nty_server.c, on \<open>nty_recv\<close> and \<open>nty_send\<close>, and of
  hook_tcpserver.c, on the hooks.  The two differ in the layer of the calls only, so the reader takes them
  as arguments; what it relies on are the contracts \<open>receiver\<close> and \<open>sender\<close>.
\<close>

section \<open>The reader\<close>

abbreviation NUL :: char where "NUL \<equiv> CHR 0x00"

definition ECHO_BUFFER :: nat where "ECHO_BUFFER = 1024"

text \<open>\<open>strlen\<close> of the cleared buffer with what was received; it is undefined when nothing ends the text.\<close>

definition echo_text :: "char list \<Rightarrow> char list option" where
  "echo_text bytes =
     (if NUL \<in> set bytes \<or> length bytes < ECHO_BUFFER then Some (takeWhile (\<lambda>c. c \<noteq> NUL) bytes) else None)"




section \<open>What is heard\<close>











text \<open>A receive hears one answer of the kernel, and its result is that answer.\<close>

fun heard_as :: "nat + char list \<Rightarrow> int \<times> char list" where
  "heard_as (Inl e) = (-1, [])"
| "heard_as (Inr msg) = (int (length msg), msg)"





section \<open>Echoing through any layer\<close>



text \<open>The texts among the answers of recv, one behind the other.\<close>

definition texts :: "(nat + char list) list \<Rightarrow> char list" where
  "texts answers = concat (map (\<lambda>a. snd (heard_as a)) answers)"

lemma texts_simps [simp]: "texts [] = []" "texts (a # as) = snd (heard_as a) @ texts as"
  by (simp_all add: texts_def)






section \<open>Properties\<close>




text \<open>A text that fills the buffer has no end in it; a zero byte in a text hides what follows.\<close>

theorem echo_full_buffer:
  assumes "length bytes = ECHO_BUFFER" "NUL \<notin> set bytes"
  shows "echo_text bytes = None" "echo_text (txt @ NUL # more_text) = echo_text (txt @ [NUL])"
proof -
  show "echo_text bytes = None" using assms by (simp add: echo_text_def)
  show "echo_text (txt @ NUL # more_text) = echo_text (txt @ [NUL])"
    by (auto simp: echo_text_def takeWhile_append)
qed

end
