(* ===== verification/Spec2Isabelle.thy ===== *)
theory Spec2Isabelle
  imports KV_RBTree_Props TP_Create KV_Coroutine KV_Testcase NTY_Run NTY_Splay NTY_Lists WS_Handshake RX_Reactor HE_Epoll MC_Server NB_Bench NS_Echo
begin

text \<open>
  A verification library for the C programs of the repository.

  \<^bold>\<open>The programs.\<close>  The centre is the key-value store of Chapter9/9.1.1 (the directory of kvstore.c):
  a server that reads text requests from sockets, splits them into words, and executes fifteen
  commands (SET, GET, DEL, COUNT and EXIST, each with a prefix for the engine) on three storage engines, an
  array, a red-black tree and a hash table.  It can be built on one of two network fronts, a reactor
  over epoll (epoll_entry.c) or coroutines (ntyco_entry.c); the latter runs on the library in
  Ntyco/core, which has a scheduler, hooks for the socket calls, and macros for trees and queues.
  The other programs are the thread pool of Chapter3/3.1.1, the small HTTP reactor and the epoll
  server of Chapter2, and programs in Ntyco/sample: a websocket server, an HTTP server for files, web servers over
  several processes, and a load generator.

  \<^bold>\<open>How the model speaks of C.\<close>  An operation is a function into an option type; \<open>None\<close> is undefined
  behaviour (a wild or freed pointer, an index out of bounds, an overflow of a signed integer), a
  failed assertion, or a loop that does not end.  So every theorem that says \<open>\<exists>s'. f s = Some s'\<close>
  says also that the code returns and does nothing undefined.  Loops whose end is not evident are
  \<^theory_text>\<open>partial_function (option)\<close>; there is no fuel in the models of loops.  A number that bounds a
  definition is either a bound of a reader's or server's life (\<open>coroutine_reader\<close> for \<open>n\<close> turns,
  \<open>server_turns\<close>, \<open>handle_events\<close>, \<open>nty_schedule_run\<close> for a list of turns or events: these loops run
  for ever in the code, and the theorems hold for every bound), or the length of a traversal
  (\<open>TAILQ_FOREACH\<close>, whose theorem uses the length of the queue), or the budget of \<open>search_budget\<close>,
  which counts the iterations of \<open>rbtree_search\<close> and is compared with it.
  Machine integers are words where the code relies on their width (deadlines, status bits, event masks, the
  fields of a frame, the shared counters) and int with the conversion written out elsewhere.
  What the outside does is an argument: outcomes of malloc, what accept, recv and send
  answer, readings of the clock, what a coroutine does until it yields, which thread moves.

  \<^bold>\<open>The theories and what they model.\<close>

  \<^item> C_Memory: the heap of typed cells, malloc, free, strings; the lemmas and rule collections that
    the engines share.
  \<^item> KV_Engine: the wrappers of kvstore.c as the record \<open>engine\<close>, the five handlers of a command, the
    abstract store with its replies, and the locale \<open>kv_engine\<close>: what the protocol relies on in an engine.
  \<^item> KV_Array (kvstore_array.c), KV_Hash (kvstore_hash.c), KV_RBTree (kvstore_rbtree.c): the engines,
    every function at the level of its pointers, with failing allocations.  Each one interprets
    \<open>kv_engine\<close> (as \<open>ae\<close>, \<open>he\<close>, \<open>re\<close>).  The red-black tree has theories of its own: RB_Zipper (the abstract
    tree with the fix-up loops on zippers), KV_RBTree_Shape, KV_RBTree_Insert and KV_RBTree_Delete (the
    pointer code refines them), KV_RBTree_Store (the map), KV_RBTree_Props (the theorems).
  \<^item> KV_Protocol and KV_Request (kvstore.c): tokeniser, command table, dispatch, requests; start and stop of the
    engines.
  \<^item> KV_Epoll and KV_Epoll_Session (epoll_entry.c): the connection table, the callbacks, the dispatch of events.
  \<^item> KV_Ntyco and KV_Coroutine (ntyco_entry.c): the reader of a client, first over given answers of recv and send,
    then over the hooks of the coroutine library; the coroutine that accepts.
  \<^item> KV_Testcase (testcase.c): the test client and its three suites, run against the models of the two fronts.
  \<^item> NTY_Tree and NTY_Splay (nty_tree.h), NTY_Queue (TAILQ of nty_queue.h) and NTY_Lists (its SLIST, STAILQ and
    LIST): the macros.  NTY_Lists states what the four families share as the locale \<open>head_list\<close> and interprets it on each.  NTY_Tree states what the scheduler
    relies on as the locale \<open>node_tree\<close> and interprets it on the macros (as \<open>rbn\<close>).
  \<^item> NTY_Sched, NTY_Sched_Props, NTY_Run (nty_schedule.c, nty_coroutine.c): sleeping and waiting tree, ready queue, creation,
    resumption, and the main loop.
  \<^item> NTY_Socket and NTY_Socket_Props (nty_socket.c): waiting for descriptors, the nty_ functions and the hooks; the
    locales \<open>receiver\<close> and \<open>sender\<close> are interpreted on the system call (\<open>sys\<close>) and on the hook above it (\<open>hook\<close>), because the nty_ functions
    call hooks that do the same themselves.
  \<^item> TP_Queue, TP_Pool, TP_Props, TP_Create (thread_pool.c): the queue in its heap, with the locale \<open>fifo\<close> interpreted
    on it (\<open>tqi\<close>); workers and clients as interleaved program counters; creation with its rollback.
  \<^item> WS_Codec and WS_Handshake (nty_websocket_server.c), RX_Reactor (c-reactor/reactor.c and select-poll-epoll/server.c),
    HT_Http (nty_http_server.c), HD_Httpd (ntyco_httpd.c) and HE_Epoll (nty_http_epoll.c), which share their counters,
    MC_Server (nty_server_mulcore.c and the lock of nty_http_server_mulcore.c), NB_Bench (nty_bench.c), NS_Echo (nty_server.c and
    hook_tcpserver.c: one reader over the locale \<open>echo_layer\<close>, interpreted on the nty_ functions and on the hooks).
  \<^item> C_Decimal and C_Sums: decimal numbers, and sums over processes, for the theories that need them.

  \<^bold>\<open>What is shown.\<close>

  \<^item> Refinement of the abstract stores, from the engines up to the wire: sessions on each engine (KV_Array,
    KV_Hash, KV_RBTree_Props), one request (KV_Request), the reactor with any number of clients in any interleaving
    (KV_Epoll_Session), the reader on coroutines over given answers (KV_Ntyco) and over the scheduler
    and the socket hooks (KV_Coroutine).
  \<^item> What the repository's own test suites find when they are run against these models (KV_Testcase).
  \<^item> The red-black tree: its invariants are part of the representation, so the session theorem has them; the
    search is logarithmic, the traversal is sorted.  The macros of nty_tree.h refine a finite set, red-black
    and splay alike, and answer alike (NTY_Splay).
  \<^item> The tail queues implement lists (NTY_Queue), the other list macros agree with them (NTY_Lists), which is why the ready queue of NTY_Sched is a list.
  \<^item> The scheduler: creation keeps it well formed, going to sleep ends, timers expire in order, a round over the
    ready queue is fair (NTY_Sched_Props), every turn of the main loop ends and keeps it well formed under a
    contract for the coroutines, while timers expire and peers close (NTY_Run).
  \<^item> The thread pool: jobs run once and in order and no schedule is undefined (TP_Props); what creation holds when it
    returns, and when its rollback does not return because it joins threads that cannot leave (TP_Create).
  \<^item> Programs over several processes: mutual exclusion and exact counters under every interleaving of the processes and of the
    turns of their clients (HD_Httpd), a counter whose exchange is wider than itself (MC_Server), the protocol of the calls on each client, and a counter
    that drifts (HE_Epoll).
  \<^item> The echo servers answer what they have heard, turn by turn (NS_Echo); the histories \<open>io_heard\<close> and \<open>io_wire\<close> of NTY_Socket say what the
    kernel has handed out and taken.
  \<^item> The load generator run against the HTTP server (NB_Bench).
  \<^item> Codecs and parsers: words of a request, poll events, websocket frames, the websocket handshake, lines and
    request lines of HTTP with their buffers.
  \<^item> Errors: theorems that show where the code loses memory, timers, wake-ups or data.  The findings in the
    manifest name them; where a finding names no theorem of the manifest, a lemma in brackets proves it.

  \<^bold>\<open>Bounds of the model.\<close>  The three engines have heaps of their own, although the program has one: none of
  them touches a block it did not allocate.  A cell of the tree engine is a node
  whatever its size; \<open>rbtree_create_sized\<close> makes the one-byte sentinel explicit, so that \<open>rbtree_create\<close> itself, and with it
  \<open>init_kvengine\<close>, is undefined; the theorems about the tree and the server hold for every well-formed tree, such as the one that
  room for a node in the sentinel gives.  What \<open>malloc\<close> hands out to \<open>create_hashtable\<close>, which does not clear it, is an argument.
  A chain of parent pointers
  in nty_tree.h is the list of frames of a zipper; a node is its element and the order is the comparison
  function, so that \<open>RB_REMOVE\<close>, whose argument in C is a pointer to the node, finds it by its key and asks for the very element.  A coroutine is a handle, and switching to it is the parameter \<open>sw\<close> of the scheduler or the
  waiter \<open>yl\<close> of the socket calls, under the contracts \<open>cooperative\<close> and \<open>yields_ok\<close>.
  The contract \<open>cooperative\<close> has limits: how many coroutines live, how often a body reads the clock until it yields, how far the
  clock moves while all of them do so (\<open>lim_gap\<close>), and that a timer is set for longer than that; otherwise the loop over the expired timers
  need not end.  The last reading of the clock (\<open>lim_last\<close>) keeps the deadlines inside 64 bits.  A client in
  KV_Epoll_Session sends requests that end in a zero byte and waits for its reply; what happens without the zero
  byte is in KV_Epoll, where a round takes the rest of the receive buffer into account, and in KV_Testcase.  The kernel of
  KV_Coroutine accepts what it is given; short sends are in NTY_Socket_Props.
  In HT_Http a recv with nothing to take waits unless the client has closed its side (\<open>h_eof\<close>); a request that waits for ever is the
  value \<open>Waits\<close>.  \<open>isspace\<close> of a negative char, which the standard leaves undefined, is false, as glibc defines it.  In HD_Httpd and MC_Server
  the exchange is eight bytes wide, as the instruction is; the counters of clients and pages, and those of \<open>recv_buffer\<close> in NB_Bench, are
  unbounded, and there the pieces that recv gives are of any length.  \<open>server_loop\<close> of HE_Epoll follows one process and assumes
  that the others leave the counter of its core alone.

  \<^bold>\<open>Not modelled.\<close>  Printing and the measuring of time; opening, binding and configuring sockets, except where a result
  decides what the program does; the switch of contexts, the stacks of coroutines and their copies; the library's init_hook,
  which looks up symbols; the traversals of nty_queue.h with a saved successor or a pointer to the cell before; the test programs client.c and test_thread_pool.c, exercises of a few
  library calls (setjmp.c, ucontext.c, hook.c, homework.c, ustack.c), and the samples nty_client.c and those that call
  database libraries; CGI, which nty_http_server.c disables; the request handling of nty_http_server_mulcore.c, a
  copy of that of nty_http_server.c; SHA1 and the base64 filter of OpenSSL in
  the websocket handshake, which are parameters (\<open>base64_encode\<close> around the filter is modelled); the variants of the epoll server that are disabled in its source.
\<close>

end
